(* ===== verification/Boot_Prelude.thy ===== *)
theory Boot_Prelude
  imports Main "HOL-Library.Word" "HOL-Library.Multiset"
begin

unbundle bit_operations_syntax

text \<open>
  Shared vocabulary of the development: the C integer types, the faults a C
  statement can end in, sequencing of statements that may fault, checked array
  accesses, loops (\<open>while\<close> with fuel, counted \<open>for\<close>) with their proof rules,
  and the list and word lemmas the components share.
\<close>

section \<open>Integer types\<close>

type_synonym u8 = "8 word"
type_synonym u16 = "16 word"
type_synonym u32 = "32 word"
type_synonym u64 = "64 word"

section \<open>Faults and sequencing\<close>

text \<open>
  A C statement ends normally or in one of these faults. \<open>Panic\<close> is a failed
  \<open>assert\<close>; \<open>OutOfBounds\<close> an access outside the object it is made through;
  \<open>PageFault\<close> an access to an unmapped virtual address; \<open>OutOfFuel\<close> a loop that
  has not ended within the bound given to it.
\<close>

datatype fault = Panic | OutOfBounds | PageFault u32 | DivByZero | NullDeref | OutOfFuel

type_synonym 'a res = "fault + 'a"

definition bindR :: "'a res \<Rightarrow> ('a \<Rightarrow> 'b res) \<Rightarrow> 'b res" where
  "bindR m f = (case m of Inl e \<Rightarrow> Inl e | Inr x \<Rightarrow> f x)"

definition assertR :: "bool \<Rightarrow> unit res" where
  "assertR b = (if b then Inr () else Inl Panic)"

lemma bindR_Inl [simp]: "bindR (Inl e) f = Inl e"
  by (simp add: bindR_def)

lemma bindR_Inr [simp]: "bindR (Inr x) f = f x"
  by (simp add: bindR_def)

lemma bindR_eq_Inr: "bindR m f = Inr y \<longleftrightarrow> (\<exists>x. m = Inr x \<and> f x = Inr y)"
  by (cases m) auto

lemma bindR_InrE:
  assumes "bindR m f = Inr y"
  obtains x where "m = Inr x" and "f x = Inr y"
  using assms by (auto simp: bindR_eq_Inr)

lemma bindR_assoc: "bindR (bindR m f) g = bindR m (\<lambda>x. bindR (f x) g)"
  by (cases m) auto

lemma bindR_cong [fundef_cong]:
  "m = m' \<Longrightarrow> (\<And>x. m' = Inr x \<Longrightarrow> f x = f' x) \<Longrightarrow> bindR m f = bindR m' f'"
  by (cases m') auto

lemma assertR_True [simp]: "assertR True = Inr ()"
  by (simp add: assertR_def)

lemma assertR_False [simp]: "assertR False = Inl Panic"
  by (simp add: assertR_def)

lemma assertR_eq_Inr [simp]: "assertR b = Inr u \<longleftrightarrow> b"
  by (simp add: assertR_def)

section \<open>Arrays\<close>

definition getR :: "'a list \<Rightarrow> nat \<Rightarrow> 'a res" where
  "getR xs i = (if i < length xs then Inr (xs ! i) else Inl OutOfBounds)"

definition setR :: "'a list \<Rightarrow> nat \<Rightarrow> 'a \<Rightarrow> 'a list res" where
  "setR xs i v = (if i < length xs then Inr (xs[i := v]) else Inl OutOfBounds)"

lemma getR_in [simp]: "i < length xs \<Longrightarrow> getR xs i = Inr (xs ! i)"
  by (simp add: getR_def)

lemma getR_out [simp]: "\<not> i < length xs \<Longrightarrow> getR xs i = Inl OutOfBounds"
  by (simp add: getR_def)

lemma setR_in [simp]: "i < length xs \<Longrightarrow> setR xs i v = Inr (xs[i := v])"
  by (simp add: setR_def)

lemma setR_out [simp]: "\<not> i < length xs \<Longrightarrow> setR xs i v = Inl OutOfBounds"
  by (simp add: setR_def)

lemma getR_eq_Inr: "getR xs i = Inr v \<longleftrightarrow> i < length xs \<and> v = xs ! i"
  by (auto simp: getR_def)

lemma setR_eq_Inr: "setR xs i v = Inr ys \<longleftrightarrow> i < length xs \<and> ys = xs[i := v]"
  by (auto simp: setR_def)

section \<open>Loops\<close>

text \<open>
  \<open>whileR n b c s\<close> is \<open>while (b) c\<close> from state \<open>s\<close>, allowed to evaluate its guard
  \<open>n\<close> times. \<open>whileR_total\<close> is the total-correctness rule: an invariant, a measure
  below the fuel that the body decreases, and no fault under the invariant.
\<close>

fun whileR :: "nat \<Rightarrow> ('s \<Rightarrow> bool res) \<Rightarrow> ('s \<Rightarrow> 's res) \<Rightarrow> 's \<Rightarrow> 's res" where
  "whileR 0 b c s = Inl OutOfFuel"
| "whileR (Suc n) b c s =
     bindR (b s) (\<lambda>t. if t then bindR (c s) (whileR n b c) else Inr s)"

lemma whileR_total:
  assumes "I s" and "m s < n"
    and guard: "\<And>s. I s \<Longrightarrow> \<exists>t. b s = Inr t"
    and body: "\<And>s. I s \<Longrightarrow> b s = Inr True \<Longrightarrow> \<exists>s'. c s = Inr s' \<and> I s' \<and> m s' < (m s :: nat)"
  shows "\<exists>t. whileR n b c s = Inr t \<and> I t \<and> b t = Inr False"
  using assms(1,2)
proof (induction n arbitrary: s)
  case 0
  then show ?case by simp
next
  case (Suc n)
  obtain t where t: "b s = Inr t" using guard Suc.prems by blast
  show ?case
  proof (cases t)
    case True
    with t body [of s] Suc.prems obtain s' where s': "c s = Inr s'" "I s'" "m s' < m s" by auto
    then have "m s' < n" using Suc.prems by simp
    with Suc.IH [of s'] s' t True show ?thesis by simp
  next
    case False
    with t Suc.prems show ?thesis by auto
  qed
qed

text \<open>What the body keeps, a loop that returns has kept.\<close>

lemma whileR_keeps:
  assumes "whileR n b c s = Inr t" "I s" and "\<And>s s'. I s \<Longrightarrow> c s = Inr s' \<Longrightarrow> I s'"
  shows "I t"
  using assms(1,2)
proof (induction n arbitrary: s)
  case (Suc n)
  then show ?case using assms(3) by (auto elim!: bindR_InrE split: if_splits)
qed simp

text \<open>A counted loop over the values its index takes, in order.\<close>

fun forR :: "('i \<Rightarrow> 's \<Rightarrow> 's res) \<Rightarrow> 'i list \<Rightarrow> 's \<Rightarrow> 's res" where
  "forR f [] s = Inr s"
| "forR f (i # is) s = bindR (f i s) (forR f is)"

lemma forR_append: "forR f (is @ js) s = bindR (forR f is s) (forR f js)"
proof (induction "is" arbitrary: s)
  case (Cons a as)
  then have "(\<lambda>t. forR f (as @ js) t) = (\<lambda>t. bindR (forR f as t) (forR f js))" by blast
  then show ?case by (simp add: bindR_assoc)
qed simp

lemma forR_upt_total:
  assumes "I a s" and "a \<le> b"
    and "\<And>i s. a \<le> i \<Longrightarrow> i < b \<Longrightarrow> I i s \<Longrightarrow> \<exists>s'. f i s = Inr s' \<and> I (Suc i) s'"
  shows "\<exists>s'. forR f [a..<b] s = Inr s' \<and> I b s'"
  using assms(2,3)
proof (induction b rule: dec_induct)
  case base
  then show ?case using assms(1) by simp
next
  case (step n)
  then obtain s1 where "forR f [a..<n] s = Inr s1" "I n s1" by auto
  moreover from step this(2) obtain s2 where "f n s1 = Inr s2" "I (Suc n) s2" by blast
  ultimately show ?case using step.hyps by (simp add: forR_append)
qed

section \<open>Words\<close>

lemma unat_less_of_lt: "x < y \<Longrightarrow> unat x < unat y" for x y :: "'a::len word"
  by (simp add: word_less_nat_alt)

lemma unat_add_nowrap:
  "unat x + unat y < 2 ^ LENGTH('a) \<Longrightarrow> unat (x + y) = unat x + unat y" for x y :: "'a::len word"
  by (simp add: unat_word_ariths)

lemma unat_in_image [simp]: "unat x \<in> unat ` S \<longleftrightarrow> x \<in> S" for x :: "'a::len word"
  by (auto simp flip: word_unat_eq_iff)

lemma unat_ucast_up [simp]:
  assumes "LENGTH('a) \<le> LENGTH('b)"
  shows "unat (ucast (x :: 'a::len word) :: 'b::len word) = unat x"
proof -
  have "unat x < 2 ^ LENGTH('a)" by (rule unsigned_less)
  also have "(2::nat) ^ LENGTH('a) \<le> 2 ^ LENGTH('b)" using assms by simp
  finally show ?thesis by (simp add: unsigned_ucast_eq take_bit_nat_eq_self)
qed

lemma unat_pow2:
  assumes "k < LENGTH('a)"
  shows "unat (2 ^ k :: 'a::len word) = 2 ^ k"
proof -
  have "(2 ^ k :: 'a word) = of_nat (2 ^ k)" by simp
  moreover have "(2::nat) ^ k < 2 ^ LENGTH('a)" using assms by simp
  ultimately show ?thesis by (simp only: unat_of_nat mod_less)
qed

lemma unat_take_bit_pow: "unat (take_bit k x) = unat x mod 2 ^ k" for x :: "'a::len word"
  by (metis unsigned_take_bit_eq take_bit_eq_mod)

lemma and_pow2_mask: "unat (x AND (2 ^ k - 1)) = unat x mod 2 ^ k" for x :: u32
  by (simp add: unat_take_bit_pow flip: mask_eq_exp_minus_1 take_bit_eq_mask)

lemma unat_of_nat32: "n < 4294967296 \<Longrightarrow> unat (of_nat n :: u32) = n"
  by (simp add: unat_of_nat)

lemma sint_small32:
  fixes x :: u32
  assumes "unat x < 2147483648"
  shows "sint x = int (unat x)"
proof -
  have u: "uint x = int (unat x)" by simp
  from assms have "int (unat x) < int 2147483648" by (simp only: of_nat_less_iff)
  then have hi: "uint x < 2 ^ 31" by simp
  have "- (2 ^ 31) \<le> (0 :: int)" by simp
  also have "0 \<le> uint x" by simp
  finally have "signed_take_bit 31 (uint x) = uint x"
    using hi by (rule signed_take_bit_int_eq_self)
  moreover have "LENGTH(32) - Suc 0 = 31" by simp
  ultimately have "sint x = uint x" by (simp only: sint_uint)
  then show ?thesis using u by (rule trans)
qed

end
