(* ===== verification/Pool_Spec.thy ===== *)
theory Pool_Spec
  imports Boot_Prelude
begin

text \<open>
  The contract of a block pool: a stack of free blocks from which clients take
  the top block and to which they push blocks back, and whose bookkeeping lives
  in the free blocks themselves, so that clients may write only to blocks they
  hold. The slab allocator and the physical page allocator both provide it.
  What clients rely on (no block is handed out twice, no block is lost) is
  proved once here, for any sequence of operations.
\<close>

text \<open>
  Steps of a pool together with the list of blocks its clients hold: a client
  takes a block when the pool says that one is available, gives back a block it
  holds, or writes a word of a block it holds.
\<close>

inductive pool_step ::
  "('s \<Rightarrow> bool) \<Rightarrow> ('s \<Rightarrow> ('a \<times> 's) res) \<Rightarrow> ('s \<Rightarrow> 'a \<Rightarrow> 's res) \<Rightarrow>
   ('s \<Rightarrow> 'a \<Rightarrow> nat \<Rightarrow> u32 \<Rightarrow> 's res) \<Rightarrow> ('a \<Rightarrow> nat) \<Rightarrow> 's \<times> 'a list \<Rightarrow> 's \<times> 'a list \<Rightarrow> bool"
  for avail alloc release store room where
  take: "avail s \<Longrightarrow> alloc s = Inr (x, s') \<Longrightarrow>
     pool_step avail alloc release store room (s, held) (s', x # held)"
| give: "x \<in> set held \<Longrightarrow> release s x = Inr s' \<Longrightarrow>
     pool_step avail alloc release store room (s, held) (s', remove1 x held)"
| scribble: "x \<in> set held \<Longrightarrow> i < room x \<Longrightarrow> store s x i v = Inr s' \<Longrightarrow>
     pool_step avail alloc release store room (s, held) (s', held)"

inductive_cases pool_stepE: "pool_step avail alloc release store room (s, held) c"

text \<open>Taking \<open>n\<close> blocks in a row.\<close>

fun alloc_many :: "('s \<Rightarrow> ('a \<times> 's) res) \<Rightarrow> nat \<Rightarrow> 's \<Rightarrow> ('a list \<times> 's) res" where
  "alloc_many alloc 0 s = Inr ([], s)"
| "alloc_many alloc (Suc n) s =
     bindR (alloc s) (\<lambda>(x, s1). bindR (alloc_many alloc n s1) (\<lambda>(xs, s2). Inr (x # xs, s2)))"

locale lifo_pool =
  fixes rep :: "'s \<Rightarrow> 'a list \<Rightarrow> bool"
    and valid :: "'a \<Rightarrow> bool"
    and avail :: "'s \<Rightarrow> bool"
    and alloc :: "'s \<Rightarrow> ('a \<times> 's) res"
    and release :: "'s \<Rightarrow> 'a \<Rightarrow> 's res"
    and store :: "'s \<Rightarrow> 'a \<Rightarrow> nat \<Rightarrow> u32 \<Rightarrow> 's res"
    and room :: "'a \<Rightarrow> nat"
  assumes distinct_rep: "rep s xs \<Longrightarrow> distinct xs"
    and valid_rep: "rep s xs \<Longrightarrow> x \<in> set xs \<Longrightarrow> valid x"
    and avail_rep: "rep s xs \<Longrightarrow> avail s \<longleftrightarrow> xs \<noteq> []"
    and alloc_rep: "rep s (x # xs) \<Longrightarrow> \<exists>s'. alloc s = Inr (x, s') \<and> rep s' xs"
    and release_rep: "rep s xs \<Longrightarrow> valid x \<Longrightarrow> x \<notin> set xs \<Longrightarrow>
      \<exists>s'. release s x = Inr s' \<and> rep s' (x # xs)"
    and store_rep: "rep s xs \<Longrightarrow> valid x \<Longrightarrow> x \<notin> set xs \<Longrightarrow> i < room x \<Longrightarrow>
      \<exists>s'. store s x i v = Inr s' \<and> rep s' xs"
begin

text \<open>The state of the whole system: the pool's free blocks and the held ones.\<close>

definition sound :: "'a multiset \<Rightarrow> 's \<times> 'a list \<Rightarrow> bool" where
  "sound M c \<longleftrightarrow> (\<exists>xs. rep (fst c) xs \<and> mset xs + mset (snd c) = M \<and>
     distinct (xs @ snd c) \<and> list_all valid (snd c))"

lemma soundI:
  "rep s xs \<Longrightarrow> mset xs + mset held = M \<Longrightarrow> distinct (xs @ held) \<Longrightarrow> list_all valid held \<Longrightarrow>
   sound M (s, held)"
  unfolding sound_def by auto

lemma soundE:
  assumes "sound M (s, held)"
  obtains xs where "rep s xs" "mset xs + mset held = M" "distinct (xs @ held)"
    "list_all valid held"
  using assms unfolding sound_def by auto

lemma take_sound:
  assumes "sound M (s, held)" "avail s" "alloc s = Inr (x, s')"
  shows "sound M (s', x # held)"
proof -
  from assms(1) obtain xs where xs: "rep s xs" "mset xs + mset held = M" "distinct (xs @ held)"
      "list_all valid held"
    by (rule soundE)
  with assms(2) obtain y ys where ys: "xs = y # ys"
    by (cases xs) (auto simp: avail_rep)
  with alloc_rep [of s y ys] xs(1) assms(3) have "y = x" "rep s' ys" by auto
  with xs ys show ?thesis
    by (intro soundI [of _ ys]) (auto dest: valid_rep)
qed

lemma give_sound:
  assumes "sound M (s, held)" "x \<in> set held" "release s x = Inr s'"
  shows "sound M (s', remove1 x held)"
proof -
  from assms(1) obtain xs where xs: "rep s xs" "mset xs + mset held = M" "distinct (xs @ held)"
      "list_all valid held"
    by (rule soundE)
  with assms(2) have "valid x" "x \<notin> set xs" by (auto simp: list_all_iff)
  with release_rep [of s xs x] xs(1) assms(3) have "rep s' (x # xs)" by auto
  moreover have "mset (x # xs) + mset (remove1 x held) = M"
    using xs(2) assms(2) by auto
  ultimately show ?thesis using xs \<open>x \<notin> set xs\<close>
    by (intro soundI [of _ "x # xs"]) (auto simp: list_all_iff dest: notin_set_remove1)
qed

lemma write_sound:
  assumes "sound M (s, held)" "x \<in> set held" "i < room x" "store s x i v = Inr s'"
  shows "sound M (s', held)"
proof -
  from assms(1) obtain xs where xs: "rep s xs" "mset xs + mset held = M" "distinct (xs @ held)"
      "list_all valid held"
    by (rule soundE)
  with assms(2) have "valid x" "x \<notin> set xs" by (auto simp: list_all_iff)
  with store_rep [of s xs x i v] xs(1) assms(3,4) have "rep s' xs" by auto
  with xs show ?thesis by (intro soundI [of _ xs])
qed

lemma step_sound:
  assumes "pool_step avail alloc release store room c c'" "sound M c"
  shows "sound M c'"
  using assms
  by (cases c) (auto elim!: pool_stepE intro: take_sound give_sound write_sound)

lemma steps_sound:
  assumes "(pool_step avail alloc release store room)\<^sup>*\<^sup>* c c'" "sound M c"
  shows "sound M c'"
  using assms by (induction rule: rtranclp_induct) (auto intro: step_sound)

lemma steps_conserve:
  assumes "rep s xs"
    and "(pool_step avail alloc release store room)\<^sup>*\<^sup>* (s, []) (t, held)"
  shows "\<exists>ys. rep t ys \<and> mset ys + mset held = mset xs \<and> distinct (ys @ held)"
proof -
  have "sound (mset xs) (s, [])"
    using assms(1) by (intro soundI [of _ xs]) (auto dest: distinct_rep)
  with assms(2) have "sound (mset xs) (t, held)" by (rule steps_sound)
  then show ?thesis by (rule soundE) blast
qed

lemma many_rep:
  "rep s xs \<Longrightarrow> n \<le> length xs \<Longrightarrow>
   \<exists>s'. alloc_many alloc n s = Inr (take n xs, s') \<and> rep s' (drop n xs)"
proof (induction n arbitrary: s xs)
  case 0
  then show ?case by simp
next
  case (Suc n)
  then obtain x ys where "xs = x # ys" by (cases xs) auto
  with Suc.prems alloc_rep [of s x ys] obtain s1 where "alloc s = Inr (x, s1)" "rep s1 ys" by auto
  moreover from this Suc.IH [of s1 ys] Suc.prems \<open>xs = x # ys\<close> obtain s2 where
    "alloc_many alloc n s1 = Inr (take n ys, s2)" "rep s2 (drop n ys)" by auto
  ultimately show ?case using \<open>xs = x # ys\<close> by simp
qed

lemma alloc_release_rep:
  assumes "rep s (x # xs)"
  shows "\<exists>s' s''. alloc s = Inr (x, s') \<and> release s' x = Inr s'' \<and> rep s'' (x # xs)"
proof -
  from assms alloc_rep obtain s' where s': "alloc s = Inr (x, s')" "rep s' xs" by blast
  moreover have "valid x" "x \<notin> set xs"
    using assms distinct_rep [OF assms] by (auto dest: valid_rep)
  ultimately show ?thesis using release_rep by blast
qed

end

end
