(* ===== verification/Slab.thy ===== *)
theory Slab
  imports Pool_Spec
begin

text \<open>
  The slab allocator of stage 3 (\<open>stage3/mem/slab.cpp\<close>, \<open>stage3/include/mem/slab.h\<close>):
  one page that holds a free list of equally sized blocks, each free block's
  first word being the offset of the next free block.
\<close>

section \<open>Model\<close>

text \<open>
  A block is named by the offset of its first word in \<open>data\<close>; the C functions
  return and take the address of that word.
\<close>

record slab_page =
  sp_free :: u16
  sp_size :: u16
  sp_first_free :: u32
  sp_data :: "u32 list"

definition SLAB_SENTINEL :: u32 where
  "SLAB_SENTINEL = 0xFFFFFFFF"

definition PAGE_SIZE :: u32 where
  "PAGE_SIZE = 4096"

definition SLABP_SIZE :: u32 where
  "SLABP_SIZE = PAGE_SIZE div 4 - 2"

definition slabp_full :: "slab_page \<Rightarrow> bool" where
  "slabp_full slb \<longleftrightarrow> sp_first_free slb = SLAB_SENTINEL"

text \<open>\<open>slb->data[i] = v\<close>.\<close>

definition slab_data_set :: "slab_page \<Rightarrow> u32 \<Rightarrow> u32 \<Rightarrow> slab_page res" where
  "slab_data_set slb i v =
     bindR (setR (sp_data slb) (unat i) v) (\<lambda>d. Inr (slb\<lparr>sp_data := d\<rparr>))"

text \<open>The body and the increment of the loop of \<open>slabp_init\<close>.\<close>

definition slabp_init_step :: "u16 \<Rightarrow> slab_page \<Rightarrow> slab_page res" where
  "slabp_init_step sz slb =
     bindR (slab_data_set slb (sp_first_free slb) (sp_first_free slb + ucast sz))
       (\<lambda>slb. Inr (slb\<lparr>sp_first_free := sp_first_free slb + ucast sz, sp_free := sp_free slb + 1\<rparr>))"

definition slabp_init :: "slab_page \<Rightarrow> u16 \<Rightarrow> slab_page res" where
  "slabp_init slb sz =
     bindR (assertR (sz \<ge> 1 \<and> (ucast sz :: u32) \<le> SLABP_SIZE)) (\<lambda>_.
     bindR (whileR 1023 (\<lambda>slb. Inr (sp_first_free slb + ucast sz < SLABP_SIZE)) (slabp_init_step sz)
              (slb\<lparr>sp_size := sz, sp_first_free := 0, sp_free := 0\<rparr>)) (\<lambda>slb.
     bindR (slab_data_set slb (sp_first_free slb) SLAB_SENTINEL) (\<lambda>slb.
     Inr (slb\<lparr>sp_first_free := 0\<rparr>))))"

definition slabp_alloc :: "slab_page \<Rightarrow> (u32 \<times> slab_page) res" where
  "slabp_alloc slb =
     (let offset = sp_first_free slb in
      bindR (getR (sp_data slb) (unat offset)) (\<lambda>nxt.
      Inr (offset, slb\<lparr>sp_first_free := nxt\<rparr>)))"

definition slabp_free :: "slab_page \<Rightarrow> u32 \<Rightarrow> slab_page res" where
  "slabp_free slb offset =
     bindR (assertR (offset \<ge> 0 \<and> offset < SLABP_SIZE)) (\<lambda>_.
     bindR (slab_data_set slb offset (sp_first_free slb)) (\<lambda>slb.
     Inr (slb\<lparr>sp_first_free := offset\<rparr>)))"

text \<open>A client writes word \<open>i\<close> of the block at \<open>offset\<close>.\<close>

definition block_store :: "slab_page \<Rightarrow> u32 \<Rightarrow> nat \<Rightarrow> u32 \<Rightarrow> slab_page res" where
  "block_store slb offset i v =
     bindR (setR (sp_data slb) (unat offset + i) v) (\<lambda>d. Inr (slb\<lparr>sp_data := d\<rparr>))"

section \<open>The free list\<close>

text \<open>
  \<open>free_chain d ff xs\<close>: following the links of \<open>d\<close> from \<open>ff\<close> visits the blocks
  \<open>xs\<close> and then meets the sentinel.
\<close>

fun free_chain :: "u32 list \<Rightarrow> u32 \<Rightarrow> u32 list \<Rightarrow> bool" where
  "free_chain d ff [] \<longleftrightarrow> ff = SLAB_SENTINEL"
| "free_chain d ff (x # xs) \<longleftrightarrow> ff = x \<and> unat x < length d \<and> free_chain d (d ! unat x) xs"

text \<open>The blocks a page is cut into, and the words of the page that a block may use.\<close>

definition is_block :: "u16 \<Rightarrow> u32 \<Rightarrow> bool" where
  "is_block sz x \<longleftrightarrow> unat x < 1022 \<and> unat sz dvd unat x"

definition block_words :: "u16 \<Rightarrow> u32 \<Rightarrow> nat" where
  "block_words sz x = min (unat sz) (1022 - unat x)"

definition slab_rep :: "u16 \<Rightarrow> slab_page \<Rightarrow> u32 list \<Rightarrow> bool" where
  "slab_rep sz slb xs \<longleftrightarrow> length (sp_data slb) = 1022 \<and> sp_size slb = sz \<and>
     free_chain (sp_data slb) (sp_first_free slb) xs \<and> distinct xs \<and> list_all (is_block sz) xs"

lemma SLABP_SIZE_eq [simp]: "SLABP_SIZE = 1022"
  by (simp add: SLABP_SIZE_def PAGE_SIZE_def)

lemma SLAB_SENTINEL_neq: "unat x < 1022 \<Longrightarrow> x \<noteq> SLAB_SENTINEL"
  by (auto simp: SLAB_SENTINEL_def)

lemma free_chain_update:
  "free_chain d ff xs \<Longrightarrow> i \<notin> unat ` set xs \<Longrightarrow> free_chain (d[i := v]) ff xs"
  by (induction xs arbitrary: ff) auto

lemma blocks_disjoint:
  assumes "is_block sz x" "is_block sz y" "x \<noteq> y" "i < block_words sz x"
  shows "unat x + i \<noteq> unat y"
proof
  assume *: "unat x + i = unat y"
  with assms have "unat sz dvd i"
    by (metis dvd_add_right_iff is_block_def)
  moreover have "i < unat sz" using assms by (simp add: block_words_def)
  ultimately have "i = 0" by (auto dest: nat_dvd_not_less)
  with * assms(3) show False by (simp add: word_unat_eq_iff)
qed

lemma block_ranges_disjoint:
  assumes "is_block sz x" "is_block sz y" "x \<noteq> y"
  shows "{unat x..<unat x + block_words sz x} \<inter> {unat y..<unat y + block_words sz y} = {}"
proof -
  have apart: "\<not> (unat x \<le> unat y \<and> unat y < unat x + block_words sz x)"
    if "is_block sz x" "is_block sz y" "x \<noteq> y" for x y
  proof
    assume *: "unat x \<le> unat y \<and> unat y < unat x + block_words sz x"
    then have "unat y - unat x < block_words sz x" by linarith
    from blocks_disjoint [OF that this] * show False by simp
  qed
  from apart [OF assms] apart [OF assms(2,1)] assms(3) show ?thesis by fastforce
qed

lemma slab_repD:
  assumes "slab_rep sz slb xs"
  shows "length (sp_data slb) = 1022" "free_chain (sp_data slb) (sp_first_free slb) xs"
    "distinct xs" "x \<in> set xs \<Longrightarrow> is_block sz x"
  using assms by (auto simp: slab_rep_def list_all_iff)

lemma slab_rep_full: "slab_rep sz slb xs \<Longrightarrow> slabp_full slb \<longleftrightarrow> xs = []"
  by (cases xs) (auto simp: slab_rep_def slabp_full_def SLAB_SENTINEL_neq)

lemma slab_rep_alloc:
  assumes "slab_rep sz slb (x # xs)"
  shows "\<exists>slb'. slabp_alloc slb = Inr (x, slb') \<and> slab_rep sz slb' xs"
  using assms by (auto simp: slabp_alloc_def slab_rep_def)

lemma slab_rep_free:
  assumes "slab_rep sz slb xs" "is_block sz x" "x \<notin> set xs"
  shows "\<exists>slb'. slabp_free slb x = Inr slb' \<and> slab_rep sz slb' (x # xs)"
proof -
  have x: "unat x < 1022" "x < 1022" using assms(2) by (auto simp: is_block_def word_less_nat_alt)
  then show ?thesis using assms
    by (auto simp: slabp_free_def slab_data_set_def slab_rep_def free_chain_update)
qed

lemma slab_rep_store:
  assumes "slab_rep sz slb xs" "is_block sz x" "x \<notin> set xs" "i < block_words sz x"
  shows "\<exists>slb'. block_store slb x i v = Inr slb' \<and> slab_rep sz slb' xs"
proof -
  have "unat x + i < 1022" using assms(2,4) by (auto simp: is_block_def block_words_def)
  moreover have "unat x + i \<notin> unat ` set xs"
  proof
    assume "unat x + i \<in> unat ` set xs"
    then obtain y where "y \<in> set xs" "unat x + i = unat y" by auto
    with blocks_disjoint [of sz x y i] assms slab_repD(4) [OF assms(1)] show False by auto
  qed
  ultimately show ?thesis using assms
    by (auto simp: block_store_def slab_rep_def intro: free_chain_update)
qed

interpretation slab: lifo_pool "slab_rep sz" "is_block sz" "\<lambda>slb. \<not> slabp_full slb"
    slabp_alloc slabp_free block_store "block_words sz" for sz
  by unfold_locales
    (auto simp: slab_rep_full intro: slab_rep_alloc slab_rep_free slab_rep_store dest: slab_repD)

section \<open>Initialisation\<close>

text \<open>The blocks of a page, in the order the free list holds them after \<open>slabp_init\<close>.\<close>

definition slab_blocks :: "u16 \<Rightarrow> u32 list" where
  "slab_blocks sz = map (\<lambda>k. of_nat (k * unat sz)) [0..<Suc (1021 div unat sz)]"

lemma unat_of_nat_small [simp]: "n < 1022 \<Longrightarrow> unat (of_nat n :: u32) = n"
  by (simp add: unat_of_nat)

lemma chain_of_links:
  assumes "m \<le> k" "k * n < 1022" "length d = 1022"
    and links: "\<And>j. j < k \<Longrightarrow> d ! (j * n) = of_nat (Suc j * n)"
    and last: "d ! (k * n) = SLAB_SENTINEL"
  shows "free_chain d (of_nat (m * n)) (map (\<lambda>j. of_nat (j * n)) [m..<Suc k])"
  using assms(1)
proof (induction m rule: inc_induct)
  case base
  show ?case using assms(2,3) last by (simp del: of_nat_mult)
next
  case (step m)
  from step have "m * n \<le> k * n" by simp
  with assms(2) have "m * n < 1022" by linarith
  moreover have "[m..<Suc k] = m # [Suc m..<Suc k]" using step by (simp add: upt_conv_Cons)
  ultimately show ?case using step assms(3) links [of m] by (simp del: of_nat_mult)
qed

text \<open>What holds each time the loop of \<open>slabp_init\<close> tests its guard, after \<open>k\<close> rounds.\<close>

definition slab_init_inv :: "u16 \<Rightarrow> slab_page \<Rightarrow> bool" where
  "slab_init_inv sz slb \<longleftrightarrow> (let k = unat (sp_free slb); n = unat sz; d = sp_data slb in
     sp_size slb = sz \<and> length d = 1022 \<and> sp_first_free slb = of_nat (k * n) \<and> k * n < 1022 \<and>
     (\<forall>j<k. d ! (j * n) = of_nat (Suc j * n)))"

lemma slab_init_step_inv:
  assumes inv: "slab_init_inv sz slb" and sz: "0 < unat sz"
    and cont: "sp_first_free slb + ucast sz < SLABP_SIZE" and bound: "unat sz \<le> 1022"
  shows "\<exists>slb'. slabp_init_step sz slb = Inr slb' \<and> slab_init_inv sz slb' \<and>
    1022 - unat (sp_free slb') < 1022 - unat (sp_free slb)"
proof -
  define k n where "k = unat (sp_free slb)" and "n = unat sz"
  have kn: "k * n < 1022" and ff: "sp_first_free slb = of_nat (k * n)"
    using inv by (auto simp: slab_init_inv_def Let_def k_def n_def)
  have usz: "(ucast sz :: u32) = of_nat n"
    by (simp add: n_def)
  have next_ff: "sp_first_free slb + ucast sz = of_nat (Suc k * n)"
    by (simp add: ff usz algebra_simps)
  have "Suc k * n < 2 ^ 32" using kn bound by (simp add: n_def)
  then have "unat (of_nat (Suc k * n) :: u32) = Suc k * n"
    by (simp add: unat_of_nat del: mult_Suc of_nat_mult)
  with cont next_ff have lt: "Suc k * n < 1022"
    by (simp add: word_less_nat_alt del: mult_Suc of_nat_mult)
  have "k \<le> k * n" using sz n_def by simp
  then have k: "k < 1022" using kn by (rule le_less_trans)
  then have free: "unat (sp_free slb + 1) = Suc k"
    by (simp add: unat_word_ariths k_def)
  have "k * n \<noteq> j * n" if "j < k" for j using that sz n_def by auto
  then show ?thesis
    using inv kn lt k free next_ff
    by (auto simp: slabp_init_step_def slab_data_set_def slab_init_inv_def Let_def ff less_Suc_eq
          simp flip: k_def n_def simp del: of_nat_mult mult_Suc)
qed

lemma slab_init_rounds:
  assumes "slab_init_inv sz slb" "0 < unat sz" "unat sz \<le> 1022"
    and stop: "\<not> sp_first_free slb + ucast sz < SLABP_SIZE"
  shows "unat (sp_free slb) = 1021 div unat sz"
proof -
  define k n where "k = unat (sp_free slb)" and "n = unat sz"
  have kn: "k * n < 1022" and ff: "sp_first_free slb = of_nat (k * n)"
    using assms(1) by (auto simp: slab_init_inv_def Let_def k_def n_def)
  have "sp_first_free slb + ucast sz = of_nat (k * n + n)"
    by (simp add: ff n_def)
  moreover have "k * n + n < 2 ^ 32" using kn assms(3) by (simp add: n_def)
  ultimately have "1022 \<le> k * n + n"
    using stop by (simp add: word_less_nat_alt unat_of_nat del: of_nat_mult of_nat_add)
  then have "k = 1021 div n" using kn assms(2)
    by (intro div_nat_eqI [symmetric]) (auto simp: n_def algebra_simps)
  then show ?thesis by (simp add: k_def n_def)
qed

lemma slab_init_loop:
  assumes "1 \<le> unat sz" "unat sz \<le> 1022" "length (sp_data slb) = 1022"
  shows "\<exists>slb'. whileR 1023 (\<lambda>slb. Inr (sp_first_free slb + ucast sz < SLABP_SIZE)) (slabp_init_step sz)
       (slb\<lparr>sp_size := sz, sp_first_free := 0, sp_free := 0\<rparr>) = Inr slb' \<and>
     slab_init_inv sz slb' \<and> unat (sp_free slb') = 1021 div unat sz"
proof -
  let ?b = "\<lambda>slb. Inr (sp_first_free slb + ucast sz < SLABP_SIZE) :: bool res"
  let ?s = "slb\<lparr>sp_size := sz, sp_first_free := 0, sp_free := 0\<rparr>"
  have "\<exists>t. whileR 1023 ?b (slabp_init_step sz) ?s = Inr t \<and> slab_init_inv sz t \<and> ?b t = Inr False"
  proof (rule whileR_total [where m = "\<lambda>slb. 1022 - unat (sp_free slb)"])
    show "slab_init_inv sz ?s"
      using assms(3) by (simp add: slab_init_inv_def)
    fix s
    assume "slab_init_inv sz s" "?b s = Inr True"
    then show "\<exists>s'. slabp_init_step sz s = Inr s' \<and> slab_init_inv sz s' \<and>
        1022 - unat (sp_free s') < 1022 - unat (sp_free s)"
      using assms by (intro slab_init_step_inv) auto
  qed auto
  with slab_init_rounds [of sz] assms show ?thesis by fastforce
qed

lemma slab_block_below:
  assumes "k < Suc (1021 div unat sz)"
  shows "k * unat sz < 1022"
proof -
  from assms have "k * unat sz \<le> 1021 div unat sz * unat sz" by simp
  also have "\<dots> \<le> 1021" by (rule div_times_less_eq_dividend)
  finally show ?thesis by simp
qed

lemma slab_blocks_wf:
  assumes "1 \<le> unat sz" "unat sz \<le> 1022"
  shows "distinct (slab_blocks sz)" and "list_all (is_block sz) (slab_blocks sz)"
proof -
  show "distinct (slab_blocks sz)"
    unfolding slab_blocks_def distinct_map
  proof (intro conjI inj_onI)
    fix i j
    assume ij: "i \<in> set [0..<Suc (1021 div unat sz)]" "j \<in> set [0..<Suc (1021 div unat sz)]"
      and eq: "(of_nat (i * unat sz) :: u32) = of_nat (j * unat sz)"
    from ij have "i * unat sz < 1022" "j * unat sz < 1022"
      by (auto intro!: slab_block_below)
    then have "i * unat sz = j * unat sz"
      using arg_cong [OF eq, of unat] by (simp only: unat_of_nat_small)
    then show "i = j" using assms(1) by auto
  qed simp
  show "list_all (is_block sz) (slab_blocks sz)"
    by (auto simp: slab_block_below list_all_iff slab_blocks_def is_block_def simp del: of_nat_mult upt_Suc)
qed

lemma slabp_init_rep:
  assumes "1 \<le> unat sz" "unat sz \<le> 1022" "length (sp_data slb) = 1022"
  shows "\<exists>slb'. slabp_init slb sz = Inr slb' \<and> slab_rep sz slb' (slab_blocks sz) \<and>
     unat (sp_free slb') = 1021 div unat sz"
proof -
  from slab_init_loop [OF assms] obtain t where
    loop: "whileR 1023 (\<lambda>slb. Inr (sp_first_free slb + ucast sz < SLABP_SIZE)) (slabp_init_step sz)
       (slb\<lparr>sp_size := sz, sp_first_free := 0, sp_free := 0\<rparr>) = Inr t"
    and inv: "slab_init_inv sz t" and k: "unat (sp_free t) = 1021 div unat sz"
    by blast
  define k n where "k = 1021 div unat sz" and "n = unat sz"
  let ?d = "(sp_data t)[k * n := SLAB_SENTINEL]"
  have len: "length (sp_data t) = 1022" and ff: "sp_first_free t = of_nat (k * n)"
    and kn: "k * n < 1022" and links: "\<And>j. j < k \<Longrightarrow> sp_data t ! (j * n) = of_nat (Suc j * n)"
    using inv k by (auto simp: slab_init_inv_def Let_def k_def n_def simp del: of_nat_mult mult_Suc)
  have "1 \<le> sz" "(ucast sz :: u32) \<le> SLABP_SIZE"
    using assms by (auto simp: word_le_nat_alt)
  then have run: "slabp_init slb sz = Inr (t\<lparr>sp_data := ?d, sp_first_free := 0\<rparr>)"
    using loop ff kn len by (simp add: slabp_init_def slab_data_set_def del: of_nat_mult)
  have ne: "k * n \<noteq> j * n" if "j < k" for j using that assms(1) n_def by auto
  have "free_chain ?d (of_nat (0 * n)) (map (\<lambda>j. of_nat (j * n)) [0..<Suc k])"
    by (rule chain_of_links) (use kn len links ne in \<open>auto simp del: of_nat_mult mult_Suc\<close>)
  then have "free_chain ?d 0 (slab_blocks sz)"
    by (simp add: slab_blocks_def k_def n_def del: upt_Suc of_nat_mult)
  then show ?thesis
    using run inv len k slab_blocks_wf [of sz] assms
    by (simp add: slab_rep_def slab_init_inv_def Let_def)
qed

lemma length_slab_blocks: "length (slab_blocks sz) = Suc (1021 div unat sz)"
  by (simp add: slab_blocks_def)

section \<open>Properties\<close>

definition slab_page_0 :: slab_page where
  "slab_page_0 = \<lparr>sp_free = 0, sp_size = 0, sp_first_free = 0, sp_data = replicate 1022 0\<rparr>"

abbreviation slab_step :: "u16 \<Rightarrow> slab_page \<times> u32 list \<Rightarrow> slab_page \<times> u32 list \<Rightarrow> bool" where
  "slab_step sz \<equiv> pool_step (\<lambda>slb. \<not> slabp_full slb) slabp_alloc slabp_free block_store (block_words sz)"

text \<open>
  C5: after \<open>slabp_init\<close>, whatever sequence of allocations from a non-full page, frees of held
  blocks and writes into held blocks the clients make, no block is held twice, two
  held blocks share no word of the page, and every block is either free or held: none is lost.
\<close>

theorem slab_blocks_never_shared:
  assumes "1 \<le> unat sz" "unat sz \<le> 1022" "length (sp_data slb) = 1022"
    and init: "slabp_init slb sz = Inr s0"
    and steps: "(slab_step sz)\<^sup>*\<^sup>* (s0, []) (s, held)"
  shows "distinct held \<and>
    (\<forall>x\<in>set held. \<forall>y\<in>set held. x \<noteq> y \<longrightarrow>
       {unat x..<unat x + block_words sz x} \<inter> {unat y..<unat y + block_words sz y} = {}) \<and>
    (\<exists>free. slab_rep sz s free \<and> mset free + mset held = mset (slab_blocks sz))"
proof -
  from slabp_init_rep [OF assms(1-3)] init have "slab_rep sz s0 (slab_blocks sz)" by auto
  from slab.steps_conserve [OF this steps] obtain free where
    free: "slab_rep sz s free" "mset free + mset held = mset (slab_blocks sz)" "distinct (free @ held)"
    by blast
  have "set held \<subseteq> set (slab_blocks sz)"
    by (metis free(2) mset_subset_eq_add_right set_mset_mono set_mset_mset)
  then have blk: "is_block sz x" if "x \<in> set held" for x
    using that slab_blocks_wf(2) [OF assms(1,2)] by (auto simp: list_all_iff)
  have "{unat x..<unat x + block_words sz x} \<inter> {unat y..<unat y + block_words sz y} = {}"
    if "x \<in> set held" "y \<in> set held" "x \<noteq> y" for x y
    using block_ranges_disjoint blk that by blast
  with free show ?thesis by auto
qed

theorem slab_blocks_never_shared_witness:
  "\<exists>s0 s. slabp_init slab_page_0 511 = Inr s0 \<and> (slab_step 511)\<^sup>*\<^sup>* (s0, []) (s, [0]) \<and>
     distinct [0 :: u32]"
proof -
  have len: "length (sp_data slab_page_0) = 1022" by (simp add: slab_page_0_def)
  from slabp_init_rep [of 511 slab_page_0] len obtain s0 where
    s0: "slabp_init slab_page_0 511 = Inr s0" "slab_rep 511 s0 (slab_blocks 511)" by auto
  have "slab_blocks 511 = [0, 511]" by (simp add: slab_blocks_def)
  with slab.alloc_rep [of 511 s0 0 "[511]"] slab.avail_rep s0(2) obtain s where
    s: "slabp_alloc s0 = Inr (0, s)" "\<not> slabp_full s0" by fastforce
  then have "(slab_step 511)\<^sup>*\<^sup>* (s0, []) (s, [0])"
    by (intro r_into_rtranclp pool_step.take)
  with slab_blocks_never_shared [of 511 slab_page_0 s0 s "[0]"] s0(1) len show ?thesis by auto
qed

text \<open>
  A fresh page serves exactly \<open>\<lceil>1022 / sz\<rceil>\<close> allocations, at the ascending multiples of
  the block size, all different, and is then full.
\<close>

theorem slab_alloc_all:
  assumes "1 \<le> unat sz" "unat sz \<le> 1022" "length (sp_data slb) = 1022"
    and "slabp_init slb sz = Inr s0"
  shows "\<exists>s. alloc_many slabp_alloc (Suc (1021 div unat sz)) s0 = Inr (slab_blocks sz, s) \<and>
    slabp_full s \<and> distinct (slab_blocks sz)"
proof -
  from slabp_init_rep [OF assms(1-3)] assms(4) have rep: "slab_rep sz s0 (slab_blocks sz)" by auto
  from slab.many_rep [OF rep, of "Suc (1021 div unat sz)"] show ?thesis
    using slab_rep_full slab.distinct_rep [OF rep] by (auto simp: length_slab_blocks)
qed

theorem slab_alloc_all_witness:
  "\<exists>s0 s. slabp_init slab_page_0 511 = Inr s0 \<and> alloc_many slabp_alloc 2 s0 = Inr ([0, 511], s) \<and>
     slabp_full s"
proof -
  have len: "length (sp_data slab_page_0) = 1022" by (simp add: slab_page_0_def)
  from slabp_init_rep [of 511 slab_page_0] len obtain s0 where
    s0: "slabp_init slab_page_0 511 = Inr s0" by auto
  have two: "Suc (1021 div unat (511 :: u16)) = 2" and blocks: "slab_blocks 511 = [0, 511]"
    by (simp_all add: slab_blocks_def)
  from slab_alloc_all [of 511, OF _ _ len s0, unfolded two blocks] s0 show ?thesis by simp
qed

text \<open>
  Freeing the block just allocated restores the page exactly, so any number of
  alloc/free pairs leaves it unchanged.
\<close>

theorem slab_alloc_free_id:
  assumes "length (sp_data slb) = 1022" "slabp_alloc slb = Inr (x, slb')"
  shows "slabp_free slb' x = Inr slb"
proof -
  from assms have x: "x = sp_first_free slb" "unat x < 1022"
      "slb' = slb\<lparr>sp_first_free := sp_data slb ! unat x\<rparr>"
    by (auto simp: slabp_alloc_def Let_def bindR_eq_Inr getR_eq_Inr)
  then have "x < 1022" by (simp add: word_less_nat_alt)
  with x assms(1) show ?thesis by (simp add: slabp_free_def slab_data_set_def)
qed

theorem slab_alloc_free_id_witness:
  "\<exists>slb'. slabp_alloc slab_page_0 = Inr (0, slb') \<and> slabp_free slb' 0 = Inr slab_page_0"
proof -
  have len: "length (sp_data slab_page_0) = 1022" and ff: "sp_first_free slab_page_0 = 0"
    by (simp_all add: slab_page_0_def)
  then have "slabp_alloc slab_page_0 =
      Inr (0, slab_page_0\<lparr>sp_first_free := sp_data slab_page_0 ! 0\<rparr>)"
    by (simp add: slabp_alloc_def)
  with slab_alloc_free_id [OF len this] show ?thesis by blast
qed

text \<open>
  When the block size does not divide the 1022 words of the page, the last block that
  \<open>slabp_init\<close> puts on the free list runs past the end of \<open>data\<close>: writing its last word is an
  access outside the page.
\<close>

theorem slab_last_block_overruns:
  assumes "1 \<le> unat sz" "unat sz \<le> 1022" "length (sp_data slb) = 1022" "\<not> unat sz dvd 1022"
    and "slabp_init slb sz = Inr s0"
  shows "\<exists>x\<in>set (slab_blocks sz). block_store s0 x (unat sz - 1) v = Inl OutOfBounds"
proof -
  let ?k = "1021 div unat sz" and ?n = "unat sz"
  have below: "?k * ?n < 1022" by (rule slab_block_below) simp
  have "1021 < ?k * ?n + ?n" 
    using dividend_less_div_times [of ?n 1021] assms(1) by linarith
  moreover have "?k * ?n + ?n \<noteq> 1022" using assms(4) by (metis dvd_add_right_iff dvd_refl dvd_triv_right)
  ultimately have "1022 \<le> ?k * ?n + (?n - 1)" using assms(1) by simp
  moreover from slabp_init_rep [OF assms(1-3)] assms(5) have "length (sp_data s0) = 1022"
    by (auto simp: slab_rep_def)
  ultimately have "block_store s0 (of_nat (?k * ?n)) (?n - 1) v = Inl OutOfBounds"
    using below by (simp add: block_store_def del: of_nat_mult)
  then show ?thesis by (intro bexI) (auto simp: slab_blocks_def simp del: of_nat_mult)
qed

theorem slab_last_block_overruns_witness:
  "\<exists>s0. slabp_init slab_page_0 4 = Inr s0 \<and>
     (\<exists>x\<in>set (slab_blocks 4). block_store s0 x 3 7 = Inl OutOfBounds)"
proof -
  have len: "length (sp_data slab_page_0) = 1022" by (simp add: slab_page_0_def)
  from slabp_init_rep [of 4 slab_page_0] len obtain s0 where
    s0: "slabp_init slab_page_0 4 = Inr s0" by auto
  from slab_last_block_overruns [OF _ _ len _ s0] s0 show ?thesis by auto
qed

text \<open>
  The \<open>free\<close> counter does not count the free blocks: after \<open>slabp_init\<close> it is one less than
  their number, and neither allocation nor freeing changes it.
\<close>

theorem slab_free_counter_stale:
  assumes "1 \<le> unat sz" "unat sz \<le> 1022" "length (sp_data slb) = 1022"
    and "slabp_init slb sz = Inr s0"
  shows "Suc (unat (sp_free s0)) = length (slab_blocks sz) \<and>
    (\<forall>s x s'. slabp_alloc s = Inr (x, s') \<longrightarrow> sp_free s' = sp_free s) \<and>
    (\<forall>s x s'. slabp_free s x = Inr s' \<longrightarrow> sp_free s' = sp_free s)"
  using slabp_init_rep [OF assms(1-3)] assms(4)
  by (auto simp: length_slab_blocks slabp_alloc_def slabp_free_def slab_data_set_def Let_def bindR_eq_Inr)

theorem slab_free_counter_stale_witness:
  "\<exists>s0. slabp_init slab_page_0 1 = Inr s0 \<and> unat (sp_free s0) = 1021 \<and> length (slab_blocks 1) = 1022"
proof -
  have len: "length (sp_data slab_page_0) = 1022" by (simp add: slab_page_0_def)
  from slabp_init_rep [of 1 slab_page_0] len obtain s0 where
    s0: "slabp_init slab_page_0 1 = Inr s0" by auto
  from slab_free_counter_stale [OF _ _ len s0] s0 show ?thesis by (auto simp: length_slab_blocks)
qed

end
