(* ===== verification/Disk_Io.thy ===== *)
theory Disk_Io
  imports Boot_Prelude
begin

text \<open>
  Sector input of stage 2 (\<open>stage2/pff3a/source/diskio.c\<close>): partial reads through a
  buffer that holds one sector. What the BIOS delivers (\<open>readSector\<close> of
  \<open>stage2/crt0.S\<close> repeats the call until it succeeds) is the parameter \<open>disk\<close>: the
  bytes of a sector of a drive.
\<close>

section \<open>Model\<close>

type_synonym disk = "u16 \<Rightarrow> u32 \<Rightarrow> nat \<Rightarrow> u8"

datatype DRESULT = RES_OK | RES_ERROR | RES_NOTRDY | RES_PARERR

text \<open>The static variables \<open>drive\<close>, \<open>current_sector\<close> and \<open>buf\<close>.\<close>

record dcache =
  dc_drive :: u16
  dc_sector :: u32
  dc_buf :: "u8 list"

definition dcache_start :: dcache where
  "dcache_start = \<lparr>dc_drive = 0xFFFF, dc_sector = 0xFFFFFFFF, dc_buf = replicate 514 0\<rparr>"

definition setDrive :: "dcache \<Rightarrow> u16 \<Rightarrow> dcache" where
  "setDrive c drv = c\<lparr>dc_drive := drv\<rparr>"

definition STA_NOINIT :: u8 where "STA_NOINIT = 1"

definition disk_initialize :: "dcache \<Rightarrow> u8" where
  "disk_initialize c = (if dc_drive c = 0xFFFF then STA_NOINIT else 0)"

definition sector_bytes :: "disk \<Rightarrow> u16 \<Rightarrow> u32 \<Rightarrow> u8 list" where
  "sector_bytes disk drv sector = map (disk drv sector) [0..<512]"

definition readSector :: "disk \<Rightarrow> u32 \<Rightarrow> u16 \<Rightarrow> u8 list \<Rightarrow> u32 \<Rightarrow> u8 list res" where
  "readSector disk sector drv buf bufsize =
     (let n = if bufsize < 512 then unat bufsize else 512 in
      if n \<le> length buf then Inr (take n (sector_bytes disk drv sector) @ drop n buf) else Inl OutOfBounds)"

text \<open>
  The copying loop reads \<open>count\<close> bytes of \<open>buf\<close>; it stops storing when the destination
  pointer has wrapped to NULL.
\<close>

definition copy_out :: "u8 list \<Rightarrow> nat \<Rightarrow> nat \<Rightarrow> u8 list res" where
  "copy_out buf offset n =
     (if offset + n \<le> length buf then Inr (take n (drop offset buf)) else Inl OutOfBounds)"

text \<open>The result is the status, the bytes stored from \<open>buff\<close> on, and the new buffer.\<close>

definition disk_readp :: "disk \<Rightarrow> dcache \<Rightarrow> u32 \<Rightarrow> u32 \<Rightarrow> u32 \<Rightarrow> u32 \<Rightarrow> (DRESULT \<times> u8 list \<times> dcache) res" where
  "disk_readp disk c buff sector offset n =
     (if buff = 0 \<or> offset \<ge> 512 \<or> offset + n > 512 then Inr (RES_PARERR, [], c)
      else bindR (if dc_sector c \<noteq> sector
                  then bindR (readSector disk sector (dc_drive c) (dc_buf c) 512) (\<lambda>buf.
                    Inr (c\<lparr>dc_buf := buf, dc_sector := sector\<rparr>))
                  else Inr c) (\<lambda>c.
        bindR (copy_out (dc_buf c) (unat offset) (min (unat n) (4294967296 - unat buff))) (\<lambda>bytes.
        Inr (RES_OK, bytes, c))))"

section \<open>The contract of a sector reader\<close>

text \<open>
  What the file system relies on: a read of a part of a sector delivers the bytes of
  that sector, whatever was read before. \<open>valid\<close> are the sectors for which this holds.
\<close>

locale sector_reader =
  fixes rd :: "'c \<Rightarrow> u32 \<Rightarrow> u32 \<Rightarrow> u32 \<Rightarrow> u32 \<Rightarrow> (DRESULT \<times> u8 list \<times> 'c) res"
    and inv :: "'c \<Rightarrow> bool"
    and valid :: "u32 \<Rightarrow> bool"
    and content :: "u32 \<Rightarrow> u8 list"
  assumes rd_ok: "inv c \<Longrightarrow> valid s \<Longrightarrow> buff \<noteq> 0 \<Longrightarrow> unat buff + unat n \<le> 4294967296 \<Longrightarrow>
      unat ofs < 512 \<Longrightarrow> unat ofs + unat n \<le> 512 \<Longrightarrow>
      \<exists>c'. rd c buff s ofs n = Inr (RES_OK, take (unat n) (drop (unat ofs) (content s)), c') \<and> inv c'"
    and content_length: "length (content s) = 512"

context sector_reader
begin

lemma rd_bytes_length:
  assumes "inv c" "valid s" "buff \<noteq> 0" "unat buff + unat n \<le> 4294967296" "unat ofs < 512" "unat ofs + unat n \<le> 512"
  obtains bs c' where "rd c buff s ofs n = Inr (RES_OK, bs, c')" "inv c'" "length bs = unat n"
    "\<And>k. k < unat n \<Longrightarrow> bs ! k = content s ! (unat ofs + k)"
proof -
  obtain c' where "rd c buff s ofs n = Inr (RES_OK, take (unat n) (drop (unat ofs) (content s)), c')" "inv c'"
    using rd_ok [OF assms] by blast
  then show ?thesis using that assms(5,6) by (simp add: content_length)
qed

text \<open>Reading twice, with anything valid read in between, gives the same bytes.\<close>

lemma rd_stable:
  assumes "inv c" "valid s" "buff \<noteq> 0" "unat buff + unat n \<le> 4294967296" "unat ofs < 512" "unat ofs + unat n \<le> 512"
    and "rd c buff s ofs n = Inr (r1, bs1, c1)" "inv c2" "rd c2 buff s ofs n = Inr (r2, bs2, c3)"
  shows "r1 = RES_OK \<and> r2 = RES_OK \<and> bs1 = bs2"
  using rd_ok [OF assms(1-6)] rd_ok [OF assms(8) assms(2-6)] assms(7,9) by auto

end

section \<open>The buffer implements the contract\<close>

definition dcache_ok :: "disk \<Rightarrow> u16 \<Rightarrow> dcache \<Rightarrow> bool" where
  "dcache_ok disk drv c \<longleftrightarrow> dc_drive c = drv \<and> length (dc_buf c) = 514 \<and>
     (dc_sector c \<noteq> 0xFFFFFFFF \<longrightarrow> take 512 (dc_buf c) = sector_bytes disk drv (dc_sector c))"

declare upt_rec_numeral [simp del]

lemma length_sector_bytes [simp]: "length (sector_bytes disk drv s) = 512"
  by (simp add: sector_bytes_def)

lemma dcache_start_ok: "dcache_ok disk drv (setDrive dcache_start drv)"
  by (simp add: dcache_ok_def setDrive_def dcache_start_def)

lemma disk_readp_ok:
  assumes "dcache_ok disk drv c" "sector \<noteq> 0xFFFFFFFF" "buff \<noteq> 0" "unat buff + unat n \<le> 4294967296"
    "unat offset < 512" "unat offset + unat n \<le> 512"
  shows "\<exists>c'. disk_readp disk c buff sector offset n =
      Inr (RES_OK, take (unat n) (drop (unat offset) (sector_bytes disk drv sector)), c') \<and> dcache_ok disk drv c'"
proof -
  have sum: "unat (offset + n) = unat offset + unat n" using assms(6) by (intro unat_add_nowrap) simp
  have g: "\<not> (buff = 0 \<or> offset \<ge> 512 \<or> offset + n > 512)"
    using assms(3,5,6) by (simp add: word_le_nat_alt word_less_nat_alt sum del: unat_add_nowrap)
  have m: "min (unat n) (4294967296 - unat buff) = unat n" using assms(4) by simp
  let ?c = "if dc_sector c = sector then c
    else c\<lparr>dc_buf := sector_bytes disk drv sector @ drop 512 (dc_buf c), dc_sector := sector\<rparr>"
  have load: "(if dc_sector c \<noteq> sector then bindR (readSector disk sector (dc_drive c) (dc_buf c) 512) (\<lambda>buf.
      Inr (c\<lparr>dc_buf := buf, dc_sector := sector\<rparr>)) else Inr c) = Inr ?c"
    using assms(1) by (simp add: readSector_def dcache_ok_def Let_def)
  have ok: "dcache_ok disk drv ?c" using assms(1) by (simp add: dcache_ok_def)
  have t: "take 512 (dc_buf ?c) = sector_bytes disk drv sector" and l: "length (dc_buf ?c) = 514"
    using assms(1,2) by (auto simp: dcache_ok_def)
  have "take (unat n) (drop (unat offset) (dc_buf ?c)) = take (unat n) (drop (unat offset) (take 512 (dc_buf ?c)))"
    using assms(6) by (simp add: drop_take min_def)
  then have "copy_out (dc_buf ?c) (unat offset) (unat n) = Inr (take (unat n) (drop (unat offset) (sector_bytes disk drv sector)))"
    using assms(6) unfolding t by (simp add: copy_out_def l)
  then show ?thesis using ok unfolding disk_readp_def if_not_P [OF g] load m bindR_Inr by auto
qed

interpretation cached_disk: sector_reader "disk_readp disk" "dcache_ok disk drv" "\<lambda>s. s \<noteq> 0xFFFFFFFF" "sector_bytes disk drv"
  for disk drv
  by unfold_locales (use disk_readp_ok in auto)

text \<open>
  The two gaps in the contract: the sector whose number marks the empty buffer is never
  read, and a change of the drive leaves the buffered sector of the old one in place.
\<close>

lemma disk_readp_last_sector:
  assumes "n \<le> 512"
  shows "disk_readp disk (setDrive dcache_start drv) 0x7000 0xFFFFFFFF 0 n =
    Inr (RES_OK, replicate (unat n) 0, setDrive dcache_start drv)"
proof -
  have "unat n \<le> 512" using assms by (simp add: word_le_nat_alt)
  then show ?thesis using assms by (simp add: disk_readp_def dcache_start_def setDrive_def copy_out_def not_less min_def)
qed

lemma setDrive_stale:
  assumes "disk_readp disk c 0x7000 sector 0 n = Inr (RES_OK, bs, c')"
  shows "disk_readp disk (setDrive c' drv) 0x7000 sector 0 n = Inr (RES_OK, bs, setDrive c' drv)"
  using assms unfolding disk_readp_def setDrive_def
  by (auto simp: bindR_eq_Inr split: if_splits)

end
