(* ===== verification/Fat.thy ===== *)
theory Fat
  imports Disk_Io
begin

text \<open>
  The FAT reader of stage 2 (\<open>stage2/pff3a/source/pff.c\<close>, \<open>pff.h\<close>) as configured in
  \<open>pffconf.h\<close>: FAT16 and FAT32, reading and seeking, no directory listing, no writing,
  no code page.
\<close>

section \<open>Model: data\<close>

datatype FRESULT = FR_OK | FR_DISK_ERR | FR_NOT_READY | FR_NO_FILE | FR_NOT_OPENED | FR_NOT_ENABLED | FR_NO_FILESYSTEM

record FATFS =
  fs_type :: u8
  fs_flag :: u8
  csize :: u8
  n_rootdir :: u16
  n_fatent :: u32
  fatbase :: u32
  dirbase :: u32
  database :: u32
  fptr :: u32
  fsize :: u32
  org_clust :: u32
  curr_clust :: u32
  dsect :: u32

record DIR =
  dj_index :: u16
  dj_fn :: "u8 list"
  dj_sclust :: u32
  dj_clust :: u32
  dj_sect :: u32

text \<open>The module's state: whether \<open>FatFs\<close> is set, the object it points to, the disk buffer.\<close>

record pff =
  pff_mounted :: bool
  pff_fs :: FATFS
  pff_cache :: dcache

definition FA_OPENED :: u8 where "FA_OPENED = 1"
definition FS_FAT16 :: u8 where "FS_FAT16 = 2"
definition FS_FAT32 :: u8 where "FS_FAT32 = 3"
definition AM_VOL :: u8 where "AM_VOL = 8"
definition AM_DIR :: u8 where "AM_DIR = 0x10"

text \<open>The address of a local array, which \<open>disk_readp\<close> only compares with NULL.\<close>

definition on_stack :: u32 where "on_stack = 0x7000"

text \<open>Words in a buffer, at an offset.\<close>

definition ld_word :: "u8 list \<Rightarrow> nat \<Rightarrow> u16" where
  "ld_word p i = push_bit 8 (ucast (p ! (i + 1))) OR ucast (p ! i)"

definition ld_dword :: "u8 list \<Rightarrow> nat \<Rightarrow> u32" where
  "ld_dword p i =
     (let rv = ucast (p ! (i + 3));
          rv = push_bit 8 rv OR ucast (p ! (i + 2));
          rv = push_bit 8 rv OR ucast (p ! (i + 1))
      in push_bit 8 rv OR ucast (p ! i))"

text \<open>\<open>mem_set(sfn, ' ', 11)\<close>, and \<open>mem_cmp\<close> with its signed characters.\<close>

definition mem_set :: "u8 list \<Rightarrow> u8 \<Rightarrow> nat \<Rightarrow> u8 list" where
  "mem_set d val cnt = replicate cnt val @ drop cnt d"

fun mem_cmp :: "u8 list \<Rightarrow> u8 list \<Rightarrow> nat \<Rightarrow> int" where
  "mem_cmp d s 0 = 0"
| "mem_cmp d s (Suc cnt) =
     (let r = sint (hd d) - sint (hd s) in if r = 0 then mem_cmp (tl d) (tl s) cnt else r)"

section \<open>Model: clusters\<close>

text \<open>A read into a local buffer; the result is its bytes unless the read fails.\<close>

definition read_local :: "disk \<Rightarrow> pff \<Rightarrow> u32 \<Rightarrow> u32 \<Rightarrow> u32 \<Rightarrow> (u8 list option \<times> pff) res" where
  "read_local disk s sector offset n =
     bindR (disk_readp disk (pff_cache s) on_stack sector offset n) (\<lambda>(r, bytes, c).
     Inr (if r = RES_OK then Some bytes else None, s\<lparr>pff_cache := c\<rparr>))"

definition get_fat :: "disk \<Rightarrow> pff \<Rightarrow> u32 \<Rightarrow> (u32 \<times> pff) res" where
  "get_fat disk s clst =
     (let fs = pff_fs s in
      if clst < 2 \<or> clst \<ge> n_fatent fs then Inr (1, s)
      else if fs_type fs = FS_FAT16 then
        bindR (read_local disk s (fatbase fs + clst div 256) (clst mod 256 * 2) 2) (\<lambda>(r, s).
        Inr (case r of None \<Rightarrow> 1 | Some buf \<Rightarrow> ucast (ld_word buf 0), s))
      else if fs_type fs = FS_FAT32 then
        bindR (read_local disk s (fatbase fs + clst div 128) (clst mod 128 * 4) 4) (\<lambda>(r, s).
        Inr (case r of None \<Rightarrow> 1 | Some buf \<Rightarrow> ld_dword buf 0 AND 0x0FFFFFFF, s))
      else Inr (1, s))"

definition clust2sect :: "FATFS \<Rightarrow> u32 \<Rightarrow> u32" where
  "clust2sect fs clst =
     (let clst = clst - 2 in
      if clst \<ge> n_fatent fs - 2 then 0 else clst * ucast (csize fs) + database fs)"

definition get_clust :: "FATFS \<Rightarrow> u8 list \<Rightarrow> u32" where
  "get_clust fs dir =
     (if fs_type fs = FS_FAT32 then push_bit 16 (ucast (ld_word dir 20)) else 0) OR ucast (ld_word dir 26)"

section \<open>Model: directories\<close>

definition dir_rewind :: "FATFS \<Rightarrow> DIR \<Rightarrow> FRESULT \<times> DIR" where
  "dir_rewind fs dj =
     (let dj = dj\<lparr>dj_index := 0\<rparr>; clst = dj_sclust dj in
      if clst = 1 \<or> clst \<ge> n_fatent fs then (FR_DISK_ERR, dj)
      else let clst = (if clst = 0 \<and> fs_type fs = FS_FAT32 then dirbase fs else clst) in
        (FR_OK, dj\<lparr>dj_clust := clst, dj_sect := if clst \<noteq> 0 then clust2sect fs clst else dirbase fs\<rparr>))"

definition dir_next :: "disk \<Rightarrow> pff \<Rightarrow> DIR \<Rightarrow> (FRESULT \<times> DIR \<times> pff) res" where
  "dir_next disk s dj =
     (let fs = pff_fs s; i = dj_index dj + 1 in
      if i = 0 \<or> dj_sect dj = 0 then Inr (FR_NO_FILE, dj, s)
      else if i mod 16 \<noteq> 0 then Inr (FR_OK, dj\<lparr>dj_index := i\<rparr>, s)
      else let dj = dj\<lparr>dj_sect := dj_sect dj + 1\<rparr> in
        if dj_clust dj = 0 then
          (if i \<ge> n_rootdir fs then Inr (FR_NO_FILE, dj, s) else Inr (FR_OK, dj\<lparr>dj_index := i\<rparr>, s))
        else if ucast (i div 16) AND (ucast (csize fs) - 1 :: u32) = 0 then
          bindR (get_fat disk s (dj_clust dj)) (\<lambda>(clst, s).
          if clst \<le> 1 then Inr (FR_DISK_ERR, dj, s)
          else if clst \<ge> n_fatent fs then Inr (FR_NO_FILE, dj, s)
          else Inr (FR_OK, dj\<lparr>dj_clust := clst, dj_sect := clust2sect fs clst, dj_index := i\<rparr>, s))
        else Inr (FR_OK, dj\<lparr>dj_index := i\<rparr>, s))"

text \<open>
  The loop of \<open>dir_find\<close>. Its state holds whether it goes on, \<open>res\<close>, the directory
  object, the 32-byte buffer and the module.
\<close>

type_synonym find_state = "bool \<times> FRESULT \<times> DIR \<times> u8 list \<times> pff"

definition find_body :: "disk \<Rightarrow> find_state \<Rightarrow> find_state res" where
  "find_body disk = (\<lambda>(go, res, dj, dir, s).
     bindR (read_local disk s (dj_sect dj) (ucast (dj_index dj mod 16 * 32)) 32) (\<lambda>(r, s).
     case r of None \<Rightarrow> Inr (False, FR_DISK_ERR, dj, dir, s)
     | Some dir \<Rightarrow>
       if dir ! 0 = 0 then Inr (False, FR_NO_FILE, dj, dir, s)
       else if dir ! 11 AND AM_VOL = 0 \<and> mem_cmp dir (dj_fn dj) 11 = 0 then Inr (False, FR_OK, dj, dir, s)
       else bindR (dir_next disk s dj) (\<lambda>(res, dj, s). Inr (res = FR_OK, res, dj, dir, s))))"

definition dir_find :: "disk \<Rightarrow> pff \<Rightarrow> DIR \<Rightarrow> u8 list \<Rightarrow> (FRESULT \<times> DIR \<times> u8 list \<times> pff) res" where
  "dir_find disk s dj dir =
     (let (res, dj) = dir_rewind (pff_fs s) dj in
      if res \<noteq> FR_OK then Inr (res, dj, dir, s)
      else bindR (whileR 65538 (\<lambda>(go, res, dj, dir, s). Inr go) (find_body disk) (True, FR_OK, dj, dir, s))
        (\<lambda>(go, res, dj, dir, s). Inr (res, dj, dir, s)))"

text \<open>
  The loop of \<open>create_name\<close> over the path from position \<open>pos\<close>. Its state holds whether
  it goes on, the last character and the variables \<open>si\<close>, \<open>i\<close>, \<open>ni\<close> and \<open>sfn\<close>. A path
  is the bytes of its string, the NUL included.
\<close>

type_synonym name_state = "bool \<times> u8 \<times> u8 \<times> u8 \<times> u8 \<times> u8 list"

definition name_body :: "u8 list \<Rightarrow> nat \<Rightarrow> name_state \<Rightarrow> name_state res" where
  "name_body path pos = (\<lambda>(go, c, si, i, ni, sfn).
     bindR (getR path (pos + unat si)) (\<lambda>c.
     let si = si + 1 in
     if c \<le> 32 \<or> c = 47 then Inr (False, c, si, i, ni, sfn)
     else if c = 46 \<or> i \<ge> ni then
       (if ni \<noteq> 8 \<or> c \<noteq> 46 then Inr (False, c, si, i, ni, sfn) else Inr (True, c, si, 8, 11, sfn))
     else bindR (setR sfn (unat i) c) (\<lambda>sfn. Inr (True, c, si, i + 1, ni, sfn))))"

definition create_name :: "u8 list \<Rightarrow> DIR \<Rightarrow> nat \<Rightarrow> (DIR \<times> nat) res" where
  "create_name path dj pos =
     bindR (whileR 14 (\<lambda>(go, c, si, i, ni, sfn). Inr go) (name_body path pos)
       (True, 0, 0, 0, 8, mem_set (dj_fn dj) 32 11)) (\<lambda>(go, c, si, i, ni, sfn).
     bindR (setR sfn 11 (if c \<le> 32 then 1 else 0)) (\<lambda>sfn.
     Inr (dj\<lparr>dj_fn := sfn\<rparr>, pos + unat si)))"

text \<open>
  The loop of \<open>follow_path\<close>, one segment per step; its state holds whether it goes on,
  \<open>res\<close>, the position in the path, the directory object, the buffer and the module.
\<close>

type_synonym path_state = "bool \<times> FRESULT \<times> nat \<times> DIR \<times> u8 list \<times> pff"

definition path_body :: "disk \<Rightarrow> u8 list \<Rightarrow> path_state \<Rightarrow> path_state res" where
  "path_body disk path = (\<lambda>(go, res, pos, dj, dir, s).
     bindR (create_name path dj pos) (\<lambda>(dj, pos).
     bindR (dir_find disk s dj dir) (\<lambda>(res, dj, dir, s).
     if res \<noteq> FR_OK then Inr (False, res, pos, dj, dir, s)
     else if dj_fn dj ! 11 \<noteq> 0 then Inr (False, res, pos, dj, dir, s)
     else if dir ! 11 AND AM_DIR = 0 then Inr (False, FR_NO_FILE, pos, dj, dir, s)
     else Inr (True, res, pos, dj\<lparr>dj_sclust := get_clust (pff_fs s) dir\<rparr>, dir, s))))"

definition follow_path :: "disk \<Rightarrow> pff \<Rightarrow> DIR \<Rightarrow> u8 list \<Rightarrow> u8 list \<Rightarrow> (FRESULT \<times> DIR \<times> u8 list \<times> pff) res" where
  "follow_path disk s dj dir path =
     bindR (whileR (length path + 1) (\<lambda>pos. bindR (getR path pos) (\<lambda>c. Inr (c = 32))) (\<lambda>pos. Inr (pos + 1)) 0) (\<lambda>pos.
     bindR (getR path pos) (\<lambda>c.
     let pos = if c = 47 then pos + 1 else pos; dj = dj\<lparr>dj_sclust := 0\<rparr> in
     bindR (getR path pos) (\<lambda>c.
     if c < 32 then (let (res, dj) = dir_rewind (pff_fs s) dj in Inr (res, dj, dir[0 := 0], s))
     else bindR (whileR (length path + 1) (\<lambda>(go, res, pos, dj, dir, s). Inr go) (path_body disk path)
         (True, FR_OK, pos, dj, dir, s)) (\<lambda>(go, res, pos, dj, dir, s).
       Inr (res, dj, dir, s)))))"

section \<open>Model: mounting, opening, reading, seeking\<close>

definition check_fs :: "disk \<Rightarrow> pff \<Rightarrow> u32 \<Rightarrow> (u8 \<times> pff) res" where
  "check_fs disk s sect =
     bindR (read_local disk s sect 510 2) (\<lambda>(r, s).
     case r of None \<Rightarrow> Inr (3, s)
     | Some buf \<Rightarrow>
       if ld_word buf 0 \<noteq> 0xAA55 then Inr (2, s)
       else bindR (read_local disk s sect 54 2) (\<lambda>(r, s).
         if \<exists>buf\<in>set_option r. ld_word buf 0 = 0x4146 then Inr (0, s)
         else bindR (read_local disk s sect 82 2) (\<lambda>(r, s).
           if \<exists>buf\<in>set_option r. ld_word buf 0 = 0x4146 then Inr (0, s) else Inr (1, s))))"

text \<open>The fields of the boot sector, of which \<open>buf\<close> holds 36 bytes from byte 13 on.\<close>

definition mount_fields :: "FATFS \<Rightarrow> u32 \<Rightarrow> u8 list \<Rightarrow> (FRESULT \<times> FATFS) res" where
  "mount_fields fs bsect buf =
     (let fatsz = (if ld_word buf 9 = 0 then ld_dword buf 23 else ucast (ld_word buf 9)) * ucast (buf ! 3);
          fs = fs\<lparr>fatbase := bsect + ucast (ld_word buf 1), csize := buf ! 0, n_rootdir := ld_word buf 4\<rparr>;
          tsect = (if ld_word buf 6 = 0 then ld_dword buf 19 else ucast (ld_word buf 6))
      in if csize fs = 0 then Inl DivByZero
         else let mclst = (tsect - ucast (ld_word buf 1) - fatsz - ucast (n_rootdir fs div 16)) div ucast (csize fs) + 2;
                  fs = fs\<lparr>n_fatent := mclst\<rparr>;
                  fmt = (if mclst \<ge> 0xFFF7 then FS_FAT32
                         else if mclst \<ge> 0xFF8 \<and> mclst < 0xFFF7 then FS_FAT16 else 0)
         in if fmt = 0 then Inr (FR_NO_FILESYSTEM, fs)
            else let fs = fs\<lparr>fs_type := fmt,
                             dirbase := if fmt = FS_FAT32 then ld_dword buf 31 else fatbase fs + fatsz,
                             database := fatbase fs + fatsz + ucast (n_rootdir fs div 16), fs_flag := 0\<rparr>
              in Inr (FR_OK, fs))"

definition pf_mount :: "disk \<Rightarrow> pff \<Rightarrow> (FRESULT \<times> pff) res" where
  "pf_mount disk s =
     (let s = s\<lparr>pff_mounted := False\<rparr> in
      if disk_initialize (pff_cache s) AND STA_NOINIT \<noteq> 0 then Inr (FR_NOT_READY, s)
      else bindR (check_fs disk s 0) (\<lambda>(fmt, s).
        bindR (if fmt = 1 then
            bindR (read_local disk s 0 446 16) (\<lambda>(r, s).
            case r of None \<Rightarrow> Inr (3, 0, s)
            | Some buf \<Rightarrow>
              if buf ! 4 \<noteq> 0 then
                let bsect = ld_dword buf 8 in bindR (check_fs disk s bsect) (\<lambda>(fmt, s). Inr (fmt, bsect, s))
              else Inr (fmt, 0, s))
          else Inr (fmt, 0, s)) (\<lambda>(fmt, bsect, s).
        if fmt = 3 then Inr (FR_DISK_ERR, s)
        else if fmt \<noteq> 0 then Inr (FR_NO_FILESYSTEM, s)
        else bindR (read_local disk s bsect 13 36) (\<lambda>(r, s).
          case r of None \<Rightarrow> Inr (FR_DISK_ERR, s)
          | Some buf \<Rightarrow>
            bindR (mount_fields (pff_fs s) bsect buf) (\<lambda>(res, fs).
            Inr (res, s\<lparr>pff_fs := fs, pff_mounted := res = FR_OK\<rparr>))))))"

text \<open>\<open>sp\<close> and \<open>dir\<close> are the uninitialised local arrays of \<open>pf_open\<close>.\<close>

definition pf_open :: "disk \<Rightarrow> pff \<Rightarrow> u8 list \<Rightarrow> u8 list \<Rightarrow> u8 list \<Rightarrow> (FRESULT \<times> pff) res" where
  "pf_open disk s sp dir path =
     (if \<not> pff_mounted s then Inr (FR_NOT_ENABLED, s)
      else let s = s\<lparr>pff_fs := (pff_fs s)\<lparr>fs_flag := 0\<rparr>\<rparr>;
               dj = \<lparr>dj_index = 0, dj_fn = sp, dj_sclust = 0, dj_clust = 0, dj_sect = 0\<rparr> in
        bindR (follow_path disk s dj dir path) (\<lambda>(res, dj, dir, s).
        if res \<noteq> FR_OK then Inr (res, s)
        else if dir ! 0 = 0 \<or> dir ! 11 AND AM_DIR \<noteq> 0 then Inr (FR_NO_FILE, s)
        else Inr (FR_OK, s\<lparr>pff_fs := (pff_fs s)\<lparr>org_clust := get_clust (pff_fs s) dir,
               fsize := ld_dword dir 28, fptr := 0, fs_flag := FA_OPENED\<rparr>\<rparr>)))"

text \<open>\<open>ABORT\<close> clears the flag and returns.\<close>

definition abort_fs :: "pff \<Rightarrow> pff" where
  "abort_fs s = s\<lparr>pff_fs := (pff_fs s)\<lparr>fs_flag := 0\<rparr>\<rparr>"

text \<open>
  One round of the loop of \<open>pf_read\<close>, up to the read: on a sector boundary the cluster
  and the sector are looked up; \<open>None\<close> means that the function returns \<open>FR_DISK_ERR\<close>.
\<close>

definition next_sector :: "disk \<Rightarrow> pff \<Rightarrow> (unit option \<times> pff) res" where
  "next_sector disk s =
     (let fs = pff_fs s in
      if fptr fs mod 512 \<noteq> 0 then Inr (Some (), s)
      else let cs = ucast (fptr fs div 512 AND (ucast (csize fs) - 1)) :: u8 in
        bindR (if cs \<noteq> 0 then Inr (Some (), s)
               else bindR (if fptr fs = 0 then Inr (org_clust fs, s) else get_fat disk s (curr_clust fs)) (\<lambda>(clst, s).
                 if clst \<le> 1 then Inr (None, s)
                 else Inr (Some (), s\<lparr>pff_fs := (pff_fs s)\<lparr>curr_clust := clst\<rparr>\<rparr>))) (\<lambda>(r, s).
        if r = None then Inr (None, s)
        else let sect = clust2sect (pff_fs s) (curr_clust (pff_fs s)) in
          if sect = 0 then Inr (None, s)
          else Inr (Some (), s\<lparr>pff_fs := (pff_fs s)\<lparr>dsect := sect + ucast cs\<rparr>\<rparr>)))"

text \<open>The state of the loop: whether it has aborted, \<open>rbuff\<close>, \<open>btr\<close>, \<open>*br\<close>, the bytes stored so far.\<close>

type_synonym read_state = "bool \<times> u32 \<times> u32 \<times> u32 \<times> u8 list \<times> pff"

definition read_guard :: "read_state \<Rightarrow> bool res" where
  "read_guard = (\<lambda>(failed, rbuff, btr, br, out, s). Inr (\<not> failed \<and> btr \<noteq> 0))"

definition read_body :: "disk \<Rightarrow> read_state \<Rightarrow> read_state res" where
  "read_body disk = (\<lambda>(failed, rbuff, btr, br, out, s).
     bindR (next_sector disk s) (\<lambda>(r, s).
     if r = None then Inr (True, rbuff, btr, br, out, abort_fs s)
     else let fs = pff_fs s;
              rcnt = 512 - fptr fs mod 512;
              rcnt = (if rcnt > btr then btr else rcnt) in
       bindR (disk_readp disk (pff_cache s) rbuff (dsect fs) (fptr fs mod 512) rcnt) (\<lambda>(dr, bytes, c).
       let s = s\<lparr>pff_cache := c\<rparr> in
       if dr \<noteq> RES_OK then Inr (True, rbuff, btr, br, out @ bytes, abort_fs s)
       else Inr (False, if rbuff \<noteq> 0 then rbuff + rcnt else rbuff, btr - rcnt, br + rcnt, out @ bytes,
              s\<lparr>pff_fs := fs\<lparr>fptr := fptr fs + rcnt\<rparr>\<rparr>))))"

text \<open>The result: the code, \<open>*br\<close>, the bytes stored from \<open>buff\<close> on, the module.\<close>

definition pf_read :: "disk \<Rightarrow> pff \<Rightarrow> u32 \<Rightarrow> u32 \<Rightarrow> (FRESULT \<times> u32 \<times> u8 list \<times> pff) res" where
  "pf_read disk s buff btr =
     (if \<not> pff_mounted s then Inr (FR_NOT_ENABLED, 0, [], s)
      else if fs_flag (pff_fs s) AND FA_OPENED = 0 then Inr (FR_NOT_OPENED, 0, [], s)
      else let remain = fsize (pff_fs s) - fptr (pff_fs s);
               btr = (if btr > remain then remain else btr) in
        bindR (whileR (unat btr + 1) read_guard (read_body disk) (False, buff, btr, 0, [], s))
          (\<lambda>(failed, rbuff, btr, br, out, s).
        Inr (if failed then FR_DISK_ERR else FR_OK, br, out, s)))"

text \<open>The cluster-following loop of \<open>pf_lseek\<close>: whether it has aborted, \<open>clst\<close>, \<open>ofs\<close>.\<close>

definition seek_body :: "disk \<Rightarrow> u32 \<Rightarrow> bool \<times> u32 \<times> u32 \<times> pff \<Rightarrow> (bool \<times> u32 \<times> u32 \<times> pff) res" where
  "seek_body disk bcs = (\<lambda>(failed, clst, ofs, s).
     bindR (get_fat disk s clst) (\<lambda>(clst, s).
     if clst \<le> 1 \<or> clst \<ge> n_fatent (pff_fs s) then Inr (True, clst, ofs, abort_fs s)
     else Inr (False, clst, ofs - bcs,
            s\<lparr>pff_fs := (pff_fs s)\<lparr>curr_clust := clst, fptr := fptr (pff_fs s) + bcs\<rparr>\<rparr>)))"

text \<open>Where the search starts: at the current cluster when the target is in it or after it, else at the first.\<close>

definition seek_start :: "FATFS \<Rightarrow> u32 \<Rightarrow> u32 \<Rightarrow> u32 \<times> u32 \<times> FATFS" where
  "seek_start fs ofs bcs =
     (let ifptr = fptr fs; fs = fs\<lparr>fptr := 0\<rparr> in
      if ifptr > 0 \<and> (ofs - 1) div bcs \<ge> (ifptr - 1) div bcs then
        let fs = fs\<lparr>fptr := (ifptr - 1) AND NOT (bcs - 1)\<rparr> in (curr_clust fs, ofs - fptr fs, fs)
      else (org_clust fs, ofs, fs\<lparr>curr_clust := org_clust fs\<rparr>))"

definition seek_finish :: "u32 \<Rightarrow> u32 \<Rightarrow> pff \<Rightarrow> FRESULT \<times> pff" where
  "seek_finish clst ofs s =
     (let fs = (pff_fs s)\<lparr>fptr := fptr (pff_fs s) + ofs\<rparr>; sect = clust2sect fs clst in
      if sect = 0 then (FR_DISK_ERR, abort_fs (s\<lparr>pff_fs := fs\<rparr>))
      else (FR_OK, s\<lparr>pff_fs := fs\<lparr>dsect := sect + (fptr fs div 512 AND (ucast (csize fs) - 1))\<rparr>\<rparr>))"

definition pf_lseek :: "disk \<Rightarrow> pff \<Rightarrow> u32 \<Rightarrow> (FRESULT \<times> pff) res" where
  "pf_lseek disk s ofs =
     (if \<not> pff_mounted s then Inr (FR_NOT_ENABLED, s)
      else if fs_flag (pff_fs s) AND FA_OPENED = 0 then Inr (FR_NOT_OPENED, s)
      else let fs = pff_fs s;
               ofs = (if ofs > fsize fs then fsize fs else ofs);
               bcs = ucast (csize fs) * 512 in
        if ofs = 0 then Inr (FR_OK, s\<lparr>pff_fs := fs\<lparr>fptr := 0\<rparr>\<rparr>)
        else if fptr fs > 0 \<and> bcs = 0 then Inl DivByZero
        else let (clst, ofs, fs) = seek_start fs ofs bcs in
          bindR (whileR (unat ofs + 1) (\<lambda>(failed, clst, ofs, s). Inr (\<not> failed \<and> ofs > bcs)) (seek_body disk bcs)
            (False, clst, ofs, s\<lparr>pff_fs := fs\<rparr>)) (\<lambda>(failed, clst, ofs, s).
          Inr (if failed then (FR_DISK_ERR, s) else seek_finish clst ofs s)))"

end
