(* ===== verification/Fat_Read.thy ===== *)
theory Fat_Read
  imports Fat
begin

text \<open>
  What reading and seeking of the FAT reader do on a well-formed volume: the clusters of
  the open file are the list that the allocation table links from its first cluster, and
  a position in the file determines a sector. \<open>pf_read\<close> and \<open>pf_lseek\<close> keep the position
  consistent (\<open>positioned\<close>) and deliver the bytes of the file.
\<close>

section \<open>Volumes and cluster chains\<close>

text \<open>
  A FAT entry as stored on the disk, and what the fields of a mounted volume must
  satisfy: a known type, clusters of 1 to 128 sectors, and no sector number of the FAT or
  the data area that leaves the 32-bit range or is the marker of the empty buffer.
\<close>

definition fat_entry :: "disk \<Rightarrow> u16 \<Rightarrow> FATFS \<Rightarrow> u32 \<Rightarrow> u32" where
  "fat_entry disk drv fs c =
     (if fs_type fs = FS_FAT16
      then ucast (ld_word (sector_bytes disk drv (fatbase fs + c div 256)) (2 * (unat c mod 256)))
      else ld_dword (sector_bytes disk drv (fatbase fs + c div 128)) (4 * (unat c mod 128)) AND 0x0FFFFFFF)"

definition volume_ok :: "FATFS \<Rightarrow> bool" where
  "volume_ok fs \<longleftrightarrow> (fs_type fs = FS_FAT16 \<or> fs_type fs = FS_FAT32) \<and>
     list_ex (\<lambda>e. unat (csize fs) = 2 ^ e) [0..<8] \<and> 2 \<le> unat (n_fatent fs) \<and>
     unat (fatbase fs) + unat (n_fatent fs) div 128 < 4294967295 \<and> 0 < unat (database fs) \<and>
     unat (database fs) + (unat (n_fatent fs) - 2) * unat (csize fs) \<le> 4294967295"

definition cluster_bytes :: "FATFS \<Rightarrow> nat" where
  "cluster_bytes fs = 512 * unat (csize fs)"

text \<open>The clusters of the open file, in order, as the FAT links them.\<close>

definition chain_ok :: "disk \<Rightarrow> u16 \<Rightarrow> FATFS \<Rightarrow> u32 list \<Rightarrow> bool" where
  "chain_ok disk drv fs cl \<longleftrightarrow> cl \<noteq> [] \<and> hd cl = org_clust fs \<and>
     unat (fsize fs) \<le> length cl * cluster_bytes fs \<and>
     list_all (\<lambda>c. 2 \<le> unat c \<and> unat c < unat (n_fatent fs)) cl \<and>
     list_all (\<lambda>i. fat_entry disk drv fs (cl ! i) = cl ! (i + 1)) [0..<length cl - 1]"

text \<open>The sector and the content of a byte of the file.\<close>

definition file_sector :: "FATFS \<Rightarrow> u32 list \<Rightarrow> nat \<Rightarrow> u32" where
  "file_sector fs cl n =
     database fs + (cl ! (n div cluster_bytes fs) - 2) * ucast (csize fs) + of_nat (n div 512 mod unat (csize fs))"

definition file_byte :: "disk \<Rightarrow> u16 \<Rightarrow> FATFS \<Rightarrow> u32 list \<Rightarrow> nat \<Rightarrow> u8" where
  "file_byte disk drv fs cl n = disk drv (file_sector fs cl n) (n mod 512)"

text \<open>The file position is consistent with the current cluster and the current sector.\<close>

definition positioned :: "FATFS \<Rightarrow> u32 list \<Rightarrow> bool" where
  "positioned fs cl \<longleftrightarrow> fptr fs \<le> fsize fs \<and>
     (fptr fs \<noteq> 0 \<longrightarrow> curr_clust fs = cl ! ((unat (fptr fs) - 1) div cluster_bytes fs)) \<and>
     (unat (fptr fs) mod 512 \<noteq> 0 \<longrightarrow> dsect fs = file_sector fs cl (unat (fptr fs)))"

text \<open>A mounted volume with an open file, and a good buffer.\<close>

definition file_open :: "disk \<Rightarrow> u16 \<Rightarrow> pff \<Rightarrow> u32 list \<Rightarrow> bool" where
  "file_open disk drv s cl \<longleftrightarrow> pff_mounted s \<and> fs_flag (pff_fs s) AND FA_OPENED \<noteq> 0 \<and>
     dcache_ok disk drv (pff_cache s) \<and> volume_ok (pff_fs s) \<and> chain_ok disk drv (pff_fs s) cl \<and>
     positioned (pff_fs s) cl"

lemma volume_csize:
  assumes "volume_ok fs"
  obtains e where "e < 8" "unat (csize fs) = 2 ^ e"
  using assms by (auto simp: volume_ok_def list_ex_iff)

lemma csize_pos: "volume_ok fs \<Longrightarrow> 0 < unat (csize fs)"
  by (metis volume_csize zero_less_numeral zero_less_power)

lemma csize_le: "volume_ok fs \<Longrightarrow> unat (csize fs) \<le> 128"
proof -
  assume "volume_ok fs"
  then obtain e where "e < 8" "unat (csize fs) = 2 ^ e" by (rule volume_csize)
  moreover have "(2::nat) ^ e \<le> 2 ^ 7" using \<open>e < 8\<close> by (intro power_increasing) simp_all
  ultimately show ?thesis by simp
qed

lemma ucast_csize: "(ucast (csize fs) :: u32) = of_nat (unat (csize fs))"
  by (simp add: word_unat_eq_iff unat_of_nat)

lemma csize_mask:
  fixes x :: u32
  assumes "volume_ok fs"
  shows "unat (x AND (ucast (csize fs) - 1)) = unat x mod unat (csize fs)"
proof -
  obtain e where e: "unat (csize fs) = 2 ^ e" using volume_csize [OF assms] by blast
  have "(ucast (csize fs) :: u32) = 2 ^ e" by (simp add: ucast_csize e)
  then show ?thesis by (simp add: and_pow2_mask e)
qed

section \<open>Reads and FAT entries\<close>

lemma read_local_ok:
  assumes "dcache_ok disk drv (pff_cache s)" "sector \<noteq> 0xFFFFFFFF" "unat ofs < 512" "unat ofs + unat n \<le> 512"
  shows "\<exists>c. read_local disk s sector ofs n =
      Inr (Some (take (unat n) (drop (unat ofs) (sector_bytes disk drv sector))), s\<lparr>pff_cache := c\<rparr>) \<and> dcache_ok disk drv c"
proof -
  have "on_stack \<noteq> 0" "unat on_stack + unat n \<le> 4294967296" using assms(4) by (simp_all add: on_stack_def)
  from cached_disk.rd_ok [OF assms(1,2) this assms(3,4)] show ?thesis by (auto simp: read_local_def)
qed

text \<open>Words are read from a part of a sector as from the sector.\<close>

lemma ld_word_part: "i + 2 \<le> n \<Longrightarrow> o1 + n \<le> length p \<Longrightarrow> ld_word (take n (drop o1 p)) i = ld_word p (o1 + i)"
  by (simp add: ld_word_def)

lemma ld_dword_part: "i + 4 \<le> n \<Longrightarrow> o1 + n \<le> length p \<Longrightarrow> ld_dword (take n (drop o1 p)) i = ld_dword p (o1 + i)"
  by (simp add: ld_dword_def add.assoc)

lemma fat_sector_valid:
  fixes c :: u32
  assumes "volume_ok fs" "unat c < unat (n_fatent fs)" "128 \<le> unat k"
  shows "fatbase fs + c div k \<noteq> 0xFFFFFFFF"
proof -
  have "unat (c div k) = unat c div unat k" by (simp add: unat_div_distrib)
  also have "\<dots> \<le> unat c div 128" using assms(3) by (intro div_le_mono2) simp_all
  also have "\<dots> \<le> unat (n_fatent fs) div 128" using assms(2) by (intro div_le_mono) simp
  finally have "unat (fatbase fs) + unat (c div k) < 4294967295" using assms(1) by (simp add: volume_ok_def)
  then have "unat (fatbase fs + c div k) < 4294967295" by (subst unat_add_nowrap) simp_all
  then show ?thesis by auto
qed

lemma get_fat_entry:
  assumes "dcache_ok disk drv (pff_cache s)" "volume_ok (pff_fs s)" "2 \<le> unat clst" "unat clst < unat (n_fatent (pff_fs s))"
  shows "\<exists>c. get_fat disk s clst = Inr (fat_entry disk drv (pff_fs s) clst, s\<lparr>pff_cache := c\<rparr>) \<and> dcache_ok disk drv c"
proof -
  let ?fs = "pff_fs s"
  have range: "\<not> (clst < 2 \<or> clst \<ge> n_fatent ?fs)" using assms(3,4) by (simp add: word_less_nat_alt word_le_nat_alt)
  consider (fat16) "fs_type ?fs = FS_FAT16" | (fat32) "fs_type ?fs = FS_FAT32" "fs_type ?fs \<noteq> FS_FAT16"
    using assms(2) unfolding volume_ok_def by blast
  then show ?thesis
  proof cases
    case fat16
    have o1: "unat (clst mod 256 * 2) = 2 * (unat clst mod 256)"
    proof -
      have "unat (clst mod 256) = unat clst mod 256" by (simp add: unat_mod_distrib)
      then show ?thesis by (simp add: unat_word_ariths)
    qed
    have le: "unat clst mod 256 \<le> 255" using mod_less_divisor [of 256 "unat clst"] by linarith
    obtain c where "read_local disk s (fatbase ?fs + clst div 256) (clst mod 256 * 2) 2 =
        Inr (Some (take (unat (2::u32)) (drop (unat (clst mod 256 * 2)) (sector_bytes disk drv (fatbase ?fs + clst div 256)))),
          s\<lparr>pff_cache := c\<rparr>)" "dcache_ok disk drv c"
      using read_local_ok [OF assms(1), of "fatbase ?fs + clst div 256" "clst mod 256 * 2" 2]
        fat_sector_valid [OF assms(2,4), of 256] le by (auto simp: o1)
    then show ?thesis using range fat16 le by (auto simp: get_fat_def fat_entry_def o1 ld_word_part Let_def)
  next
    case fat32
    have o1: "unat (clst mod 128 * 4) = 4 * (unat clst mod 128)"
    proof -
      have "unat (clst mod 128) = unat clst mod 128" by (simp add: unat_mod_distrib)
      then show ?thesis by (simp add: unat_word_ariths)
    qed
    have le: "unat clst mod 128 \<le> 127" using mod_less_divisor [of 128 "unat clst"] by linarith
    obtain c where "read_local disk s (fatbase ?fs + clst div 128) (clst mod 128 * 4) 4 =
        Inr (Some (take (unat (4::u32)) (drop (unat (clst mod 128 * 4)) (sector_bytes disk drv (fatbase ?fs + clst div 128)))),
          s\<lparr>pff_cache := c\<rparr>)" "dcache_ok disk drv c"
      using read_local_ok [OF assms(1), of "fatbase ?fs + clst div 128" "clst mod 128 * 4" 4]
        fat_sector_valid [OF assms(2,4), of 128] le by (auto simp: o1)
    then show ?thesis using range fat32 le by (auto simp: get_fat_def fat_entry_def o1 ld_dword_part Let_def)
  qed
qed

lemma unat_minus_2: "2 \<le> unat c \<Longrightarrow> unat (c - 2) = unat c - 2" for c :: u32
  by (simp add: unat_sub word_le_nat_alt)

lemma data_sector_bound:
  assumes "volume_ok fs" "c < unat (n_fatent fs)"
  shows "unat (database fs) + (c - 2) * unat (csize fs) < 4294967296"
proof -
  have "(c - 2) * unat (csize fs) \<le> (unat (n_fatent fs) - 2) * unat (csize fs)"
    using assms(2) by (intro mult_le_mono1) simp
  moreover have "unat (database fs) + (unat (n_fatent fs) - 2) * unat (csize fs) \<le> 4294967295"
    using assms(1) unfolding volume_ok_def by blast
  ultimately show ?thesis by linarith
qed

lemma data_sector_word:
  "database fs + (c - 2) * ucast (csize fs) = of_nat (unat (database fs) + unat (c - 2) * unat (csize fs))"
  unfolding ucast_csize by simp

lemma clust2sect_valid:
  assumes "volume_ok fs" "2 \<le> unat c" "unat c < unat (n_fatent fs)"
  shows "clust2sect fs c = database fs + (c - 2) * ucast (csize fs)"
    "unat (clust2sect fs c) = unat (database fs) + (unat c - 2) * unat (csize fs)"
    "clust2sect fs c \<noteq> 0"
proof -
  have n2: "unat (n_fatent fs - 2) = unat (n_fatent fs) - 2"
    by (rule unat_minus_2) (use assms(1) in \<open>simp only: volume_ok_def\<close>)
  have lt: "\<not> c - 2 \<ge> n_fatent fs - 2"
    using assms(2,3) unfolding word_le_nat_alt n2 unat_minus_2 [OF assms(2)] by linarith
  then show 1: "clust2sect fs c = database fs + (c - 2) * ucast (csize fs)" by (simp only: clust2sect_def Let_def if_False add.commute)
  show 2: "unat (clust2sect fs c) = unat (database fs) + (unat c - 2) * unat (csize fs)"
    unfolding 1 data_sector_word unat_minus_2 [OF assms(2)]
    by (rule unat_of_nat32) (rule data_sector_bound [OF assms(1,3)])
  have "0 < unat (database fs)" using assms(1) unfolding volume_ok_def by blast
  then have "unat (clust2sect fs c) \<noteq> 0" unfolding 2 by linarith
  then show "clust2sect fs c \<noteq> 0" by (auto simp only: unat_0)
qed

lemma file_sector_valid:
  assumes "volume_ok fs" "2 \<le> unat (cl ! (n div cluster_bytes fs))" "unat (cl ! (n div cluster_bytes fs)) < unat (n_fatent fs)"
  shows "file_sector fs cl n = clust2sect fs (cl ! (n div cluster_bytes fs)) + of_nat (n div 512 mod unat (csize fs))"
    "file_sector fs cl n \<noteq> 0xFFFFFFFF"
proof -
  let ?c = "cl ! (n div cluster_bytes fs)"
  show 1: "file_sector fs cl n = clust2sect fs ?c + of_nat (n div 512 mod unat (csize fs))"
    by (simp add: file_sector_def clust2sect_valid [OF assms])
  have m: "n div 512 mod unat (csize fs) < unat (csize fs)" using csize_pos [OF assms(1)] by simp
  have "(unat ?c - 2) * unat (csize fs) + unat (csize fs) = (unat ?c - 1) * unat (csize fs)"
    using assms(2) by (metis Suc_diff_le add.commute diff_Suc_Suc mult_Suc numeral_2_eq_2 One_nat_def)
  also have "\<dots> \<le> (unat (n_fatent fs) - 2) * unat (csize fs)" using assms(3) by (intro mult_le_mono1) simp
  finally have "unat (clust2sect fs ?c) + n div 512 mod unat (csize fs) < 4294967295"
    using assms(1) m unfolding clust2sect_valid(2) [OF assms] volume_ok_def by linarith
  moreover from this have "unat (of_nat (n div 512 mod unat (csize fs)) :: u32) = n div 512 mod unat (csize fs)"
    by (intro unat_of_nat32) simp
  ultimately have "unat (file_sector fs cl n) < 4294967295"
    unfolding 1 by (subst unat_add_nowrap) simp_all
  then show "file_sector fs cl n \<noteq> 0xFFFFFFFF" by auto
qed

section \<open>Reading\<close>

lemma chain_cluster:
  assumes "chain_ok disk drv fs cl" "i < length cl"
  shows "2 \<le> unat (cl ! i)" "unat (cl ! i) < unat (n_fatent fs)"
  using assms by (auto simp: chain_ok_def list_all_length)

lemma chain_index:
  assumes "chain_ok disk drv fs cl" "volume_ok fs" "n < unat (fsize fs)"
  shows "n div cluster_bytes fs < length cl"
proof -
  have "n < length cl * cluster_bytes fs" using assms(1,3) by (simp add: chain_ok_def)
  then show ?thesis by (rule less_mult_imp_div_less)
qed

lemma chain_next:
  assumes "chain_ok disk drv fs cl" "i + 1 < length cl"
  shows "fat_entry disk drv fs (cl ! i) = cl ! (i + 1)"
  using assms by (auto simp: chain_ok_def list_all_iff)

text \<open>Moving the position within a cluster, and to the next one.\<close>

lemma div_pred_same:
  fixes f B :: nat
  assumes "0 < B" "f mod B \<noteq> 0"
  shows "(f - 1) div B = f div B"
proof -
  have "f - 1 = (f mod B - 1) + B * (f div B)" using assms by (metis add.commute add_diff_assoc2 mult_div_mod_eq less_one linorder_not_less)
  also have "\<dots> div B = f div B + (f mod B - 1) div B" using assms(1) by (subst div_mult_self2) simp_all
  finally have "(f - 1) div B = f div B + (f mod B - 1) div B" .
  moreover have "(f mod B - 1) div B = 0" using mod_less_divisor [OF assms(1), of f] by (intro div_less) linarith
  ultimately show ?thesis by simp
qed

lemma div_pred_boundary:
  fixes f B :: nat
  assumes "0 < B" "0 < f" "f mod B = 0"
  shows "(f - 1) div B + 1 = f div B"
proof -
  obtain q where q: "f = B * q" using assms(3) by blast
  then obtain q' where q': "q = Suc q'" using assms(2) by (cases q) auto
  have "f - 1 = (B - 1) + B * q'" using q q' assms(1) by simp
  then have "(f - 1) div B = (B - 1) div B + q'" using assms(1) by (simp only: div_mult_self2)
  then show ?thesis using q q' assms(1) by simp
qed

lemma mod_split: "(f::nat) mod (512 * C) = 512 * (f div 512 mod C) + f mod 512"
  by (simp add: mod_mult2_eq)

lemma next_sector_ok:
  assumes "dcache_ok disk drv (pff_cache s)" "volume_ok (pff_fs s)" "chain_ok disk drv (pff_fs s) cl"
    "positioned (pff_fs s) cl" "fptr (pff_fs s) < fsize (pff_fs s)"
  shows "\<exists>c. next_sector disk s = Inr (Some (), s\<lparr>pff_cache := c,
      pff_fs := (pff_fs s)\<lparr>curr_clust := cl ! (unat (fptr (pff_fs s)) div cluster_bytes (pff_fs s)),
        dsect := file_sector (pff_fs s) cl (unat (fptr (pff_fs s)))\<rparr>\<rparr>) \<and> dcache_ok disk drv c"
proof -
  define fs where "fs = pff_fs s"
  define f where "f = unat (fptr fs)"
  define C where "C = unat (csize fs)"
  define B where "B = cluster_bytes fs"
  note sane = assms [folded fs_def]
  have C: "0 < C" "C \<le> 128" using csize_pos [OF sane(2)] csize_le [OF sane(2)] by (simp_all add: C_def)
  have B: "B = 512 * C" by (simp add: B_def cluster_bytes_def C_def)
  have fm: "unat (fptr fs mod 512) = f mod 512" by (simp add: unat_mod_distrib f_def)
  have fm0: "fptr fs mod 512 = 0 \<longleftrightarrow> f mod 512 = 0" by (metis fm unat_0 unat_eq_zero)
  have f0: "fptr fs = 0 \<longleftrightarrow> f = 0" by (simp add: f_def unat_eq_zero)
  have fl: "f < unat (fsize fs)" using sane(5) by (simp add: f_def word_less_nat_alt)
  have ix: "f div B < length cl" using chain_index [OF sane(3,2) fl] by (simp add: B_def)
  show ?thesis
  proof (cases "f mod 512 = 0")
    case False
    then have "f mod B \<noteq> 0" unfolding B mod_split by simp
    then have "(f - 1) div B = f div B" using B C by (intro div_pred_same) simp_all
    moreover have "f \<noteq> 0" using False by auto
    ultimately have "curr_clust fs = cl ! (f div B)" "dsect fs = file_sector fs cl f"
      using sane(4) False by (simp_all add: positioned_def f0 f_def [symmetric] B_def [symmetric])
    then have "s\<lparr>pff_cache := pff_cache s, pff_fs := fs\<lparr>curr_clust := cl ! (f div B), dsect := file_sector fs cl f\<rparr>\<rparr> = s"
      by (simp add: fs_def)
    moreover have "next_sector disk s = Inr (Some (), s)" using False fm0 by (simp add: next_sector_def fs_def [symmetric])
    ultimately show ?thesis using sane(1) by (metis fs_def f_def B_def)
  next
    case True
    define cs where "cs = f div 512 mod C"
    have cs: "unat (fptr fs div 512 AND (ucast (csize fs) - 1)) = cs"
      unfolding csize_mask [OF sane(2)] by (simp add: unat_div_distrib f_def cs_def C_def)
    have csl: "cs < C" using C by (simp add: cs_def)
    define w where "w = (ucast (fptr fs div 512 AND (ucast (csize fs) - 1)) :: u8)"
    have uw: "unat w = cs" using cs csl C by (simp add: w_def unsigned_ucast_eq take_bit_nat_eq_self)
    have w0: "w = 0 \<longleftrightarrow> cs = 0" using uw by (metis unat_0 unat_eq_zero)
    have uw32: "(ucast w :: u32) = of_nat cs" by (simp add: word_unat_eq_iff uw) (use csl C in \<open>simp add: unat_of_nat32\<close>)
    have clus: "\<exists>c. (if w \<noteq> 0 then Inr (Some (), s)
        else bindR (if fptr fs = 0 then Inr (org_clust fs, s) else get_fat disk s (curr_clust fs)) (\<lambda>(clst, s).
          if clst \<le> 1 then Inr (None, s) else Inr (Some (), s\<lparr>pff_fs := (pff_fs s)\<lparr>curr_clust := clst\<rparr>\<rparr>))) =
        Inr (Some (), s\<lparr>pff_cache := c, pff_fs := fs\<lparr>curr_clust := cl ! (f div B)\<rparr>\<rparr>) \<and> dcache_ok disk drv c"
    proof (cases "cs = 0")
      case False
      then have "f mod B \<noteq> 0" unfolding B mod_split cs_def by simp
      then have "(f - 1) div B = f div B" using B C by (intro div_pred_same) simp_all
      moreover have "f \<noteq> 0" using False by (intro notI) (simp add: cs_def)
      ultimately have "curr_clust fs = cl ! (f div B)"
        using sane(4) by (simp add: positioned_def f0 f_def [symmetric] B_def [symmetric])
      then have "s\<lparr>pff_cache := pff_cache s, pff_fs := fs\<lparr>curr_clust := cl ! (f div B)\<rparr>\<rparr> = s" by (simp add: fs_def)
      then show ?thesis using False w0 sane(1) by (intro exI [of _ "pff_cache s"]) simp
    next
      case T: True
      have f: "f mod B = 0" unfolding B mod_split using T True by (simp add: cs_def)
      have big: "\<not> cl ! (f div B) \<le> 1" using chain_cluster [OF sane(3) ix] by (simp add: word_le_nat_alt)
      show ?thesis
      proof (cases "f = 0")
        case z: True
        have "org_clust fs = cl ! (f div B)" using sane(3) z by (auto simp: chain_ok_def hd_conv_nth)
        moreover have "s\<lparr>pff_cache := pff_cache s\<rparr> = s" by simp
        ultimately show ?thesis using T w0 z f0 big sane(1) by (auto simp: fs_def intro!: exI [of _ "pff_cache s"])
      next
        case nz: False
        have step: "(f - 1) div B + 1 = f div B" using B C nz f by (intro div_pred_boundary) simp_all
        have cur: "curr_clust fs = cl ! ((f - 1) div B)"
          using sane(4) nz by (simp add: positioned_def f0 f_def [symmetric] B_def [symmetric])
        have ix': "(f - 1) div B < length cl" using ix step by simp
        obtain c where c: "get_fat disk s (curr_clust fs) = Inr (fat_entry disk drv fs (curr_clust fs), s\<lparr>pff_cache := c\<rparr>)"
          "dcache_ok disk drv c"
          using get_fat_entry [OF assms(1,2), folded fs_def] chain_cluster [OF sane(3) ix', folded cur] by blast
        have "fat_entry disk drv fs (curr_clust fs) = cl ! (f div B)"
          unfolding cur using chain_next [OF sane(3), of "(f - 1) div B", unfolded step] ix by blast
        then show ?thesis using T w0 nz f0 big c by (auto simp: fs_def)
      qed
    qed
    then obtain c where c: "(if w \<noteq> 0 then Inr (Some (), s)
        else bindR (if fptr fs = 0 then Inr (org_clust fs, s) else get_fat disk s (curr_clust fs)) (\<lambda>(clst, s).
          if clst \<le> 1 then Inr (None, s) else Inr (Some (), s\<lparr>pff_fs := (pff_fs s)\<lparr>curr_clust := clst\<rparr>\<rparr>))) =
        Inr (Some (), s\<lparr>pff_cache := c, pff_fs := fs\<lparr>curr_clust := cl ! (f div B)\<rparr>\<rparr>)" "dcache_ok disk drv c" by blast
    note cc = chain_cluster [OF sane(3) ix]
    have sect: "clust2sect (fs\<lparr>curr_clust := cl ! (f div B)\<rparr>) (cl ! (f div B)) = clust2sect fs (cl ! (f div B))"
      by (simp add: clust2sect_def Let_def)
    have "next_sector disk s = Inr (Some (), s\<lparr>pff_cache := c, pff_fs := fs\<lparr>curr_clust := cl ! (f div B),
        dsect := clust2sect fs (cl ! (f div B)) + ucast w\<rparr>\<rparr>)"
      using True c(1) clust2sect_valid(3) [OF sane(2) cc]
      by (simp add: next_sector_def fs_def [symmetric] w_def [symmetric] fm0 Let_def sect)
    moreover have "file_sector fs cl f = clust2sect fs (cl ! (f div B)) + ucast w"
      using file_sector_valid(1) [OF sane(2), of cl f] cc by (simp add: B_def uw32 cs_def C_def)
    ultimately show ?thesis using c(2) by (auto simp: fs_def f_def B_def)
  qed
qed

text \<open>What depends on the volume and the file does not change with the position.\<close>

lemma position_independent [simp]:
  "cluster_bytes (fs\<lparr>fptr := a\<rparr>) = cluster_bytes fs" "cluster_bytes (fs\<lparr>curr_clust := b\<rparr>) = cluster_bytes fs"
  "cluster_bytes (fs\<lparr>dsect := d\<rparr>) = cluster_bytes fs"
  "volume_ok (fs\<lparr>fptr := a\<rparr>) = volume_ok fs" "volume_ok (fs\<lparr>curr_clust := b\<rparr>) = volume_ok fs"
  "volume_ok (fs\<lparr>dsect := d\<rparr>) = volume_ok fs"
  "chain_ok disk drv (fs\<lparr>fptr := a\<rparr>) cl = chain_ok disk drv fs cl"
  "chain_ok disk drv (fs\<lparr>curr_clust := b\<rparr>) cl = chain_ok disk drv fs cl"
  "chain_ok disk drv (fs\<lparr>dsect := d\<rparr>) cl = chain_ok disk drv fs cl"
  "file_sector (fs\<lparr>fptr := a\<rparr>) cl n = file_sector fs cl n" "file_sector (fs\<lparr>curr_clust := b\<rparr>) cl n = file_sector fs cl n"
  "file_sector (fs\<lparr>dsect := d\<rparr>) cl n = file_sector fs cl n"
  "file_byte disk drv (fs\<lparr>fptr := a\<rparr>) cl n = file_byte disk drv fs cl n"
  "file_byte disk drv (fs\<lparr>curr_clust := b\<rparr>) cl n = file_byte disk drv fs cl n"
  "file_byte disk drv (fs\<lparr>dsect := d\<rparr>) cl n = file_byte disk drv fs cl n"
  "clust2sect (fs\<lparr>fptr := a\<rparr>) c = clust2sect fs c" "clust2sect (fs\<lparr>curr_clust := b\<rparr>) c = clust2sect fs c"
  "clust2sect (fs\<lparr>dsect := d\<rparr>) c = clust2sect fs c"
  by (simp_all add: cluster_bytes_def volume_ok_def chain_ok_def fat_entry_def file_sector_def file_byte_def clust2sect_def Let_def)

lemma same_sector:
  assumes "n div 512 = m div 512"
  shows "file_sector fs cl n = file_sector fs cl m" "n div cluster_bytes fs = m div cluster_bytes fs"
proof -
  show "n div cluster_bytes fs = m div cluster_bytes fs" by (simp add: cluster_bytes_def div_mult2_eq assms)
  then show "file_sector fs cl n = file_sector fs cl m" by (simp add: file_sector_def assms)
qed

lemma within_sector:
  fixes f k :: nat
  assumes "f mod 512 + k < 512"
  shows "(f + k) div 512 = f div 512" "(f + k) mod 512 = f mod 512 + k"
proof -
  have e: "f + k = (f mod 512 + k) + 512 * (f div 512)" by simp
  have "(f + k) div 512 = (f mod 512 + k) div 512 + f div 512" by (subst e) (simp only: div_mult_self2)
  then show "(f + k) div 512 = f div 512" using assms by simp
  have "(f + k) mod 512 = (f mod 512 + k) mod 512" by (subst e) (simp only: mod_mult_self2)
  then show "(f + k) mod 512 = f mod 512 + k" using assms by simp
qed

lemma sector_part:
  assumes "f mod 512 + r \<le> 512"
  shows "take r (drop (f mod 512) (sector_bytes disk drv (file_sector fs cl f))) = map (file_byte disk drv fs cl) [f..<f + r]"
proof (rule nth_equalityI)
  show "length (take r (drop (f mod 512) (sector_bytes disk drv (file_sector fs cl f)))) = length (map (file_byte disk drv fs cl) [f..<f + r])"
    using assms by simp
  fix k assume "k < length (take r (drop (f mod 512) (sector_bytes disk drv (file_sector fs cl f))))"
  then have k: "k < r" by simp
  then have "f mod 512 + k < 512" using assms by simp
  note w = within_sector [OF this] and s = same_sector(1) [OF within_sector(1) [OF this], of fs cl]
  show "take r (drop (f mod 512) (sector_bytes disk drv (file_sector fs cl f))) ! k = map (file_byte disk drv fs cl) [f..<f + r] ! k"
    using k assms by (simp add: sector_bytes_def file_byte_def s w)
qed

lemma positioned_advance:
  assumes "volume_ok fs" "positioned fs cl" "f = unat (fptr fs)" "0 < r" "f mod 512 + r \<le> 512" "f + r \<le> unat (fsize fs)"
    and "fs' = fs\<lparr>curr_clust := cl ! (f div cluster_bytes fs), dsect := file_sector fs cl f, fptr := of_nat (f + r)\<rparr>"
  shows "positioned fs' cl" "unat (fptr fs') = f + r"
proof -
  have "unat (fsize fs) < 4294967296" using unsigned_less [of "fsize fs", where ?'a = nat] by simp
  then have u: "unat (of_nat (f + r) :: u32) = f + r" using assms(6) by (intro unat_of_nat32) simp
  then show un: "unat (fptr fs') = f + r" by (simp add: assms(7) del: of_nat_add)
  have "f mod 512 + (r - 1) < 512" using assms(4,5) by simp
  from within_sector(1) [OF this] have "(f + r - 1) div 512 = f div 512" using assms(4) by simp
  from same_sector(2) [OF this] have c: "(f + r - 1) div cluster_bytes fs = f div cluster_bytes fs" .
  have d: "file_sector fs cl (f + r) = file_sector fs cl f" if "(f + r) mod 512 \<noteq> 0"
  proof -
    have "f mod 512 + r \<noteq> 512" using that by (metis mod_add_left_eq mod_self)
    then have "f mod 512 + r < 512" using assms(5) by simp
    from same_sector(1) [OF within_sector(1) [OF this]] show ?thesis .
  qed
  have cb: "cluster_bytes fs' = cluster_bytes fs" "fsize fs' = fsize fs" "curr_clust fs' = cl ! (f div cluster_bytes fs)"
    "dsect fs' = file_sector fs cl f" "file_sector fs' cl n = file_sector fs cl n" for n
    by (simp_all add: assms(7))
  show "positioned fs' cl"
    unfolding positioned_def cb un word_le_nat_alt using assms(6) c d by auto
qed

text \<open>The same file at another position.\<close>

definition same_file :: "FATFS \<Rightarrow> FATFS \<Rightarrow> bool" where
  "same_file fs fs' \<longleftrightarrow> fs_type fs' = fs_type fs \<and> fs_flag fs' = fs_flag fs \<and> csize fs' = csize fs \<and>
     n_rootdir fs' = n_rootdir fs \<and> n_fatent fs' = n_fatent fs \<and> fatbase fs' = fatbase fs \<and>
     dirbase fs' = dirbase fs \<and> database fs' = database fs \<and> fsize fs' = fsize fs \<and> org_clust fs' = org_clust fs"

lemma same_file_refl: "same_file fs fs"
  by (simp add: same_file_def)

lemma same_file_trans: "same_file a b \<Longrightarrow> same_file b c \<Longrightarrow> same_file a c"
  by (simp add: same_file_def)

lemma same_fileD:
  assumes "same_file fs fs'"
  shows "cluster_bytes fs' = cluster_bytes fs" "fsize fs' = fsize fs" "csize fs' = csize fs" "n_fatent fs' = n_fatent fs"
    "org_clust fs' = org_clust fs" "file_sector fs' cl n = file_sector fs cl n" "volume_ok fs' = volume_ok fs"
    "fat_entry disk drv fs' c = fat_entry disk drv fs c" "clust2sect fs' c = clust2sect fs c" "fs_flag fs' = fs_flag fs"
  using assms by (simp_all add: same_file_def cluster_bytes_def file_sector_def volume_ok_def fat_entry_def clust2sect_def Let_def)

lemma same_file_chain:
  assumes "same_file fs fs'"
  shows "chain_ok disk drv fs' cl = chain_ok disk drv fs cl" "file_byte disk drv fs' cl = file_byte disk drv fs cl"
  by (simp_all add: chain_ok_def file_byte_def same_fileD [OF assms] fun_eq_iff)

lemma read_body_ok:
  assumes "file_open disk drv s cl" "unat (fptr (pff_fs s)) + unat btr \<le> unat (fsize (pff_fs s))" "btr \<noteq> 0"
    "rbuff \<noteq> 0" "unat rbuff + unat btr < 4294967296"
  shows "\<exists>r s'. read_body disk (False, rbuff, btr, br, out, s) = Inr (False, rbuff + of_nat r, btr - of_nat r, br + of_nat r,
      out @ map (file_byte disk drv (pff_fs s) cl) [unat (fptr (pff_fs s))..<unat (fptr (pff_fs s)) + r], s') \<and>
    0 < r \<and> r \<le> unat btr \<and> r \<le> 512 \<and> file_open disk drv s' cl \<and> unat (fptr (pff_fs s')) = unat (fptr (pff_fs s)) + r \<and>
    same_file (pff_fs s) (pff_fs s')"
proof -
  define fs where "fs = pff_fs s"
  define f where "f = unat (fptr fs)"
  define r where "r = min (unat btr) (512 - f mod 512)"
  have o: "pff_mounted s" "fs_flag fs AND FA_OPENED \<noteq> 0" "dcache_ok disk drv (pff_cache s)" "volume_ok fs"
    "chain_ok disk drv fs cl" "positioned fs cl"
    using assms(1) by (simp_all add: file_open_def fs_def)
  have b0: "0 < unat btr" using assms(3) by (simp add: unat_gt_0)
  have lt: "fptr fs < fsize fs" using assms(2) b0 unfolding word_less_nat_alt fs_def by linarith
  have fl: "f < unat (fsize fs)" using lt by (simp add: f_def word_less_nat_alt)
  obtain c where ns: "next_sector disk s = Inr (Some (), s\<lparr>pff_cache := c,
      pff_fs := fs\<lparr>curr_clust := cl ! (f div cluster_bytes fs), dsect := file_sector fs cl f\<rparr>\<rparr>)" and c: "dcache_ok disk drv c"
    using next_sector_ok [OF o(3) o(4-6) [unfolded fs_def] lt [unfolded fs_def]] unfolding fs_def [symmetric] f_def [symmetric] by blast
  have fm: "f mod 512 < 512" by simp
  have um: "unat (fptr fs mod 512) = f mod 512" by (simp add: unat_mod_distrib f_def)
  have ur: "unat (512 - fptr fs mod 512) = 512 - f mod 512" using fm by (simp add: unat_sub word_le_nat_alt um)
  define rw where "rw = (if 512 - fptr fs mod 512 > btr then btr else 512 - fptr fs mod 512)"
  have urw: "unat rw = r" using ur by (simp add: rw_def r_def word_less_nat_alt min_def)
  have rw: "rw = of_nat r" by (simp flip: urw)
  have r: "0 < r" "r \<le> unat btr" "f mod 512 + r \<le> 512" "r \<le> 512" using b0 fm by (auto simp: r_def)
  note cc = chain_cluster [OF o(5) chain_index [OF o(5,4) fl]]
  have sec: "file_sector fs cl f \<noteq> 0xFFFFFFFF" by (rule file_sector_valid(2) [OF o(4) cc])
  have "unat rbuff + unat rw \<le> 4294967296" "unat (fptr fs mod 512) < 512" "unat (fptr fs mod 512) + unat rw \<le> 512"
    using assms(5) r fm by (simp_all add: um urw)
  from cached_disk.rd_ok [OF c sec assms(4) this] obtain c' where
    rd: "disk_readp disk c rbuff (file_sector fs cl f) (fptr fs mod 512) rw =
      Inr (RES_OK, map (file_byte disk drv fs cl) [f..<f + r], c')" and c': "dcache_ok disk drv c'"
    unfolding um urw sector_part [OF r(3)] by blast
  define fs' where "fs' = fs\<lparr>curr_clust := cl ! (f div cluster_bytes fs), dsect := file_sector fs cl f, fptr := of_nat (f + r)\<rparr>"
  have fr: "f + r \<le> unat (fsize fs)" using assms(2) r(2) by (simp add: fs_def [symmetric] f_def)
  note adv = positioned_advance [OF o(4,6) f_def r(1,3) fr fs'_def]
  have fp: "fptr fs + rw = of_nat (f + r)" by (simp add: rw f_def)
  have "read_body disk (False, rbuff, btr, br, out, s) = Inr (False, rbuff + rw, btr - rw, br + rw,
      out @ map (file_byte disk drv fs cl) [f..<f + r], s\<lparr>pff_cache := c', pff_fs := fs'\<rparr>)"
    using assms(4) rd by (simp add: read_body_def ns Let_def rw_def [symmetric] fs'_def fp del: of_nat_add split del: if_split cong: if_cong)
  moreover have "file_open disk drv (s\<lparr>pff_cache := c', pff_fs := fs'\<rparr>) cl"
    using o c' adv(1) by (simp add: file_open_def fs'_def)
  moreover have "same_file fs fs'" by (simp add: fs'_def same_file_def)
  ultimately show ?thesis using r adv(2) unfolding fs_def [symmetric] f_def [symmetric] rw
    by (intro exI [of _ r] exI [of _ "s\<lparr>pff_cache := c', pff_fs := fs'\<rparr>"]) simp
qed

lemma pf_read_ok:
  assumes "file_open disk drv s cl" "buff \<noteq> 0"
    and n: "n = min (unat btr) (unat (fsize (pff_fs s)) - unat (fptr (pff_fs s)))" and "unat buff + n < 4294967296"
  shows "\<exists>s'. pf_read disk s buff btr = Inr (FR_OK, of_nat n,
      map (file_byte disk drv (pff_fs s) cl) [unat (fptr (pff_fs s))..<unat (fptr (pff_fs s)) + n], s') \<and>
    file_open disk drv s' cl \<and> unat (fptr (pff_fs s')) = unat (fptr (pff_fs s)) + n \<and> same_file (pff_fs s) (pff_fs s')"
proof -
  define fs where "fs = pff_fs s"
  define f where "f = unat (fptr fs)"
  have pos: "fptr fs \<le> fsize fs" and fl: "pff_mounted s" "fs_flag fs AND FA_OPENED \<noteq> 0"
    using assms(1) by (simp_all add: file_open_def positioned_def fs_def)
  have fle: "f \<le> unat (fsize fs)" using pos by (simp add: f_def word_le_nat_alt)
  define b where "b = (if btr > fsize fs - fptr fs then fsize fs - fptr fs else btr)"
  have "unat (fsize fs - fptr fs) = unat (fsize fs) - f" using pos by (simp add: unat_sub f_def)
  then have ub: "unat b = n" by (simp add: b_def n word_less_nat_alt fs_def [symmetric] f_def [symmetric] min_def)
  have fn: "f + n \<le> unat (fsize fs)" using fle n by (simp add: fs_def [symmetric] f_def [symmetric])
  let ?I = "\<lambda>(failed, rbuff, btr, br, out, s'). \<not> failed \<and> file_open disk drv s' cl \<and> same_file fs (pff_fs s') \<and>
    unat (fptr (pff_fs s')) = f + unat br \<and> unat br + unat btr = n \<and> rbuff = buff + br \<and>
    out = map (file_byte disk drv fs cl) [f..<f + unat br]"
  let ?m = "\<lambda>(failed, rbuff, btr, br, out, s'). unat (btr :: u32)"
  have "\<exists>t. whileR (unat b + 1) read_guard (read_body disk) (False, buff, b, 0, [], s) = Inr t \<and> ?I t \<and> read_guard t = Inr False"
  proof (rule whileR_total [where I = ?I and m = ?m])
    show "?I (False, buff, b, 0, [], s)" using assms(1) ub by (simp add: same_file_refl fs_def f_def)
    show "?m (False, buff, b, 0, [], s) < unat b + 1" by simp
    show "\<exists>t. read_guard st = Inr t" for st by (cases st) (simp add: read_guard_def)
    fix st assume I: "?I st" and g: "read_guard st = Inr True"
    obtain rbuff btr br out s' where st: "st = (False, rbuff, btr, br, out, s')" using I by (cases st) auto
    have i: "file_open disk drv s' cl" "same_file fs (pff_fs s')" "unat (fptr (pff_fs s')) = f + unat br"
      "unat br + unat btr = n" "rbuff = buff + br" "out = map (file_byte disk drv fs cl) [f..<f + unat br]"
      using I by (simp_all add: st)
    have nz: "btr \<noteq> 0" using g by (simp add: st read_guard_def)
    have ubr: "unat (buff + br) = unat buff + unat br" using i(4) assms(4) by (intro unat_add_nowrap) simp
    have "0 < unat buff" using assms(2) by (simp add: unat_gt_0)
    then have "unat rbuff \<noteq> 0" using ubr i(5) by simp
    then have rb: "rbuff \<noteq> 0" by auto
    have rl: "unat rbuff + unat btr < 4294967296" using assms(4) i(4,5) ubr by simp
    have fsz: "unat (fptr (pff_fs s')) + unat btr \<le> unat (fsize (pff_fs s'))"
      using fn i(3,4) by (simp add: same_fileD(2) [OF i(2)])
    from read_body_ok [OF i(1) fsz nz rb rl, of br out] obtain r s'' where
      b: "read_body disk st = Inr (False, rbuff + of_nat r, btr - of_nat r, br + of_nat r,
        out @ map (file_byte disk drv (pff_fs s') cl) [f + unat br..<f + unat br + r], s'')"
      and r: "0 < r" "r \<le> unat btr" and o: "file_open disk drv s'' cl"
      "unat (fptr (pff_fs s'')) = f + unat br + r" "same_file (pff_fs s') (pff_fs s'')"
      unfolding st i(3) by blast
    have ur: "unat (of_nat r :: u32) = r" using r(2) unsigned_less [of btr, where ?'a = nat] by (intro unat_of_nat32) simp
    have u1: "unat (btr - of_nat r) = unat btr - r" using r(2) by (simp add: unat_sub word_le_nat_alt ur)
    have u2: "unat (br + of_nat r) = unat br + r"
      using i(4) r(2) assms(4) by (subst unat_add_nowrap) (simp_all add: ur)
    have out: "out @ map (file_byte disk drv (pff_fs s') cl) [f + unat br..<f + unat br + r] =
      map (file_byte disk drv fs cl) [f..<f + (unat br + r)]"
      unfolding i(6) same_file_chain(2) [OF i(2)] map_append [symmetric] add.assoc [symmetric]
      by (simp only: upt_add_eq_append [OF le_add1])
    show "\<exists>st'. read_body disk st = Inr st' \<and> ?I st' \<and> ?m st' < ?m st"
      unfolding b out using r o same_file_trans [OF i(2) o(3)] i(4,5) by (simp add: u1 u2 st add.assoc)
  qed
  then obtain failed rbuff btr' br out s' where w: "whileR (unat b + 1) read_guard (read_body disk) (False, buff, b, 0, [], s) =
      Inr (failed, rbuff, btr', br, out, s')" "?I (failed, rbuff, btr', br, out, s')" "read_guard (failed, rbuff, btr', br, out, s') = Inr False"
    by auto
  have "unat br = n" using w(2,3) by (auto simp: read_guard_def)
  then have br: "br = of_nat n" by auto
  have "pf_read disk s buff btr = Inr (FR_OK, br, out, s')"
    unfolding pf_read_def Let_def fs_def [symmetric] b_def [symmetric] w(1) using fl w(2) by simp
  then show ?thesis using w(2) \<open>unat br = n\<close> unfolding fs_def [symmetric] f_def [symmetric] br by (intro exI [of _ s']) auto
qed

section \<open>Seeking\<close>

lemma and_not_pow2_mask:
  fixes x :: u32
  shows "unat (x AND NOT (2 ^ k - 1)) = 2 ^ k * (unat x div 2 ^ k)"
proof -
  let ?m = "2 ^ k - 1 :: u32"
  have "(x AND ?m) AND (x AND NOT ?m) = 0" by (simp add: bit_eq_iff bit_and_iff bit_not_iff)
  then have "(x AND ?m) + (x AND NOT ?m) = (x AND ?m) OR (x AND NOT ?m)" by (rule disjunctive_add_eq_or)
  also have "\<dots> = x" by (simp flip: bit.conj_disj_distrib)
  finally have "x AND NOT ?m = x - (x AND ?m)" by (simp add: algebra_simps)
  moreover have "(x AND ?m) \<le> x" by (rule word_and_le2)
  ultimately have "unat (x AND NOT ?m) = unat x - unat x mod 2 ^ k" by (simp add: unat_sub and_pow2_mask)
  then show ?thesis by (simp add: minus_mod_eq_mult_div)
qed

lemma unat_bcs:
  assumes "volume_ok fs"
  shows "unat (ucast (csize fs) * 512 :: u32) = cluster_bytes fs" "cluster_bytes fs \<le> 65536" "0 < cluster_bytes fs"
proof -
  show le: "cluster_bytes fs \<le> 65536" "0 < cluster_bytes fs"
    using csize_le [OF assms] csize_pos [OF assms] by (simp_all add: cluster_bytes_def)
  have "(ucast (csize fs) * 512 :: u32) = of_nat (cluster_bytes fs)" unfolding cluster_bytes_def ucast_csize by simp
  also have "unat \<dots> = cluster_bytes fs" by (rule unat_of_nat32) (use le in linarith)
  finally show "unat (ucast (csize fs) * 512 :: u32) = cluster_bytes fs" .
qed

lemma round_to_cluster:
  fixes x :: u32
  assumes "volume_ok fs"
  shows "unat (x AND NOT (ucast (csize fs) * 512 - 1)) = cluster_bytes fs * (unat x div cluster_bytes fs)"
proof -
  obtain e where e: "unat (csize fs) = 2 ^ e" using volume_csize [OF assms] by blast
  have "(ucast (csize fs) * 512 :: u32) = 2 ^ (e + 9)" by (simp add: ucast_csize e power_add)
  moreover have "cluster_bytes fs = 2 ^ (e + 9)" by (simp add: cluster_bytes_def e power_add)
  ultimately show ?thesis by (simp only: and_not_pow2_mask)
qed

text \<open>
  The state while the chain is followed: \<open>clst\<close> is cluster \<open>k\<close> of the file, the position
  its first byte, and \<open>target\<close> bytes are still to come.
\<close>

definition seeking :: "disk \<Rightarrow> u16 \<Rightarrow> FATFS \<Rightarrow> u32 list \<Rightarrow> nat \<Rightarrow> bool \<times> u32 \<times> u32 \<times> pff \<Rightarrow> bool" where
  "seeking disk drv fs cl target = (\<lambda>(failed, clst, ofs, s).
     \<not> failed \<and> pff_mounted s \<and> dcache_ok disk drv (pff_cache s) \<and> same_file fs (pff_fs s) \<and> 0 < unat ofs \<and>
     unat (fptr (pff_fs s)) + unat ofs = target \<and> curr_clust (pff_fs s) = clst \<and>
     unat (fptr (pff_fs s)) mod cluster_bytes fs = 0 \<and> clst = cl ! (unat (fptr (pff_fs s)) div cluster_bytes fs))"

lemma seek_body_ok:
  assumes "volume_ok fs" "chain_ok disk drv fs cl" "target \<le> unat (fsize fs)" "bcs = ucast (csize fs) * 512"
    and "seeking disk drv fs cl target (failed, clst, ofs, s)" "ofs > bcs"
  shows "\<exists>clst' s'. seek_body disk bcs (failed, clst, ofs, s) = Inr (False, clst', ofs - bcs, s') \<and>
    seeking disk drv fs cl target (False, clst', ofs - bcs, s')"
proof -
  note i = assms(5) [unfolded seeking_def prod.case]
  define B where "B = cluster_bytes fs"
  define f where "f = unat (fptr (pff_fs s))"
  have B: "unat bcs = B" "0 < B" "B \<le> 65536" using unat_bcs [OF assms(1)] by (simp_all add: assms(4) B_def)
  obtain k where k: "f = B * k" using i by (auto simp: f_def B_def)
  have clst: "clst = cl ! k" using i k B(2) by (simp add: f_def B_def)
  have gt: "B < unat ofs" using assms(6) B by (simp add: word_less_nat_alt)
  have "f + B < length cl * B" using gt i assms(2,3) unfolding chain_ok_def f_def B_def by linarith
  then have "(k + 1) * B < length cl * B" using k by (simp add: algebra_simps)
  then have kl: "k + 1 < length cl" by (simp only: mult_less_cancel2)
  note sf = same_fileD [of fs "pff_fs s"] 
  have ck: "2 \<le> unat clst" "unat clst < unat (n_fatent (pff_fs s))"
    using chain_cluster [OF assms(2), of k] kl i by (simp_all add: clst sf(4))
  have "volume_ok (pff_fs s)" using assms(1) i by (simp add: sf(7))
  then obtain c where c: "get_fat disk s clst = Inr (fat_entry disk drv fs clst, s\<lparr>pff_cache := c\<rparr>)" "dcache_ok disk drv c"
    using get_fat_entry [of disk drv s clst] i ck by (auto simp: sf(8))
  have nxt: "fat_entry disk drv fs clst = cl ! (k + 1)" unfolding clst by (rule chain_next [OF assms(2) kl])
  have c1: "2 \<le> unat (cl ! (k + 1))" "unat (cl ! (k + 1)) < unat (n_fatent (pff_fs s))"
    using chain_cluster [OF assms(2) kl] i by (simp_all add: sf(4))
  then have ok: "\<not> (cl ! (k + 1) \<le> 1 \<or> cl ! (k + 1) \<ge> n_fatent (pff_fs s))" by (simp add: word_le_nat_alt)
  define s' where "s' = s\<lparr>pff_cache := c, pff_fs := (pff_fs s)\<lparr>curr_clust := cl ! (k + 1), fptr := fptr (pff_fs s) + bcs\<rparr>\<rparr>"
  have "seek_body disk bcs (failed, clst, ofs, s) = Inr (False, cl ! (k + 1), ofs - bcs, s')"
    unfolding seek_body_def prod.case c(1) nxt bindR_Inr using ok by (simp add: s'_def)
  moreover have uf: "unat (fptr (pff_fs s')) = f + B"
  proof -
    have "unat (fsize fs) < 4294967296" using unsigned_less [of "fsize fs", where ?'a = nat] by simp
    then have "f + B < 4294967296" using gt i assms(3) by (simp add: f_def)
    then show ?thesis by (simp add: s'_def unat_add_nowrap B f_def)
  qed
  moreover have "unat (ofs - bcs) = unat ofs - B" using gt B by (simp add: unat_sub word_le_nat_alt)
  moreover have "f + B = B * (k + 1)" by (simp add: k)
  ultimately show ?thesis
    using i gt c(2) B(2) unfolding seeking_def prod.case B_def [symmetric] f_def [symmetric]
    by (intro exI [of _ "cl ! (k + 1)"] exI [of _ s']) (auto simp: s'_def same_file_def f_def)
qed

lemma seek_loop:
  assumes "volume_ok fs" "chain_ok disk drv fs cl" "target \<le> unat (fsize fs)" "bcs = ucast (csize fs) * 512"
    and "seeking disk drv fs cl target (False, clst, ofs, s)"
  shows "\<exists>clst' ofs' s'. whileR (unat ofs + 1) (\<lambda>(failed, clst, ofs, s). Inr (\<not> failed \<and> ofs > bcs)) (seek_body disk bcs)
      (False, clst, ofs, s) = Inr (False, clst', ofs', s') \<and>
    seeking disk drv fs cl target (False, clst', ofs', s') \<and> unat ofs' \<le> cluster_bytes fs"
proof -
  let ?g = "\<lambda>(failed, clst, ofs, s). Inr (\<not> failed \<and> ofs > bcs) :: bool res"
  have B: "unat bcs = cluster_bytes fs" "0 < cluster_bytes fs" using unat_bcs [OF assms(1)] by (simp_all add: assms(4))
  have "\<exists>t. whileR (unat ofs + 1) ?g (seek_body disk bcs) (False, clst, ofs, s) = Inr t \<and>
    seeking disk drv fs cl target t \<and> ?g t = Inr False"
  proof (rule whileR_total [where I = "seeking disk drv fs cl target" and m = "\<lambda>(failed, clst, ofs, s). unat ofs"])
    show "seeking disk drv fs cl target (False, clst, ofs, s)" by (rule assms(5))
    show "(case (False, clst, ofs, s) of (failed, clst, ofs, s) \<Rightarrow> unat ofs) < unat ofs + 1" by simp
    show "\<exists>t. ?g st = Inr t" for st by (cases st) simp
    fix st assume I: "seeking disk drv fs cl target st" and g: "?g st = Inr True"
    obtain failed c o1 s1 where st: "st = (failed, c, o1, s1)" by (cases st)
    have gt: "o1 > bcs" using g st by simp
    have "unat (o1 - bcs) < unat o1"
      using gt B by (simp add: unat_sub word_less_nat_alt word_le_nat_alt)
    then show "\<exists>st'. seek_body disk bcs st = Inr st' \<and> seeking disk drv fs cl target st' \<and>
      (case st' of (failed, clst, ofs, s) \<Rightarrow> unat ofs) < (case st of (failed, clst, ofs, s) \<Rightarrow> unat ofs)"
      using seek_body_ok [OF assms(1-4) I [unfolded st] gt] st by auto
  qed
  then obtain failed c o1 s1 where 1: "whileR (unat ofs + 1) ?g (seek_body disk bcs) (False, clst, ofs, s) = Inr (failed, c, o1, s1)"
    "seeking disk drv fs cl target (failed, c, o1, s1)" "?g (failed, c, o1, s1) = Inr False" by (metis prod_cases4)
  have "\<not> failed" using 1(2) by (simp add: seeking_def)
  then have "unat o1 \<le> cluster_bytes fs" using 1(3) B by (simp add: word_less_nat_alt)
  then show ?thesis using 1 \<open>\<not> failed\<close> by (intro exI [of _ c] exI [of _ o1] exI [of _ s1]) simp
qed

lemma seek_start_ok:
  assumes "file_open disk drv s cl" "fs = pff_fs s" "0 < unat ofs" "bcs = ucast (csize fs) * 512"
    "seek_start fs ofs bcs = (clst, ofs', fs')"
  shows "seeking disk drv fs cl (unat ofs) (False, clst, ofs', s\<lparr>pff_fs := fs'\<rparr>)"
proof -
  have o: "pff_mounted s" "dcache_ok disk drv (pff_cache s)" "volume_ok fs" "chain_ok disk drv fs cl" "positioned fs cl"
    using assms(1) by (simp_all add: file_open_def assms(2))
  define B where "B = cluster_bytes fs"
  have B: "unat bcs = B" "0 < B" using unat_bcs [OF o(3)] by (simp_all add: assms(4) B_def)
  have o1: "unat (ofs - 1) = unat ofs - 1" using assms(3) by (simp add: unat_sub word_le_nat_alt)
  show ?thesis
  proof (cases "fptr fs > 0 \<and> (ofs - 1) div bcs \<ge> (fptr fs - 1) div bcs")
    case True
    define i where "i = unat (fptr fs) - 1"
    have i: "unat (fptr fs - 1) = i" "fptr fs \<noteq> 0"
      using True by (auto simp: i_def unat_sub word_le_nat_alt word_less_nat_alt Suc_le_eq)
    have le: "i div B \<le> (unat ofs - 1) div B" using True by (simp add: word_le_nat_alt unat_div_distrib i o1 B)
    have uf: "unat ((fptr fs - 1) AND NOT (bcs - 1)) = B * (i div B)"
      unfolding assms(4) round_to_cluster [OF o(3)] B_def i ..
    have "B * (i div B) \<le> B * ((unat ofs - 1) div B)" using le by simp
    also have "\<dots> \<le> unat ofs - 1" by simp
    finally have lt: "B * (i div B) < unat ofs" using assms(3) by linarith
    have uo: "unat (ofs - ((fptr fs - 1) AND NOT (bcs - 1))) = unat ofs - B * (i div B)"
      using lt by (simp add: unat_sub word_le_nat_alt uf)
    have cur: "curr_clust fs = cl ! (i div B)" using o(5) i(2) by (simp add: positioned_def i_def B_def)
    have e: "clst = curr_clust fs" "ofs' = ofs - ((fptr fs - 1) AND NOT (bcs - 1))" "fs' = fs\<lparr>fptr := (fptr fs - 1) AND NOT (bcs - 1)\<rparr>"
      using assms(5) True by (simp_all add: seek_start_def Let_def)
    show ?thesis
      unfolding seeking_def prod.case e using o lt B(2)
      by (simp add: uf uo cur B_def [symmetric] same_file_def assms(2) [symmetric])
  next
    case False
    then have e: "clst = org_clust fs" "ofs' = ofs" "fs' = fs\<lparr>fptr := 0, curr_clust := org_clust fs\<rparr>"
      using assms(5) by (auto simp: seek_start_def Let_def)
    have "org_clust fs = cl ! 0" using o(4) by (auto simp: chain_ok_def hd_conv_nth)
    then show ?thesis unfolding seeking_def prod.case e using o assms(3) by (simp add: same_file_def assms(2) [symmetric])
  qed
qed

lemma seek_finish_ok:
  assumes "volume_ok fs" "chain_ok disk drv fs cl" "target \<le> unat (fsize fs)" "fs_flag fs AND FA_OPENED \<noteq> 0"
    "seeking disk drv fs cl target (False, clst, ofs, s)" "unat ofs \<le> cluster_bytes fs"
  shows "\<exists>s'. seek_finish clst ofs s = (FR_OK, s') \<and> file_open disk drv s' cl \<and> unat (fptr (pff_fs s')) = target \<and>
    same_file fs (pff_fs s')"
proof -
  note i = assms(5) [unfolded seeking_def prod.case]
  define B where "B = cluster_bytes fs"
  define f where "f = unat (fptr (pff_fs s))"
  have B: "0 < B" "B = 512 * unat (csize fs)" using unat_bcs [OF assms(1)] by (simp_all add: B_def cluster_bytes_def)
  obtain k where k: "f = B * k" using i by (auto simp: f_def B_def)
  have clst: "clst = cl ! k" using i k B(1) by (simp add: f_def B_def)
  have sum: "f + unat ofs = target" "0 < unat ofs" "unat ofs \<le> B" using i assms(6) by (simp_all add: f_def B_def)
  have "unat (fsize fs) < 4294967296" using unsigned_less [of "fsize fs", where ?'a = nat] by simp
  then have uf: "unat (fptr (pff_fs s) + ofs) = target" using sum(1) assms(3) by (subst unat_add_nowrap) (simp_all add: f_def)
  have "target - 1 = (unat ofs - 1) + B * k" using sum k by simp
  then have "(target - 1) div B = (unat ofs - 1) div B + k" using B(1) by (simp only: div_mult_self2)
  then have ck: "(target - 1) div B = k" using sum(2,3) B(1) by simp
  have "target - 1 < unat (fsize fs)" using assms(3) sum by linarith
  from chain_index [OF assms(2,1) this] have kl: "k < length cl" using ck by (simp add: B_def)
  have sf: "same_file fs (pff_fs s)" using i by blast
  note cv = chain_cluster [OF assms(2) kl]
  have dk: "target div B = k" if "target mod 512 \<noteq> 0"
  proof -
    have "target mod B \<noteq> 0" unfolding B(2) mod_split using that by simp
    from div_pred_same [OF B(1) this] ck show ?thesis by simp
  qed
  let ?fs = "(pff_fs s)\<lparr>fptr := fptr (pff_fs s) + ofs\<rparr>"
  let ?x = "fptr (pff_fs s) + ofs"
  define s' where "s' = s\<lparr>pff_fs := ?fs\<lparr>dsect := clust2sect fs clst + (?x div 512 AND (ucast (csize fs) - 1))\<rparr>\<rparr>"
  have fin: "seek_finish clst ofs s = (FR_OK, s')"
    using clust2sect_valid(3) [OF assms(1) cv]
    by (simp add: seek_finish_def Let_def s'_def clst same_fileD [OF sf])
  have sf': "same_file fs (pff_fs s')" using sf by (simp add: s'_def same_file_def)
  have sect: "clust2sect fs clst + (?x div 512 AND (ucast (csize fs) - 1)) = file_sector fs cl target" if "target mod 512 \<noteq> 0"
  proof -
    have "unat (?x div 512 AND (ucast (csize fs) - 1)) = target div 512 mod unat (csize fs)"
      unfolding csize_mask [OF assms(1)] by (simp add: unat_div_distrib uf)
    then have "(?x div 512 AND (ucast (csize fs) - 1)) = of_nat (target div 512 mod unat (csize fs))"
      by (metis of_nat_unat ucast_id)
    then show ?thesis
      using file_sector_valid(1) [OF assms(1), of cl target] cv dk [OF that] by (simp add: B_def clst)
  qed
  have "positioned (pff_fs s') cl"
    unfolding positioned_def same_fileD [OF sf'] word_le_nat_alt
    using uf assms(3) i sect ck clst by (simp add: s'_def B_def [symmetric])
  then have "file_open disk drv s' cl"
    using i assms(1,2,4) unfolding file_open_def same_fileD [OF sf'] same_file_chain [OF sf'] by (simp add: s'_def)
  then show ?thesis using fin sf' uf by (intro exI [of _ s']) (simp add: s'_def)
qed

lemma pf_lseek_ok:
  assumes o: "file_open disk drv s cl"
  shows "\<exists>s'. pf_lseek disk s ofs = Inr (FR_OK, s') \<and> file_open disk drv s' cl \<and>
    unat (fptr (pff_fs s')) = min (unat ofs) (unat (fsize (pff_fs s))) \<and> same_file (pff_fs s) (pff_fs s')"
proof -
  define fs where "fs = pff_fs s"
  define o1 where "o1 = (if ofs > fsize fs then fsize fs else ofs)"
  define bcs :: u32 where "bcs = ucast (csize fs) * 512"
  have u1: "unat o1 = min (unat ofs) (unat (fsize fs))" by (simp add: o1_def word_less_nat_alt min_def)
  have v: "volume_ok fs" "chain_ok disk drv fs cl" "fs_flag fs AND FA_OPENED \<noteq> 0" "pff_mounted s" "dcache_ok disk drv (pff_cache s)"
    using o by (simp_all add: file_open_def fs_def)
  have "unat bcs \<noteq> 0" using unat_bcs [OF v(1)] by (simp add: bcs_def)
  then have b: "bcs \<noteq> 0" by auto
  show ?thesis
  proof (cases "o1 = 0")
    case True
    have "pf_lseek disk s ofs = Inr (FR_OK, s\<lparr>pff_fs := fs\<lparr>fptr := 0\<rparr>\<rparr>)"
      unfolding pf_lseek_def Let_def fs_def [symmetric] o1_def [symmetric] using True v by simp
    moreover have "file_open disk drv (s\<lparr>pff_fs := fs\<lparr>fptr := 0\<rparr>\<rparr>) cl" using v by (simp add: file_open_def positioned_def)
    ultimately show ?thesis using True u1 by (simp add: fs_def [symmetric] same_file_def)
  next
    case False
    then have pos: "0 < unat o1" by (simp add: unat_gt_0)
    obtain clst o2 fs' where st: "seek_start fs o1 bcs = (clst, o2, fs')" by (metis prod_cases3)
    have le: "unat o1 \<le> unat (fsize fs)" by (simp add: u1)
    note sk = seek_start_ok [OF o fs_def pos bcs_def st]
    obtain c2 o3 s2 where lp: "whileR (unat o2 + 1) (\<lambda>(failed, clst, ofs, s). Inr (\<not> failed \<and> ofs > bcs)) (seek_body disk bcs)
        (False, clst, o2, s\<lparr>pff_fs := fs'\<rparr>) = Inr (False, c2, o3, s2)"
      and s2: "seeking disk drv fs cl (unat o1) (False, c2, o3, s2)" "unat o3 \<le> cluster_bytes fs"
      using seek_loop [OF v(1,2) le bcs_def sk] by blast
    obtain s' where f: "seek_finish c2 o3 s2 = (FR_OK, s')" "file_open disk drv s' cl" "unat (fptr (pff_fs s')) = unat o1" "same_file fs (pff_fs s')"
      using seek_finish_ok [OF v(1,2) le v(3) s2] by blast
    have "pf_lseek disk s ofs = Inr (FR_OK, s')"
      unfolding pf_lseek_def Let_def fs_def [symmetric] o1_def [symmetric] bcs_def [symmetric] st prod.case lp bindR_Inr
      using v b False f(1) by simp
    then show ?thesis using f u1 by (intro exI [of _ s']) (simp add: fs_def [symmetric])
  qed
qed

section \<open>Reading at an offset\<close>

text \<open>
  C11: on a mounted volume with an open file, seeking to any offset and then reading
  delivers exactly the bytes of the file from that offset on, through every cluster
  boundary, and as many as are left of it; the file stays open and can be read on.
\<close>

theorem fat_read_at:
  assumes "file_open disk drv s cl" "buff \<noteq> 0"
    and "pos = min (unat ofs) (unat (fsize (pff_fs s)))" "n = min (unat btr) (unat (fsize (pff_fs s)) - pos)"
    and "unat buff + n < 4294967296"
  shows "\<exists>s1 s2. pf_lseek disk s ofs = Inr (FR_OK, s1) \<and>
    pf_read disk s1 buff btr = Inr (FR_OK, of_nat n, map (file_byte disk drv (pff_fs s) cl) [pos..<pos + n], s2) \<and>
    file_open disk drv s2 cl \<and> unat (fptr (pff_fs s2)) = pos + n"
proof -
  obtain s1 where 1: "pf_lseek disk s ofs = Inr (FR_OK, s1)" "file_open disk drv s1 cl" "unat (fptr (pff_fs s1)) = pos"
    "same_file (pff_fs s) (pff_fs s1)"
    using pf_lseek_ok [OF assms(1), of ofs] by (auto simp: assms(3))
  have "n = min (unat btr) (unat (fsize (pff_fs s1)) - unat (fptr (pff_fs s1)))"
    unfolding same_fileD(2) [OF 1(4)] 1(3) by (rule assms(4))
  from pf_read_ok [OF 1(2) assms(2) this assms(5)] show ?thesis
    using 1 by (auto simp: same_file_chain(2) [OF 1(4)])
qed

definition example_disk :: disk where
  "example_disk drv sector k = (if sector = 1 \<and> k = 4 then 3 else if sector = 1 then 0 else of_nat k)"

definition example_pff :: pff where
  "example_pff = \<lparr>pff_mounted = True,
     pff_fs = \<lparr>fs_type = FS_FAT16, fs_flag = FA_OPENED, csize = 1, n_rootdir = 16, n_fatent = 4, fatbase = 1, dirbase = 2,
       database = 3, fptr = 0, fsize = 600, org_clust = 2, curr_clust = 0, dsect = 0\<rparr>,
     pff_cache = setDrive dcache_start 0x80\<rparr>"

text \<open>The second cluster of the file is 3 on every disk with this FAT sector.\<close>

lemma example_open_disk:
  assumes "disk 0x80 1 4 = 3" "disk 0x80 1 5 = 0"
  shows "file_open disk 0x80 example_pff [2, 3]"
proof -
  have "list_ex (\<lambda>e. (1::nat) = 2 ^ e) [0..<8]" unfolding list_ex_iff by (intro bexI [of _ 0]) simp_all
  then have e: "list_ex (\<lambda>e. Suc 0 = 2 ^ e) [0..<8]" by simp
  have "ld_word (sector_bytes disk 0x80 1) 4 = 3"
    using assms by (simp add: ld_word_def sector_bytes_def)
  then have "fat_entry disk 0x80 (pff_fs example_pff) 2 = 3"
    by (simp add: fat_entry_def example_pff_def)
  then have "chain_ok disk 0x80 (pff_fs example_pff) [2, 3]"
    by (simp add: chain_ok_def cluster_bytes_def) (simp add: example_pff_def)
  moreover have "volume_ok (pff_fs example_pff)" using e by (simp add: volume_ok_def example_pff_def)
  ultimately show ?thesis
    by (simp add: file_open_def) (simp add: example_pff_def positioned_def FA_OPENED_def dcache_start_ok)
qed

lemma example_open: "file_open example_disk 0x80 example_pff [2, 3]"
  by (rule example_open_disk) (simp_all add: example_disk_def)

theorem fat_read_at_witness:
  "\<exists>s1 s2. pf_lseek example_disk example_pff 510 = Inr (FR_OK, s1) \<and>
    pf_read example_disk s1 0x8000 4 =
      Inr (FR_OK, of_nat 4, map (file_byte example_disk 0x80 (pff_fs example_pff) [2, 3]) [510..<510 + 4], s2) \<and>
    file_open example_disk 0x80 s2 [2, 3] \<and> unat (fptr (pff_fs s2)) = 510 + 4"
  by (rule fat_read_at [OF example_open]) (simp_all add: example_pff_def)

end
