(* ===== verification/Fat_Total.thy ===== *)
theory Fat_Total
  imports Fat_Read
begin

text \<open>
  The FAT reader on arbitrary disks: every operation returns. The directory index bounds
  the search of a directory, the length of the path the descent, the byte count the read,
  whatever the allocation table links.
\<close>

section \<open>Every operation returns, whatever is on the disk\<close>

lemma disk_readp_returns:
  assumes "length (dc_buf c) = 514" "unat offset < 512" "unat offset + unat n \<le> 512"
  shows "\<exists>r bytes c'. disk_readp disk c buff sector offset n = Inr (r, bytes, c') \<and> length (dc_buf c') = 514 \<and>
    (r = RES_OK \<longrightarrow> buff \<noteq> 0 \<and> length bytes = min (unat n) (4294967296 - unat buff))"
proof (cases "buff = 0 \<or> offset \<ge> 512 \<or> offset + n > 512")
  case True
  then show ?thesis using assms(1) by (simp add: disk_readp_def)
next
  case False
  define c' where "c' = (if dc_sector c = sector then c
    else c\<lparr>dc_buf := sector_bytes disk (dc_drive c) sector @ drop 512 (dc_buf c), dc_sector := sector\<rparr>)"
  have load: "(if dc_sector c \<noteq> sector then bindR (readSector disk sector (dc_drive c) (dc_buf c) 512) (\<lambda>buf.
      Inr (c\<lparr>dc_buf := buf, dc_sector := sector\<rparr>)) else Inr c) = Inr c'"
    using assms(1) by (simp add: readSector_def c'_def Let_def)
  have l: "length (dc_buf c') = 514" using assms(1) by (simp add: c'_def)
  define k where "k = min (unat n) (4294967296 - unat buff)"
  have "unat offset + k \<le> 512" using assms(3) unfolding k_def by linarith
  then have "copy_out (dc_buf c') (unat offset) k = Inr (take k (drop (unat offset) (dc_buf c')))"
    "length (take k (drop (unat offset) (dc_buf c'))) = k" by (simp_all add: copy_out_def l)
  then show ?thesis unfolding disk_readp_def if_not_P [OF False] load k_def [symmetric] bindR_Inr using l False by auto
qed

definition buffered :: "pff \<Rightarrow> bool" where
  "buffered s \<longleftrightarrow> length (dc_buf (pff_cache s)) = 514"

lemma read_local_returns:
  assumes "buffered s" "unat ofs < 512" "unat ofs + unat n \<le> 512"
  shows "\<exists>r s'. read_local disk s sector ofs n = Inr (r, s') \<and> buffered s' \<and> pff_fs s' = pff_fs s \<and> pff_mounted s' = pff_mounted s \<and>
    (\<forall>bs. r = Some bs \<longrightarrow> length bs = unat n)"
proof -
  have "min (unat n) (4294967296 - unat on_stack) = unat n" using assms(3) by (simp add: on_stack_def)
  then show ?thesis
    using disk_readp_returns [OF assms(1) [unfolded buffered_def] assms(2,3), of disk on_stack sector]
    by (auto simp: read_local_def buffered_def)
qed

lemma read_localE:
  assumes "buffered s" "unat ofs < 512" "unat ofs + unat n \<le> 512"
  obtains r s' where "read_local disk s sector ofs n = Inr (r, s')" "buffered s'" "pff_fs s' = pff_fs s"
    "pff_mounted s' = pff_mounted s" "\<And>bs. r = Some bs \<Longrightarrow> length bs = unat n"
  using read_local_returns [OF assms, of disk sector] by blast

lemma fat_offsets:
  fixes c :: u32
  shows "unat (c mod 256 * 2) = 2 * (unat c mod 256)" "unat (c mod 128 * 4) = 4 * (unat c mod 128)"
proof -
  have "unat (c mod 256) = unat c mod 256" "unat (c mod 128) = unat c mod 128" by (simp_all add: unat_mod_distrib)
  then show "unat (c mod 256 * 2) = 2 * (unat c mod 256)" "unat (c mod 128 * 4) = 4 * (unat c mod 128)"
    by (simp_all add: unat_word_ariths)
qed

lemma fat_offset_bounds: "2 * (k mod 256) + 2 \<le> (512::nat)" "4 * (k mod 128) + 4 \<le> (512::nat)"
  using mod_less_divisor [of 256 k] mod_less_divisor [of 128 k] by linarith+

lemma get_fat_returns:
  assumes "buffered s"
  shows "\<exists>r s'. get_fat disk s clst = Inr (r, s') \<and> buffered s' \<and> pff_fs s' = pff_fs s \<and> pff_mounted s' = pff_mounted s"
proof -
  obtain r s' where 16: "read_local disk s (fatbase (pff_fs s) + clst div 256) (clst mod 256 * 2) 2 = Inr (r, s')"
    "buffered s'" "pff_fs s' = pff_fs s" "pff_mounted s' = pff_mounted s"
    using read_local_returns [OF assms, of "clst mod 256 * 2" 2 disk "fatbase (pff_fs s) + clst div 256"]
      fat_offset_bounds(1) [of "unat clst"] by (auto simp: fat_offsets)
  obtain q s'' where 32: "read_local disk s (fatbase (pff_fs s) + clst div 128) (clst mod 128 * 4) 4 = Inr (q, s'')"
    "buffered s''" "pff_fs s'' = pff_fs s" "pff_mounted s'' = pff_mounted s"
    using read_local_returns [OF assms, of "clst mod 128 * 4" 4 disk "fatbase (pff_fs s) + clst div 128"]
      fat_offset_bounds(2) [of "unat clst"] by (auto simp: fat_offsets)
  show ?thesis using assms 16 32 by (simp add: get_fat_def Let_def)
qed

lemma dir_next_returns:
  assumes "buffered s"
  shows "\<exists>r dj' s'. dir_next disk s dj = Inr (r, dj', s') \<and> buffered s' \<and> pff_fs s' = pff_fs s \<and> pff_mounted s' = pff_mounted s \<and>
    dj_fn dj' = dj_fn dj \<and> (r = FR_OK \<longrightarrow> unat (dj_index dj') = unat (dj_index dj) + 1)"
proof -
  have inc: "unat (dj_index dj + 1) = unat (dj_index dj) + 1" if "dj_index dj + 1 \<noteq> 0"
    using that unatSuc [of "dj_index dj"] by (simp add: add.commute)
  obtain r s' where g: "get_fat disk s (dj_clust dj) = Inr (r, s')" "buffered s'" "pff_fs s' = pff_fs s" "pff_mounted s' = pff_mounted s"
    using get_fat_returns [OF assms] by blast
  show ?thesis using assms g inc by (simp add: dir_next_def Let_def)
qed

lemma entry_offset: "unat (ucast (i mod 16 * 32) :: u32) = 32 * (unat i mod 16)" for i :: u16
proof -
  have "unat (i mod 16) = unat i mod 16" by (simp add: unat_mod_distrib)
  moreover have "32 * (unat i mod 16) < 65536" using mod_less_divisor [of 16 "unat i"] by linarith
  ultimately show ?thesis by (simp add: unat_word_ariths)
qed

lemma dir_find_returns:
  assumes "buffered s"
  shows "\<exists>r dj' dir' s'. dir_find disk s dj dir = Inr (r, dj', dir', s') \<and> buffered s' \<and> pff_fs s' = pff_fs s \<and>
    pff_mounted s' = pff_mounted s \<and> dj_fn dj' = dj_fn dj \<and> (r = FR_OK \<longrightarrow> length dir' = 32)"
proof -
  let ?I = "\<lambda>(go, r, dj', dir', s'). buffered s' \<and> pff_fs s' = pff_fs s \<and> pff_mounted s' = pff_mounted s \<and> dj_fn dj' = dj_fn dj \<and>
    (\<not> go \<longrightarrow> r = FR_OK \<longrightarrow> length dir' = 32)"
  let ?m = "\<lambda>(go, r, dj', dir', s'). if go then 65536 - unat (dj_index dj' :: u16) else 0"
  let ?g = "\<lambda>(go, res, dj, dir, s). Inr go :: bool res"
  obtain r0 dj0 where rw: "dir_rewind (pff_fs s) dj = (r0, dj0)" by fastforce
  have fn: "dj_fn dj0 = dj_fn dj" using rw by (auto simp: dir_rewind_def Let_def split: if_splits)
  have step: "\<exists>st'. find_body disk st = Inr st' \<and> ?I st' \<and> ?m st' < ?m st" if I: "?I st" and g: "?g st = Inr True" for st
  proof -
    obtain r1 dj1 dir1 s1 where st: "st = (True, r1, dj1, dir1, s1)" using g by (cases st) auto
    have i: "buffered s1" "pff_fs s1 = pff_fs s" "pff_mounted s1 = pff_mounted s" "dj_fn dj1 = dj_fn dj" using I by (simp_all add: st)
    have idx: "unat (dj_index dj1) < 65536" using unsigned_less [of "dj_index dj1", where ?'a = nat] by simp
    have "32 * (unat (dj_index dj1) mod 16) + 32 \<le> 512" using mod_less_divisor [of 16 "unat (dj_index dj1)"] by linarith
    then obtain r s2 where rd: "read_local disk s1 (dj_sect dj1) (ucast (dj_index dj1 mod 16 * 32)) 32 = Inr (r, s2)"
      "buffered s2" "pff_fs s2 = pff_fs s1" "pff_mounted s2 = pff_mounted s1" "\<And>bs. r = Some bs \<Longrightarrow> length bs = 32"
      using read_local_returns [OF i(1), of "ucast (dj_index dj1 mod 16 * 32)" 32 disk "dj_sect dj1"] by (auto simp: entry_offset)
    obtain r3 dj3 s3 where nx: "dir_next disk s2 dj1 = Inr (r3, dj3, s3)" "buffered s3" "pff_fs s3 = pff_fs s2" "pff_mounted s3 = pff_mounted s2"
      "dj_fn dj3 = dj_fn dj1" "r3 = FR_OK \<longrightarrow> unat (dj_index dj3) = unat (dj_index dj1) + 1"
      using dir_next_returns [OF rd(2)] by blast
    show ?thesis
    proof (cases r)
      case None
      then show ?thesis using i rd idx by (simp add: find_body_def st)
    next
      case (Some bs)
      then show ?thesis using i rd idx nx by (auto simp: find_body_def st)
    qed
  qed
  have "\<exists>t. whileR 65538 ?g (find_body disk) (True, FR_OK, dj0, dir, s) = Inr t \<and> ?I t \<and> ?g t = Inr False"
  proof (rule whileR_total [where I = ?I and m = ?m])
    show "?I (True, FR_OK, dj0, dir, s)" using assms fn by simp
    show "?m (True, FR_OK, dj0, dir, s) < 65538" by simp
    show "\<exists>t. ?g st = Inr t" for st by (cases st) simp
  qed (rule step)
  then obtain r dj' dir' s' where "whileR 65538 ?g (find_body disk) (True, FR_OK, dj0, dir, s) = Inr (False, r, dj', dir', s')"
    "?I (False, r, dj', dir', s')" by auto
  then show ?thesis using assms fn by (cases "r0 = FR_OK") (simp_all add: dir_find_def rw)
qed

text \<open>A path: bytes that end in NUL.\<close>

definition is_path :: "u8 list \<Rightarrow> bool" where
  "is_path path \<longleftrightarrow> path \<noteq> [] \<and> last path = 0"

lemma path_not_last:
  assumes "is_path path" "k < length path" "path ! k \<noteq> 0"
  shows "k + 1 < length path"
proof (rule ccontr)
  assume "\<not> k + 1 < length path"
  then have "k = length path - 1" using assms(2) by simp
  then show False using assms by (auto simp: is_path_def last_conv_nth)
qed

text \<open>
  The invariant of the loop of \<open>create_name\<close>: before a dot one character is stored per
  character read, after it at most three more.
\<close>

definition name_inv :: "u8 list \<Rightarrow> nat \<Rightarrow> name_state \<Rightarrow> bool" where
  "name_inv path pos = (\<lambda>(go, c, si, i, ni, sfn).
     length sfn = 12 \<and> pos + unat si \<le> length path \<and>
     (if go then pos + unat si < length path \<and>
        (ni = 8 \<and> unat i \<le> 8 \<and> unat si = unat i \<or> ni = 11 \<and> 8 \<le> unat i \<and> unat i \<le> 11 \<and> unat si \<le> unat i + 1)
      else 0 < unat si \<and> (c > 32 \<longrightarrow> pos + unat si < length path)))"

lemma unat_byte_Suc: "unat x < 255 \<Longrightarrow> unat (x + 1) = unat x + 1" for x :: u8
  by (simp add: unat_word_ariths)

lemma name_body_ok:
  assumes "is_path path" "name_inv path pos (True, c, si, i, ni, sfn)"
  shows "\<exists>go' c' si' i' ni' sfn'. name_body path pos (True, c, si, i, ni, sfn) = Inr (go', c', si', i', ni', sfn') \<and>
    name_inv path pos (go', c', si', i', ni', sfn') \<and> unat si \<le> 12 \<and> unat si' = unat si + 1"
proof -
  let ?c = "path ! (pos + unat si)"
  have inv: "length sfn = 12" "pos + unat si < length path"
    "ni = 8 \<and> unat i \<le> 8 \<and> unat si = unat i \<or> ni = 11 \<and> 8 \<le> unat i \<and> unat i \<le> 11 \<and> unat si \<le> unat i + 1"
    using assms(2) by (simp_all add: name_inv_def)
  have si: "unat si \<le> 12" using inv(3) by auto
  then have si': "unat (si + 1) = unat si + 1" by (intro unat_byte_Suc) simp
  have nl: "pos + unat si + 1 < length path" if "?c > 32"
  proof -
    have "?c \<noteq> 0" using that by auto
    then show ?thesis using path_not_last [OF assms(1) inv(2)] by simp
  qed
  consider (stop) "?c \<le> 32 \<or> ?c = 47" | (dot) "\<not> (?c \<le> 32 \<or> ?c = 47)" "?c = 46 \<or> i \<ge> ni" "ni \<noteq> 8 \<or> ?c \<noteq> 46"
    | (ext) "\<not> (?c \<le> 32 \<or> ?c = 47)" "?c = 46" "ni = 8"
    | (char) "\<not> (?c \<le> 32 \<or> ?c = 47)" "\<not> (?c = 46 \<or> i \<ge> ni)" by blast
  then show ?thesis
  proof cases
    case stop
    then show ?thesis using inv si si' nl by (auto simp: name_body_def name_inv_def Let_def)
  next
    case dot
    then show ?thesis using inv si si' nl by (auto simp: name_body_def name_inv_def Let_def)
  next
    case ext
    then have "unat si = unat i" "unat i \<le> 8" using inv(3) by auto
    then show ?thesis using ext inv(1,2) si si' nl by (auto simp: name_body_def name_inv_def Let_def not_le)
  next
    case char
    have lt: "unat i < unat ni" using char(2) by (simp add: word_le_nat_alt)
    then have i11: "unat i < 11" using inv(3) by auto
    then have i: "unat (i + 1) = unat i + 1" by (intro unat_byte_Suc) simp
    have "i < 12" using i11 by (simp add: word_less_nat_alt)
    have gt: "path ! (pos + unat si) > 32" using char(1) by (simp add: not_le)
    have "name_body path pos (True, c, si, i, ni, sfn) = Inr (True, ?c, si + 1, i + 1, ni, sfn[unat i := ?c])"
      unfolding name_body_def prod.case getR_in [OF inv(2)] bindR_Inr Let_def if_not_P [OF char(1)] if_not_P [OF char(2)]
      using i11 inv(1) by simp
    moreover have "name_inv path pos (True, ?c, si + 1, i + 1, ni, sfn[unat i := ?c])"
      using inv nl [OF gt] lt unfolding name_inv_def prod.case si' i by auto
    ultimately show ?thesis using si si' by blast
  qed
qed

lemma create_name_returns:
  assumes "is_path path" "pos < length path" "length (dj_fn dj) = 12"
  shows "\<exists>dj' pos'. create_name path dj pos = Inr (dj', pos') \<and> length (dj_fn dj') = 12 \<and> pos < pos' \<and> pos' \<le> length path \<and>
    (dj_fn dj' ! 11 = 0 \<longrightarrow> pos' < length path)"
proof -
  let ?g = "\<lambda>(go, c, si, i, ni, sfn). Inr go :: bool res"
  let ?m = "\<lambda>(go, c, si, i, ni, sfn). if go then 13 - unat si else 0"
  let ?s = "(True, 0, 0, 0, 8, mem_set (dj_fn dj) 32 11)"
  have "\<exists>t. whileR 14 ?g (name_body path pos) ?s = Inr t \<and> name_inv path pos t \<and> ?g t = Inr False"
  proof (rule whileR_total [where I = "name_inv path pos" and m = ?m])
    show "name_inv path pos ?s" using assms(2,3) by (simp add: name_inv_def mem_set_def)
    show "?m ?s < 14" by simp
    show "\<exists>t. ?g st = Inr t" for st by (cases st) simp
    fix st assume I: "name_inv path pos st" and g: "?g st = Inr True"
    obtain c si i ni sfn where st: "st = (True, c, si, i, ni, sfn)" using g by (cases st) auto
    obtain go' c' si' i' ni' sfn' where b: "name_body path pos st = Inr (go', c', si', i', ni', sfn')"
      "name_inv path pos (go', c', si', i', ni', sfn')" "unat si \<le> 12" "unat si' = unat si + 1"
      using name_body_ok [OF assms(1) I [unfolded st]] unfolding st by blast
    show "\<exists>st'. name_body path pos st = Inr st' \<and> name_inv path pos st' \<and> ?m st' < ?m st"
      unfolding b(1) using b(2-4) st by (intro exI conjI) (auto split: if_splits)
  qed
  then obtain c si i ni sfn where w: "whileR 14 ?g (name_body path pos) ?s = Inr (False, c, si, i, ni, sfn)"
    and i: "name_inv path pos (False, c, si, i, ni, sfn)" by auto
  have "create_name path dj pos = Inr (dj\<lparr>dj_fn := sfn[11 := if c \<le> 32 then 1 else 0]\<rparr>, pos + unat si)"
    unfolding create_name_def w using i by (simp add: name_inv_def)
  then show ?thesis using i by (auto simp: name_inv_def not_le)
qed

lemma path_body_returns:
  assumes "is_path path" "buffered s" "pos < length path" "length (dj_fn dj) = 12"
  shows "\<exists>go' r' pos' dj' dir' s'. path_body disk path (go, r, pos, dj, dir, s) = Inr (go', r', pos', dj', dir', s') \<and>
    buffered s' \<and> pff_mounted s' = pff_mounted s \<and> length (dj_fn dj') = 12 \<and> (go' \<longrightarrow> pos < pos' \<and> pos' < length path)"
proof -
  obtain dj1 pos1 where 1: "create_name path dj pos = Inr (dj1, pos1)" "length (dj_fn dj1) = 12" "pos < pos1"
    "dj_fn dj1 ! 11 = 0 \<longrightarrow> pos1 < length path"
    using create_name_returns [OF assms(1,3,4)] by blast
  obtain r2 dj2 dir2 s2 where 2: "dir_find disk s dj1 dir = Inr (r2, dj2, dir2, s2)" "buffered s2" "pff_mounted s2 = pff_mounted s"
    "dj_fn dj2 = dj_fn dj1"
    using dir_find_returns [OF assms(2)] by blast
  show ?thesis
  proof (cases "r2 = FR_OK \<and> dj_fn dj2 ! 11 = 0 \<and> dir2 ! 11 AND AM_DIR \<noteq> 0")
    case True
    then show ?thesis using 1 2 by (auto simp: path_body_def)
  next
    case False
    then have "\<exists>r'. path_body disk path (go, r, pos, dj, dir, s) = Inr (False, r', pos1, dj2, dir2, s2)"
      using 1(1) 2(1) by (auto simp: path_body_def)
    then show ?thesis using 1 2 by auto
  qed
qed

lemma follow_path_returns:
  assumes "is_path path" "buffered s" "length (dj_fn dj) = 12"
  shows "\<exists>r dj' dir' s'. follow_path disk s dj dir path = Inr (r, dj', dir', s') \<and> buffered s' \<and> pff_mounted s' = pff_mounted s"
proof -
  let ?l = "length path"
  have nz: "0 < ?l" using assms(1) by (simp add: is_path_def)
  have "\<exists>pos. whileR (?l + 1) (\<lambda>pos. bindR (getR path pos) (\<lambda>c. Inr (c = 32))) (\<lambda>pos. Inr (pos + 1)) 0 = Inr pos \<and>
    pos < ?l \<and> bindR (getR path pos) (\<lambda>c. Inr (c = 32)) = Inr False"
  proof (rule whileR_total [where I = "\<lambda>pos. pos < ?l" and m = "\<lambda>pos. ?l - pos"])
    fix pos assume "pos < ?l" "bindR (getR path pos) (\<lambda>c. Inr (c = 32)) = Inr True"
    then have "pos + 1 < ?l" using path_not_last [OF assms(1)] by simp
    then show "\<exists>s'. Inr (pos + 1) = (Inr s' :: nat res) \<and> s' < ?l \<and> ?l - s' < ?l - pos" by auto
  qed (use nz in simp_all)
  then obtain p where p: "whileR (?l + 1) (\<lambda>pos. bindR (getR path pos) (\<lambda>c. Inr (c = 32))) (\<lambda>pos. Inr (pos + 1)) 0 = Inr p"
    "p < ?l" by blast
  define q where "q = (if path ! p = 47 then p + 1 else p)"
  have q: "q < ?l" using p(2) path_not_last [OF assms(1) p(2)] by (simp add: q_def)
  define dj0 where "dj0 = dj\<lparr>dj_sclust := 0\<rparr>"
  let ?g = "\<lambda>(go, res, pos, dj, dir, s). Inr go :: bool res"
  let ?I = "\<lambda>(go, r :: FRESULT, pos, dj :: DIR, dir :: u8 list, s'). buffered s' \<and> pff_mounted s' = pff_mounted s \<and> length (dj_fn dj) = 12 \<and> (go \<longrightarrow> pos < ?l)"
  let ?m = "\<lambda>(go, r, pos, dj, dir, s'). if go then ?l - pos else 0"
  have "\<exists>t. whileR (?l + 1) ?g (path_body disk path) (True, FR_OK, q, dj0, dir, s) = Inr t \<and> ?I t \<and> ?g t = Inr False"
  proof (rule whileR_total [where I = ?I and m = ?m])
    show "?I (True, FR_OK, q, dj0, dir, s)" using assms q by (simp add: dj0_def)
    show "?m (True, FR_OK, q, dj0, dir, s) < ?l + 1" by simp
    show "\<exists>t. ?g st = Inr t" for st by (cases st) simp
    fix st assume I: "?I st" and g: "?g st = Inr True"
    obtain r pos d dir1 s1 where st: "st = (True, r, pos, d, dir1, s1)" using g by (cases st) auto
    have i: "buffered s1" "pff_mounted s1 = pff_mounted s" "length (dj_fn d) = 12" "pos < ?l" using I by (simp_all add: st)
    from path_body_returns [OF assms(1) i(1) i(4) i(3), of disk True r dir1] obtain go' r' pos' dj' dir' s' where
      b: "path_body disk path st = Inr (go', r', pos', dj', dir', s')" "buffered s'" "pff_mounted s' = pff_mounted s1" "length (dj_fn dj') = 12"
      "go' \<longrightarrow> pos < pos' \<and> pos' < ?l" unfolding st by blast
    show "\<exists>st'. path_body disk path st = Inr st' \<and> ?I st' \<and> ?m st' < ?m st"
      unfolding b(1) using b(2-) i st by (intro exI conjI) auto
  qed
  then obtain r pos d dir1 s1 where w: "whileR (?l + 1) ?g (path_body disk path) (True, FR_OK, q, dj0, dir, s) = Inr (False, r, pos, d, dir1, s1)"
    "buffered s1" "pff_mounted s1 = pff_mounted s" by auto
  obtain r0 d0 where rw: "dir_rewind (pff_fs s) dj0 = (r0, d0)" by fastforce
  show ?thesis
    unfolding follow_path_def p(1) bindR_Inr getR_in [OF p(2)] Let_def q_def [symmetric] dj0_def [symmetric] getR_in [OF q] w(1) rw prod.case
    using assms w by simp
qed

lemma pf_open_returns:
  assumes "is_path path" "buffered s" "length sp = 12"
  shows "\<exists>r s'. pf_open disk s sp dir path = Inr (r, s') \<and> buffered s'"
proof (cases "pff_mounted s")
  case True
  define s0 where "s0 = s\<lparr>pff_fs := (pff_fs s)\<lparr>fs_flag := 0\<rparr>\<rparr>"
  define dj :: DIR where "dj = \<lparr>dj_index = 0, dj_fn = sp, dj_sclust = 0, dj_clust = 0, dj_sect = 0\<rparr>"
  have "buffered s0" "length (dj_fn dj) = 12" using assms by (simp_all add: s0_def dj_def buffered_def)
  from follow_path_returns [OF assms(1) this] obtain r dj' dir' s' where
    f: "follow_path disk s0 dj dir path = Inr (r, dj', dir', s')" "buffered s'" by blast
  show ?thesis
    using True f by (simp add: pf_open_def Let_def s0_def [symmetric] dj_def [symmetric] buffered_def)
qed (use assms in \<open>simp add: pf_open_def\<close>)

lemma next_sector_returns:
  assumes "buffered s"
  shows "\<exists>r s'. next_sector disk s = Inr (r, s') \<and> buffered s'"
proof -
  obtain g s1 where g: "get_fat disk s (curr_clust (pff_fs s)) = Inr (g, s1)" "buffered s1" using get_fat_returns [OF assms] by blast
  show ?thesis using assms g by (simp add: next_sector_def Let_def buffered_def)
qed

lemma sector_rest:
  fixes x :: u32
  shows "unat (x mod 512) < 512" "unat (512 - x mod 512) = 512 - unat (x mod 512)" "512 - x mod 512 \<noteq> 0"
proof -
  have "unat (x mod 512) = unat x mod 512" by (simp add: unat_mod_distrib)
  then show 1: "unat (x mod 512) < 512" by simp
  then show 2: "unat (512 - x mod 512) = 512 - unat (x mod 512)" by (simp add: unat_sub word_le_nat_alt)
  show "512 - x mod 512 \<noteq> 0" using 1 2 by (metis unat_0 less_numeral_extra(3) zero_less_diff)
qed

lemma read_body_returns:
  assumes "buffered s" "btr \<noteq> 0"
  shows "\<exists>failed' rbuff' btr' br' out' s'. read_body disk (failed, rbuff, btr, br, out, s) = Inr (failed', rbuff', btr', br', out', s') \<and>
    buffered s' \<and> (failed' \<longrightarrow> btr' = btr \<and> br' = br) \<and> (\<not> failed' \<longrightarrow> unat btr' < unat btr \<and> btr' + br' = btr + br)"
proof -
  obtain r s1 where n: "next_sector disk s = Inr (r, s1)" "buffered s1" using next_sector_returns [OF assms(1)] by blast
  show ?thesis
  proof (cases "r = None")
    case True
    then show ?thesis using n by (auto simp: read_body_def abort_fs_def buffered_def)
  next
    case False
    define x where "x = fptr (pff_fs s1)"
    define k where "k = (if 512 - x mod 512 > btr then btr else 512 - x mod 512)"
    have k: "k \<le> btr" "unat k \<le> 512 - unat (x mod 512)" "k \<noteq> 0"
      using sector_rest [of x] assms(2) by (auto simp: k_def word_less_nat_alt word_le_nat_alt not_less)
    have "unat (x mod 512) + unat k \<le> 512" using k(2) sector_rest(1) [of x] by linarith
    then obtain dr bytes c where d: "disk_readp disk (pff_cache s1) rbuff (dsect (pff_fs s1)) (x mod 512) k = Inr (dr, bytes, c)"
      "length (dc_buf c) = 514"
      using disk_readp_returns [OF n(2) [unfolded buffered_def] sector_rest(1)] by blast
    have lt: "unat (btr - k) < unat btr" using k(1,3) assms(2) by (simp add: unat_sub word_le_nat_alt unat_gt_0)
    have sum: "btr - k + (br + k) = btr + br" by simp
    show ?thesis
    proof (cases "dr = RES_OK")
      case True
      have "read_body disk (failed, rbuff, btr, br, out, s) = Inr (False, if rbuff \<noteq> 0 then rbuff + k else rbuff, btr - k, br + k,
          out @ bytes, s1\<lparr>pff_cache := c, pff_fs := (pff_fs s1)\<lparr>fptr := x + k\<rparr>\<rparr>)"
        unfolding read_body_def prod.case n(1) bindR_Inr if_not_P [OF False] Let_def x_def [symmetric] k_def [symmetric] d(1)
        using True by (simp add: x_def)
      then show ?thesis using d(2) lt sum by (auto simp: buffered_def)
    next
      case no: False
      have "read_body disk (failed, rbuff, btr, br, out, s) = Inr (True, rbuff, btr, br, out @ bytes, abort_fs (s1\<lparr>pff_cache := c\<rparr>))"
        unfolding read_body_def prod.case n(1) bindR_Inr if_not_P [OF False] Let_def x_def [symmetric] k_def [symmetric] d(1)
        using no by simp
      then show ?thesis using d(2) by (auto simp: buffered_def abort_fs_def)
    qed
  qed
qed

lemma pf_read_returns:
  assumes "buffered s"
  shows "\<exists>r br out s'. pf_read disk s buff btr = Inr (r, br, out, s') \<and> buffered s' \<and> br \<le> btr"
proof -
  define b where "b = (if btr > fsize (pff_fs s) - fptr (pff_fs s) then fsize (pff_fs s) - fptr (pff_fs s) else btr)"
  have bb: "b \<le> btr" by (auto simp: b_def)
  let ?I = "\<lambda>(failed, rbuff, btr, br, out, s). buffered s \<and> btr \<le> b \<and> btr + br = b"
  let ?m = "\<lambda>(failed, rbuff, btr, br, out, s). if failed then 0 else unat (btr :: u32)"
  have "\<exists>t. whileR (unat b + 1) read_guard (read_body disk) (False, buff, b, 0, [], s) = Inr t \<and> ?I t \<and> read_guard t = Inr False"
  proof (rule whileR_total [where I = ?I and m = ?m])
    show "?I (False, buff, b, 0, [], s)" using assms by simp
    show "?m (False, buff, b, 0, [], s) < unat b + 1" by simp
    show "\<exists>t. read_guard st = Inr t" for st by (cases st) (simp add: read_guard_def)
    fix st assume I: "?I st" and g: "read_guard st = Inr True"
    obtain rbuff bt br out s1 where st: "st = (False, rbuff, bt, br, out, s1)" and nz: "bt \<noteq> 0"
      using g by (cases st) (simp add: read_guard_def)
    have i: "buffered s1" "bt \<le> b" "bt + br = b" using I by (simp_all add: st)
    from read_body_returns [OF i(1) nz] obtain f' rbuff' bt' br' out' s' where
      r: "read_body disk st = Inr (f', rbuff', bt', br', out', s')" "buffered s'" "f' \<longrightarrow> bt' = bt \<and> br' = br"
      "\<not> f' \<longrightarrow> unat bt' < unat bt \<and> bt' + br' = bt + br" unfolding st by blast
    have "0 < unat bt" using nz by (simp add: unat_gt_0)
    then show "\<exists>st'. read_body disk st = Inr st' \<and> ?I st' \<and> ?m st' < ?m st"
      using r i st by (intro exI [of _ "(f', rbuff', bt', br', out', s')"]) (auto simp: word_le_nat_alt)
  qed
  then obtain t where t: "whileR (unat b + 1) read_guard (read_body disk) (False, buff, b, 0, [], s) = Inr t" "?I t" by blast
  obtain failed rbuff bt br out s' where te: "t = (failed, rbuff, bt, br, out, s')" by (cases t)
  note w = t(1) [unfolded te] and w' = t(2) [unfolded te prod.case]
  have "br = b - bt" using w' by (simp add: algebra_simps)
  then have "br \<le> b" using w' by (simp add: word_le_nat_alt unat_sub)
  then have le: "br \<le> btr" using bb by simp
  show ?thesis
  proof (cases "\<not> pff_mounted s \<or> fs_flag (pff_fs s) AND FA_OPENED = 0")
    case True
    then show ?thesis using assms by (auto simp: pf_read_def)
  next
    case False
    then have "pf_read disk s buff btr = Inr (if failed then FR_DISK_ERR else FR_OK, br, out, s')"
      unfolding pf_read_def Let_def b_def [symmetric] w by simp
    then show ?thesis using w' le by simp
  qed
qed

lemma pf_lseek_returns:
  assumes "buffered s" "csize (pff_fs s) \<noteq> 0"
  shows "\<exists>r s'. pf_lseek disk s ofs = Inr (r, s') \<and> buffered s'"
proof (cases "\<not> pff_mounted s \<or> fs_flag (pff_fs s) AND FA_OPENED = 0")
  case True
  then show ?thesis using assms(1) by (auto simp: pf_lseek_def)
next
  case False
  define fs where "fs = pff_fs s"
  define o1 where "o1 = (if ofs > fsize fs then fsize fs else ofs)"
  define bcs :: u32 where "bcs = ucast (csize fs) * 512"
  have c: "0 < unat (csize fs)" "unat (csize fs) < 256"
    using assms(2) unsigned_less [of "csize fs", where ?'a = nat] by (simp_all add: unat_gt_0 fs_def)
  have "bcs = of_nat (unat (csize fs) * 512)" unfolding bcs_def ucast_csize by simp
  also have "unat \<dots> = unat (csize fs) * 512"
  proof (rule unat_of_nat32)
    have "unat (csize fs) * 512 < 256 * 512" using c(2) by simp
    also have "\<dots> < (4294967296 :: nat)" by simp
    finally show "unat (csize fs) * 512 < 4294967296" .
  qed
  finally have b: "0 < unat bcs" using c by simp
  then have b0: "bcs \<noteq> 0" by auto
  obtain clst o2 fs' where st: "seek_start fs o1 bcs = (clst, o2, fs')" by (metis prod_cases3)
  let ?g = "\<lambda>(failed, clst, ofs, s). Inr (\<not> failed \<and> ofs > bcs) :: bool res"
  let ?I = "\<lambda>(failed :: bool, clst :: u32, ofs :: u32, s). buffered s"
  let ?m = "\<lambda>(failed, clst :: u32, ofs :: u32, s :: pff). if failed then 0 else unat ofs"
  have "\<exists>t. whileR (unat o2 + 1) ?g (seek_body disk bcs) (False, clst, o2, s\<lparr>pff_fs := fs'\<rparr>) = Inr t \<and> ?I t \<and> ?g t = Inr False"
  proof (rule whileR_total [where I = ?I and m = ?m])
    show "?I (False, clst, o2, s\<lparr>pff_fs := fs'\<rparr>)" using assms(1) by (simp add: buffered_def)
    show "?m (False, clst, o2, s\<lparr>pff_fs := fs'\<rparr>) < unat o2 + 1" by simp
    show "\<exists>t. ?g st = Inr t" for st by (cases st) simp
    fix st assume I: "?I st" and g: "?g st = Inr True"
    obtain k o3 s1 where st: "st = (False, k, o3, s1)" and gt: "o3 > bcs" using g by (cases st) simp
    have lt: "unat (o3 - bcs) < unat o3" "0 < unat o3" using gt b by (auto simp: unat_sub word_less_nat_alt word_le_nat_alt)
    have "buffered s1" using I by (simp add: st)
    then obtain r s2 where "get_fat disk s1 k = Inr (r, s2)" "buffered s2" using get_fat_returns by blast
    then show "\<exists>st'. seek_body disk bcs st = Inr st' \<and> ?I st' \<and> ?m st' < ?m st"
      using lt by (auto simp: seek_body_def st buffered_def abort_fs_def)
  qed
  then obtain t where t: "whileR (unat o2 + 1) ?g (seek_body disk bcs) (False, clst, o2, s\<lparr>pff_fs := fs'\<rparr>) = Inr t" "?I t" by blast
  obtain failed k o3 s1 where te: "t = (failed, k, o3, s1)" by (cases t)
  note w = t(1) [unfolded te] t(2) [unfolded te prod.case]
  have fin: "buffered (snd (seek_finish k o3 s1))" using w(2) by (simp add: seek_finish_def Let_def buffered_def abort_fs_def)
  have "pf_lseek disk s ofs = Inr (if o1 = 0 then (FR_OK, s\<lparr>pff_fs := fs\<lparr>fptr := 0\<rparr>\<rparr>)
      else if failed then (FR_DISK_ERR, s1) else seek_finish k o3 s1)"
    unfolding pf_lseek_def Let_def fs_def [symmetric] o1_def [symmetric] bcs_def [symmetric] st prod.case w(1)
    using False b0 by (simp add: fs_def)
  then show ?thesis using w(2) fin assms(1) by (cases "seek_finish k o3 s1") (simp add: buffered_def)
qed

lemma check_fs_returns:
  assumes "buffered s"
  shows "\<exists>r s'. check_fs disk s sect = Inr (r, s') \<and> buffered s'"
proof -
  obtain r1 s1 where 1: "read_local disk s sect 510 2 = Inr (r1, s1)" "buffered s1"
    using read_local_returns [OF assms, of 510 2] by fastforce
  obtain r2 s2 where 2: "read_local disk s1 sect 54 2 = Inr (r2, s2)" "buffered s2"
    using read_local_returns [OF 1(2), of 54 2] by fastforce
  obtain r3 s3 where 3: "read_local disk s2 sect 82 2 = Inr (r3, s3)" "buffered s3"
    using read_local_returns [OF 2(2), of 82 2] by fastforce
  show ?thesis using 1 2 3 by (auto simp: check_fs_def split: option.splits)
qed

text \<open>A boot sector that announces 0 sectors per cluster makes \<open>pf_mount\<close> divide by zero.\<close>

lemma mount_fields_returns:
  "mount_fields fs bsect buf = Inl DivByZero \<longleftrightarrow> buf ! 0 = 0"
  "buf ! 0 \<noteq> 0 \<Longrightarrow> \<exists>r fs'. mount_fields fs bsect buf = Inr (r, fs') \<and> csize fs' = buf ! 0"
  by (simp_all add: mount_fields_def Let_def)

lemma pf_mount_returns:
  assumes "buffered s"
  shows "(\<exists>r s'. pf_mount disk s = Inr (r, s') \<and> buffered s') \<or> pf_mount disk s = Inl DivByZero"
proof -
  define s0 where "s0 = s\<lparr>pff_mounted := False\<rparr>"
  have s0: "buffered s0" using assms by (simp add: s0_def buffered_def)
  obtain f1 s1 where 1: "check_fs disk s0 0 = Inr (f1, s1)" "buffered s1" using check_fs_returns [OF s0] by blast
  obtain r2 s2 where 2: "read_local disk s1 0 446 16 = Inr (r2, s2)" "buffered s2"
    using read_local_returns [OF 1(2), of 446 16] by fastforce
  define find where "find = (if f1 = 1 then bindR (read_local disk s1 0 446 16) (\<lambda>(r, s).
      case r of None \<Rightarrow> Inr (3, 0, s)
      | Some buf \<Rightarrow> if buf ! 4 \<noteq> 0 then let bsect = ld_dword buf 8 in bindR (check_fs disk s bsect) (\<lambda>(fmt, s). Inr (fmt, bsect, s))
        else Inr (f1, 0, s)) else Inr (f1, 0, s1))"
  obtain fmt b s3 where 3: "find = Inr (fmt, b, s3)" "buffered s3"
  proof (cases "f1 = 1")
    case True
    show thesis
    proof (cases r2)
      case (Some buf)
      obtain f4 s4 where "check_fs disk s2 (ld_dword buf 8) = Inr (f4, s4)" "buffered s4" using check_fs_returns [OF 2(2)] by blast
      then show thesis using that True Some 2 by (cases "buf ! 4 = 0") (auto simp: find_def Let_def)
    qed (use that True 2 in \<open>auto simp: find_def\<close>)
  qed (use that 1 in \<open>auto simp: find_def\<close>)
  obtain r5 s5 where 5: "read_local disk s3 b 13 36 = Inr (r5, s5)" "buffered s5"
    using read_local_returns [OF 3(2), of 13 36] by fastforce
  have fields: "(\<exists>r fs'. mount_fields fs b buf = Inr (r, fs')) \<or> mount_fields fs b buf = Inl DivByZero" for fs buf
    using mount_fields_returns [where fs = fs and bsect = b and buf = buf] by blast
  have "pf_mount disk s = (if disk_initialize (pff_cache s0) AND STA_NOINIT \<noteq> 0 then Inr (FR_NOT_READY, s0)
      else if fmt = 3 then Inr (FR_DISK_ERR, s3) else if fmt \<noteq> 0 then Inr (FR_NO_FILESYSTEM, s3)
      else case r5 of None \<Rightarrow> Inr (FR_DISK_ERR, s5)
        | Some buf \<Rightarrow> bindR (mount_fields (pff_fs s5) b buf) (\<lambda>(res, fs). Inr (res, s5\<lparr>pff_fs := fs, pff_mounted := res = FR_OK\<rparr>)))"
    unfolding pf_mount_def Let_def s0_def [symmetric] 1(1) bindR_Inr prod.case
    unfolding find_def [unfolded Let_def, symmetric] 3(1) bindR_Inr prod.case 5(1) ..
  moreover have "(\<exists>r s'. bindR (mount_fields (pff_fs s5) b buf) (\<lambda>(res, fs). Inr (res, s5\<lparr>pff_fs := fs, pff_mounted := res = FR_OK\<rparr>)) = Inr (r, s') \<and> buffered s') \<or>
      bindR (mount_fields (pff_fs s5) b buf) (\<lambda>(res, fs). Inr (res, s5\<lparr>pff_fs := fs, pff_mounted := res = FR_OK\<rparr>)) = Inl DivByZero" for buf
    using fields [of "pff_fs s5" buf] 5(2) by (auto simp: buffered_def)
  ultimately show ?thesis using s0 3(2) 5(2) by (cases r5) auto
qed

section \<open>The module\<close>

text \<open>
  C21: whatever the disk holds, cyclic or broken allocation tables included, mounting, opening a
  path, reading and seeking come to an end: no loop runs on and no access leaves its buffer.
  Mounting returns or ends in a division by zero, the others return; seeking needs a cluster
  size that is not 0.
\<close>

theorem fat_operations_return:
  assumes "buffered s" "is_path path" "length sp = 12"
  shows "((\<exists>r s'. pf_mount disk s = Inr (r, s') \<and> buffered s') \<or> pf_mount disk s = Inl DivByZero) \<and>
    (\<exists>r s'. pf_open disk s sp dir path = Inr (r, s') \<and> buffered s') \<and>
    (\<exists>r br out s'. pf_read disk s buff btr = Inr (r, br, out, s') \<and> buffered s' \<and> br \<le> btr) \<and>
    (csize (pff_fs s) = 0 \<or> (\<exists>r s'. pf_lseek disk s ofs = Inr (r, s') \<and> buffered s'))"
  using pf_mount_returns [OF assms(1)] pf_open_returns [OF assms(2,1,3)] pf_read_returns [OF assms(1)] pf_lseek_returns [OF assms(1)] by blast

theorem fat_operations_return_witness:
  "((\<exists>r s'. pf_mount (\<lambda>d s k. 0xFF) example_pff = Inr (r, s') \<and> buffered s') \<or> pf_mount (\<lambda>d s k. 0xFF) example_pff = Inl DivByZero) \<and>
   (\<exists>r s'. pf_open (\<lambda>d s k. 0xFF) example_pff (replicate 12 0) [] [75, 46, 69, 0] = Inr (r, s') \<and> buffered s') \<and>
   (\<exists>r br out s'. pf_read (\<lambda>d s k. 0xFF) example_pff 0x8000 4 = Inr (r, br, out, s') \<and> buffered s' \<and> br \<le> 4) \<and>
   (csize (pff_fs example_pff) = 0 \<or> (\<exists>r s'. pf_lseek (\<lambda>d s k. 0xFF) example_pff 7 = Inr (r, s') \<and> buffered s'))"
  by (rule fat_operations_return)
    (simp_all add: buffered_def is_path_def example_pff_def setDrive_def dcache_start_def)

end
