(* ===== verification/Fat_Dir.thy ===== *)
theory Fat_Dir
  imports Fat_Total
begin

text \<open>
  Directories of the FAT reader: the sectors of a directory are those of the static root
  table of FAT16 or of the clusters that the allocation table links; its entries are the
  32-byte records in them. \<open>dir_find\<close> searches them in order, \<open>follow_path\<close> descends
  along a path, and \<open>pf_open\<close> opens the file the path names. The specification is a
  lookup in a list of entries; the lemmas show that the code computes it on every
  well-formed directory, hit or miss.
\<close>

section \<open>The entries of a directory\<close>

text \<open>
  A directory is given by its clusters, the static root table by the empty list. Its
  \<open>k\<close>-th sector with the cluster it belongs to, and the number of its sectors.
\<close>

definition dir_sector :: "FATFS \<Rightarrow> u32 list \<Rightarrow> nat \<Rightarrow> u32 \<times> u32" where
  "dir_sector fs cl k =
     (if cl = [] then (0, dirbase fs + of_nat k)
      else (cl ! (k div unat (csize fs)), clust2sect fs (cl ! (k div unat (csize fs))) + of_nat (k mod unat (csize fs))))"

definition dir_sectors :: "FATFS \<Rightarrow> u32 list \<Rightarrow> nat" where
  "dir_sectors fs cl = (if cl = [] then unat (n_rootdir fs) div 16 else length cl * unat (csize fs))"

definition dir_entry :: "disk \<Rightarrow> u16 \<Rightarrow> FATFS \<Rightarrow> u32 list \<Rightarrow> nat \<Rightarrow> u8 list" where
  "dir_entry disk drv fs cl i =
     take 32 (drop (32 * (i mod 16)) (sector_bytes disk drv (snd (dir_sector fs cl (i div 16)))))"

definition dir_entries :: "disk \<Rightarrow> u16 \<Rightarrow> FATFS \<Rightarrow> u32 list \<Rightarrow> u8 list list" where
  "dir_entries disk drv fs cl = map (dir_entry disk drv fs cl) [0..<16 * dir_sectors fs cl]"

text \<open>
  The clusters of the directory with a given start cluster: 0 is the root, a static table
  of whole sectors in FAT16, the chain from the root cluster in FAT32. A chain ends in an
  entry above the last cluster and holds at most 65536 directory entries.
\<close>

definition dir_chain :: "disk \<Rightarrow> u16 \<Rightarrow> FATFS \<Rightarrow> u32 \<Rightarrow> u32 list \<Rightarrow> bool" where
  "dir_chain disk drv fs start cl \<longleftrightarrow>
     (if start = 0 \<and> fs_type fs \<noteq> FS_FAT32
      then cl = [] \<and> 0 < unat (n_rootdir fs) \<and> unat (n_rootdir fs) mod 16 = 0 \<and> dirbase fs \<noteq> 0 \<and>
        unat (dirbase fs) + unat (n_rootdir fs) div 16 \<le> 4294967295
      else cl \<noteq> [] \<and> hd cl = (if start = 0 then dirbase fs else start) \<and>
        list_all (\<lambda>c. 2 \<le> unat c \<and> unat c < unat (n_fatent fs)) cl \<and>
        list_all (\<lambda>i. fat_entry disk drv fs (cl ! i) = cl ! (i + 1)) [0..<length cl - 1] \<and>
        n_fatent fs \<le> fat_entry disk drv fs (last cl) \<and> length cl * unat (csize fs) \<le> 4096)"

text \<open>
  The search: the entries up to the first that is free for good, and in them the first
  with the name that is neither a volume label nor a part of a long name.
\<close>

definition dir_lookup :: "u8 list \<Rightarrow> u8 list list \<Rightarrow> u8 list option" where
  "dir_lookup fn es = find (\<lambda>e. e ! 11 AND AM_VOL = 0 \<and> take 11 e = fn) (takeWhile (\<lambda>e. e ! 0 \<noteq> 0) es)"

lemma dir_lookup_Nil [simp]: "dir_lookup fn [] = None"
  by (simp add: dir_lookup_def)

lemma dir_lookup_Cons:
  "dir_lookup fn (e # es) =
     (if e ! 0 = 0 then None else if e ! 11 AND AM_VOL = 0 \<and> take 11 e = fn then Some e else dir_lookup fn es)"
  by (simp add: dir_lookup_def)

lemma dir_lookup_SomeD:
  assumes "dir_lookup fn es = Some e"
  shows "e \<in> set es" "e ! 0 \<noteq> 0" "e ! 11 AND AM_VOL = 0" "take 11 e = fn"
  using assms by (auto simp: dir_lookup_def find_Some_iff dest!: nth_mem set_takeWhileD)

lemma mem_cmp_eq:
  assumes "n \<le> length d" "n \<le> length s"
  shows "mem_cmp d s n = 0 \<longleftrightarrow> take n d = take n s"
  using assms
proof (induction n arbitrary: d s)
  case (Suc n)
  obtain x d' y s' where e: "d = x # d'" "s = y # s'"
    using Suc.prems by (cases d; cases s) auto
  have "sint x - sint y = 0 \<longleftrightarrow> x = y" by (auto simp: signed_word_eqI)
  then show ?case using Suc.IH [of d' s'] Suc.prems by (simp add: e Let_def)
qed simp

lemma dir_chain_sectors:
  assumes "dir_chain disk drv fs start cl" "volume_ok fs"
  shows "0 < dir_sectors fs cl" "dir_sectors fs cl \<le> 4096"
proof -
  have "unat (n_rootdir fs) < 65536" using unsigned_less [of "n_rootdir fs", where ?'a = nat] by simp
  then show "0 < dir_sectors fs cl" "dir_sectors fs cl \<le> 4096"
    using assms csize_pos [OF assms(2)] unfolding dir_chain_def dir_sectors_def by (auto split: if_splits)
qed

lemma dir_chain_cluster:
  assumes "dir_chain disk drv fs start cl" "i < length cl"
  shows "2 \<le> unat (cl ! i)" "unat (cl ! i) < unat (n_fatent fs)"
  using assms by (auto simp: dir_chain_def list_all_length split: if_splits)

lemma dir_sector_valid:
  assumes "volume_ok fs" "dir_chain disk drv fs start cl" "k < dir_sectors fs cl"
  shows "snd (dir_sector fs cl k) \<noteq> 0xFFFFFFFF" "snd (dir_sector fs cl k) \<noteq> 0"
proof -
  have "0 < unat (snd (dir_sector fs cl k)) \<and> unat (snd (dir_sector fs cl k)) < 4294967295"
  proof (cases "cl = []")
    case True
    have c: "dirbase fs \<noteq> 0" "unat (dirbase fs) + unat (n_rootdir fs) div 16 \<le> 4294967295" "k < unat (n_rootdir fs) div 16"
      using assms(2,3) True by (auto simp: dir_chain_def dir_sectors_def split: if_splits)
    have "0 < unat (dirbase fs)" using c(1) by (simp add: unat_gt_0)
    moreover have "unat (of_nat k :: u32) = k" using c by (intro unat_of_nat32) linarith
    moreover from this have "unat (dirbase fs + of_nat k) = unat (dirbase fs) + k" using c by (subst unat_add_nowrap) simp_all
    ultimately show ?thesis using True c by (simp add: dir_sector_def)
  next
    case False
    let ?C = "unat (csize fs)"
    have C: "0 < ?C" by (rule csize_pos [OF assms(1)])
    have "k < length cl * ?C" using assms(3) False by (simp add: dir_sectors_def)
    then have i: "k div ?C < length cl" by (rule less_mult_imp_div_less)
    define n where "n = 512 * k"
    have "cluster_bytes fs = ?C * 512" by (simp add: cluster_bytes_def)
    then have n: "n div cluster_bytes fs = k div ?C" "n div 512 = k" by (simp_all add: n_def mult.commute [of 512])
    note c = dir_chain_cluster [OF assms(2) i]
    note v = file_sector_valid [OF assms(1), of cl n, unfolded n, OF c]
    have d: "snd (dir_sector fs cl k) = clust2sect fs (cl ! (k div ?C)) + of_nat (k mod ?C)" using False by (simp add: dir_sector_def)
    have "0 < unat (clust2sect fs (cl ! (k div ?C)))" using clust2sect_valid(3) [OF assms(1) c] by (simp add: unat_gt_0)
    have m: "k mod ?C < ?C" using C by simp
    have "(unat (cl ! (k div ?C)) - 2) * ?C + ?C = (unat (cl ! (k div ?C)) - 1) * ?C"
      using c(1) by (metis Suc_diff_le add.commute diff_Suc_Suc mult_Suc numeral_2_eq_2 One_nat_def)
    also have "\<dots> \<le> (unat (n_fatent fs) - 2) * ?C" using c(2) by (intro mult_le_mono1) simp
    finally have lt: "unat (clust2sect fs (cl ! (k div ?C))) + k mod ?C < 4294967295"
      using assms(1) m unfolding clust2sect_valid(2) [OF assms(1) c] volume_ok_def by linarith
    have "unat (of_nat (k mod ?C) :: u32) = k mod ?C" using lt by (intro unat_of_nat32) simp
    then have "unat (snd (dir_sector fs cl k)) = unat (clust2sect fs (cl ! (k div ?C))) + k mod ?C"
      unfolding d using lt by (subst unat_add_nowrap) simp_all
    then show ?thesis using lt \<open>0 < unat (clust2sect fs (cl ! (k div ?C)))\<close> by simp
  qed
  then show "snd (dir_sector fs cl k) \<noteq> 0xFFFFFFFF" "snd (dir_sector fs cl k) \<noteq> 0" by auto
qed

section \<open>Stepping through a directory\<close>

text \<open>The directory object stands at entry \<open>i\<close>.\<close>

definition dir_at :: "FATFS \<Rightarrow> u32 list \<Rightarrow> nat \<Rightarrow> DIR \<Rightarrow> bool" where
  "dir_at fs cl i dj \<longleftrightarrow> i < 16 * dir_sectors fs cl \<and> unat (dj_index dj) = i \<and>
     (dj_clust dj, dj_sect dj) = dir_sector fs cl (i div 16)"

definition same_dir :: "DIR \<Rightarrow> DIR \<Rightarrow> bool" where
  "same_dir dj dj' \<longleftrightarrow> dj_fn dj' = dj_fn dj \<and> dj_sclust dj' = dj_sclust dj"

lemma same_dir_refl [simp]: "same_dir dj dj"
  by (simp add: same_dir_def)

lemma same_dir_trans: "same_dir a b \<Longrightarrow> same_dir b c \<Longrightarrow> same_dir a c"
  by (simp add: same_dir_def)

lemma dir_rewind_ok:
  assumes "volume_ok fs" "dir_chain disk drv fs (dj_sclust dj) cl"
  shows "\<exists>dj'. dir_rewind fs dj = (FR_OK, dj') \<and> dir_at fs cl 0 dj' \<and> same_dir dj dj'"
proof -
  have pos: "0 < dir_sectors fs cl" using dir_chain_sectors [OF assms(2,1)] by blast
  have n: "2 \<le> unat (n_fatent fs)" using assms(1) unfolding volume_ok_def by blast
  show ?thesis
  proof (cases "cl = []")
    case True
    then have "dj_sclust dj = 0" "fs_type fs \<noteq> FS_FAT32" using assms(2) by (auto simp: dir_chain_def split: if_splits)
    moreover have "\<not> 0 \<ge> n_fatent fs" using n by (auto simp: word_le_nat_alt)
    ultimately show ?thesis using True pos by (simp add: dir_rewind_def dir_at_def dir_sector_def same_dir_def)
  next
    case False
    then have h: "cl ! 0 = (if dj_sclust dj = 0 then dirbase fs else dj_sclust dj)" "dj_sclust dj = 0 \<longrightarrow> fs_type fs = FS_FAT32"
      using assms(2) by (auto simp: dir_chain_def hd_conv_nth split: if_splits)
    have c: "2 \<le> unat (cl ! 0)" "unat (cl ! 0) < unat (n_fatent fs)" using dir_chain_cluster [OF assms(2)] False by simp_all
    have nz: "cl ! 0 \<noteq> 0" using c(1) by auto
    have g: "\<not> (dj_sclust dj = 1 \<or> dj_sclust dj \<ge> n_fatent fs)"
      using c h(1) n by (auto simp: word_le_nat_alt split: if_splits)
    have "dir_rewind fs dj = (FR_OK, dj\<lparr>dj_index := 0, dj_clust := cl ! 0, dj_sect := clust2sect fs (cl ! 0)\<rparr>)"
      using g h nz by (auto simp: dir_rewind_def Let_def)
    then show ?thesis using False pos by (simp add: dir_at_def dir_sector_def same_dir_def)
  qed
qed

lemma word_index_Suc:
  fixes x :: u16
  assumes "unat x = i" "i < 65535"
  shows "unat (x + 1) = i + 1" "x + 1 \<noteq> 0"
proof -
  show 1: "unat (x + 1) = i + 1" using assms by (subst unat_add_nowrap) simp_all
  show "x + 1 \<noteq> 0" using 1 by auto
qed

lemma word_mod16: "x mod 16 = 0 \<longleftrightarrow> unat x mod 16 = 0" for x :: u16
proof -
  have "unat (x mod 16) = unat x mod 16" by (simp add: unat_mod_distrib)
  then show ?thesis by (metis unat_0 unat_eq_zero)
qed

text \<open>Entry \<open>i\<close> and its sector within the sector and cluster structure.\<close>

lemma next_entry_sector:
  assumes "(i + 1) mod 16 \<noteq> 0"
  shows "(i + 1) div 16 = i div (16::nat)"
  using assms by (metis Suc_eq_plus1 div_Suc)

lemma next_sector_index:
  assumes "(i + 1) mod 16 = 0"
  shows "(i + 1) div 16 = i div 16 + (1::nat)"
  using assms by (metis Suc_eq_plus1 div_Suc)

lemma dir_next_static:
  assumes "dir_chain disk drv fs start []" "fs = pff_fs s" "dj_clust dj = 0" "dj_sect dj \<noteq> 0" "k < dir_sectors fs []"
    "unat (dj_index dj + 1) = 16 * (k + 1)"
  shows "dir_next disk s dj = Inr (if k + 1 < dir_sectors fs []
    then (FR_OK, dj\<lparr>dj_sect := dj_sect dj + 1, dj_index := dj_index dj + 1\<rparr>, s) else (FR_NO_FILE, dj\<lparr>dj_sect := dj_sect dj + 1\<rparr>, s))"
proof -
  have nz: "dj_index dj + 1 \<noteq> 0" using assms(6) by auto
  have m: "(dj_index dj + 1) mod 16 = 0" by (simp only: word_mod16 assms(6)) simp
  have r: "unat (n_rootdir fs) = 16 * dir_sectors fs []"
    using assms(1) by (auto simp: dir_chain_def dir_sectors_def split: if_splits)
  have "dj_index dj + 1 \<ge> n_rootdir fs \<longleftrightarrow> \<not> k + 1 < dir_sectors fs []"
    unfolding word_le_nat_alt assms(6) r using assms(5) by auto
  then show ?thesis using nz m assms(3,4) by (simp add: dir_next_def Let_def assms(2) [symmetric])
qed

lemma csize_step:
  fixes x :: u16
  assumes "volume_ok fs" "unat x = 16 * j"
  shows "ucast (x div 16) AND (ucast (csize fs) - 1 :: u32) = 0 \<longleftrightarrow> j mod unat (csize fs) = 0"
proof -
  have "unat (x div 16) = j" by (simp add: unat_div_distrib assms(2))
  then have "unat (ucast (x div 16) AND (ucast (csize fs) - 1 :: u32)) = j mod unat (csize fs)"
    by (simp add: csize_mask [OF assms(1)])
  then show ?thesis by (metis unat_0 unat_eq_zero)
qed

lemma dir_next_cluster:
  assumes "dcache_ok disk drv (pff_cache s)" "volume_ok fs" "dir_chain disk drv fs start cl" "cl \<noteq> []" "fs = pff_fs s"
    "dj_clust dj = cl ! (k div C)" "dj_sect dj \<noteq> 0" "k < length cl * C" "unat (dj_index dj + 1) = 16 * (k + 1)"
    "C = unat (csize fs)" "(k + 1) mod C = 0"
  shows "\<exists>c. dir_next disk s dj = Inr (if k + 1 < length cl * C
      then (FR_OK, dj\<lparr>dj_clust := cl ! ((k + 1) div C), dj_sect := clust2sect fs (cl ! ((k + 1) div C)), dj_index := dj_index dj + 1\<rparr>, s\<lparr>pff_cache := c\<rparr>)
      else (FR_NO_FILE, dj\<lparr>dj_sect := dj_sect dj + 1\<rparr>, s\<lparr>pff_cache := c\<rparr>)) \<and> dcache_ok disk drv c"
proof -
  have C: "0 < C" using csize_pos [OF assms(2)] by (simp add: assms(10))
  have nz: "dj_index dj + 1 \<noteq> 0" using assms(9) by auto
  have m: "(dj_index dj + 1) mod 16 = 0" by (simp only: word_mod16 assms(9)) simp
  have step: "ucast ((dj_index dj + 1) div 16) AND (ucast (csize fs) - 1 :: u32) = 0"
    using csize_step [OF assms(2,9)] assms(11) by (simp add: assms(10))
  define q where "q = k div C"
  have q1: "(k + 1) div C = q + 1" using assms(11) C by (metis Suc_eq_plus1 div_Suc q_def)
  have k1: "k + 1 = C * (q + 1)" using assms(11) q1 by (metis add.right_neutral mult_div_mod_eq)
  have ql: "q < length cl" using assms(8) by (simp add: q_def less_mult_imp_div_less)
  have more: "k + 1 < length cl * C \<longleftrightarrow> q + 1 < length cl" using mult_less_cancel1 [of C "q + 1" "length cl"] C by (simp only: k1 mult.commute [of "length cl" C] simp_thms)
  note c = dir_chain_cluster [OF assms(3) ql]
  have nzc: "cl ! q \<noteq> 0" using c(1) by auto
  obtain ch where g: "get_fat disk s (cl ! q) = Inr (fat_entry disk drv fs (cl ! q), s\<lparr>pff_cache := ch\<rparr>)" "dcache_ok disk drv ch"
    using get_fat_entry [OF assms(1), of "cl ! q"] assms(2) c by (auto simp: assms(5))
  let ?dj = "dj\<lparr>dj_sect := dj_sect dj + 1\<rparr>"
  have nx: "dir_next disk s dj = (let e = fat_entry disk drv fs (cl ! q) in
      if e \<le> 1 then Inr (FR_DISK_ERR, ?dj, s\<lparr>pff_cache := ch\<rparr>)
      else if e \<ge> n_fatent fs then Inr (FR_NO_FILE, ?dj, s\<lparr>pff_cache := ch\<rparr>)
      else Inr (FR_OK, ?dj\<lparr>dj_clust := e, dj_sect := clust2sect fs e, dj_index := dj_index dj + 1\<rparr>, s\<lparr>pff_cache := ch\<rparr>))"
    using nz m step nzc assms(6,7) g(1) by (simp add: dir_next_def Let_def assms(5) [symmetric] q_def)
  have links: "list_all (\<lambda>i. fat_entry disk drv fs (cl ! i) = cl ! (i + 1)) [0..<length cl - 1]"
    "n_fatent fs \<le> fat_entry disk drv fs (last cl)" using assms(3,4) by (auto simp: dir_chain_def split: if_splits)
  have n2: "2 \<le> unat (n_fatent fs)" using assms(2) unfolding volume_ok_def by blast
  show ?thesis
  proof (cases "q + 1 < length cl")
    case True
    then have e: "fat_entry disk drv fs (cl ! q) = cl ! (q + 1)" using links(1) by (auto simp: list_all_iff)
    note c1 = dir_chain_cluster [OF assms(3) True]
    have "\<not> cl ! (q + 1) \<le> 1" "\<not> cl ! (q + 1) \<ge> n_fatent fs" using c1 by (simp_all add: word_le_nat_alt)
    then show ?thesis unfolding more q1 using True nx g(2) by (intro exI [of _ ch]) (simp add: e Let_def)
  next
    case False
    then have "q = length cl - 1" using ql by linarith
    then have "cl ! q = last cl" using assms(4) by (simp add: last_conv_nth)
    then have "n_fatent fs \<le> fat_entry disk drv fs (cl ! q)" using links(2) by simp
    moreover from this have "\<not> fat_entry disk drv fs (cl ! q) \<le> 1" using n2 by (simp add: word_le_nat_alt)
    ultimately show ?thesis unfolding more q1 using False nx g(2) by (intro exI [of _ ch]) (simp add: Let_def)
  qed
qed

lemma dir_next_within:
  assumes "volume_ok fs" "fs = pff_fs s" "dj_clust dj \<noteq> 0" "dj_sect dj \<noteq> 0" "unat (dj_index dj + 1) = 16 * (k + 1)"
    "(k + 1) mod unat (csize fs) \<noteq> 0"
  shows "dir_next disk s dj = Inr (FR_OK, dj\<lparr>dj_sect := dj_sect dj + 1, dj_index := dj_index dj + 1\<rparr>, s)"
proof -
  have nz: "dj_index dj + 1 \<noteq> 0" using assms(5) by auto
  have m: "(dj_index dj + 1) mod 16 = 0" by (simp only: word_mod16 assms(5)) simp
  show ?thesis using nz m csize_step [OF assms(1,5)] assms(3,4,6)
    by (simp add: dir_next_def Let_def assms(2) [symmetric])
qed

lemma dir_next_boundary:
  assumes "dcache_ok disk drv (pff_cache s)" "volume_ok fs" "dir_chain disk drv fs start cl" "fs = pff_fs s"
    "(dj_clust dj, dj_sect dj) = dir_sector fs cl k" "dj_sect dj \<noteq> 0" "k < dir_sectors fs cl" "unat (dj_index dj + 1) = 16 * (k + 1)"
  shows "\<exists>dj' c. dir_next disk s dj = Inr (if k + 1 < dir_sectors fs cl then FR_OK else FR_NO_FILE, dj', s\<lparr>pff_cache := c\<rparr>) \<and>
    dcache_ok disk drv c \<and> same_dir dj dj' \<and>
    (k + 1 < dir_sectors fs cl \<longrightarrow> dj_index dj' = dj_index dj + 1 \<and> (dj_clust dj', dj_sect dj') = dir_sector fs cl (k + 1))"
proof -
  have st: "s = s\<lparr>pff_cache := pff_cache s\<rparr>" by simp
  let ?step = "dj\<lparr>dj_sect := dj_sect dj + 1, dj_index := dj_index dj + 1\<rparr>"
  show ?thesis
  proof (cases "cl = []")
    case True
    have "dj_clust dj = 0" "dj_sect dj = dirbase fs + of_nat k" using assms(5) True by (simp_all add: dir_sector_def)
    with dir_next_static [OF assms(3) [unfolded True] assms(4) _ assms(6) assms(7) [unfolded True] assms(8)] show ?thesis
      using True st assms(1)
      by (intro exI [of _ "if k + 1 < dir_sectors fs cl then ?step else dj\<lparr>dj_sect := dj_sect dj + 1\<rparr>"] exI [of _ "pff_cache s"])
        (auto simp: dir_sector_def same_dir_def)
  next
    case cl: False
    define C where "C = unat (csize fs)"
    have n: "dir_sectors fs cl = length cl * C" using cl by (simp add: dir_sectors_def C_def)
    have d: "dj_clust dj = cl ! (k div C)" "dj_sect dj = clust2sect fs (cl ! (k div C)) + of_nat (k mod C)"
      using assms(5) cl by (simp_all add: dir_sector_def C_def)
    show ?thesis
    proof (cases "(k + 1) mod C = 0")
      case True
      let ?new = "dj\<lparr>dj_clust := cl ! ((k + 1) div C), dj_sect := clust2sect fs (cl ! ((k + 1) div C)), dj_index := dj_index dj + 1\<rparr>"
      obtain c where "dir_next disk s dj = Inr (if k + 1 < length cl * C then (FR_OK, ?new, s\<lparr>pff_cache := c\<rparr>)
          else (FR_NO_FILE, dj\<lparr>dj_sect := dj_sect dj + 1\<rparr>, s\<lparr>pff_cache := c\<rparr>))" "dcache_ok disk drv c"
        using dir_next_cluster [OF assms(1-3) cl assms(4) d(1) assms(6) assms(7) [unfolded n] assms(8) C_def True] by blast
      then show ?thesis using True
        by (intro exI [of _ "if k + 1 < length cl * C then ?new else dj\<lparr>dj_sect := dj_sect dj + 1\<rparr>"] exI [of _ c])
          (auto simp: n dir_sector_def same_dir_def cl C_def)
    next
      case F: False
      have q: "k div C < length cl" using assms(7) by (simp add: n less_mult_imp_div_less)
      have nzc: "dj_clust dj \<noteq> 0" using dir_chain_cluster(1) [OF assms(3) q] d(1) by auto
      have kd: "Suc k div C = k div C" "Suc k mod C = Suc (k mod C)" using F by (simp_all add: div_Suc mod_Suc split: if_splits)
      have "k + 1 < dir_sectors fs cl" using assms(7) F n by (cases "k + 1 = dir_sectors fs cl") auto
      with dir_next_within [OF assms(2,4) nzc assms(6,8) F [unfolded C_def], of disk] show ?thesis
        using assms(1) by (intro exI [of _ ?step] exI [of _ "pff_cache s"])
          (auto simp: dir_sector_def same_dir_def cl d kd C_def [symmetric])
    qed
  qed
qed

lemma dir_next_ok:
  assumes "dcache_ok disk drv (pff_cache s)" "volume_ok (pff_fs s)" "dir_chain disk drv (pff_fs s) start cl" "dir_at (pff_fs s) cl i dj"
  shows "\<exists>dj' c. dir_next disk s dj = Inr (if i + 1 < 16 * dir_sectors (pff_fs s) cl then FR_OK else FR_NO_FILE, dj', s\<lparr>pff_cache := c\<rparr>) \<and>
    dcache_ok disk drv c \<and> same_dir dj dj' \<and> (i + 1 < 16 * dir_sectors (pff_fs s) cl \<longrightarrow> dir_at (pff_fs s) cl (i + 1) dj')"
proof -
  define fs where "fs = pff_fs s"
  define n where "n = dir_sectors fs cl"
  note v = assms [folded fs_def]
  have at: "i < 16 * n" "unat (dj_index dj) = i" "(dj_clust dj, dj_sect dj) = dir_sector fs cl (i div 16)"
    using v(4) by (simp_all add: dir_at_def n_def)
  have n: "0 < n" "n \<le> 4096" using dir_chain_sectors [OF v(3,2)] by (simp_all add: n_def)
  have k: "i div 16 < n" using at(1) by (simp add: less_mult_imp_div_less mult.commute)
  have sz: "dj_sect dj \<noteq> 0" using dir_sector_valid(2) [OF v(2,3) k [unfolded n_def]] by (simp flip: at(3))
  note ex = exI [of _ dj] exI [of _ "pff_cache s"]
  show ?thesis
  proof (cases "i = 65535")
    case True
    then have "n = 4096" using at(1) n by simp
    have "dj_index dj = of_nat 65535" using at(2) True by (metis of_nat_unat ucast_id)
    then have "dir_next disk s dj = Inr (FR_NO_FILE, dj, s)" by (simp add: dir_next_def)
    then show ?thesis using v(1) True \<open>n = 4096\<close> by (intro ex) (simp add: n_def [symmetric] fs_def [symmetric])
  next
    case False
    have i: "i < 65535" using at(1) n False by simp
    note w = word_index_Suc [OF at(2) i]
    have m: "(dj_index dj + 1) mod 16 = 0 \<longleftrightarrow> (i + 1) mod 16 = 0" by (simp only: word_mod16 w)
    show ?thesis
    proof (cases "(i + 1) mod 16 = 0")
      case nb: False
      have lt: "i + 1 < 16 * n" using at(1) nb by (cases "i + 1 = 16 * n") auto
      have "dir_next disk s dj = Inr (FR_OK, dj\<lparr>dj_index := dj_index dj + 1\<rparr>, s)"
        using w(2) sz nb m by (simp add: dir_next_def Let_def)
      moreover have "dir_at fs cl (i + 1) (dj\<lparr>dj_index := dj_index dj + 1\<rparr>)"
        using at(3) lt w(1) unfolding dir_at_def next_entry_sector [OF nb] by (simp add: n_def)
      ultimately show ?thesis using v(1) lt
        by (intro exI [of _ "dj\<lparr>dj_index := dj_index dj + 1\<rparr>"] ex(2)) (simp add: n_def [symmetric] fs_def [symmetric] same_dir_def)
    next
      case b: True
      define k where "k = i div 16"
      have k1: "(i + 1) div 16 = k + 1" using next_sector_index [OF b] by (simp add: k_def)
      have i1: "i + 1 = 16 * (k + 1)" using b k1 by (metis add.right_neutral mult_div_mod_eq)
      have more: "i + 1 < 16 * n \<longleftrightarrow> k + 1 < n" unfolding i1 by arith
      have i2: "unat (dj_index dj + 1) = 16 * (k + 1)" using w(1) i1 by simp
      from dir_next_boundary [OF v(1-3) fs_def at(3) sz k [unfolded n_def] i2 [unfolded k_def]]
      show ?thesis unfolding fs_def [symmetric] n_def [symmetric] more k_def [symmetric]
        by (elim ex_forward) (use w(1) k1 more in \<open>auto simp: dir_at_def n_def\<close>)
    qed
  qed
qed

section \<open>Finding an entry\<close>

lemma length_dir_entry: "length (dir_entry disk drv fs cl i) = 32"
proof -
  have "i mod 16 < 16" by simp
  then have "32 * (i mod 16) + 32 \<le> 512" by linarith
  then show ?thesis by (simp add: dir_entry_def)
qed

lemma dir_lookup_length:
  assumes "dir_lookup fn (dir_entries disk drv fs cl) = Some e"
  shows "length e = 32"
  using dir_lookup_SomeD(1) [OF assms] by (auto simp: dir_entries_def length_dir_entry)

lemma drop_dir_entries:
  assumes "i < 16 * dir_sectors fs cl"
  shows "drop i (dir_entries disk drv fs cl) = dir_entry disk drv fs cl i # drop (i + 1) (dir_entries disk drv fs cl)"
  using assms by (simp add: dir_entries_def drop_map) (simp add: upt_conv_Cons)

lemma read_entry:
  assumes "dcache_ok disk drv (pff_cache s)" "volume_ok fs" "dir_chain disk drv fs start cl" "dir_at fs cl i dj"
  shows "\<exists>c. read_local disk s (dj_sect dj) (ucast (dj_index dj mod 16 * 32)) 32 =
    Inr (Some (dir_entry disk drv fs cl i), s\<lparr>pff_cache := c\<rparr>) \<and> dcache_ok disk drv c"
proof -
  have at: "i div 16 < dir_sectors fs cl" "unat (dj_index dj) = i" "dj_sect dj = snd (dir_sector fs cl (i div 16))"
    using assms(4) unfolding dir_at_def by (auto simp: less_mult_imp_div_less mult.commute) (metis snd_conv)
  have "i mod 16 < 16" by simp
  then have "32 * (i mod 16) + 32 \<le> 512" by linarith
  then show ?thesis
    using read_local_ok [OF assms(1) dir_sector_valid(1) [OF assms(2,3) at(1)], of "ucast (dj_index dj mod 16 * 32)" 32]
    by (simp add: entry_offset at dir_entry_def)
qed

definition find_inv :: "disk \<Rightarrow> u16 \<Rightarrow> FATFS \<Rightarrow> u32 list \<Rightarrow> pff \<Rightarrow> DIR \<Rightarrow> find_state \<Rightarrow> bool" where
  "find_inv disk drv fs cl s0 dj0 = (\<lambda>(go, res, dj, dir, s).
     let found = dir_lookup (take 11 (dj_fn dj0)) (dir_entries disk drv fs cl) in
     dcache_ok disk drv (pff_cache s) \<and> s = s0\<lparr>pff_cache := pff_cache s\<rparr> \<and> same_dir dj0 dj \<and>
     (if go then dir_at fs cl (unat (dj_index dj)) dj \<and>
        dir_lookup (take 11 (dj_fn dj0)) (drop (unat (dj_index dj)) (dir_entries disk drv fs cl)) = found
      else case found of None \<Rightarrow> res = FR_NO_FILE | Some e \<Rightarrow> res = FR_OK \<and> dir = e))"

lemma find_body_ok:
  assumes "volume_ok fs" "dir_chain disk drv fs start cl" "fs = pff_fs s0" "11 \<le> length (dj_fn dj0)"
    and "find_inv disk drv fs cl s0 dj0 (True, res, dj, dir, s)"
  shows "\<exists>go' res' dj' dir' s'. find_body disk (True, res, dj, dir, s) = Inr (go', res', dj', dir', s') \<and>
    find_inv disk drv fs cl s0 dj0 (go', res', dj', dir', s') \<and> (go' \<longrightarrow> unat (dj_index dj') = unat (dj_index dj) + 1)"
proof -
  define i where "i = unat (dj_index dj)"
  define es where "es = dir_entries disk drv fs cl"
  define fn where "fn = take 11 (dj_fn dj0)"
  have inv: "dcache_ok disk drv (pff_cache s)" "s = s0\<lparr>pff_cache := pff_cache s\<rparr>" "same_dir dj0 dj" "dir_at fs cl i dj"
    "dir_lookup fn (drop i es) = dir_lookup fn es"
    using assms(5) by (simp_all add: find_inv_def Let_def i_def es_def fn_def)
  have fs: "fs = pff_fs s" by (subst inv(2)) (simp add: assms(3))
  let ?e = "dir_entry disk drv fs cl i"
  have ir: "i < 16 * dir_sectors fs cl" using inv(4) by (simp add: dir_at_def)
  have dr: "drop i es = ?e # drop (i + 1) es" using drop_dir_entries [OF ir] by (simp add: es_def)
  obtain c where rd: "read_local disk s (dj_sect dj) (ucast (dj_index dj mod 16 * 32)) 32 = Inr (Some ?e, s\<lparr>pff_cache := c\<rparr>)"
    "dcache_ok disk drv c" using read_entry [OF inv(1) assms(1,2) inv(4)] by blast
  have fn': "dj_fn dj = dj_fn dj0" using inv(3) by (simp add: same_dir_def)
  have cmp: "mem_cmp ?e (dj_fn dj) 11 = 0 \<longleftrightarrow> take 11 ?e = fn"
    using assms(4) by (simp add: mem_cmp_eq length_dir_entry fn' fn_def)
  have s1: "s\<lparr>pff_cache := c\<rparr> = s0\<lparr>pff_cache := c\<rparr>" for c by (subst inv(2)) simp
  note I = find_inv_def Let_def prod.case es_def [symmetric] fn_def [symmetric]
  consider (stop) "?e ! 0 = 0" | (hit) "?e ! 0 \<noteq> 0" "?e ! 11 AND AM_VOL = 0 \<and> take 11 ?e = fn"
    | (skip) "?e ! 0 \<noteq> 0" "\<not> (?e ! 11 AND AM_VOL = 0 \<and> take 11 ?e = fn)" by blast
  then show ?thesis
  proof cases
    case stop
    then have "find_body disk (True, res, dj, dir, s) = Inr (False, FR_NO_FILE, dj, ?e, s0\<lparr>pff_cache := c\<rparr>)"
      using rd(1) by (simp add: find_body_def s1)
    moreover have "dir_lookup fn es = None" using inv(5) stop by (simp add: dr dir_lookup_Cons)
    ultimately show ?thesis using rd(2) inv(3) by (auto simp: I)
  next
    case hit
    then have "find_body disk (True, res, dj, dir, s) = Inr (False, FR_OK, dj, ?e, s0\<lparr>pff_cache := c\<rparr>)"
      using rd(1) cmp by (simp add: find_body_def s1)
    moreover have "dir_lookup fn es = Some ?e" using inv(5) hit by (simp add: dr dir_lookup_Cons)
    ultimately show ?thesis using rd(2) inv(3) by (auto simp: I)
  next
    case skip
    have rest: "dir_lookup fn es = dir_lookup fn (drop (i + 1) es)" using inv(5) skip by (simp only: dr dir_lookup_Cons if_False)
    define s2 where "s2 = s\<lparr>pff_cache := c\<rparr>"
    have s2: "pff_fs s2 = fs" "dcache_ok disk drv (pff_cache s2)" using rd(2) by (simp_all add: s2_def fs)
    let ?more = "i + 1 < 16 * dir_sectors fs cl"
    obtain dj' c' where nx: "dir_next disk s2 dj = Inr (if ?more then FR_OK else FR_NO_FILE, dj', s2\<lparr>pff_cache := c'\<rparr>)"
      "dcache_ok disk drv c'" "same_dir dj dj'" "?more \<longrightarrow> dir_at fs cl (i + 1) dj'"
      using dir_next_ok [OF s2(2), unfolded s2(1), OF assms(1,2) inv(4)] by blast
    have b: "find_body disk (True, res, dj, dir, s) = Inr (?more, if ?more then FR_OK else FR_NO_FILE, dj', ?e, s0\<lparr>pff_cache := c'\<rparr>)"
      unfolding find_body_def prod.case rd(1) bindR_Inr option.case s2_def [symmetric]
      using skip cmp nx(1) by (simp add: s2_def s1)
    have idx: "?more \<Longrightarrow> unat (dj_index dj') = i + 1" using nx(4) by (simp add: dir_at_def)
    have none: "\<not> ?more \<Longrightarrow> dir_lookup fn es = None" using rest by (simp add: es_def dir_entries_def)
    have "find_inv disk drv fs cl s0 dj0 (?more, if ?more then FR_OK else FR_NO_FILE, dj', ?e, s0\<lparr>pff_cache := c'\<rparr>)"
      using nx(2,4) same_dir_trans [OF inv(3) nx(3)] idx none rest by (simp add: I)
    then show ?thesis using b idx by (auto simp: i_def)
  qed
qed

lemma dir_find_ok:
  assumes "dcache_ok disk drv (pff_cache s)" "volume_ok (pff_fs s)" "dir_chain disk drv (pff_fs s) (dj_sclust dj) cl"
    "11 \<le> length (dj_fn dj)"
  shows "\<exists>dj' dir' c. dir_find disk s dj dir =
      Inr (if dir_lookup (take 11 (dj_fn dj)) (dir_entries disk drv (pff_fs s) cl) = None then FR_NO_FILE else FR_OK, dj', dir', s\<lparr>pff_cache := c\<rparr>) \<and>
    dcache_ok disk drv c \<and> same_dir dj dj' \<and>
    (\<forall>e. dir_lookup (take 11 (dj_fn dj)) (dir_entries disk drv (pff_fs s) cl) = Some e \<longrightarrow> dir' = e)"
proof -
  define fs where "fs = pff_fs s"
  note v = assms [folded fs_def]
  obtain dj1 where rw: "dir_rewind fs dj = (FR_OK, dj1)" "dir_at fs cl 0 dj1" "same_dir dj dj1"
    using dir_rewind_ok [OF v(2,3)] by blast
  let ?I = "find_inv disk drv fs cl s dj"
  let ?g = "\<lambda>(go, res, dj, dir, s). Inr go :: bool res"
  let ?m = "\<lambda>(go, r, dj', dir', s'). if go then 65536 - unat (dj_index dj' :: u16) else 0"
  have "\<exists>t. whileR 65538 ?g (find_body disk) (True, FR_OK, dj1, dir, s) = Inr t \<and> ?I t \<and> ?g t = Inr False"
  proof (rule whileR_total [where I = ?I and m = ?m])
    show "?I (True, FR_OK, dj1, dir, s)" using v(1) rw(2,3) by (simp add: find_inv_def dir_at_def)
    show "?m (True, FR_OK, dj1, dir, s) < 65538" by simp
    show "\<exists>t. ?g st = Inr t" for st by (cases st) simp
    fix st assume I: "?I st" and g: "?g st = Inr True"
    obtain r d dir1 s1 where st: "st = (True, r, d, dir1, s1)" using g by (cases st) auto
    have idx: "unat (dj_index d) < 65536" using unsigned_less [of "dj_index d", where ?'a = nat] by simp
    show "\<exists>st'. find_body disk st = Inr st' \<and> ?I st' \<and> ?m st' < ?m st"
      using find_body_ok [OF v(2,3) fs_def v(4) I [unfolded st]] idx unfolding st by fastforce
  qed
  then obtain r dj' dir' s' where w: "whileR 65538 ?g (find_body disk) (True, FR_OK, dj1, dir, s) = Inr (False, r, dj', dir', s')"
    "?I (False, r, dj', dir', s')" by auto
  have "dir_find disk s dj dir = Inr (r, dj', dir', s')"
    unfolding dir_find_def Let_def fs_def [symmetric] rw(1) prod.case w(1) by simp
  moreover obtain c where "s' = s\<lparr>pff_cache := c\<rparr>" "dcache_ok disk drv c" using w(2) by (auto simp: find_inv_def Let_def)
  ultimately show ?thesis using w(2) unfolding fs_def [symmetric]
    by (intro exI [of _ dj'] exI [of _ dir'] exI [of _ c]) (auto simp: find_inv_def Let_def split: option.splits)
qed

end
