(* ===== verification/Fat_Path.thy ===== *)
theory Fat_Path
  imports Fat_Dir
begin

text \<open>
  Paths of the FAT reader: the name of each segment is padded to its directory form, each
  segment but the last must name a directory, and the file at the end of the path is
  opened. \<open>resolve\<close> is the specification, a descent through lists of directory entries.
\<close>

section \<open>Names\<close>

text \<open>
  A name is its body and its extension. Its form in a directory entry, and in a path,
  where the extension follows a dot.
\<close>

type_synonym fname = "u8 list \<times> u8 list"

definition name_char :: "u8 \<Rightarrow> bool" where
  "name_char c \<longleftrightarrow> 32 < c \<and> c \<noteq> 46 \<and> c \<noteq> 47"

definition name_ok :: "fname \<Rightarrow> bool" where
  "name_ok = (\<lambda>(b, e). b \<noteq> [] \<and> length b \<le> 8 \<and> length e \<le> 3 \<and> list_all name_char b \<and> list_all name_char e)"

definition dir_form :: "fname \<Rightarrow> u8 list" where
  "dir_form = (\<lambda>(b, e). b @ replicate (8 - length b) 32 @ e @ replicate (3 - length e) 32)"

definition path_form :: "fname \<Rightarrow> u8 list" where
  "path_form = (\<lambda>(b, e). b @ (if e = [] then [] else 46 # e))"

lemma length_dir_form [simp]: "name_ok n \<Longrightarrow> length (dir_form n) = 11"
  by (cases n) (simp add: name_ok_def dir_form_def)

text \<open>One character of a name is stored and the loop goes on.\<close>

lemma name_body_char:
  assumes "name_char c'" "pos + unat si < length path" "path ! (pos + unat si) = c'" "unat i < unat ni" "unat i < length sfn"
  shows "name_body path pos (True, c, si, i, ni, sfn) = Inr (True, c', si + 1, i + 1, ni, sfn[unat i := c'])"
proof -
  have n: "\<not> (c' \<le> 32 \<or> c' = 47)" "\<not> (c' = 46 \<or> i \<ge> ni)" using assms(1,4) by (auto simp: name_char_def word_le_nat_alt word_less_nat_alt)
  show ?thesis
    unfolding name_body_def prod.case getR_in [OF assms(2)] assms(3) bindR_Inr Let_def if_not_P [OF n(1)] if_not_P [OF n(2)]
    by (simp only: setR_in [OF assms(5)] bindR_Inr)
qed

text \<open>A run of such characters.\<close>

lemma name_chars:
  assumes "list_all name_char cs" "drop (pos + unat si) path = cs @ rest" "unat i + length cs \<le> unat ni" "unat ni \<le> length sfn"
    "length sfn < 200" "unat si + length cs < 200"
  shows "\<exists>c'. whileR (length cs + n) (\<lambda>(go, c, si, i, ni, sfn). Inr go) (name_body path pos) (True, c, si, i, ni, sfn) =
      whileR n (\<lambda>(go, c, si, i, ni, sfn). Inr go) (name_body path pos)
        (True, c', si + of_nat (length cs), i + of_nat (length cs), ni, take (unat i) sfn @ cs @ drop (unat i + length cs) sfn)"
  using assms
proof (induction cs arbitrary: c si i sfn)
  case Nil
  then show ?case by (intro exI [of _ c]) simp
next
  case (Cons a cs)
  have lt: "pos + unat si < length path" using Cons.prems(2) by (metis drop_all leI append_Cons list.distinct(1))
  have a: "path ! (pos + unat si) = a" using Cons.prems(2) lt by (metis append_Cons hd_drop_conv_nth list.sel(1))
  have ilt: "unat i < unat ni" "unat i < length sfn" using Cons.prems(3,4) by simp_all
  have b: "name_body path pos (True, c, si, i, ni, sfn) = Inr (True, a, si + 1, i + 1, ni, sfn[unat i := a])"
    using Cons.prems(1) by (intro name_body_char lt a ilt) simp
  have u: "unat (si + 1) = unat si + 1" "unat (i + 1) = unat i + 1"
    using Cons.prems(5,6) ilt by (intro unat_byte_Suc, simp)+
  have d: "drop (pos + unat (si + 1)) path = cs @ rest"
    using Cons.prems(2) unfolding u by (metis add.assoc append_Cons drop_drop list.sel(3) tl_drop drop_Suc Suc_eq_plus1)
  have t: "take (unat (i + 1)) (sfn[unat i := a]) @ cs @ drop (unat (i + 1) + length cs) (sfn[unat i := a]) =
    take (unat i) sfn @ (a # cs) @ drop (unat i + length (a # cs)) sfn"
    using ilt(2) by (simp add: u take_Suc_conv_app_nth)
  have p: "list_all name_char cs" "unat (i + 1) + length cs \<le> unat ni" "unat ni \<le> length (sfn[unat i := a])" "length (sfn[unat i := a]) < 200"
    "unat (si + 1) + length cs < 200"
    using Cons.prems u by simp_all
  obtain c' where "whileR (length cs + n) (\<lambda>(go, c, si, i, ni, sfn). Inr go) (name_body path pos)
      (True, a, si + 1, i + 1, ni, sfn[unat i := a]) =
    whileR n (\<lambda>(go, c, si, i, ni, sfn). Inr go) (name_body path pos)
      (True, c', si + 1 + of_nat (length cs), i + 1 + of_nat (length cs), ni, take (unat i) sfn @ (a # cs) @ drop (unat i + length (a # cs)) sfn)"
    using Cons.IH [OF p(1) d p(2-5), of a] unfolding t by blast
  moreover have "si + of_nat (length (a # cs)) = si + 1 + of_nat (length cs)" "i + of_nat (length (a # cs)) = i + 1 + of_nat (length cs)"
    by (simp_all add: add.assoc)
  moreover have "whileR (length (a # cs) + n) (\<lambda>(go, c, si, i, ni, sfn). Inr go) (name_body path pos) (True, c, si, i, ni, sfn) =
    whileR (length cs + n) (\<lambda>(go, c, si, i, ni, sfn). Inr go) (name_body path pos) (True, a, si + 1, i + 1, ni, sfn[unat i := a])"
    by (simp only: length_Cons add_Suc whileR.simps prod.case bindR_Inr if_True b)
  ultimately show ?case by (intro exI [of _ c']) (simp only:)
qed

text \<open>The terminator of the segment, and the dot, as the loop meets them.\<close>

lemma name_stop:
  assumes "t \<le> 32 \<or> t = 47" "pos + unat si < length path" "path ! (pos + unat si) = t" "2 \<le> n"
  shows "whileR n (\<lambda>(go, c, si, i, ni, sfn). Inr go) (name_body path pos) (True, c, si, i, ni, sfn) = Inr (False, t, si + 1, i, ni, sfn)"
proof -
  obtain k where k: "n = Suc (Suc k)" using assms(4) by (metis Suc_le_D numeral_2_eq_2 Suc_le_mono)
  have "name_body path pos (True, c, si, i, ni, sfn) = Inr (False, t, si + 1, i, ni, sfn)"
    unfolding name_body_def prod.case getR_in [OF assms(2)] assms(3) bindR_Inr Let_def if_P [OF assms(1)] ..
  then show ?thesis unfolding k by simp
qed

lemma name_dot:
  assumes "pos + unat si < length path" "path ! (pos + unat si) = 46"
  shows "whileR (Suc n) (\<lambda>(go, c, si, i, ni, sfn). Inr go) (name_body path pos) (True, c, si, i, 8, sfn) =
    whileR n (\<lambda>(go, c, si, i, ni, sfn). Inr go) (name_body path pos) (True, 46, si + 1, 8, 11, sfn)"
  using assms by (simp add: name_body_def)

lemma nth_after: "drop p path = cs @ t # rest \<Longrightarrow> p + length cs < length path \<and> path ! (p + length cs) = t"
  by (metis append_Cons add.commute drop_drop drop_eq_Nil2 hd_drop_conv_nth leI list.distinct(1) list.sel(1) append_eq_conv_conj)

lemma create_name_ok:
  assumes "name_ok n" "drop pos path = path_form n @ t # rest" "t \<le> 32 \<or> t = 47" "length (dj_fn dj) = 12"
  shows "create_name path dj pos =
    Inr (dj\<lparr>dj_fn := dir_form n @ [if t \<le> 32 then 1 else 0]\<rparr>, pos + length (path_form n) + 1)"
proof -
  obtain b e where n: "n = (b, e)" by (cases n)
  have ok: "b \<noteq> []" "length b \<le> 8" "length e \<le> 3" "list_all name_char b" "list_all name_char e"
    using assms(1) by (simp_all add: n name_ok_def)
  let ?g = "\<lambda>(go, c, si, i, ni, sfn). Inr go :: bool res"
  define sfn where "sfn = mem_set (dj_fn dj) 32 11"
  have s0: "sfn = replicate 11 32 @ drop 11 (dj_fn dj)" by (simp only: sfn_def mem_set_def)
  have ls: "length sfn = 12" using assms(4) by (simp add: s0)
  have u0: "unat (0 :: u8) = 0" "unat (8 :: u8) = 8" "unat (11 :: u8) = 11" by simp_all
  have ub: "unat (of_nat (length b) :: u8) = length b" using ok(2) by (simp add: unat_of_nat)
  define tail where "tail = (if e = [] then [] else 46 # e) @ t # rest"
  have d0: "drop (pos + unat (0 :: u8)) path = b @ tail" using assms(2) by (simp add: n path_form_def tail_def)
  obtain m where m: "14 = length b + m" "m = 14 - length b" using ok(2) by simp
  have l1: "length sfn < 200" "unat (0 :: u8) + length b < 200" "unat (0 :: u8) + length b \<le> unat (8 :: u8)" "unat (8 :: u8) \<le> length sfn"
    using ok(2) ls by simp_all
  obtain c1 where "whileR (length b + m) ?g (name_body path pos) (True, 0, 0, 0, 8, sfn) =
    whileR m ?g (name_body path pos) (True, c1, 0 + of_nat (length b), 0 + of_nat (length b), 8,
      take (unat (0 :: u8)) sfn @ b @ drop (unat (0 :: u8) + length b) sfn)"
    using name_chars [OF ok(4) d0 l1(3) l1(4) l1(1,2), of m 0] by blast
  then have w1: "whileR 14 ?g (name_body path pos) (True, 0, 0, 0, 8, sfn) =
    whileR m ?g (name_body path pos) (True, c1, of_nat (length b), of_nat (length b), 8, b @ drop (length b) sfn)"
    unfolding m(1) [symmetric] by simp
  have fin: ?thesis if "whileR 14 ?g (name_body path pos) (True, 0, 0, 0, 8, sfn) = Inr (False, t, si, i, ni, dir_form n @ [x])"
    "unat si = length (path_form n) + 1" for si i ni x
    using that assms(1) unfolding create_name_def sfn_def [symmetric] by (simp add: list_update_append)
  have dfn: "drop (length b) sfn = replicate (11 - length b) 32 @ drop 11 (dj_fn dj)" using ok(2) by (simp add: s0)
  obtain x where x: "drop 11 (dj_fn dj) = [x]" 
  proof -
    have "length (drop 11 (dj_fn dj)) = Suc 0" using assms(4) by simp
    then show ?thesis using that unfolding length_Suc_conv by auto
  qed
  show ?thesis
  proof (cases "e = []")
    case True
    then have at: "drop pos path = b @ t # rest" using assms(2) by (simp add: n path_form_def)
    have "dir_form n @ [x] = b @ drop (length b) sfn"
      using ok(2) True by (simp add: dfn x n dir_form_def flip: replicate_add)
    moreover have "2 \<le> m" using m(2) ok(2) by simp
    moreover have "pos + unat (of_nat (length b) :: u8) < length path" "path ! (pos + unat (of_nat (length b) :: u8)) = t"
      using nth_after [OF at] by (simp_all add: ub)
    moreover have "unat (of_nat (length b) + 1 :: u8) = length (path_form n) + 1"
      using ok(2) ub True by (simp add: n path_form_def unat_byte_Suc)
    ultimately show ?thesis using fin name_stop [OF assms(3)] w1 by metis
  next
    case False
    then have at: "drop pos path = b @ 46 # e @ t # rest" using assms(2) by (simp add: n path_form_def)
    let ?p = "of_nat (length b) + 1 :: u8"
    have up: "unat ?p = length b + 1" using ub ok(2) by (simp add: unat_byte_Suc)
    have d1: "drop (pos + unat ?p) path = e @ t # rest"
      unfolding up using arg_cong [OF at, of "drop (length b + 1)"] by (simp add: add.commute)
    define k where "k = 13 - length b - length e"
    have k: "m = Suc (length e + k)" "2 \<le> k" using m(2) ok(2,3) by (simp_all add: k_def)
    define sb where "sb = b @ drop (length b) sfn"
    have sb: "length sb = 12" using ok(2) ls by (simp add: sb_def)
    have l2: "length sb < 200" "unat ?p + length e < 200" "unat (8 :: u8) + length e \<le> unat (11 :: u8)" "unat (11 :: u8) \<le> length sb"
      using ok(2,3) sb up by simp_all
    have dot: "pos + unat (of_nat (length b) :: u8) < length path" "path ! (pos + unat (of_nat (length b) :: u8)) = 46"
      using nth_after [OF at] by (simp_all add: ub)
    obtain c2 where "whileR (length e + k) ?g (name_body path pos) (True, 46, ?p, 8, 11, sb) =
      whileR k ?g (name_body path pos) (True, c2, ?p + of_nat (length e), 8 + of_nat (length e), 11,
        take (unat (8 :: u8)) sb @ e @ drop (unat (8 :: u8) + length e) sb)"
      using name_chars [OF ok(5) d1 l2(3) l2(4) l2(1,2), of k 46] by blast
    then have w2: "whileR 14 ?g (name_body path pos) (True, 0, 0, 0, 8, sfn) =
      whileR k ?g (name_body path pos) (True, c2, ?p + of_nat (length e), 8 + of_nat (length e), 11, take 8 sb @ e @ drop (8 + length e) sb)"
      unfolding w1 k(1) sb_def [symmetric] name_dot [OF dot] by (simp only: u0)
    have ue: "unat (?p + of_nat (length e)) = length b + 1 + length e"
    proof -
      have "unat (of_nat (length e) :: u8) = length e" using ok(3) by (simp add: unat_of_nat)
      then show ?thesis using ok(2,3) up by (subst unat_add_nowrap) simp_all
    qed
    have end_at: "pos + unat (?p + of_nat (length e)) < length path" "path ! (pos + unat (?p + of_nat (length e))) = t"
      unfolding ue using nth_after [OF d1, unfolded up] by (simp_all add: add.assoc)
    have "take 8 sb @ e @ drop (8 + length e) sb = dir_form n @ [x]"
      using ok(2,3) by (simp add: sb_def dfn x n dir_form_def)
    moreover have "unat (?p + of_nat (length e) + 1) = length (path_form n) + 1"
    proof -
      have "unat (?p + of_nat (length e)) < 255" using ok(2,3) unfolding ue by simp
      then show ?thesis unfolding unat_byte_Suc [of "?p + of_nat (length e)", OF \<open>_ < 255\<close>] ue using False by (simp add: n path_form_def)
    qed
    ultimately show ?thesis using fin name_stop [OF assms(3) end_at k(2)] w2 by metis
  qed
qed

section \<open>Paths\<close>

text \<open>The string of a path, with its NUL.\<close>

fun path_string :: "fname list \<Rightarrow> u8 list" where
  "path_string [] = [0]"
| "path_string [n] = path_form n @ [0]"
| "path_string (n # ns) = path_form n @ 47 # path_string ns"

text \<open>
  The entry a path names, from the directory with start cluster \<open>st\<close>; \<open>chain\<close> gives the
  clusters of each directory. Every directory on the way must be well-formed.
\<close>

fun resolve :: "disk \<Rightarrow> u16 \<Rightarrow> FATFS \<Rightarrow> (u32 \<Rightarrow> u32 list) \<Rightarrow> u32 \<Rightarrow> fname list \<Rightarrow> u8 list option" where
  "resolve disk drv fs chain st [] = None"
| "resolve disk drv fs chain st (n # ns) =
     (case dir_lookup (dir_form n) (dir_entries disk drv fs (chain st)) of
        None \<Rightarrow> None
      | Some e \<Rightarrow> if ns = [] then Some e
                  else if e ! 11 AND AM_DIR = 0 then None
                  else resolve disk drv fs chain (get_clust fs e) ns)"

fun dirs_ok :: "disk \<Rightarrow> u16 \<Rightarrow> FATFS \<Rightarrow> (u32 \<Rightarrow> u32 list) \<Rightarrow> u32 \<Rightarrow> fname list \<Rightarrow> bool" where
  "dirs_ok disk drv fs chain st [] = True"
| "dirs_ok disk drv fs chain st (n # ns) =
     (dir_chain disk drv fs st (chain st) \<and>
      (case dir_lookup (dir_form n) (dir_entries disk drv fs (chain st)) of
         None \<Rightarrow> True
       | Some e \<Rightarrow> e ! 11 AND AM_DIR = 0 \<or> dirs_ok disk drv fs chain (get_clust fs e) ns))"

lemma path_string_Cons:
  "ns \<noteq> [] \<Longrightarrow> path_string (n # ns) = path_form n @ 47 # path_string ns"
  by (cases ns) simp_all

lemma length_path_string: "list_all name_ok ns \<Longrightarrow> length ns < length (path_string ns)"
proof (induction ns rule: path_string.induct)
  case (2 n)
  then show ?case by (cases n) (auto simp: name_ok_def path_form_def Suc_le_eq)
next
  case (3 n m ns)
  then show ?case by simp
qed simp

lemma resolve_SomeD:
  assumes "resolve disk drv fs chain st ns = Some e"
  shows "length e = 32" "e ! 0 \<noteq> 0" "e ! 11 AND AM_VOL = 0"
proof -
  have "length e = 32 \<and> e ! 0 \<noteq> 0 \<and> e ! 11 AND AM_VOL = 0"
    using assms
  proof (induction ns arbitrary: st)
    case (Cons n ns)
    then show ?case using dir_lookup_length dir_lookup_SomeD
      by (fastforce split: option.splits if_splits)
  qed simp
  then show "length e = 32" "e ! 0 \<noteq> 0" "e ! 11 AND AM_VOL = 0" by blast+
qed

text \<open>One segment of the path.\<close>

lemma path_body_ok:
  assumes "dcache_ok disk drv (pff_cache s)" "volume_ok (pff_fs s)" "dir_chain disk drv (pff_fs s) (dj_sclust dj) cl"
    "length (dj_fn dj) = 12" "name_ok n" "drop pos path = path_form n @ t # rest" "t = 0 \<or> t = 47"
    "found = dir_lookup (dir_form n) (dir_entries disk drv (pff_fs s) cl)"
  shows "\<exists>dj' dir' c. dcache_ok disk drv c \<and> length (dj_fn dj') = 12 \<and>
    path_body disk path (go, res, pos, dj, dir, s) = Inr (case found of
        None \<Rightarrow> (False, FR_NO_FILE, pos + length (path_form n) + 1, dj', dir', s\<lparr>pff_cache := c\<rparr>)
      | Some e \<Rightarrow> if t = 0 then (False, FR_OK, pos + length (path_form n) + 1, dj', e, s\<lparr>pff_cache := c\<rparr>)
          else if e ! 11 AND AM_DIR = 0 then (False, FR_NO_FILE, pos + length (path_form n) + 1, dj', e, s\<lparr>pff_cache := c\<rparr>)
          else (True, FR_OK, pos + length (path_form n) + 1, dj'\<lparr>dj_sclust := get_clust (pff_fs s) e\<rparr>, e, s\<lparr>pff_cache := c\<rparr>))"
proof -
  have t: "t \<le> 32 \<or> t = 47" "t \<le> 32 \<longleftrightarrow> t = 0" using assms(7) by auto
  define dj1 where "dj1 = dj\<lparr>dj_fn := dir_form n @ [if t \<le> 32 then 1 else 0]\<rparr>"
  have cn: "create_name path dj pos = Inr (dj1, pos + length (path_form n) + 1)"
    unfolding dj1_def by (rule create_name_ok [OF assms(5,6) t(1) assms(4)])
  have d1: "dj_sclust dj1 = dj_sclust dj" "take 11 (dj_fn dj1) = dir_form n" "length (dj_fn dj1) = 12" "dj_fn dj1 ! 11 = (if t = 0 then 1 else 0)"
    using assms(5) t(2) by (simp_all add: dj1_def nth_append)
  obtain dj2 dir2 c where f: "dir_find disk s dj1 dir = Inr (if found = None then FR_NO_FILE else FR_OK, dj2, dir2, s\<lparr>pff_cache := c\<rparr>)"
    "dcache_ok disk drv c" "same_dir dj1 dj2" "\<forall>e. found = Some e \<longrightarrow> dir2 = e"
    using dir_find_ok [OF assms(1,2), of dj1 cl dir] assms(3) by (auto simp: d1 assms(8))
  have fn: "dj_fn dj2 = dj_fn dj1" using f(3) by (simp add: same_dir_def)
  show ?thesis
    using cn f(1,2,4) d1(3,4) unfolding path_body_def
    by (intro exI [of _ dj2] exI [of _ dir2] exI [of _ c]) (auto simp: fn split: option.splits)
qed

lemma path_loop:
  assumes "volume_ok fs" "dcache_ok disk drv (pff_cache s)" "fs = pff_fs s" "ns \<noteq> []" "list_all name_ok ns"
    "dirs_ok disk drv fs chain (dj_sclust dj) ns" "length (dj_fn dj) = 12" "drop pos path = path_string ns" "length ns < k"
  shows "\<exists>pos' dj' dir' c. whileR k (\<lambda>(go, res, pos, dj, dir, s). Inr go) (path_body disk path) (True, FR_OK, pos, dj, dir, s) =
      Inr (False, if resolve disk drv fs chain (dj_sclust dj) ns = None then FR_NO_FILE else FR_OK, pos', dj', dir', s\<lparr>pff_cache := c\<rparr>) \<and>
    dcache_ok disk drv c \<and> (\<forall>e. resolve disk drv fs chain (dj_sclust dj) ns = Some e \<longrightarrow> dir' = e)"
  using assms(2-9)
proof (induction ns arbitrary: s dj pos dir k)
  case (Cons n ns)
  let ?g = "\<lambda>(go, res, pos, dj, dir, s). Inr go :: bool res"
  define t where "t = (if ns = [] then 0 else 47 :: u8)"
  define rest where "rest = (if ns = [] then [] else path_string ns)"
  have dr: "drop pos path = path_form n @ t # rest" using Cons.prems(7) by (cases ns) (simp_all add: t_def rest_def)
  define st where "st = dj_sclust dj"
  define found where "found = dir_lookup (dir_form n) (dir_entries disk drv fs (chain st))"
  have dc: "dir_chain disk drv fs st (chain st)" using Cons.prems(5) by (simp add: st_def)
  have t2: "t = 0 \<or> t = 47" "t = 0 \<longleftrightarrow> ns = []" by (simp_all add: t_def)
  define p1 where "p1 = pos + length (path_form n) + 1"
  have fd: "found = dir_lookup (dir_form n) (dir_entries disk drv (pff_fs s) (chain (dj_sclust dj)))"
    by (simp add: found_def st_def Cons.prems(2))
  have nok: "name_ok n" using Cons.prems(4) by simp
  obtain dj' dir' c where b: "dcache_ok disk drv c" "length (dj_fn dj') = 12"
    "path_body disk path (True, FR_OK, pos, dj, dir, s) = Inr (case found of
        None \<Rightarrow> (False, FR_NO_FILE, p1, dj', dir', s\<lparr>pff_cache := c\<rparr>)
      | Some e \<Rightarrow> if t = 0 then (False, FR_OK, p1, dj', e, s\<lparr>pff_cache := c\<rparr>)
          else if e ! 11 AND AM_DIR = 0 then (False, FR_NO_FILE, p1, dj', e, s\<lparr>pff_cache := c\<rparr>)
          else (True, FR_OK, p1, dj'\<lparr>dj_sclust := get_clust fs e\<rparr>, e, s\<lparr>pff_cache := c\<rparr>))"
    using path_body_ok [OF Cons.prems(1) assms(1) [unfolded Cons.prems(2)] dc [unfolded Cons.prems(2) st_def] Cons.prems(6) nok dr t2(1) fd, of True FR_OK dir]
    unfolding p1_def [symmetric] Cons.prems(2) [symmetric] by blast
  obtain k' where k: "k = Suc (Suc k')" using Cons.prems(8) by (cases k; cases "k - 1") auto
  have w: "whileR k ?g (path_body disk path) (True, FR_OK, pos, dj, dir, s) =
    bindR (path_body disk path (True, FR_OK, pos, dj, dir, s)) (whileR (Suc k') ?g (path_body disk path))" by (simp add: k)
  note R = resolve.simps(2) st_def [symmetric] found_def [symmetric]
  show ?case
  proof (cases "\<exists>e. found = Some e \<and> ns \<noteq> [] \<and> e ! 11 AND AM_DIR \<noteq> 0")
    case True
    then obtain e where e: "found = Some e" "ns \<noteq> []" "e ! 11 AND AM_DIR \<noteq> 0" by blast
    define s1 where "s1 = s\<lparr>pff_cache := c\<rparr>"
    define d1 where "d1 = dj'\<lparr>dj_sclust := get_clust fs e\<rparr>"
    have sc: "dj_sclust d1 = get_clust fs e" by (simp add: d1_def)
    have pre: "dcache_ok disk drv (pff_cache s1)" "fs = pff_fs s1" "list_all name_ok ns" "length (dj_fn d1) = 12" "length ns < Suc k'"
      using b(1,2) Cons.prems(2,4,8) by (simp_all add: s1_def d1_def k)
    have dn: "dirs_ok disk drv fs chain (dj_sclust d1) ns"
      using Cons.prems(5) e by (simp add: sc st_def [symmetric] found_def [symmetric])
    have "drop p1 path = drop (length (path_form n) + 1) (drop pos path)" by (simp add: p1_def add.commute add.left_commute)
    also have "\<dots> = path_string ns" unfolding dr using e(2) by (simp add: rest_def)
    finally have dp: "drop p1 path = path_string ns" .
    have res: "resolve disk drv fs chain (dj_sclust dj) (n # ns) = resolve disk drv fs chain (dj_sclust d1) ns"
      using e by (simp add: R sc)
    have w1: "whileR k ?g (path_body disk path) (True, FR_OK, pos, dj, dir, s) =
      whileR (Suc k') ?g (path_body disk path) (True, FR_OK, p1, d1, e, s1)"
      unfolding w b(3) using e t2 by (simp add: s1_def d1_def)
    have again: "s1\<lparr>pff_cache := c'\<rparr> = s\<lparr>pff_cache := c'\<rparr>" for c' by (simp add: s1_def)
    show ?thesis unfolding w1 res
      using Cons.IH [OF pre(1,2) e(2) pre(3) dn pre(4) dp pre(5), of e] unfolding again .
  next
    case False
    then show ?thesis unfolding w b(3)
      using b(1) t2(2) by (cases found) (auto simp: R)
  qed
qed simp

text \<open>Leading blanks and one separator may precede the path.\<close>

definition path_arg :: "nat \<Rightarrow> bool \<Rightarrow> fname list \<Rightarrow> u8 list" where
  "path_arg blanks sep ns = replicate blanks 32 @ (if sep then [47] else []) @ path_string ns"

lemma path_string_head:
  assumes "ns \<noteq> []" "list_all name_ok ns"
  obtains c cs where "path_string ns = c # cs" "32 < c" "c \<noteq> 47"
proof -
  obtain n ms where ns: "ns = n # ms" using assms(1) by (cases ns) auto
  obtain c b e where n: "n = (c # b, e)" "name_char c" using assms(2) by (cases n; cases "fst n") (auto simp: ns name_ok_def)
  then show ?thesis using that by (cases ms) (auto simp: ns path_form_def name_char_def)
qed

lemma skip_blanks:
  assumes "path = replicate b 32 @ c # cs" "c \<noteq> 32" "b < n"
  shows "whileR n (\<lambda>pos. bindR (getR path pos) (\<lambda>c. Inr (c = 32))) (\<lambda>pos. Inr (pos + 1)) 0 = Inr b"
proof -
  let ?g = "\<lambda>pos. bindR (getR path pos) (\<lambda>c. Inr (c = 32))"
  have "\<exists>t. whileR n ?g (\<lambda>pos. Inr (pos + 1)) 0 = Inr t \<and> t \<le> b \<and> ?g t = Inr False"
  proof (rule whileR_total [where I = "\<lambda>p. p \<le> b" and m = "\<lambda>p. b - p"])
    show "\<exists>t. ?g p = Inr t" if "p \<le> b" for p using that assms(1) by simp
    show "\<exists>p'. Inr (p + 1) = (Inr p' :: nat res) \<and> p' \<le> b \<and> b - p' < b - p" if "p \<le> b" "?g p = Inr True" for p
      using that assms(1,2) by (cases "p = b") (auto simp: nth_append)
  qed (use assms(3) in simp_all)
  then obtain t where t: "whileR n ?g (\<lambda>pos. Inr (pos + 1)) 0 = Inr t" "t \<le> b" "?g t = Inr False" by blast
  then have "t = b" using assms(1) by (auto simp: nth_append split: if_splits)
  then show ?thesis using t(1) by simp
qed

lemma follow_path_ok:
  assumes "volume_ok (pff_fs s)" "dcache_ok disk drv (pff_cache s)" "ns \<noteq> []" "list_all name_ok ns"
    "dirs_ok disk drv (pff_fs s) chain 0 ns" "length (dj_fn dj) = 12" "found = resolve disk drv (pff_fs s) chain 0 ns"
  shows "\<exists>dj' dir' c. follow_path disk s dj dir (path_arg blanks sep ns) =
      Inr (if found = None then FR_NO_FILE else FR_OK, dj', dir', s\<lparr>pff_cache := c\<rparr>) \<and>
    dcache_ok disk drv c \<and> (\<forall>e. found = Some e \<longrightarrow> dir' = e)"
proof -
  define path where "path = path_arg blanks sep ns"
  obtain c cs where ps: "path_string ns = c # cs" "32 < c" "c \<noteq> 47" using path_string_head [OF assms(3,4)] .
  define p where "p = (if sep then blanks + 1 else blanks)"
  have at: "path ! p = c" "p < length path" "drop p path = path_string ns"
    by (simp_all add: path_def path_arg_def p_def ps nth_append)
  obtain c0 cs0 where sp: "path = replicate blanks 32 @ c0 # cs0" "c0 = (if sep then 47 else c)" "c0 \<noteq> 32"
    using ps by (cases sep) (auto simp: path_def path_arg_def)
  have b: "whileR (length path + 1) (\<lambda>pos. bindR (getR path pos) (\<lambda>c. Inr (c = 32))) (\<lambda>pos. Inr (pos + 1)) 0 = Inr blanks"
    by (rule skip_blanks [OF sp(1,3)]) (simp add: sp(1))
  have g0: "getR path blanks = Inr c0" using sp(1) by (simp add: nth_append)
  have p: "(if c0 = 47 then blanks + 1 else blanks) = p" using sp(2) ps(3) by (simp add: p_def)
  have ge: "\<not> c < 32" using ps(2) by (simp add: not_less)
  have l: "length ns < length path + 1"
    using length_path_string [OF assms(4)] by (simp add: path_def path_arg_def)
  let ?dj = "dj\<lparr>dj_sclust := 0\<rparr>"
  have pre: "dirs_ok disk drv (pff_fs s) chain (dj_sclust ?dj) ns" "length (dj_fn ?dj) = 12" using assms(5,6) by simp_all
  obtain pos' dj' dir' ch where w: "whileR (length path + 1) (\<lambda>(go, res, pos, dj, dir, s). Inr go) (path_body disk path) (True, FR_OK, p, ?dj, dir, s) =
      Inr (False, if resolve disk drv (pff_fs s) chain (dj_sclust ?dj) ns = None then FR_NO_FILE else FR_OK, pos', dj', dir', s\<lparr>pff_cache := ch\<rparr>)"
    "dcache_ok disk drv ch" "\<forall>e. resolve disk drv (pff_fs s) chain (dj_sclust ?dj) ns = Some e \<longrightarrow> dir' = e"
    using path_loop [OF assms(1,2) refl assms(3,4) pre at(3) l, of dir] by blast
  have "follow_path disk s dj dir path = Inr (if found = None then FR_NO_FILE else FR_OK, dj', dir', s\<lparr>pff_cache := ch\<rparr>)"
    unfolding follow_path_def b bindR_Inr g0 Let_def p getR_in [OF at(2)] at(1) if_not_P [OF ge] w(1) by (simp add: assms(7))
  then show ?thesis using w(2,3) unfolding path_def [symmetric] by (auto simp: assms(7))
qed

section \<open>Opening\<close>

text \<open>What the directories and the allocation table say does not depend on the flag of the open file.\<close>

lemma volume_flag [simp]:
  "volume_ok (fs\<lparr>fs_flag := x\<rparr>) = volume_ok fs"
  "fat_entry disk drv (fs\<lparr>fs_flag := x\<rparr>) = fat_entry disk drv fs"
  "get_clust (fs\<lparr>fs_flag := x\<rparr>) = get_clust fs"
  "dir_chain disk drv (fs\<lparr>fs_flag := x\<rparr>) = dir_chain disk drv fs"
  "dir_entries disk drv (fs\<lparr>fs_flag := x\<rparr>) = dir_entries disk drv fs"
proof -
  show fe: "fat_entry disk drv (fs\<lparr>fs_flag := x\<rparr>) = fat_entry disk drv fs" by (intro ext) (simp add: fat_entry_def)
  show "volume_ok (fs\<lparr>fs_flag := x\<rparr>) = volume_ok fs" by (simp add: volume_ok_def)
  show "get_clust (fs\<lparr>fs_flag := x\<rparr>) = get_clust fs" by (intro ext) (simp add: get_clust_def)
  show "dir_chain disk drv (fs\<lparr>fs_flag := x\<rparr>) = dir_chain disk drv fs" by (intro ext) (simp add: dir_chain_def fe)
  have "dir_sector (fs\<lparr>fs_flag := x\<rparr>) = dir_sector fs" by (intro ext) (simp add: dir_sector_def clust2sect_def Let_def)
  then have "dir_entry disk drv (fs\<lparr>fs_flag := x\<rparr>) = dir_entry disk drv fs" by (intro ext) (simp add: dir_entry_def)
  then show "dir_entries disk drv (fs\<lparr>fs_flag := x\<rparr>) = dir_entries disk drv fs" by (intro ext) (simp add: dir_entries_def dir_sectors_def)
qed

lemma resolve_flag [simp]: "resolve disk drv (fs\<lparr>fs_flag := x\<rparr>) chain st ns = resolve disk drv fs chain st ns"
  by (induction ns arbitrary: st) (simp_all split: option.split)

lemma dirs_ok_flag [simp]: "dirs_ok disk drv (fs\<lparr>fs_flag := x\<rparr>) chain st ns = dirs_ok disk drv fs chain st ns"
  by (induction ns arbitrary: st) (simp_all split: option.split)

definition opened :: "FATFS \<Rightarrow> u8 list \<Rightarrow> FATFS" where
  "opened fs e = fs\<lparr>org_clust := get_clust fs e, fsize := ld_dword e 28, fptr := 0, fs_flag := FA_OPENED\<rparr>"

lemma pf_open_ok:
  assumes "pff_mounted s" "volume_ok (pff_fs s)" "dcache_ok disk drv (pff_cache s)" "ns \<noteq> []" "list_all name_ok ns"
    "dirs_ok disk drv (pff_fs s) chain 0 ns" "length sp = 12"
  shows "\<exists>c. pf_open disk s sp dir (path_arg blanks sep ns) =
      Inr (case resolve disk drv (pff_fs s) chain 0 ns of
          None \<Rightarrow> (FR_NO_FILE, s\<lparr>pff_cache := c, pff_fs := (pff_fs s)\<lparr>fs_flag := 0\<rparr>\<rparr>)
        | Some e \<Rightarrow> if e ! 11 AND AM_DIR \<noteq> 0 then (FR_NO_FILE, s\<lparr>pff_cache := c, pff_fs := (pff_fs s)\<lparr>fs_flag := 0\<rparr>\<rparr>)
            else (FR_OK, s\<lparr>pff_cache := c, pff_fs := opened (pff_fs s) e\<rparr>)) \<and>
    dcache_ok disk drv c"
proof -
  define s0 where "s0 = s\<lparr>pff_fs := (pff_fs s)\<lparr>fs_flag := 0\<rparr>\<rparr>"
  define dj :: DIR where "dj = \<lparr>dj_index = 0, dj_fn = sp, dj_sclust = 0, dj_clust = 0, dj_sect = 0\<rparr>"
  have pre: "volume_ok (pff_fs s0)" "dcache_ok disk drv (pff_cache s0)" "dirs_ok disk drv (pff_fs s0) chain 0 ns" "length (dj_fn dj) = 12"
    using assms by (simp_all add: s0_def dj_def)
  define found where "found = resolve disk drv (pff_fs s) chain 0 ns"
  have r: "found = resolve disk drv (pff_fs s0) chain 0 ns" by (simp add: s0_def found_def)
  obtain dj' dir' c where f: "follow_path disk s0 dj dir (path_arg blanks sep ns) =
      Inr (if found = None then FR_NO_FILE else FR_OK, dj', dir', s0\<lparr>pff_cache := c\<rparr>)"
    "dcache_ok disk drv c" "\<forall>e. found = Some e \<longrightarrow> dir' = e"
    using follow_path_ok [OF pre(1,2) assms(4,5) pre(3,4) r, of dir blanks sep] by (elim exE conjE)
  have o: "pf_open disk s sp dir (path_arg blanks sep ns) =
      bindR (Inr (if found = None then FR_NO_FILE else FR_OK, dj', dir', s0\<lparr>pff_cache := c\<rparr>)) (\<lambda>(res, dj, dir, s).
        if res \<noteq> FR_OK then Inr (res, s)
        else if dir ! 0 = 0 \<or> dir ! 11 AND AM_DIR \<noteq> 0 then Inr (FR_NO_FILE, s)
        else Inr (FR_OK, s\<lparr>pff_fs := (pff_fs s)\<lparr>org_clust := get_clust (pff_fs s) dir,
               fsize := ld_dword dir 28, fptr := 0, fs_flag := FA_OPENED\<rparr>\<rparr>))"
    unfolding pf_open_def Let_def s0_def [symmetric] dj_def [symmetric] f(1) using assms(1) by simp
  show ?thesis
  proof (cases found)
    case None
    then show ?thesis unfolding o found_def [symmetric] using f(2) by (intro exI [of _ c]) (simp add: s0_def)
  next
    case (Some e)
    then have "e ! 0 \<noteq> 0" "dir' = e" using resolve_SomeD(2) [of disk drv "pff_fs s" chain 0 ns e] f(3) by (simp_all add: found_def)
    then show ?thesis unfolding o found_def [symmetric] using f(2) Some by (intro exI [of _ c]) (simp add: s0_def opened_def)
  qed
qed

section \<open>From a path to the bytes of a file\<close>

text \<open>The path resolves to the entry of a file with the given clusters.\<close>

definition names_file :: "disk \<Rightarrow> u16 \<Rightarrow> FATFS \<Rightarrow> (u32 \<Rightarrow> u32 list) \<Rightarrow> fname list \<Rightarrow> u8 list \<Rightarrow> u32 list \<Rightarrow> bool" where
  "names_file disk drv fs chain ns e cl \<longleftrightarrow> ns \<noteq> [] \<and> list_all name_ok ns \<and> dirs_ok disk drv fs chain 0 ns \<and>
     resolve disk drv fs chain 0 ns = Some e \<and> e ! 11 AND AM_DIR = 0 \<and> chain_ok disk drv (opened fs e) cl"

lemma pf_open_file:
  assumes "pff_mounted s" "volume_ok (pff_fs s)" "dcache_ok disk drv (pff_cache s)" "names_file disk drv (pff_fs s) chain ns e cl"
    "length sp = 12"
  obtains s1 where "pf_open disk s sp dir (path_arg blanks sep ns) = Inr (FR_OK, s1)" "file_open disk drv s1 cl"
    "pff_fs s1 = opened (pff_fs s) e"
proof -
  note f = assms(4) [unfolded names_file_def]
  obtain c where 1: "pf_open disk s sp dir (path_arg blanks sep ns) = Inr (FR_OK, s\<lparr>pff_cache := c, pff_fs := opened (pff_fs s) e\<rparr>)"
    "dcache_ok disk drv c"
    using pf_open_ok [OF assms(1-3), of ns chain sp dir blanks sep] f assms(5) by auto
  have "volume_ok (opened (pff_fs s) e)" using assms(2) by (simp add: opened_def volume_ok_def)
  then have "file_open disk drv (s\<lparr>pff_cache := c, pff_fs := opened (pff_fs s) e\<rparr>) cl"
    using assms(1) f 1(2) by (simp add: file_open_def positioned_def) (simp add: opened_def FA_OPENED_def)
  then show ?thesis using that 1(1) by simp
qed

lemma opened_file: "fptr (opened fs e) = 0" "fsize (opened fs e) = ld_dword e 28"
  "file_byte disk drv (opened fs e) = file_byte disk drv fs"
  by (simp_all add: opened_def file_byte_def file_sector_def cluster_bytes_def fun_eq_iff)

text \<open>
  C6: a file opened by its path delivers its bytes: when the path resolves to a file
  whose clusters the allocation table links, opening it, seeking to any offset and reading
  any count succeeds and stores exactly the bytes of that file from the offset on, as many
  as are left of it, whatever blanks or separator precede the path.
\<close>

theorem open_seek_read:
  assumes "pff_mounted s" "volume_ok (pff_fs s)" "dcache_ok disk drv (pff_cache s)" "length sp = 12"
    and "names_file disk drv (pff_fs s) chain ns e cl"
    and "pos = min (unat ofs) (unat (ld_dword e 28))" "n = min (unat btr) (unat (ld_dword e 28) - pos)"
    and "buff \<noteq> 0" "unat buff + n < 4294967296"
  shows "\<exists>s1 s2 s3. pf_open disk s sp dir (path_arg blanks sep ns) = Inr (FR_OK, s1) \<and> pf_lseek disk s1 ofs = Inr (FR_OK, s2) \<and>
    pf_read disk s2 buff btr = Inr (FR_OK, of_nat n, map (file_byte disk drv (pff_fs s) cl) [pos..<pos + n], s3)"
proof -
  obtain s1 where 1: "pf_open disk s sp dir (path_arg blanks sep ns) = Inr (FR_OK, s1)" "file_open disk drv s1 cl"
    "pff_fs s1 = opened (pff_fs s) e" using pf_open_file [OF assms(1-3,5,4)] .
  have sz: "unat (fsize (pff_fs s1)) = unat (ld_dword e 28)" by (simp add: 1(3) opened_file)
  obtain s2 where 2: "pf_lseek disk s1 ofs = Inr (FR_OK, s2)" "file_open disk drv s2 cl" "unat (fptr (pff_fs s2)) = pos"
    "same_file (pff_fs s1) (pff_fs s2)"
    using pf_lseek_ok [OF 1(2), of ofs] by (auto simp: assms(6) sz)
  have n: "n = min (unat btr) (unat (fsize (pff_fs s2)) - unat (fptr (pff_fs s2)))"
    unfolding same_fileD(2) [OF 2(4)] 2(3) sz by (rule assms(7))
  have fb: "file_byte disk drv (pff_fs s2) cl = file_byte disk drv (pff_fs s) cl"
    unfolding same_file_chain(2) [OF 2(4)] 1(3) opened_file ..
  show ?thesis using 1(1) 2 pf_read_ok [OF 2(2) assms(8) n assms(9)] by (auto simp: fb)
qed

text \<open>
  C10: a path that names no file leaves nothing open: when a segment is missing, when a
  segment before the last is not a directory or when the last is one, \<open>pf_open\<close> returns
  \<open>FR_NO_FILE\<close>, also if a file was open before, and reads and seeks are refused until the
  next open.
\<close>

theorem open_missing:
  assumes "pff_mounted s" "volume_ok (pff_fs s)" "dcache_ok disk drv (pff_cache s)" "ns \<noteq> []" "list_all name_ok ns"
    "dirs_ok disk drv (pff_fs s) chain 0 ns" "length sp = 12"
    and "case resolve disk drv (pff_fs s) chain 0 ns of None \<Rightarrow> True | Some e \<Rightarrow> e ! 11 AND AM_DIR \<noteq> 0"
  shows "\<exists>s1. pf_open disk s sp dir (path_arg blanks sep ns) = Inr (FR_NO_FILE, s1) \<and>
    pf_read disk s1 buff btr = Inr (FR_NOT_OPENED, 0, [], s1) \<and> pf_lseek disk s1 ofs = Inr (FR_NOT_OPENED, s1)"
proof -
  obtain c where "pf_open disk s sp dir (path_arg blanks sep ns) =
      Inr (FR_NO_FILE, s\<lparr>pff_cache := c, pff_fs := (pff_fs s)\<lparr>fs_flag := 0\<rparr>\<rparr>)"
    using pf_open_ok [OF assms(1-7), of dir blanks sep] assms(8) by (auto split: option.splits)
  then show ?thesis using assms(1) by (simp add: pf_read_def pf_lseek_def)
qed

subsection \<open>A volume with a directory and a file\<close>

text \<open>
  The root holds a volume label with the name of the directory \<open>BOOT\<close> and the directory;
  the directory holds the file \<open>K.ELF\<close> of 600 bytes in clusters 3 and 4.
\<close>

definition path_disk :: disk where
  "path_disk drv sector k =
     (let boot = [66, 79, 79, 84, 32, 32, 32, 32, 32, 32, 32];
          bs = (if sector = 1 then [0, 0, 0, 0, 0xFF, 0xFF, 4, 0, 0xFF, 0xFF]
                else if sector = 2 then boot @ 8 # replicate 20 0 @ boot @ 0x10 # replicate 14 0 @ [2, 0]
                else if sector = 3 then [75, 32, 32, 32, 32, 32, 32, 32, 69, 76, 70, 0x20] @ replicate 14 0 @ [3, 0, 88, 2]
                else [])
      in if k < length bs then bs ! k else 0)"

definition path_pff :: pff where
  "path_pff = example_pff\<lparr>pff_fs := (pff_fs example_pff)\<lparr>n_fatent := 6, fs_flag := 0\<rparr>\<rparr>"

definition path_chain :: "u32 \<Rightarrow> u32 list" where
  "path_chain st = (if st = 2 then [2] else [])"

lemma take_dir_entry: "take 11 (dir_entry disk drv fs cl i) = map (\<lambda>j. disk drv (snd (dir_sector fs cl (i div 16))) (32 * (i mod 16) + j)) [0..<11]"
  and nth_dir_entry: "j < 32 \<Longrightarrow> dir_entry disk drv fs cl i ! j = disk drv (snd (dir_sector fs cl (i div 16))) (32 * (i mod 16) + j)"
proof -
  have "i mod 16 < 16" by simp
  then have le: "32 * (i mod 16) + 32 \<le> 512" by linarith
  then show "j < 32 \<Longrightarrow> dir_entry disk drv fs cl i ! j = disk drv (snd (dir_sector fs cl (i div 16))) (32 * (i mod 16) + j)"
    by (simp add: dir_entry_def sector_bytes_def)
  show "take 11 (dir_entry disk drv fs cl i) = map (\<lambda>j. disk drv (snd (dir_sector fs cl (i div 16))) (32 * (i mod 16) + j)) [0..<11]"
    using le by (intro nth_equalityI) (simp_all add: dir_entry_def sector_bytes_def)
qed

lemma lookup_step:
  assumes "i < 16 * dir_sectors fs cl" "e = dir_entry disk drv fs cl i" "e ! 0 \<noteq> 0"
  shows "dir_lookup fn (drop i (dir_entries disk drv fs cl)) =
    (if e ! 11 AND AM_VOL = 0 \<and> take 11 e = fn then Some e else dir_lookup fn (drop (i + 1) (dir_entries disk drv fs cl)))"
  using assms by (simp add: drop_dir_entries dir_lookup_Cons)

lemma path_disk_fs:
  "fs_type (pff_fs path_pff) = 2" "csize (pff_fs path_pff) = 1" "n_rootdir (pff_fs path_pff) = 16" "n_fatent (pff_fs path_pff) = 6"
  "fatbase (pff_fs path_pff) = 1" "dirbase (pff_fs path_pff) = 2" "database (pff_fs path_pff) = 3" "pff_mounted path_pff"
  "dcache_ok path_disk 0x80 (pff_cache path_pff)" "fs_flag (pff_fs path_pff) = 0"
  by (simp_all add: path_pff_def example_pff_def FS_FAT16_def dcache_start_ok)

lemma path_disk_volume: "volume_ok (pff_fs path_pff)"
proof -
  have "list_ex (\<lambda>e. (1::nat) = 2 ^ e) [0..<8]" unfolding list_ex_iff by (intro bexI [of _ 0]) simp_all
  then show ?thesis by (simp add: volume_ok_def path_disk_fs FS_FAT16_def)
qed

lemma path_disk_root:
  "dir_lookup (dir_form ([66, 79, 79, 84], [])) (dir_entries path_disk 0x80 (pff_fs path_pff) []) =
    Some (dir_entry path_disk 0x80 (pff_fs path_pff) [] 1)"
  "dir_entry path_disk 0x80 (pff_fs path_pff) [] 1 ! 11 = 0x10"
  "get_clust (pff_fs path_pff) (dir_entry path_disk 0x80 (pff_fs path_pff) [] 1) = 2"
proof -
  let ?e = "dir_entry path_disk 0x80 (pff_fs path_pff) []"
  have s: "snd (dir_sector (pff_fs path_pff) [] 0) = 2" by (simp add: dir_sector_def path_disk_fs)
  have n: "dir_sectors (pff_fs path_pff) [] = 1" by (simp add: dir_sectors_def path_disk_fs)
  have b: "path_disk 0x80 2 0 = 66" "path_disk 0x80 2 11 = 8" "path_disk 0x80 2 32 = 66" "path_disk 0x80 2 43 = 0x10"
    "path_disk 0x80 2 58 = 2" "path_disk 0x80 2 59 = 0" by code_simp+
  have "map (\<lambda>j. path_disk 0x80 2 (32 + j)) [0..<11] = dir_form ([66, 79, 79, 84], [])" by code_simp
  then have t: "take 11 (?e 1) = dir_form ([66, 79, 79, 84], [])" by (simp add: take_dir_entry s)
  show a: "?e 1 ! 11 = 0x10" by (simp add: nth_dir_entry s b)
  show "get_clust (pff_fs path_pff) (?e 1) = 2"
    by (simp add: get_clust_def path_disk_fs FS_FAT32_def ld_word_def nth_dir_entry s b)
  show "dir_lookup (dir_form ([66, 79, 79, 84], [])) (dir_entries path_disk 0x80 (pff_fs path_pff) []) = Some (?e 1)"
    using lookup_step [where i = 0 and fs = "pff_fs path_pff" and cl = "[]" and disk = path_disk and drv = "0x80", OF _ refl]
      lookup_step [where i = 1 and fs = "pff_fs path_pff" and cl = "[]" and disk = path_disk and drv = "0x80", OF _ refl] t a
    by (simp add: n s b nth_dir_entry AM_VOL_def)
qed

lemma path_disk_boot:
  "dir_lookup (dir_form ([75], [69, 76, 70])) (dir_entries path_disk 0x80 (pff_fs path_pff) [2]) =
    Some (dir_entry path_disk 0x80 (pff_fs path_pff) [2] 0)"
  "dir_entry path_disk 0x80 (pff_fs path_pff) [2] 0 ! 11 = 0x20"
  "get_clust (pff_fs path_pff) (dir_entry path_disk 0x80 (pff_fs path_pff) [2] 0) = 3"
  "ld_dword (dir_entry path_disk 0x80 (pff_fs path_pff) [2] 0) 28 = 600"
proof -
  let ?e = "dir_entry path_disk 0x80 (pff_fs path_pff) [2]"
  have s: "snd (dir_sector (pff_fs path_pff) [2] 0) = 3"
    by (simp add: dir_sector_def path_disk_fs clust2sect_def)
  have n: "dir_sectors (pff_fs path_pff) [2] = 1" by (simp add: dir_sectors_def path_disk_fs)
  have b: "path_disk 0x80 3 0 = 75" "path_disk 0x80 3 11 = 0x20" "path_disk 0x80 3 26 = 3" "path_disk 0x80 3 27 = 0"
    "path_disk 0x80 3 28 = 88" "path_disk 0x80 3 29 = 2" "path_disk 0x80 3 30 = 0" "path_disk 0x80 3 31 = 0" by code_simp+
  have "map (path_disk 0x80 3) [0..<11] = dir_form ([75], [69, 76, 70])" by code_simp
  then have t: "take 11 (?e 0) = dir_form ([75], [69, 76, 70])" by (simp add: take_dir_entry s)
  show a: "?e 0 ! 11 = 0x20" by (simp add: nth_dir_entry s b)
  show "get_clust (pff_fs path_pff) (?e 0) = 3" "ld_dword (?e 0) 28 = 600"
    by (simp_all add: get_clust_def path_disk_fs FS_FAT32_def ld_word_def ld_dword_def Let_def nth_dir_entry s b)
  show "dir_lookup (dir_form ([75], [69, 76, 70])) (dir_entries path_disk 0x80 (pff_fs path_pff) [2]) = Some (?e 0)"
    using lookup_step [where i = 0 and fs = "pff_fs path_pff" and cl = "[2]" and disk = path_disk and drv = "0x80", OF _ refl] t a
    by (simp add: n s b nth_dir_entry AM_VOL_def)
qed

lemma path_disk_fat:
  "fat_entry path_disk 0x80 (pff_fs path_pff) 2 = 0xFFFF" "fat_entry path_disk 0x80 (pff_fs path_pff) 3 = 4"
proof -
  have b: "path_disk 0x80 1 4 = 255" "path_disk 0x80 1 5 = 255" "path_disk 0x80 1 6 = 4" "path_disk 0x80 1 7 = 0" by code_simp+
  show "fat_entry path_disk 0x80 (pff_fs path_pff) 2 = 0xFFFF" "fat_entry path_disk 0x80 (pff_fs path_pff) 3 = 4"
    by (simp_all add: fat_entry_def path_disk_fs FS_FAT16_def sector_bytes_def ld_word_def b)
qed

lemma path_disk_chains:
  "dir_chain path_disk 0x80 (pff_fs path_pff) 0 []" "dir_chain path_disk 0x80 (pff_fs path_pff) 2 [2]"
  by (simp_all add: dir_chain_def path_disk_fs path_disk_fat FS_FAT32_def)

lemma path_disk_resolves:
  "resolve path_disk 0x80 (pff_fs path_pff) path_chain 0 [([66, 79, 79, 84], []), ([75], [69, 76, 70])] =
    Some (dir_entry path_disk 0x80 (pff_fs path_pff) [2] 0)"
  "resolve path_disk 0x80 (pff_fs path_pff) path_chain 0 [([66, 79, 79, 84], [])] =
    Some (dir_entry path_disk 0x80 (pff_fs path_pff) [] 1)"
  by (simp_all add: path_chain_def path_disk_root [unfolded One_nat_def] path_disk_boot AM_DIR_def)

lemma path_disk_dirs:
  "dirs_ok path_disk 0x80 (pff_fs path_pff) path_chain 0 [([66, 79, 79, 84], []), ([75], [69, 76, 70])]"
  "dirs_ok path_disk 0x80 (pff_fs path_pff) path_chain 0 [([66, 79, 79, 84], [])]"
  by (simp_all add: path_chain_def path_disk_root [unfolded One_nat_def] path_disk_boot path_disk_chains)

lemma path_disk_names: "name_ok ([66, 79, 79, 84], [])" "name_ok ([75], [69, 76, 70])"
  by (simp_all add: name_ok_def name_char_def)

lemma path_disk_file: "chain_ok path_disk 0x80 (opened (pff_fs path_pff) (dir_entry path_disk 0x80 (pff_fs path_pff) [2] 0)) [3, 4]"
proof -
  have "fat_entry path_disk 0x80 (opened (pff_fs path_pff) e) 3 = fat_entry path_disk 0x80 (pff_fs path_pff) 3" for e
    by (simp add: fat_entry_def opened_def)
  then show ?thesis
    by (simp add: chain_ok_def cluster_bytes_def path_disk_fat) (simp add: opened_def path_disk_fs path_disk_boot)
qed

theorem open_seek_read_witness:
  "\<exists>s1 s2 s3. pf_open path_disk path_pff (replicate 12 0) [] (path_arg 1 True [([66, 79, 79, 84], []), ([75], [69, 76, 70])]) = Inr (FR_OK, s1) \<and>
    pf_lseek path_disk s1 510 = Inr (FR_OK, s2) \<and>
    pf_read path_disk s2 0x8000 200 = Inr (FR_OK, of_nat 90, map (file_byte path_disk 0x80 (pff_fs path_pff) [3, 4]) [510..<510 + 90], s3)"
proof (rule open_seek_read [OF path_disk_fs(8) path_disk_volume path_disk_fs(9)])
  show "names_file path_disk 0x80 (pff_fs path_pff) path_chain [([66, 79, 79, 84], []), ([75], [69, 76, 70])]
      (dir_entry path_disk 0x80 (pff_fs path_pff) [2] 0) [3, 4]"
    unfolding names_file_def using path_disk_dirs(1) path_disk_resolves(1) path_disk_file path_disk_names
    by (simp only: path_disk_boot list.pred_inject AM_DIR_def) simp
qed (simp_all add: path_disk_boot)

theorem open_missing_witness:
  "\<exists>s1. pf_open path_disk path_pff (replicate 12 0) [] (path_arg 0 False [([66, 79, 79, 84], [])]) = Inr (FR_NO_FILE, s1) \<and>
    pf_read path_disk s1 0x8000 8 = Inr (FR_NOT_OPENED, 0, [], s1) \<and> pf_lseek path_disk s1 0 = Inr (FR_NOT_OPENED, s1)"
proof (rule open_missing [OF path_disk_fs(8) path_disk_volume path_disk_fs(9) _ _ path_disk_dirs(2)])
qed (simp_all add: path_chain_def path_disk_root [unfolded One_nat_def] path_disk_names AM_DIR_def)

end
