(* ===== verification/Fat_List.thy ===== *)
theory Fat_List
  imports Fat_Path
begin

text \<open>
  Directory listing of the FAT reader: \<open>pf_opendir\<close>, \<open>pf_readdir\<close> and what they call
  (\<open>pff.c\<close>, the parts under \<open>PF_USE_DIR\<close>, which \<open>pffconf.h\<close> switches off). A directory
  opened and read entry by entry gives its files and directories in order, then empty names;
  where the directory is full, reading on leaves it.
\<close>

section \<open>Model\<close>

record FILINFO =
  fi_fsize :: u32
  fi_fdate :: u16
  fi_ftime :: u16
  fi_fattrib :: u8
  fi_fname :: "u8 list"

definition AM_MASK :: u8 where "AM_MASK = 0x3F"

text \<open>The loop of \<open>dir_read\<close>, with the state of that of \<open>dir_find\<close>.\<close>

definition dir_read_body :: "disk \<Rightarrow> find_state \<Rightarrow> find_state res" where
  "dir_read_body disk = (\<lambda>(go, res, dj, dir, s).
     bindR (read_local disk s (dj_sect dj) (ucast (dj_index dj mod 16 * 32)) 32) (\<lambda>(r, s).
     case r of None \<Rightarrow> Inr (False, FR_DISK_ERR, dj, dir, s)
     | Some dir \<Rightarrow>
       let c = dir ! 0; a = dir ! 11 AND AM_MASK in
       if c = 0 then Inr (False, FR_NO_FILE, dj, dir, s)
       else if c \<noteq> 0xE5 \<and> c \<noteq> 46 \<and> a AND AM_VOL = 0 then Inr (False, FR_OK, dj, dir, s)
       else bindR (dir_next disk s dj) (\<lambda>(res, dj, s). Inr (res = FR_OK, res, dj, dir, s))))"

definition dir_read_guard :: "find_state \<Rightarrow> bool res" where
  "dir_read_guard = (\<lambda>(go, res, dj, dir, s). Inr (go \<and> dj_sect dj \<noteq> 0))"

definition dir_read :: "disk \<Rightarrow> pff \<Rightarrow> DIR \<Rightarrow> u8 list \<Rightarrow> (FRESULT \<times> DIR \<times> u8 list \<times> pff) res" where
  "dir_read disk s dj dir =
     bindR (whileR 65538 dir_read_guard (dir_read_body disk) (True, FR_NO_FILE, dj, dir, s)) (\<lambda>(go, res, dj, dir, s).
     Inr (res, if res \<noteq> FR_OK then dj\<lparr>dj_sect := 0\<rparr> else dj, dir, s))"

text \<open>
  The two copying loops of \<open>get_fileinfo\<close>: up to a blank, from position \<open>p\<close> of the name
  on; in the body of the name a byte 5 stands for 0xE5.
\<close>

fun copy_name :: "bool \<Rightarrow> u8 list \<Rightarrow> u8 list \<Rightarrow> nat \<Rightarrow> (u8 list \<times> nat) res" where
  "copy_name body [] fname p = Inr (fname, p)"
| "copy_name body (c # cs) fname p =
     (if c = 32 then Inr (fname, p)
      else bindR (setR fname p (if body \<and> c = 5 then 0xE5 else c)) (\<lambda>fname. copy_name body cs fname (p + 1)))"

definition get_fileinfo :: "DIR \<Rightarrow> u8 list \<Rightarrow> FILINFO \<Rightarrow> FILINFO res" where
  "get_fileinfo dj dir fno =
     bindR (if dj_sect dj \<noteq> 0 then
         bindR (copy_name True (take 8 dir) (fi_fname fno) 0) (\<lambda>(fname, p).
         bindR (if dir ! 8 \<noteq> 32 then
             bindR (setR fname p 46) (\<lambda>fname. copy_name False (take 3 (drop 8 dir)) fname (p + 1))
           else Inr (fname, p)) (\<lambda>(fname, p).
         Inr (fno\<lparr>fi_fname := fname, fi_fattrib := dir ! 11, fi_fsize := ld_dword dir 28,
                fi_fdate := ld_word dir 24, fi_ftime := ld_word dir 22\<rparr>, p)))
       else Inr (fno, 0)) (\<lambda>(fno, p).
     bindR (setR (fi_fname fno) p 0) (\<lambda>fname. Inr (fno\<lparr>fi_fname := fname\<rparr>)))"

text \<open>\<open>sp\<close> and \<open>dir\<close> are the uninitialised local arrays of both functions.\<close>

definition pf_opendir :: "disk \<Rightarrow> pff \<Rightarrow> DIR \<Rightarrow> u8 list \<Rightarrow> u8 list \<Rightarrow> u8 list \<Rightarrow> (FRESULT \<times> DIR \<times> pff) res" where
  "pf_opendir disk s dj sp dir path =
     (if \<not> pff_mounted s then Inr (FR_NOT_ENABLED, dj, s)
      else bindR (follow_path disk s (dj\<lparr>dj_fn := sp\<rparr>) dir path) (\<lambda>(res, dj, dir, s).
        if res \<noteq> FR_OK then Inr (res, dj, s)
        else if dir ! 0 \<noteq> 0 \<and> dir ! 11 AND AM_DIR = 0 then Inr (FR_NO_FILE, dj, s)
        else let dj = if dir ! 0 \<noteq> 0 then dj\<lparr>dj_sclust := get_clust (pff_fs s) dir\<rparr> else dj;
                 (res, dj) = dir_rewind (pff_fs s) dj in Inr (res, dj, s)))"

definition pf_readdir :: "disk \<Rightarrow> pff \<Rightarrow> DIR \<Rightarrow> u8 list \<Rightarrow> u8 list \<Rightarrow> FILINFO option \<Rightarrow> (FRESULT \<times> DIR \<times> FILINFO option \<times> pff) res" where
  "pf_readdir disk s dj sp dir fno =
     (if \<not> pff_mounted s then Inr (FR_NOT_ENABLED, dj, fno, s)
      else let dj = dj\<lparr>dj_fn := sp\<rparr> in
        case fno of
          None \<Rightarrow> let (res, dj) = dir_rewind (pff_fs s) dj in Inr (res, dj, None, s)
        | Some fi \<Rightarrow>
            bindR (dir_read disk s dj dir) (\<lambda>(res, dj, dir, s).
            let res = if res = FR_NO_FILE then FR_OK else res in
            if res \<noteq> FR_OK then Inr (res, dj, Some fi, s)
            else bindR (get_fileinfo dj dir fi) (\<lambda>fi.
              bindR (dir_next disk s dj) (\<lambda>(res, dj, s).
              Inr (if res = FR_NO_FILE then FR_OK else res, dj, Some fi, s)))))"

section \<open>The information of an entry\<close>

text \<open>The entries to list, and the name shown for one.\<close>

definition listed :: "u8 list \<Rightarrow> bool" where
  "listed e \<longleftrightarrow> e ! 0 \<noteq> 0xE5 \<and> e ! 0 \<noteq> 46 \<and> e ! 11 AND AM_VOL = 0"

definition dir_items :: "u8 list list \<Rightarrow> u8 list list" where
  "dir_items es = filter listed (takeWhile (\<lambda>e. e ! 0 \<noteq> 0) es)"

definition shown_name :: "u8 list \<Rightarrow> u8 list" where
  "shown_name e = map (\<lambda>c. if c = 5 then 0xE5 else c) (takeWhile (\<lambda>c. c \<noteq> 32) (take 8 e)) @
     (if e ! 8 \<noteq> 32 then 46 # takeWhile (\<lambda>c. c \<noteq> 32) (take 3 (drop 8 e)) else [])"

definition info_of :: "FILINFO \<Rightarrow> u8 list \<Rightarrow> bool" where
  "info_of fi e \<longleftrightarrow> take (length (shown_name e) + 1) (fi_fname fi) = shown_name e @ [0] \<and> fi_fattrib fi = e ! 11 \<and>
     fi_fsize fi = ld_dword e 28 \<and> fi_fdate fi = ld_word e 24 \<and> fi_ftime fi = ld_word e 22"

lemma masked_attr: "(a AND AM_MASK) AND AM_VOL = a AND AM_VOL"
proof -
  have "AM_MASK AND AM_VOL = AM_VOL" by (simp add: AM_MASK_def AM_VOL_def)
  then show ?thesis by (simp add: and.assoc)
qed

lemma dir_items_Cons:
  "dir_items (e # es) = (if e ! 0 = 0 then [] else if listed e then e # dir_items es else dir_items es)"
  by (simp add: dir_items_def)

lemma length_shown_name: "length (shown_name e) \<le> 12"
proof -
  have "length (takeWhile (\<lambda>c. c \<noteq> 32) (take 8 e)) \<le> 8" "length (takeWhile (\<lambda>c. c \<noteq> 32) (take 3 (drop 8 e))) \<le> 3"
    by (rule order.trans [OF length_takeWhile_le], simp)+
  then show ?thesis by (simp add: shown_name_def)
qed

lemma copy_name_ok:
  assumes "p + length (takeWhile (\<lambda>c. c \<noteq> 32) cs) \<le> length fname"
    "out = map (\<lambda>c. if body \<and> c = 5 then 0xE5 else c) (takeWhile (\<lambda>c. c \<noteq> 32) cs)"
  shows "copy_name body cs fname p = Inr (take p fname @ out @ drop (p + length out) fname, p + length out)"
  using assms
proof (induction cs arbitrary: fname p out)
  case (Cons c cs)
  show ?case
  proof (cases "c = 32")
    case True
    then show ?thesis using Cons.prems by simp
  next
    case False
    define d where "d = (if body \<and> c = 5 then 0xE5 else c)"
    define out' where "out' = map (\<lambda>c. if body \<and> c = 5 then 0xE5 else c) (takeWhile (\<lambda>c. c \<noteq> 32) cs)"
    have o: "out = d # out'" using Cons.prems(2) False by (simp add: d_def out'_def)
    have p: "p < length fname" "p + 1 + length (takeWhile (\<lambda>c. c \<noteq> 32) cs) \<le> length (fname[p := d])"
      using Cons.prems(1) False by simp_all
    have "copy_name body (c # cs) fname p = copy_name body cs (fname[p := d]) (p + 1)" using False p(1) by (simp add: d_def)
    then show ?thesis using Cons.IH [OF p(2) out'_def] p(1) by (simp add: o take_Suc_conv_app_nth)
  qed
qed simp

lemma get_fileinfo_ok:
  assumes "dj_sect dj \<noteq> 0" "length (fi_fname fi) = 13"
  shows "\<exists>fi'. get_fileinfo dj e fi = Inr fi' \<and> info_of fi' e \<and> length (fi_fname fi') = 13"
proof -
  define b where "b = map (\<lambda>c. if True \<and> c = 5 then 0xE5 else c) (takeWhile (\<lambda>c. c \<noteq> 32) (take 8 e))"
  define x where "x = map (\<lambda>c. if False \<and> c = 5 then 0xE5 else c) (takeWhile (\<lambda>c. c \<noteq> 32) (take 3 (drop 8 e)))"
  have l: "length (takeWhile (\<lambda>c. c \<noteq> 32) (take 8 e)) \<le> 8" "length (takeWhile (\<lambda>c. c \<noteq> 32) (take 3 (drop 8 e))) \<le> 3"
    by (rule order.trans [OF length_takeWhile_le], simp)+
  have lb: "length b \<le> 8" "length x \<le> 3" using l by (simp_all add: b_def x_def)
  have sn: "shown_name e = b @ (if e ! 8 \<noteq> 32 then 46 # x else [])" by (simp add: shown_name_def b_def x_def)
  have cb: "copy_name True (take 8 e) (fi_fname fi) 0 = Inr (b @ drop (length b) (fi_fname fi), length b)"
    using copy_name_ok [OF _ b_def, of 0 "fi_fname fi"] l(1) assms(2) by simp
  let ?n = "shown_name e"
  have cx: "bindR (if e ! 8 \<noteq> 32 then bindR (setR (b @ drop (length b) (fi_fname fi)) (length b) 46)
        (\<lambda>fname. copy_name False (take 3 (drop 8 e)) fname (length b + 1))
      else Inr (b @ drop (length b) (fi_fname fi), length b)) g = g (?n @ drop (length ?n) (fi_fname fi), length ?n)" for g :: "u8 list \<times> nat \<Rightarrow> 'a res"
  proof (cases "e ! 8 = 32")
    case False
    define f where "f = (b @ drop (length b) (fi_fname fi))[length b := 46]"
    have f: "f = b @ 46 # drop (length b + 1) (fi_fname fi)"
      using lb(1) assms(2) by (simp add: f_def list_update_append) (simp add: Cons_nth_drop_Suc [symmetric])
    have lf: "length f = 13" using lb(1) assms(2) by (simp add: f_def)
    have "copy_name False (take 3 (drop 8 e)) f (length b + 1) = Inr (take (length b + 1) f @ x @ drop (length b + 1 + length x) f, length b + 1 + length x)"
      using l(2) lb(1) by (intro copy_name_ok x_def) (simp add: lf)
    then show ?thesis using False lb(1) assms(2) by (simp add: f_def [symmetric]) (simp add: f sn add.commute [of "length x"])
  qed (simp add: sn)
  have ln: "length ?n \<le> 12" by (rule length_shown_name)
  show ?thesis unfolding get_fileinfo_def cb using assms ln
    by (simp add: cx info_of_def list_update_append) (simp add: Cons_nth_drop_Suc [symmetric] info_of_def)
qed

section \<open>Reading the next item\<close>

text \<open>The entries from one index up to another are all in use or deleted.\<close>

definition used_from :: "u8 list list \<Rightarrow> nat \<Rightarrow> nat \<Rightarrow> bool" where
  "used_from es i j \<longleftrightarrow> i \<le> j \<and> (\<forall>k. i \<le> k \<and> k < j \<longrightarrow> es ! k ! 0 \<noteq> 0)"

lemma used_from_refl [simp]: "used_from es i i"
  by (auto simp: used_from_def)

lemma used_from_Suc: "used_from es i j \<Longrightarrow> es ! j ! 0 \<noteq> 0 \<Longrightarrow> used_from es i (j + 1)"
  by (auto simp: used_from_def less_Suc_eq)

definition read_inv :: "disk \<Rightarrow> u16 \<Rightarrow> FATFS \<Rightarrow> u32 list \<Rightarrow> pff \<Rightarrow> DIR \<Rightarrow> nat \<Rightarrow> u8 list list \<Rightarrow> find_state \<Rightarrow> bool" where
  "read_inv disk drv fs cl s0 dj0 i0 items = (\<lambda>(go, res, dj, dir, s).
     let i = unat (dj_index dj); es = dir_entries disk drv fs cl in
     dcache_ok disk drv (pff_cache s) \<and> s = s0\<lparr>pff_cache := pff_cache s\<rparr> \<and> same_dir dj0 dj \<and>
     (if go then dir_at fs cl i dj \<and> dir_items (drop i es) = items \<and> used_from es i0 i
      else case items of [] \<Rightarrow> res = FR_NO_FILE
        | e # rest \<Rightarrow> used_from es i0 i \<and> e ! 0 \<noteq> 0 \<and> res = FR_OK \<and> dir = e \<and> dir_at fs cl i dj \<and> es ! i = e \<and> dir_items (drop (i + 1) es) = rest))"

lemma dir_at_sector:
  assumes "volume_ok fs" "dir_chain disk drv fs start cl" "dir_at fs cl i dj"
  shows "dj_sect dj \<noteq> 0"
proof -
  have "i div 16 < dir_sectors fs cl" "dj_sect dj = snd (dir_sector fs cl (i div 16))"
    using assms(3) unfolding dir_at_def by (auto simp: less_mult_imp_div_less mult.commute) (metis snd_conv)
  then show ?thesis using dir_sector_valid(2) [OF assms(1,2)] by simp
qed

lemma dir_read_body_ok:
  assumes "volume_ok fs" "dir_chain disk drv fs start cl" "fs = pff_fs s0"
    and "read_inv disk drv fs cl s0 dj0 i0 items (True, res, dj, dir, s)"
  shows "\<exists>go' res' dj' dir' s'. dir_read_body disk (True, res, dj, dir, s) = Inr (go', res', dj', dir', s') \<and>
    read_inv disk drv fs cl s0 dj0 i0 items (go', res', dj', dir', s') \<and> (go' \<longrightarrow> unat (dj_index dj') = unat (dj_index dj) + 1)"
proof -
  define i where "i = unat (dj_index dj)"
  define es where "es = dir_entries disk drv fs cl"
  have inv: "dcache_ok disk drv (pff_cache s)" "s = s0\<lparr>pff_cache := pff_cache s\<rparr>" "same_dir dj0 dj" "dir_at fs cl i dj"
    "dir_items (drop i es) = items" "used_from es i0 i"
    using assms(4) by (simp_all add: read_inv_def Let_def i_def es_def)
  have fs: "fs = pff_fs s" by (subst inv(2)) (simp add: assms(3))
  let ?e = "dir_entry disk drv fs cl i"
  have ir: "i < 16 * dir_sectors fs cl" using inv(4) by (simp add: dir_at_def)
  have dr: "drop i es = ?e # drop (i + 1) es" "es ! i = ?e"
    using drop_dir_entries [OF ir] ir by (simp_all add: es_def dir_entries_def)
  obtain c where rd: "read_local disk s (dj_sect dj) (ucast (dj_index dj mod 16 * 32)) 32 = Inr (Some ?e, s\<lparr>pff_cache := c\<rparr>)"
    "dcache_ok disk drv c" using read_entry [OF inv(1) assms(1,2) inv(4)] by blast
  have used: "?e ! 0 \<noteq> 0 \<Longrightarrow> used_from es i0 (Suc i)" using used_from_Suc [OF inv(6)] by (simp add: dr(2))
  have s1: "s\<lparr>pff_cache := c\<rparr> = s0\<lparr>pff_cache := c\<rparr>" for c by (subst inv(2)) simp
  note I = read_inv_def Let_def prod.case es_def [symmetric] i_def [symmetric]
  consider (stop) "?e ! 0 = 0" | (item) "?e ! 0 \<noteq> 0" "listed ?e" | (skip) "?e ! 0 \<noteq> 0" "\<not> listed ?e" by blast
  then show ?thesis
  proof cases
    case stop
    then have "dir_read_body disk (True, res, dj, dir, s) = Inr (False, FR_NO_FILE, dj, ?e, s0\<lparr>pff_cache := c\<rparr>)"
      using rd(1) by (simp add: dir_read_body_def s1)
    moreover have "items = []" using inv(5) stop by (simp add: dr dir_items_Cons)
    ultimately show ?thesis using rd(2) inv(3) by (auto simp: I)
  next
    case item
    then have "dir_read_body disk (True, res, dj, dir, s) = Inr (False, FR_OK, dj, ?e, s0\<lparr>pff_cache := c\<rparr>)"
      using rd(1) by (simp add: dir_read_body_def s1 listed_def masked_attr Let_def)
    moreover have "items = ?e # dir_items (drop (i + 1) es)" using inv(5) item by (simp only: dr dir_items_Cons) simp
    ultimately show ?thesis using rd(2) inv(3,4,6) item(1) by (auto simp: I dr(2))
  next
    case skip
    have rest: "items = dir_items (drop (i + 1) es)" using inv(5) skip by (simp only: dr dir_items_Cons) simp
    define s2 where "s2 = s\<lparr>pff_cache := c\<rparr>"
    have s2: "pff_fs s2 = fs" "dcache_ok disk drv (pff_cache s2)" using rd(2) by (simp_all add: s2_def fs)
    let ?more = "i + 1 < 16 * dir_sectors fs cl"
    obtain dj' c' where nx: "dir_next disk s2 dj = Inr (if ?more then FR_OK else FR_NO_FILE, dj', s2\<lparr>pff_cache := c'\<rparr>)"
      "dcache_ok disk drv c'" "same_dir dj dj'" "?more \<longrightarrow> dir_at fs cl (i + 1) dj'"
      using dir_next_ok [OF s2(2), unfolded s2(1), OF assms(1,2) inv(4)] by blast
    have b: "dir_read_body disk (True, res, dj, dir, s) = Inr (?more, if ?more then FR_OK else FR_NO_FILE, dj', ?e, s0\<lparr>pff_cache := c'\<rparr>)"
      unfolding dir_read_body_def prod.case rd(1) bindR_Inr option.case s2_def [symmetric]
      using skip nx(1) by (simp add: s2_def s1 listed_def masked_attr Let_def)
    have idx: "?more \<Longrightarrow> unat (dj_index dj') = i + 1" using nx(4) by (simp add: dir_at_def)
    have none: "\<not> ?more \<Longrightarrow> items = []" using rest by (simp add: es_def dir_entries_def dir_items_def)
    have "read_inv disk drv fs cl s0 dj0 i0 items (?more, if ?more then FR_OK else FR_NO_FILE, dj', ?e, s0\<lparr>pff_cache := c'\<rparr>)"
      using nx(2,4) same_dir_trans [OF inv(3) nx(3)] idx none rest used skip(1) by (simp add: I)
    then show ?thesis using b idx by (auto simp: i_def)
  qed
qed

lemma dir_read_ok:
  assumes "dcache_ok disk drv (pff_cache s)" "volume_ok fs" "dir_chain disk drv fs start cl" "fs = pff_fs s" "dir_at fs cl i dj"
    "es = dir_entries disk drv fs cl" "items = dir_items (drop i es)"
  shows "\<exists>dj' dir' c. dir_read disk s dj dir = Inr (if items = [] then FR_NO_FILE else FR_OK, dj', dir', s\<lparr>pff_cache := c\<rparr>) \<and>
    dcache_ok disk drv c \<and> same_dir dj dj' \<and> (items = [] \<longrightarrow> dj_sect dj' = 0) \<and>
    (items \<noteq> [] \<longrightarrow> dir' = hd items \<and> (\<exists>j. dir_at fs cl j dj' \<and> used_from es i j \<and> es ! j ! 0 \<noteq> 0 \<and> es ! j = hd items \<and> dir_items (drop (j + 1) es) = tl items))"
proof -
  let ?I = "read_inv disk drv fs cl s dj i items"
  let ?m = "\<lambda>(go, r, dj', dir', s'). if go then 65536 - unat (dj_index dj' :: u16) else 0"
  have "\<exists>t. whileR 65538 dir_read_guard (dir_read_body disk) (True, FR_NO_FILE, dj, dir, s) = Inr t \<and> ?I t \<and> dir_read_guard t = Inr False"
  proof (rule whileR_total [where I = ?I and m = ?m])
    show "?I (True, FR_NO_FILE, dj, dir, s)" using assms(1,5) by (simp add: read_inv_def dir_at_def assms(6,7))
    show "?m (True, FR_NO_FILE, dj, dir, s) < 65538" by simp
    show "\<exists>t. dir_read_guard st = Inr t" for st by (cases st) (simp add: dir_read_guard_def)
    fix st assume I: "?I st" and g: "dir_read_guard st = Inr True"
    obtain r d dir1 s1 where st: "st = (True, r, d, dir1, s1)" using g by (cases st) (auto simp: dir_read_guard_def)
    have idx: "unat (dj_index d) < 65536" using unsigned_less [of "dj_index d", where ?'a = nat] by simp
    show "\<exists>st'. dir_read_body disk st = Inr st' \<and> ?I st' \<and> ?m st' < ?m st"
      using dir_read_body_ok [OF assms(2,3,4) I [unfolded st]] idx unfolding st by fastforce
  qed
  then obtain go r dj' dir' s' where w: "whileR 65538 dir_read_guard (dir_read_body disk) (True, FR_NO_FILE, dj, dir, s) = Inr (go, r, dj', dir', s')"
    "?I (go, r, dj', dir', s')" "\<not> (go \<and> dj_sect dj' \<noteq> 0)" by (auto simp: dir_read_guard_def)
  have "\<not> go" using w(2,3) dir_at_sector [OF assms(2,3)] by (auto simp: read_inv_def Let_def)
  then have I: "?I (False, r, dj', dir', s')" using w(2) by simp
  obtain c where c: "s' = s\<lparr>pff_cache := c\<rparr>" "dcache_ok disk drv c" using w(2) by (auto simp: read_inv_def Let_def)
  have rd: "dir_read disk s dj dir = Inr (r, if r \<noteq> FR_OK then dj'\<lparr>dj_sect := 0\<rparr> else dj', dir', s\<lparr>pff_cache := c\<rparr>)"
    unfolding dir_read_def w(1) c(1) by simp
  show ?thesis
  proof (cases items)
    case Nil
    then have "r = FR_NO_FILE" "same_dir dj dj'" using I by (simp_all add: read_inv_def Let_def)
    then show ?thesis using rd c(2) Nil by (auto simp: same_dir_def)
  next
    case (Cons e rest)
    then show ?thesis using I rd c(2) unfolding read_inv_def Let_def assms(6) [symmetric] by auto
  qed
qed

text \<open>
  One call: it reports the next item and moves on, or reports an empty name and closes the
  object for good. The object is not to stand at the last entry of the directory.
\<close>

definition listing :: "disk \<Rightarrow> u16 \<Rightarrow> FATFS \<Rightarrow> u32 list \<Rightarrow> u8 list list \<Rightarrow> DIR \<Rightarrow> bool" where
  "listing disk drv fs cl items dj \<longleftrightarrow>
     (if dj_sect dj = 0 then items = []
      else \<exists>i. dir_at fs cl i dj \<and> items = dir_items (drop i (dir_entries disk drv fs cl)) \<and>
        (\<exists>e\<in>set (drop i (dir_entries disk drv fs cl)). e ! 0 = 0))"

lemma listing_at:
  assumes "used_from es i (j + 1)" "e \<in> set (drop i es)" "e ! 0 = 0" "j < length es"
  shows "j + 1 < length es \<and> e \<in> set (drop (j + 1) es)"
proof -
  obtain k where k: "k < length (drop i es)" "e = drop i es ! k" using assms(2) by (metis in_set_conv_nth)
  then have k: "i + k < length es" "e = es ! (i + k)" by simp_all
  then have "j + 1 \<le> i + k" using assms(1,3) by (auto simp: used_from_def not_le [symmetric] Suc_le_eq)
  then obtain m where m: "i + k = j + 1 + m" using le_iff_add by blast
  then have "m < length (drop (j + 1) es)" "e = drop (j + 1) es ! m" using k by simp_all
  then show ?thesis using k(1) m by (metis nth_mem le_add1 le_less_trans)
qed

lemma pf_readdir_ok:
  assumes "pff_mounted s" "dcache_ok disk drv (pff_cache s)" "volume_ok fs" "dir_chain disk drv fs start cl" "fs = pff_fs s"
    "listing disk drv fs cl items dj" "length (fi_fname fi) = 13"
  shows "\<exists>dj' fi' c. pf_readdir disk s dj sp dir (Some fi) = Inr (FR_OK, dj', Some fi', s\<lparr>pff_cache := c\<rparr>) \<and>
    dcache_ok disk drv c \<and> length (fi_fname fi') = 13 \<and> listing disk drv fs cl (tl items) dj' \<and>
    (case items of [] \<Rightarrow> fi_fname fi' ! 0 = 0 | e # _ \<Rightarrow> info_of fi' e)"
proof -
  define es where "es = dir_entries disk drv fs cl"
  let ?dj = "dj\<lparr>dj_fn := sp\<rparr>"
  have closed: ?thesis if "dir_read disk s ?dj dir = Inr (FR_NO_FILE, dj', dir', s\<lparr>pff_cache := c\<rparr>)" "dj_sect dj' = 0" "dcache_ok disk drv c" "items = []"
    for dj' dir' c
  proof -
    have "get_fileinfo dj' dir' fi = Inr (fi\<lparr>fi_fname := (fi_fname fi)[0 := 0]\<rparr>)" using that(2) assms(7) by (simp add: get_fileinfo_def)
    then show ?thesis using that assms(1,7) by (auto simp: pf_readdir_def dir_next_def listing_def)
  qed
  show ?thesis
  proof (cases "dj_sect dj = 0")
    case True
    have n: "(65538 :: nat) = Suc 65537" by simp
    from True have "dir_read disk s ?dj dir = Inr (FR_NO_FILE, ?dj\<lparr>dj_sect := 0\<rparr>, dir, s\<lparr>pff_cache := pff_cache s\<rparr>)"
      unfolding dir_read_def n whileR.simps by (simp add: dir_read_guard_def)
    with closed [OF this] show ?thesis using assms(2,6) True by (simp add: listing_def)
  next
    case False
    then obtain i e0 where i: "dir_at fs cl i ?dj" "items = dir_items (drop i es)" "e0 \<in> set (drop i es)" "e0 ! 0 = 0"
      using assms(6) by (auto simp: listing_def es_def dir_at_def)
    obtain dj1 dir1 c where rd: "dir_read disk s ?dj dir = Inr (if items = [] then FR_NO_FILE else FR_OK, dj1, dir1, s\<lparr>pff_cache := c\<rparr>)"
      "dcache_ok disk drv c" "items = [] \<longrightarrow> dj_sect dj1 = 0"
      "items \<noteq> [] \<longrightarrow> dir1 = hd items \<and> (\<exists>j. dir_at fs cl j dj1 \<and> used_from es i j \<and> es ! j ! 0 \<noteq> 0 \<and> es ! j = hd items \<and> dir_items (drop (j + 1) es) = tl items)"
      using dir_read_ok [OF assms(2-5) i(1) es_def i(2)] by blast
    show ?thesis
    proof (cases items)
      case Nil
      then show ?thesis using rd by (intro closed) simp_all
    next
      case (Cons e rest)
      then obtain j where j: "dir_at fs cl j dj1" "used_from es i (j + 1)" "dir_items (drop (j + 1) es) = rest" "dir1 = e"
        using rd(4) used_from_Suc by auto
      define s1 where "s1 = s\<lparr>pff_cache := c\<rparr>"
      have s1: "dcache_ok disk drv (pff_cache s1)" "pff_fs s1 = fs" using rd(2) assms(5) by (simp_all add: s1_def)
      have n: "length es = 16 * dir_sectors fs cl" by (simp add: es_def dir_entries_def)
      have more: "j + 1 < 16 * dir_sectors fs cl" "e0 \<in> set (drop (j + 1) es)"
        using listing_at [OF j(2) i(3,4)] j(1) by (simp_all add: n dir_at_def)
      obtain dj2 c2 where nx: "dir_next disk s1 dj1 = Inr (FR_OK, dj2, s1\<lparr>pff_cache := c2\<rparr>)" "dcache_ok disk drv c2" "dir_at fs cl (j + 1) dj2"
        using dir_next_ok [OF s1(1), unfolded s1(2), OF assms(3,4) j(1)] more(1) by auto
      obtain fi' where fi: "get_fileinfo dj1 e fi = Inr fi'" "info_of fi' e" "length (fi_fname fi') = 13"
        using get_fileinfo_ok [OF dir_at_sector [OF assms(3,4) j(1)] assms(7)] by blast
      have "pf_readdir disk s dj sp dir (Some fi) = Inr (FR_OK, dj2, Some fi', s\<lparr>pff_cache := c2\<rparr>)"
        using assms(1) rd(1) Cons j(4) fi(1) nx(1) by (simp add: pf_readdir_def s1_def)
      moreover have "listing disk drv fs cl rest dj2"
        using nx(3) j(3) more(2) i(4) dir_at_sector [OF assms(3,4) nx(3)] by (auto simp: listing_def es_def [symmetric])
      ultimately show ?thesis using Cons nx(2) fi(2,3) by auto
    qed
  qed
qed

section \<open>Opening and listing a directory\<close>

lemma follow_root:
  assumes "volume_ok (pff_fs s)" "dir_chain disk drv (pff_fs s) 0 cl" "dir \<noteq> []"
  shows "\<exists>dj'. follow_path disk s dj dir (path_arg blanks sep []) = Inr (FR_OK, dj', dir[0 := 0], s) \<and> dj_sclust dj' = 0"
proof -
  define path where "path = path_arg blanks sep []"
  define p where "p = (if sep then blanks + 1 else blanks)"
  obtain c0 cs0 where sp: "path = replicate blanks 32 @ c0 # cs0" "c0 = (if sep then 47 else 0)" "c0 \<noteq> 32"
    by (cases sep) (auto simp: path_def path_arg_def)
  have b: "whileR (length path + 1) (\<lambda>pos. bindR (getR path pos) (\<lambda>c. Inr (c = 32))) (\<lambda>pos. Inr (pos + 1)) 0 = Inr blanks"
    by (rule skip_blanks [OF sp(1,3)]) (simp add: sp(1))
  have g0: "getR path blanks = Inr c0" using sp(1) by (simp add: nth_append)
  have p: "(if c0 = 47 then blanks + 1 else blanks) = p" using sp(2) by (simp add: p_def)
  have gp: "getR path p = Inr 0" by (simp add: path_def path_arg_def p_def nth_append)
  obtain dj' where r: "dir_rewind (pff_fs s) (dj\<lparr>dj_sclust := 0\<rparr>) = (FR_OK, dj')" "same_dir (dj\<lparr>dj_sclust := 0\<rparr>) dj'"
    using dir_rewind_ok [OF assms(1), of disk drv "dj\<lparr>dj_sclust := 0\<rparr>" cl] assms(2) by auto
  have "follow_path disk s dj dir path = Inr (FR_OK, dj', dir[0 := 0], s)"
    unfolding follow_path_def b bindR_Inr g0 Let_def p gp r(1) by simp
  then show ?thesis using r(2) by (simp add: path_def same_dir_def)
qed

text \<open>The path names the directory with start cluster \<open>st\<close>, the root when it has no segment.\<close>

definition names_dir :: "disk \<Rightarrow> u16 \<Rightarrow> FATFS \<Rightarrow> (u32 \<Rightarrow> u32 list) \<Rightarrow> fname list \<Rightarrow> u32 \<Rightarrow> bool" where
  "names_dir disk drv fs chain ns st \<longleftrightarrow> list_all name_ok ns \<and> dirs_ok disk drv fs chain 0 ns \<and> dir_chain disk drv fs st (chain st) \<and>
     (if ns = [] then st = 0
      else case resolve disk drv fs chain 0 ns of None \<Rightarrow> False | Some e \<Rightarrow> e ! 11 AND AM_DIR \<noteq> 0 \<and> st = get_clust fs e)"

lemma pf_opendir_ok:
  assumes "pff_mounted s" "fs = pff_fs s" "volume_ok fs" "dcache_ok disk drv (pff_cache s)"
    "names_dir disk drv fs chain ns st" "length sp = 12" "dir \<noteq> []"
  shows "\<exists>dj' c. pf_opendir disk s dj sp dir (path_arg blanks sep ns) = Inr (FR_OK, dj', s\<lparr>pff_cache := c\<rparr>) \<and>
    dcache_ok disk drv c \<and> dir_at fs (chain st) 0 dj'"
proof -
  note d = assms(5) [unfolded names_dir_def]
  have ch: "dir_chain disk drv fs st (chain st)" using d by blast
  have rewind: "\<exists>dj'. dir_rewind fs x = (FR_OK, dj') \<and> dir_at fs (chain st) 0 dj'" if "dj_sclust x = st" for x
    using dir_rewind_ok [OF assms(3), of disk drv x "chain st"] ch that by auto
  show ?thesis
  proof (cases "ns = []")
    case True
    then have st: "st = 0" using d by simp
    obtain dj1 where f: "follow_path disk s (dj\<lparr>dj_fn := sp\<rparr>) dir (path_arg blanks sep ns) = Inr (FR_OK, dj1, dir[0 := 0], s)" "dj_sclust dj1 = 0"
      using follow_root [of s disk drv "chain st" dir "dj\<lparr>dj_fn := sp\<rparr>" blanks sep] assms(2,3,7) ch st True by auto
    obtain dj2 where "dir_rewind fs dj1 = (FR_OK, dj2)" "dir_at fs (chain st) 0 dj2" using rewind f(2) st by auto
    then show ?thesis using f(1) assms(1,2,4,7) by (intro exI [of _ dj2] exI [of _ "pff_cache s"]) (simp add: pf_opendir_def)
  next
    case False
    then obtain e where e: "resolve disk drv fs chain 0 ns = Some e" "e ! 11 AND AM_DIR \<noteq> 0" "st = get_clust fs e"
      using d by (auto split: option.splits)
    have pre: "volume_ok (pff_fs s)" "list_all name_ok ns" "dirs_ok disk drv (pff_fs s) chain 0 ns" "length (dj_fn (dj\<lparr>dj_fn := sp\<rparr>)) = 12"
      using assms(2,3,6) d by simp_all
    have r: "Some e = resolve disk drv (pff_fs s) chain 0 ns" using e(1) assms(2) by simp
    obtain dj1 c where f: "follow_path disk s (dj\<lparr>dj_fn := sp\<rparr>) dir (path_arg blanks sep ns) = Inr (FR_OK, dj1, e, s\<lparr>pff_cache := c\<rparr>)" "dcache_ok disk drv c"
      using follow_path_ok [OF pre(1) assms(4) False pre(2-4) r, of dir blanks sep] by auto
    obtain dj2 where "dir_rewind fs (dj1\<lparr>dj_sclust := get_clust fs e\<rparr>) = (FR_OK, dj2)" "dir_at fs (chain st) 0 dj2"
      using rewind [of "dj1\<lparr>dj_sclust := get_clust fs e\<rparr>"] e(3) by auto
    then show ?thesis using f assms(1,2) e(2) resolve_SomeD(2) [OF e(1)]
      by (intro exI [of _ dj2] exI [of _ c]) (simp add: pf_opendir_def)
  qed
qed

text \<open>A client that reads \<open>n\<close> items into the same object.\<close>

fun read_items :: "disk \<Rightarrow> u8 list \<Rightarrow> u8 list \<Rightarrow> nat \<Rightarrow> DIR \<Rightarrow> FILINFO \<Rightarrow> pff \<Rightarrow> (FRESULT \<times> FILINFO) list res" where
  "read_items disk sp dir 0 dj fi s = Inr []"
| "read_items disk sp dir (Suc n) dj fi s =
     bindR (pf_readdir disk s dj sp dir (Some fi)) (\<lambda>(res, dj, fno, s).
     case fno of None \<Rightarrow> Inl NullDeref
     | Some fi \<Rightarrow> bindR (read_items disk sp dir n dj fi s) (\<lambda>infos. Inr ((res, fi) # infos)))"

lemma read_items_ok:
  assumes "volume_ok fs" "dir_chain disk drv fs start cl"
    and "pff_mounted s" "fs = pff_fs s" "dcache_ok disk drv (pff_cache s)" "listing disk drv fs cl items dj" "length (fi_fname fi) = 13"
  shows "\<exists>infos. read_items disk sp dir n dj fi s = Inr infos \<and> length infos = n \<and>
    (\<forall>k<n. fst (infos ! k) = FR_OK \<and>
      (if k < length items then info_of (snd (infos ! k)) (items ! k) else fi_fname (snd (infos ! k)) ! 0 = 0))"
  using assms(3-7)
proof (induction n arbitrary: s dj fi items)
  case (Suc n)
  obtain dj' fi' c where r: "pf_readdir disk s dj sp dir (Some fi) = Inr (FR_OK, dj', Some fi', s\<lparr>pff_cache := c\<rparr>)"
    "dcache_ok disk drv c" "length (fi_fname fi') = 13" "listing disk drv fs cl (tl items) dj'"
    "case items of [] \<Rightarrow> fi_fname fi' ! 0 = 0 | e # _ \<Rightarrow> info_of fi' e"
    using pf_readdir_ok [OF Suc.prems(1,3) assms(1,2) Suc.prems(2,4,5), of sp dir] by blast
  have pre: "pff_mounted (s\<lparr>pff_cache := c\<rparr>)" "fs = pff_fs (s\<lparr>pff_cache := c\<rparr>)" "dcache_ok disk drv (pff_cache (s\<lparr>pff_cache := c\<rparr>))"
    using Suc.prems r(2) by simp_all
  obtain infos where i: "read_items disk sp dir n dj' fi' (s\<lparr>pff_cache := c\<rparr>) = Inr infos" "length infos = n"
    "\<forall>k<n. fst (infos ! k) = FR_OK \<and>
      (if k < length (tl items) then info_of (snd (infos ! k)) (tl items ! k) else fi_fname (snd (infos ! k)) ! 0 = 0)"
    using Suc.IH [OF pre r(4,3)] by blast
  have "read_items disk sp dir (Suc n) dj fi s = Inr ((FR_OK, fi') # infos)" using r(1) i(1) by simp
  moreover have "fst (((FR_OK, fi') # infos) ! k) = FR_OK \<and> (if k < length items then info_of (snd (((FR_OK, fi') # infos) ! k)) (items ! k)
      else fi_fname (snd (((FR_OK, fi') # infos) ! k)) ! 0 = 0)" if "k < Suc n" for k
    using that i(3) r(5) by (cases k; cases items) (simp_all split: if_splits)
  ultimately show ?case using i(2) by auto
qed simp

text \<open>
  C13: listing a directory that has an entry that ends it: opening it by its path, the root
  included, and reading it item by item gives, in the order of the directory, name, size,
  time and attributes of each entry that is neither deleted nor a dot entry nor a volume label
  nor part of a long name, then an empty name however often it is read again. (For a directory
  that is full see \<open>readdir_leaves_directory\<close>.)
\<close>

theorem readdir_lists:
  assumes "pff_mounted s" "fs = pff_fs s" "volume_ok fs" "dcache_ok disk drv (pff_cache s)"
    and "names_dir disk drv fs chain ns st" "length sp = 12" "dir \<noteq> []" "length (fi_fname fi) = 13"
    and "\<exists>e\<in>set (dir_entries disk drv fs (chain st)). e ! 0 = 0"
    and "items = dir_items (dir_entries disk drv fs (chain st))"
  shows "\<exists>dj' s' infos. pf_opendir disk s dj sp dir (path_arg blanks sep ns) = Inr (FR_OK, dj', s') \<and>
    read_items disk sp dir n dj' fi s' = Inr infos \<and> length infos = n \<and>
    (\<forall>k<n. fst (infos ! k) = FR_OK \<and>
      (if k < length items then info_of (snd (infos ! k)) (items ! k) else fi_fname (snd (infos ! k)) ! 0 = 0))"
proof -
  obtain dj' c where o: "pf_opendir disk s dj sp dir (path_arg blanks sep ns) = Inr (FR_OK, dj', s\<lparr>pff_cache := c\<rparr>)"
    "dcache_ok disk drv c" "dir_at fs (chain st) 0 dj'" using pf_opendir_ok [OF assms(1-7)] by blast
  have ch: "dir_chain disk drv fs st (chain st)" using assms(5) by (simp add: names_dir_def)
  have "listing disk drv fs (chain st) items dj'"
    using o(3) dir_at_sector [OF assms(3) ch o(3)] assms(9,10)
    unfolding listing_def by (simp add: exI [of _ 0])
  then show ?thesis using o read_items_ok [OF assms(3) ch, of "s\<lparr>pff_cache := c\<rparr>"] assms(1,2,8) by simp
qed

lemma path_disk_items: "dir_items (dir_entries path_disk 0x80 (pff_fs path_pff) [2]) = [dir_entry path_disk 0x80 (pff_fs path_pff) [2] 0]"
  "\<exists>e\<in>set (dir_entries path_disk 0x80 (pff_fs path_pff) [2]). e ! 0 = 0"
proof -
  let ?e = "dir_entry path_disk 0x80 (pff_fs path_pff) [2]"
  define es where "es = dir_entries path_disk 0x80 (pff_fs path_pff) [2]"
  have s: "snd (dir_sector (pff_fs path_pff) [2] 0) = 3"
    by (simp add: dir_sector_def path_disk_fs clust2sect_def)
  have n: "dir_sectors (pff_fs path_pff) [2] = 1" by (simp add: dir_sectors_def path_disk_fs)
  have b: "path_disk 0x80 3 0 = 75" "path_disk 0x80 3 11 = 0x20" "path_disk 0x80 3 32 = 0" by code_simp+
  have "drop 0 es = ?e 0 # drop (0 + 1) es" unfolding es_def by (rule drop_dir_entries) (simp add: n)
  moreover have "drop 1 es = ?e 1 # drop (1 + 1) es" unfolding es_def by (rule drop_dir_entries) (simp add: n)
  ultimately have es: "es = ?e 0 # ?e 1 # drop (1 + 1) es" by (simp only: drop_0 add_0)
  have e: "?e 0 ! 0 = 75" "?e 0 ! 11 = 0x20" "?e 1 ! 0 = 0" by (simp_all add: nth_dir_entry s b)
  show "dir_items (dir_entries path_disk 0x80 (pff_fs path_pff) [2]) = [?e 0]"
    unfolding es_def [symmetric] by (subst es) (simp add: dir_items_Cons listed_def e e(3) [unfolded One_nat_def] AM_VOL_def)
  have "?e 1 \<in> set es" by (subst es) simp
  then show "\<exists>e\<in>set (dir_entries path_disk 0x80 (pff_fs path_pff) [2]). e ! 0 = 0" using e(3) by (auto simp: es_def)
qed

lemma path_disk_shown: "shown_name (dir_entry path_disk 0x80 (pff_fs path_pff) [2] 0) = [75, 46, 69, 76, 70]"
proof -
  let ?e = "dir_entry path_disk 0x80 (pff_fs path_pff) [2] 0"
  have s: "snd (dir_sector (pff_fs path_pff) [2] 0) = 3"
    by (simp add: dir_sector_def path_disk_fs clust2sect_def)
  have "map (path_disk 0x80 3) [0..<11] = dir_form ([75], [69, 76, 70])" by code_simp
  moreover have "dir_form ([75], [69, 76, 70]) = [75, 32, 32, 32, 32, 32, 32, 32, 69, 76, 70]" by code_simp
  ultimately have t: "take 11 ?e = [75, 32, 32, 32, 32, 32, 32, 32, 69, 76, 70]" by (simp add: take_dir_entry s)
  have "take 8 ?e = take 8 (take 11 ?e)" "take 3 (drop 8 ?e) = drop 8 (take 11 ?e)" "?e ! 8 = take 11 ?e ! 8" by (simp_all add: take_drop)
  then show ?thesis by (simp add: shown_name_def t)
qed

theorem readdir_lists_witness:
  "\<exists>dj' s' infos. pf_opendir path_disk path_pff (DIR.make 0 [] 0 0 0) (replicate 12 0) (replicate 32 0) (path_arg 0 True [([66, 79, 79, 84], [])]) = Inr (FR_OK, dj', s') \<and>
    read_items path_disk (replicate 12 0) (replicate 32 0) 2 dj' (FILINFO.make 0 0 0 0 (replicate 13 0)) s' = Inr infos \<and>
    take 6 (fi_fname (snd (infos ! 0))) = [75, 46, 69, 76, 70, 0] \<and> fi_fsize (snd (infos ! 0)) = 600 \<and> fi_fname (snd (infos ! 1)) ! 0 = 0"
proof -
  have nd: "names_dir path_disk 0x80 (pff_fs path_pff) path_chain [([66, 79, 79, 84], [])] 2"
    using path_disk_dirs(2) path_disk_names(1) path_disk_chains(2) path_disk_resolves(2) path_disk_root(2,3)
    by (simp add: names_dir_def path_chain_def AM_DIR_def)
  have ch: "path_chain 2 = [2]" by (simp add: path_chain_def)
  note r = readdir_lists [OF path_disk_fs(8) refl path_disk_volume path_disk_fs(9) nd _ _ _ _ refl, unfolded ch, OF _ _ _ path_disk_items(2),
      where n = 2, unfolded path_disk_items(1)]
  obtain dj' s' infos where i: "pf_opendir path_disk path_pff (DIR.make 0 [] 0 0 0) (replicate 12 0) (replicate 32 0) (path_arg 0 True [([66, 79, 79, 84], [])]) = Inr (FR_OK, dj', s')"
    "read_items path_disk (replicate 12 0) (replicate 32 0) 2 dj' (FILINFO.make 0 0 0 0 (replicate 13 0)) s' = Inr infos"
    "\<forall>k<2. fst (infos ! k) = FR_OK \<and> (if k < length [dir_entry path_disk 0x80 (pff_fs path_pff) [2] 0]
      then info_of (snd (infos ! k)) ([dir_entry path_disk 0x80 (pff_fs path_pff) [2] 0] ! k) else fi_fname (snd (infos ! k)) ! 0 = 0)"
    using r [of "replicate 12 0" "replicate 32 0" "FILINFO.make 0 0 0 0 (replicate 13 0)" "DIR.make 0 [] 0 0 0" 0 True] by (auto simp: FILINFO.defs)
  have info: "info_of (snd (infos ! 0)) (dir_entry path_disk 0x80 (pff_fs path_pff) [2] 0)" "fi_fname (snd (infos ! 1)) ! 0 = 0"
    using i(3) [rule_format, of 0] i(3) [rule_format, of 1] by simp_all
  have "take 6 (fi_fname (snd (infos ! 0))) = [75, 46, 69, 76, 70, 0]"
    using info(1) by (simp add: info_of_def path_disk_shown eval_nat_numeral)
  moreover have "fi_fsize (snd (infos ! 0)) = 600" using info(1) by (simp add: info_of_def path_disk_boot(4))
  ultimately show ?thesis using i(1,2) info(2) by blast
qed

section \<open>A directory that is full\<close>

text \<open>
  The root table of FAT16 without an entry that ends it: \<open>dir_next\<close> moves the object to the
  next sector before it finds that the table has ended, and \<open>pf_readdir\<close> takes that for
  success. The call after the last item shows the last 32 bytes of the sector behind the
  table as an item.
\<close>

lemma readdir_leaves_directory:
  assumes "pff_mounted s" "dcache_ok disk drv (pff_cache s)" "volume_ok fs" "dir_chain disk drv fs 0 []" "fs = pff_fs s"
    and "dir_at fs [] i dj" "i + 1 = 16 * dir_sectors fs []" "dir_entry disk drv fs [] i ! 0 \<noteq> 0" "listed (dir_entry disk drv fs [] i)"
    and "sect = dirbase fs + of_nat (dir_sectors fs [])" "sect \<noteq> 0" "sect \<noteq> 0xFFFFFFFF"
    and "e = drop 480 (sector_bytes disk drv sect)" "e ! 0 \<noteq> 0" "listed e" "length (fi_fname fi) = 13"
  shows "\<exists>dj1 fi1 s1 dj2 fi2 s2. pf_readdir disk s dj sp dir (Some fi) = Inr (FR_OK, dj1, Some fi1, s1) \<and>
    info_of fi1 (dir_entry disk drv fs [] i) \<and>
    pf_readdir disk s1 dj1 sp' dir' (Some fi1) = Inr (FR_OK, dj2, Some fi2, s2) \<and> info_of fi2 e"
proof -
  define n where "n = dir_sectors fs []"
  have n: "0 < n" "n \<le> 4096" using dir_chain_sectors [OF assms(4,3)] by (simp_all add: n_def)
  obtain q where q: "n = Suc q" using n(1) by (cases n) auto
  have i: "i = 16 * q + 15" "i div 16 = q" using assms(7) by (simp_all add: n_def [symmetric] q)
  have at: "unat (dj_index dj) = i" "dj_clust dj = 0" "dj_sect dj = dirbase fs + of_nat q"
    using assms(6) unfolding dir_at_def i(2) by (simp_all add: dir_sector_def)
  have root: "unat (n_rootdir fs) = 16 * n" using assms(4) by (auto simp: dir_chain_def dir_sectors_def n_def split: if_splits)
  have "unat (n_rootdir fs) < 65536" using unsigned_less [of "n_rootdir fs", where ?'a = nat] by simp
  then have i16: "i < 65535" by (simp add: root i(1) q)
  define es where "es = dir_entries disk drv fs []"
  let ?e = "dir_entry disk drv fs [] i"
  have le: "length es = i + 1" using assms(7) by (simp add: es_def dir_entries_def)
  have "drop i es = ?e # drop (i + 1) es" unfolding es_def by (rule drop_dir_entries) (simp add: assms(7) [symmetric])
  then have items: "dir_items (drop i es) = [?e]" using assms(8,9) by (simp add: dir_items_Cons le) (simp add: dir_items_def)
  let ?dj = "dj\<lparr>dj_fn := sp\<rparr>"
  have at0: "dir_at fs [] i ?dj" using assms(6) by (simp add: dir_at_def)
  obtain d1 c j where rd: "dir_read disk s ?dj dir = Inr (FR_OK, d1, ?e, s\<lparr>pff_cache := c\<rparr>)" "dcache_ok disk drv c"
    "dir_at fs [] j d1" "used_from es i j"
    using dir_read_ok [OF assms(2-5) at0 es_def refl, of dir] unfolding items by auto
  have "j = i" using rd(3,4) assms(7) by (simp add: dir_at_def used_from_def)
  then have d1: "unat (dj_index d1) = i" "dj_clust d1 = 0" "dj_sect d1 = dirbase fs + of_nat q" "dj_sect d1 \<noteq> 0"
    using rd(3) dir_at_sector [OF assms(3,4) rd(3)] unfolding dir_at_def by (simp_all add: dir_sector_def i(2))
  have qn: "q < dir_sectors fs []" "\<not> q + 1 < dir_sectors fs []" using q by (simp_all add: n_def [symmetric])
  have past: "dir_next disk t d = Inr (FR_NO_FILE, d\<lparr>dj_sect := dj_sect d + 1\<rparr>, t)"
    if "fs = pff_fs t" "dj_clust d = 0" "dj_sect d \<noteq> 0" "unat (dj_index d) = i" for t d
  proof -
    have "unat (dj_index d + 1) = 16 * (q + 1)" using word_index_Suc(1) [OF that(4) i16] by (simp add: i(1))
    then show ?thesis using dir_next_static [OF assms(4) that(1-3) qn(1)] qn(2) by simp
  qed
  define s1 where "s1 = s\<lparr>pff_cache := c\<rparr>"
  have s1: "fs = pff_fs s1" "pff_mounted s1" "dcache_ok disk drv (pff_cache s1)" using assms(1,5) rd(2) by (simp_all add: s1_def)
  obtain fi1 where fi1: "get_fileinfo d1 ?e fi = Inr fi1" "info_of fi1 ?e" "length (fi_fname fi1) = 13"
    using get_fileinfo_ok [OF d1(4) assms(16)] by blast
  define d2 where "d2 = d1\<lparr>dj_sect := sect\<rparr>"
  have sq: "dj_sect d1 + 1 = sect" by (simp add: d1(3) assms(10) n_def [symmetric] q)
  have one: "pf_readdir disk s dj sp dir (Some fi) = Inr (FR_OK, d2, Some fi1, s1)"
    using assms(1) rd(1) fi1(1) past [OF s1(1) d1(2,4,1)] by (simp add: pf_readdir_def s1_def [symmetric] sq d2_def)
  let ?d = "d2\<lparr>dj_fn := sp'\<rparr>"
  have d2: "unat (dj_index ?d) = i" "dj_clust ?d = 0" "dj_sect ?d = sect" by (simp_all add: d2_def d1)
  have ofs: "unat (ucast (dj_index ?d mod 16 * 32) :: u32) = 480" unfolding entry_offset d2(1) i(1) by simp
  have u32: "unat (32 :: u32) = 32" by simp
  have "take 32 (drop 480 (sector_bytes disk drv sect)) = e" by (simp add: assms(13))
  then obtain c2 where rl: "read_local disk s1 sect (ucast (dj_index ?d mod 16 * 32)) 32 = Inr (Some e, s1\<lparr>pff_cache := c2\<rparr>)" "dcache_ok disk drv c2"
    using read_local_ok [OF s1(3) assms(12), of "ucast (dj_index ?d mod 16 * 32)" 32] unfolding ofs u32 by auto
  define s2 where "s2 = s1\<lparr>pff_cache := c2\<rparr>"
  have body: "dir_read_body disk (True, FR_NO_FILE, ?d, dir', s1) = Inr (False, FR_OK, ?d, e, s2)"
    using assms(14,15) unfolding dir_read_body_def prod.case d2(3) rl(1) by (simp add: listed_def masked_attr s2_def Let_def)
  have fuel: "(65538 :: nat) = Suc (Suc 65536)" by simp
  have rd2: "dir_read disk s1 ?d dir' = Inr (FR_OK, ?d, e, s2)"
    unfolding dir_read_def fuel whileR.simps using body d2(3) assms(11) by (simp add: dir_read_guard_def)
  obtain fi2 where fi2: "get_fileinfo ?d e fi1 = Inr fi2" "info_of fi2 e"
    using get_fileinfo_ok [of ?d fi1 e] d2(3) assms(11) fi1(3) by auto
  have "fs = pff_fs s2" using s1(1) by (simp add: s2_def)
  then have "pf_readdir disk s1 d2 sp' dir' (Some fi1) = Inr (FR_OK, ?d\<lparr>dj_sect := sect + 1\<rparr>, Some fi2, s2)"
    using s1(2) rd2 fi2(1) past [of s2 ?d] d2 assms(11) by (simp add: pf_readdir_def)
  then show ?thesis using one fi1(2) fi2(2) by blast
qed

end
