(* ===== verification/Port_IO.thy ===== *)
theory Port_IO
  imports Boot_Prelude
begin

text \<open>
  Port input and output (\<open>stage3/include/x86/intrinsics.h\<close>) as traces of events, and
  the interrupt controller driver (\<open>stage3/x86/pic.c\<close>) as the traces it produces.
  What a device answers to \<open>inb\<close> is an argument of the function that reads it.
\<close>

datatype io_event = Outb u16 u8 | Inb u16 u8

definition io_wait :: "io_event list" where
  "io_wait = [Outb 0x80 0]"

text \<open>\<open>rep outsb\<close>: the bytes to one port, in order.\<close>

definition rep_outsb :: "u16 \<Rightarrow> u8 list \<Rightarrow> io_event list" where
  "rep_outsb port bytes = map (Outb port) bytes"

text \<open>The bytes a trace sends to a port.\<close>

definition sent_to :: "u16 \<Rightarrow> io_event list \<Rightarrow> u8 list" where
  "sent_to port io = concat (map (\<lambda>e. case e of Outb p b \<Rightarrow> if p = port then [b] else [] | Inb p b \<Rightarrow> []) io)"

lemma sent_to_simps [simp]:
  "sent_to p [] = []"
  "sent_to p (Outb q b # io) = (if q = p then b # sent_to p io else sent_to p io)"
  "sent_to p (Inb q b # io) = sent_to p io"
  "sent_to p (io1 @ io2) = sent_to p io1 @ sent_to p io2"
  by (simp_all add: sent_to_def)

lemma sent_to_rep_outsb [simp]:
  "sent_to p (rep_outsb q bs) = (if p = q then bs else [])"
  by (induction bs) (auto simp: rep_outsb_def)

section \<open>The 8259 interrupt controllers\<close>

definition PIC1_CMD :: u16 where "PIC1_CMD = 0x20"
definition PIC1_DATA :: u16 where "PIC1_DATA = 0x21"
definition PIC2_CMD :: u16 where "PIC2_CMD = 0xA0"
definition PIC2_DATA :: u16 where "PIC2_DATA = 0xA1"
definition PIC_EOI :: u8 where "PIC_EOI = 0x20"
definition PIC_ISR :: u32 where "PIC_ISR = 0x0B"
definition PIC_PIT :: u32 where "PIC_PIT = 0"
definition PIC_CASCADE :: u32 where "PIC_CASCADE = 2"
definition PIC_COM1 :: u32 where "PIC_COM1 = 4"
definition PIC_LPT1 :: u32 where "PIC_LPT1 = 7"

lemmas pic_ports = PIC1_CMD_def PIC1_DATA_def PIC2_CMD_def PIC2_DATA_def PIC_EOI_def

definition pic_init :: "u32 \<Rightarrow> io_event list" where
  "pic_init offset =
     Outb PIC1_CMD 0x11 # io_wait @ Outb PIC2_CMD 0x11 # io_wait @
     Outb PIC1_DATA (ucast offset) # io_wait @ Outb PIC2_DATA (ucast (offset + 8)) # io_wait @
     Outb PIC1_DATA 4 # io_wait @ Outb PIC2_DATA 2 # io_wait @
     Outb PIC1_DATA 1 # io_wait @ Outb PIC2_DATA 1 # io_wait"

definition pic_irqmask :: "u16 \<Rightarrow> io_event list" where
  "pic_irqmask m =
     [Outb PIC1_DATA (ucast (m AND 0xFF)), Outb PIC2_DATA (ucast (drop_bit 8 (m AND 0xFF00)))]"

definition pic_irqmask1 :: "u8 \<Rightarrow> io_event list" where
  "pic_irqmask1 m = [Outb PIC1_DATA m]"

definition pic_irqmask2 :: "u8 \<Rightarrow> io_event list" where
  "pic_irqmask2 m = [Outb PIC2_DATA m]"

definition pic_disable :: "io_event list" where
  "pic_disable = pic_irqmask 0xFFFF"

text \<open>\<open>v1\<close> and \<open>v2\<close> are what the two controllers answer.\<close>

definition pic_read :: "u32 \<Rightarrow> u8 \<Rightarrow> u8 \<Rightarrow> u16 \<times> io_event list" where
  "pic_read reg v1 v2 =
     (push_bit 8 (ucast v2) OR ucast v1,
      [Outb PIC1_CMD (ucast reg), Outb PIC2_CMD (ucast reg), Inb PIC2_CMD v2, Inb PIC1_CMD v1])"

definition pic_eoi :: "u32 \<Rightarrow> io_event list" where
  "pic_eoi irq = (if sint irq \<ge> 8 then [Outb PIC2_CMD PIC_EOI] else []) @ [Outb PIC1_CMD PIC_EOI]"

text \<open>The handlers of \<open>stage3/x86/isrs.cc\<close> for spurious interrupts.\<close>

definition spurious_irq7_isr :: "u8 \<Rightarrow> u8 \<Rightarrow> io_event list" where
  "spurious_irq7_isr v1 v2 =
     (let (isr, io) = pic_read PIC_ISR v1 v2 in
      io @ (if isr AND 0x80 \<noteq> 0 then pic_eoi PIC_LPT1 else []))"

definition spurious_irq15_isr :: "u8 \<Rightarrow> u8 \<Rightarrow> io_event list" where
  "spurious_irq15_isr v1 v2 =
     (let (isr, io) = pic_read PIC_ISR v1 v2 in
      io @ (if isr AND 0x8000 \<noteq> 0 then pic_eoi PIC_LPT1 else []) @ pic_eoi PIC_CASCADE)"

lemma pic_eoi_COM1: "pic_eoi PIC_COM1 = [Outb PIC1_CMD PIC_EOI]"
  by (simp add: pic_eoi_def PIC_COM1_def)

end
