(* ===== verification/Devices.thy ===== *)
theory Devices
  imports Port_IO
begin

text \<open>
  The processor intrinsics of stage 3 (\<open>stage3/include/x86/intrinsics.h\<close>) apart from the
  port accesses of \<open>Port_IO\<close>, the interval timer (\<open>stage3/x86/pit.c\<close>) and the disk
  interface (\<open>stage3/x86/ata.c\<close>). What a device answers is an argument.
\<close>

section \<open>Model: flags and interrupts\<close>

definition EFLAGS_IF :: u32 where "EFLAGS_IF = push_bit 9 1"

text \<open>The flags register is passed along; \<open>save_intr\<close> returns it and disables interrupts.\<close>

definition read_eflags :: "u32 \<Rightarrow> u32" where "read_eflags f = f"
definition cli :: "u32 \<Rightarrow> u32" where "cli f = f AND NOT EFLAGS_IF"
definition sti :: "u32 \<Rightarrow> u32" where "sti f = f OR EFLAGS_IF"
definition save_intr :: "u32 \<Rightarrow> u32 \<times> u32" where "save_intr f = (f, cli f)"
definition restore_intr :: "u32 \<Rightarrow> u32 \<Rightarrow> u32" where "restore_intr saved f = saved"

section \<open>Model: words\<close>

definition bswap16 :: "u16 \<Rightarrow> u16" where
  "bswap16 x = push_bit 8 x OR drop_bit 8 x"

text \<open>The compiler's builtin on 32 bits; the function takes and returns 16.\<close>

definition builtin_bswap32 :: "u32 \<Rightarrow> u32" where
  "builtin_bswap32 x = push_bit 24 x OR push_bit 8 (x AND 0xFF00) OR drop_bit 8 (x AND 0xFF0000) OR drop_bit 24 x"

definition bswap32 :: "u16 \<Rightarrow> u16" where
  "bswap32 x = ucast (builtin_bswap32 (ucast x))"

definition popcount :: "u32 \<Rightarrow> u32" where
  "popcount x = of_nat (length (filter (bit x) [0..<32]))"

text \<open>The branch for other compilers.\<close>

definition popcount_loop :: "u32 \<Rightarrow> u32 res" where
  "popcount_loop x =
     bindR (whileR 4294967297 (\<lambda>(c, x). Inr (x \<noteq> 0)) (\<lambda>(c :: u32, x). Inr (c + 1, x AND (x - 1))) (0, x)) (\<lambda>(c, x). Inr x)"

definition parity :: "u32 \<Rightarrow> u32" where
  "parity x = popcount x AND 1"

definition clz :: "u32 \<Rightarrow> u32" where
  "clz x = (if x = 0 then 32 else of_nat (length (takeWhile (\<lambda>n. \<not> bit x n) (rev [0..<32]))))"

definition ctz :: "u32 \<Rightarrow> u32" where
  "ctz x = (if x = 0 then 32 else of_nat (length (takeWhile (\<lambda>n. \<not> bit x n) [0..<32])))"

text \<open>\<open>rep insw\<close>: \<open>words\<close> are what the port delivers; \<open>n\<close> of them are stored.\<close>

definition rep_insw :: "u32 \<Rightarrow> u16 list \<Rightarrow> u16 list res" where
  "rep_insw n words = (if unat n \<le> length words then Inr (take (unat n) words) else Inl OutOfFuel)"

section \<open>Model: the interval timer\<close>

definition PIT_DATA :: u16 where "PIT_DATA = 0x40"
definition PIT_CMD :: u16 where "PIT_CMD = 0x43"
definition PIT_LATCH :: u8 where "PIT_LATCH = 0"
definition PIT_HILO :: u32 where "PIT_HILO = 0x30"

definition pit_arm :: "u32 \<Rightarrow> u32 \<Rightarrow> u16 \<Rightarrow> u32 \<times> io_event list" where
  "pit_arm f mode period =
     (let (eflags, f) = save_intr f;
          io = [Outb PIT_CMD (ucast (PIT_HILO OR mode)), Outb PIT_DATA (ucast (period AND 0xFF)),
                Outb PIT_DATA (ucast (drop_bit 8 (period AND 0xFF00)))]
      in (restore_intr eflags f, io))"

text \<open>\<open>a1\<close> and \<open>a2\<close> are what the data port answers.\<close>

definition pit_read :: "u32 \<Rightarrow> u8 \<Rightarrow> u8 \<Rightarrow> u16 \<times> u32 \<times> io_event list" where
  "pit_read f a1 a2 =
     (let (eflags, f) = save_intr f;
          ret = ucast a1 :: u16;
          ret = ret OR push_bit 8 (ucast a2)
      in (ret, restore_intr eflags f, [Outb PIT_CMD PIT_LATCH, Inb PIT_DATA a1, Inb PIT_DATA a2]))"

section \<open>Model: the disk interface\<close>

definition ATA_LBAMID :: u32 where "ATA_LBAMID = 4"
definition ATA_LBAHI :: u32 where "ATA_LBAHI = 5"
definition ATA_DSEL :: u32 where "ATA_DSEL = 6"
definition ATA_SRST :: nat where "ATA_SRST = 2"
definition ATA_CTL_STATUS :: u32 where "ATA_CTL_STATUS = 0"
definition ATA_CTL_CTLR :: u32 where "ATA_CTL_CTLR = 0"

definition ata_get_status :: "u32 \<Rightarrow> u8 \<Rightarrow> u8 \<times> io_event list" where
  "ata_get_status ctl_base a = (a, [Inb (ucast (ctl_base + ATA_CTL_STATUS)) a])"

text \<open>The polling loop: \<open>answers\<close> are what the status register says, one per poll.\<close>

fun ata_poll :: "u32 \<Rightarrow> u8 list \<Rightarrow> io_event list res" where
  "ata_poll ctl_base [] = Inl OutOfFuel"
| "ata_poll ctl_base (a # answers) =
     (let (status, io) = ata_get_status ctl_base a in
      if status AND 0x80 \<noteq> 0 then bindR (ata_poll ctl_base answers) (\<lambda>io'. Inr (io @ [Outb 0x80 0] @ io')) else Inr io)"

definition ata_soft_reset :: "u32 \<Rightarrow> u8 \<Rightarrow> u8 list \<Rightarrow> io_event list res" where
  "ata_soft_reset ctl_base a answers =
     (let ctl = ucast (ctl_base + ATA_CTL_CTLR); ctrl_reg = a OR push_bit ATA_SRST 1 in
      bindR (ata_poll ctl_base answers) (\<lambda>io.
      Inr ([Inb ctl a, Outb ctl ctrl_reg, Outb ctl (ctrl_reg AND NOT (push_bit ATA_SRST 1))] @ io)))"

text \<open>\<open>w\<close> are the four answers that are thrown away, \<open>cl\<close> and \<open>ch\<close> the signature bytes.\<close>

definition detect_devtype :: "u8 \<Rightarrow> u32 \<Rightarrow> u32 \<Rightarrow> u8 \<Rightarrow> u8 \<Rightarrow> u8 \<Rightarrow> u16 \<times> io_event list" where
  "detect_devtype slavebit ata_base ctl_base w cl ch =
     (let dc = ucast ch :: u16; dc = push_bit 8 dc + ucast cl in
      (dc, Outb (ucast (ata_base + ATA_DSEL)) (0xA0 OR push_bit 4 slavebit) # replicate 4 (Inb (ucast ctl_base) w) @
           [Inb (ucast (ata_base + ATA_LBAMID)) cl, Inb (ucast (ata_base + ATA_LBAHI)) ch]))"

definition ata_recv :: "u32 \<Rightarrow> u16 list \<Rightarrow> u16 list res" where
  "ata_recv num words = rep_insw num words"

section \<open>Interrupts and words\<close>

text \<open>A critical section runs with interrupts off and leaves the flag as it was, also when nested.\<close>

lemma critical_section:
  "save_intr f = (s, f') \<Longrightarrow> \<not> bit f' 9 \<and> restore_intr s g = f"
  by (auto simp: save_intr_def restore_intr_def cli_def EFLAGS_IF_def bit_simps)

lemma bswap16_involutive: "bswap16 (bswap16 x) = x"
  by (rule bit_word_eqI) (auto simp: bswap16_def bit_simps dest: bit_imp_le_length)

text \<open>\<open>bswap32\<close> is declared for 16 bits: both bytes it keeps are zero.\<close>

lemma bswap32_zero: "bswap32 x = 0"
proof -
  have m: "(0xFF0000 :: u32) = push_bit 16 (mask 8)" "(0xFF00 :: u32) = push_bit 8 (mask 8)"
    by (simp_all add: mask_eq_exp_minus_1 push_bit_eq_mult)
  show ?thesis unfolding bswap32_def builtin_bswap32_def m
    by (rule bit_word_eqI) (auto simp: bit_simps dest: bit_imp_le_length)
qed

text \<open>The loop for other compilers returns what is left of its argument instead of the count.\<close>

lemma popcount_loop_zero: "popcount_loop x = Inr 0"
proof -
  have "\<exists>t. whileR 4294967297 (\<lambda>(c, x). Inr (x \<noteq> 0)) (\<lambda>(c :: u32, x). Inr (c + 1, x AND (x - 1))) (0, x) = Inr t \<and> True \<and>
      (\<lambda>(c, x). Inr (x \<noteq> 0)) t = (Inr False :: bool res)"
  proof (rule whileR_total [where m = "\<lambda>(c, x). unat x"])
    show "(\<lambda>(c, x). unat x) (0 :: u32, x) < 4294967297" using unsigned_less [of x, where ?'a = nat] by simp
    fix s :: "u32 \<times> u32" assume "(\<lambda>(c, x). Inr (x \<noteq> 0)) s = (Inr True :: bool res)"
    then obtain c y where s: "s = (c, y)" "y \<noteq> 0" by (cases s) auto
    have "y AND (y - 1) \<le> y - 1" by (rule word_and_le1)
    moreover have "y - 1 < y" using measure_unat [OF s(2)] by (simp only: word_less_nat_alt)
    ultimately have "unat (y AND (y - 1)) < unat y" by (simp add: word_less_nat_alt word_le_nat_alt)
    then show "\<exists>s'. (\<lambda>(c, x). Inr (c + 1, x AND (x - 1))) s = Inr s' \<and> True \<and> (\<lambda>(c, x). unat x) s' < (\<lambda>(c, x). unat x) s"
      by (simp add: s)
  qed (auto split: prod.splits)
  then show ?thesis unfolding popcount_loop_def by (auto split: prod.splits)
qed

section \<open>The timer\<close>

text \<open>
  The two bytes with which \<open>pit_arm\<close> loads the counter are, low byte first, those from
  which \<open>pit_read\<close> puts a counter value together; the command byte is the access mode with
  the counting mode, and the flags are as before.
\<close>

theorem pit_period_roundtrip:
  "\<exists>lo hi. sent_to PIT_DATA (snd (pit_arm f mode period)) = [lo, hi] \<and> fst (pit_read g lo hi) = period \<and>
    sent_to PIT_CMD (snd (pit_arm f mode period)) = [ucast (0x30 OR mode)] \<and>
    fst (pit_arm f mode period) = f \<and> fst (snd (pit_read g lo hi)) = g"
proof -
  have m: "(0xFF :: u16) = mask 8" "(0xFF00 :: u16) = push_bit 8 (mask 8)" by (simp_all add: mask_eq_exp_minus_1 push_bit_eq_mult)
  have "(ucast (ucast (period AND 0xFF) :: u8) :: u16) OR push_bit 8 (ucast (ucast (drop_bit 8 (period AND 0xFF00)) :: u8)) = period"
    unfolding m by (rule bit_word_eqI) (auto simp: bit_simps)
  then show ?thesis
    by (simp add: pit_arm_def pit_read_def save_intr_def restore_intr_def PIT_DATA_def PIT_CMD_def PIT_HILO_def Let_def)
qed

section \<open>The disk\<close>

lemma ata_poll_ends:
  assumes "\<exists>a\<in>set answers. a AND 0x80 = 0" "ucast ctl \<noteq> (0x80 :: u16)"
  shows "\<exists>io. ata_poll ctl answers = Inr io \<and> sent_to (ucast ctl) io = [] \<and>
    length (filter (\<lambda>e. \<exists>a. e = Inb (ucast ctl) a) io) = Suc (length (takeWhile (\<lambda>a. a AND 0x80 \<noteq> 0) answers))"
  using assms(1)
proof (induction answers)
  case (Cons a answers)
  show ?case
  proof (cases "a AND 0x80 = 0")
    case True
    then show ?thesis by (simp add: ata_get_status_def ATA_CTL_STATUS_def)
  next
    case False
    with Cons obtain io where "ata_poll ctl answers = Inr io" "sent_to (ucast ctl) io = []"
      "length (filter (\<lambda>e. \<exists>a. e = Inb (ucast ctl) a) io) = Suc (length (takeWhile (\<lambda>a. a AND 0x80 \<noteq> 0) answers))" by auto
    then show ?thesis using False assms(2) by (simp add: ata_get_status_def ATA_CTL_STATUS_def)
  qed
qed simp

text \<open>
  A reset raises and then lowers the reset bit of the device control register, leaving
  the other bits as they were read, and waits until the device is no longer busy: it polls
  once more than the device answers busy, and returns.
\<close>

theorem ata_soft_reset_waits:
  assumes "\<exists>a\<in>set answers. a AND 0x80 = 0" "ucast ctl \<noteq> (0x80 :: u16)"
  shows "\<exists>io. ata_soft_reset ctl r answers = Inr io \<and> sent_to (ucast ctl) io = [r OR 4, r AND NOT 4] \<and>
    length (filter (\<lambda>e. \<exists>a. e = Inb (ucast ctl) a) io) = 2 + length (takeWhile (\<lambda>a. a AND 0x80 \<noteq> 0) answers)"
proof -
  have "(r OR 4) AND NOT 4 = r AND NOT 4"
  proof (rule bit_word_eqI)
    fix n assume "n < LENGTH(8)"
    show "bit ((r OR 4) AND NOT 4) n = bit (r AND NOT 4) n" by (simp add: bit_simps) blast
  qed
  moreover obtain io where "ata_poll ctl answers = Inr io" "sent_to (ucast ctl) io = []"
    "length (filter (\<lambda>e. \<exists>a. e = Inb (ucast ctl) a) io) = Suc (length (takeWhile (\<lambda>a. a AND 0x80 \<noteq> 0) answers))"
    using ata_poll_ends [OF assms] by auto
  ultimately show ?thesis by (simp add: ata_soft_reset_def ATA_CTL_CTLR_def ATA_SRST_def Let_def push_bit_eq_mult)
qed

theorem ata_soft_reset_waits_witness:
  "\<exists>io. ata_soft_reset 0x3F6 0x50 [0xD0, 0xD0, 0x50] = Inr io \<and> sent_to 0x3F6 io = [0x54, 0x50]"
  using ata_soft_reset_waits [of "[0xD0, 0xD0, 0x50]" "0x3F6" "0x50"] by auto

text \<open>The signature is the two bytes, the high one first.\<close>

lemma detect_devtype_signature:
  "fst (detect_devtype sl a c w cl ch) = of_nat (256 * unat ch + unat cl)"
  by (simp add: detect_devtype_def Let_def push_bit_eq_mult)

end
