(* ===== verification/Portable_Bits.thy ===== *)
theory Portable_Bits
  imports Devices
begin

text \<open>
  The branches of \<open>parity\<close> and \<open>ctz\<close> in \<open>stage3/include/x86/intrinsics.h\<close> for compilers
  without GCC's builtins: they compute what the builtins compute. That of \<open>clz\<close> uses an
  undeclared name and does not compile; it has no model.
\<close>

section \<open>Model\<close>

definition parity_portable :: "u32 \<Rightarrow> u32" where
  "parity_portable x =
     (let x = x XOR drop_bit 1 x;
          x = x XOR drop_bit 2 x;
          x = (x AND 0x11111111) * 0x11111111
      in drop_bit 28 x AND 1)"

definition ctz_portable :: "u32 \<Rightarrow> u32" where
  "ctz_portable x =
     (if x = 0 then 32
      else let c = 32; x = x AND - x;
          c = (if x \<noteq> 0 then c - 1 else c);
          c = (if x AND 0x0000FFFF \<noteq> 0 then c - 16 else c);
          c = (if x AND 0x00FF00FF \<noteq> 0 then c - 8 else c);
          c = (if x AND 0x0F0F0F0F \<noteq> 0 then c - 4 else c);
          c = (if x AND 0x33333333 \<noteq> 0 then c - 2 else c)
      in if x AND 0x55555555 \<noteq> 0 then c - 1 else c)"

section \<open>Trailing zeros\<close>

lemma lowest_bit:
  fixes x :: u32
  assumes "x \<noteq> 0"
  obtains k where "k < 32" "bit x k" "\<forall>j<k. \<not> bit x j"
proof -
  obtain n where n: "bit x n" using assms bit_word_eqI [of x 0] by auto
  define k where "k = (LEAST n. bit x n)"
  have k: "bit x k" unfolding k_def by (rule LeastI [of _ n]) (rule n)
  moreover have "k < 32" using bit_imp_le_length [OF k] by simp
  moreover have "\<forall>j<k. \<not> bit x j" unfolding k_def using not_less_Least by blast
  ultimately show ?thesis using that by blast
qed

lemma isolate_lowest:
  fixes x :: u32
  assumes "bit x k" "\<forall>j<k. \<not> bit x j"
  shows "x AND - x = 2 ^ k"
proof -
  define w where "w = x AND NOT (mask (Suc k))"
  have k: "k < 32" using bit_imp_le_length [OF assms(1)] by simp
  have w: "bit w n \<longleftrightarrow> k < n \<and> bit x n" for n
    using bit_imp_le_length [of x n] by (auto simp: w_def bit_simps)
  have x: "x = w OR 2 ^ k"
  proof (rule bit_word_eqI)
    fix n assume "n < LENGTH(32)"
    then show "bit x n = bit (w OR 2 ^ k) n"
      using assms by (cases n k rule: linorder_cases) (auto simp: w bit_simps)
  qed
  have "w OR 2 ^ k = w + 2 ^ k" by (rule disjunctive_add [symmetric]) (auto simp: w bit_simps)
  then have "x - 1 = w + mask k" unfolding x by (simp add: mask_eq_exp_minus_1)
  also have "\<dots> = w OR mask k" by (rule disjunctive_add) (auto simp: w bit_simps)
  finally have "- x = NOT (w OR mask k)" by (simp add: minus_eq_not_minus_1)
  moreover have "bit x n \<longleftrightarrow> bit w n \<or> n = k" for n using assms w by (cases n k rule: linorder_cases) auto
  ultimately show ?thesis
    by (intro bit_word_eqI) (use k in \<open>auto simp: w bit_simps\<close>)
qed

lemma ctz_lowest:
  assumes "k < 32" "bit x k" "\<forall>j<k. \<not> bit x j"
  shows "ctz x = of_nat k"
proof -
  have u: "[0..<32] = [0..<k] @ k # [Suc k..<32]"
    using assms(1) by (metis less_imp_le_nat upt_add_eq_append upt_conv_Cons le_add_diff_inverse zero_le)
  have "takeWhile (\<lambda>n. \<not> bit x n) [0..<32] = [0..<k]" unfolding u using assms(2,3) by (simp add: takeWhile_append)
  moreover have "x \<noteq> 0" using assms(2) by auto
  ultimately show ?thesis by (simp add: ctz_def)
qed

lemma ctz_portable_eq: "ctz_portable x = ctz x"
proof (cases "x = 0")
  case False
  then obtain k where k: "k < 32" "bit x k" "\<forall>j<k. \<not> bit x j" by (rule lowest_bit)
  define low where "low = (2 ^ k :: u32)"
  have tab: "list_all (\<lambda>k. (let c = (32 :: u32); x = 2 ^ k :: u32;
          c = (if x \<noteq> 0 then c - 1 else c);
          c = (if x AND 0x0000FFFF \<noteq> 0 then c - 16 else c);
          c = (if x AND 0x00FF00FF \<noteq> 0 then c - 8 else c);
          c = (if x AND 0x0F0F0F0F \<noteq> 0 then c - 4 else c);
          c = (if x AND 0x33333333 \<noteq> 0 then c - 2 else c)
      in if x AND 0x55555555 \<noteq> 0 then c - 1 else c) = of_nat k) [0..<32]"
    by code_simp
  show ?thesis
    unfolding ctz_lowest [OF k] ctz_portable_def isolate_lowest [OF k(2,3)] if_not_P [OF False]
    using tab k(1) unfolding list_all_iff by simp
qed (simp add: ctz_portable_def ctz_def)

section \<open>Parity\<close>

lemma odd_sum_odd: "odd (\<Sum>k\<leftarrow>ks. of_bool (odd (f k)) :: nat) \<longleftrightarrow> odd (\<Sum>k\<leftarrow>ks. f k :: nat)" for ks :: "'a list"
  by (induction ks) simp_all

lemma length_filter_sum: "length (filter P xs) = (\<Sum>x\<leftarrow>xs. of_bool (P x))"
  by (induction xs) simp_all

lemma nibble_parity:
  fixes x :: u32
  assumes "y = x XOR drop_bit 1 x" "z = y XOR drop_bit 2 y" "k < 8"
  shows "bit (z AND 0x11111111) (4 * k) \<longleftrightarrow> odd (\<Sum>i\<leftarrow>[4 * k, 4 * k + 1, 4 * k + 2, 4 * k + 3]. of_bool (bit x i) :: nat)"
proof -
  have m: "list_all (\<lambda>k. bit (0x11111111 :: u32) (4 * k)) [0..<8]" by code_simp
  then have m: "bit (0x11111111 :: u32) (4 * k)" using assms(3) by (simp add: list_all_iff)
  have y: "bit y n \<longleftrightarrow> bit x n \<noteq> bit x (n + 1)" for n using bit_imp_le_length [of x n] by (auto simp: assms(1) bit_simps)
  have z: "bit z n \<longleftrightarrow> bit y n \<noteq> bit y (n + 2)" for n by (auto simp: assms(2) bit_simps add.commute)
  have "4 * k + 2 + 1 = 4 * k + 3" by simp
  then have "bit z (4 * k) \<longleftrightarrow> (bit x (4 * k) \<noteq> bit x (4 * k + 1)) \<noteq> (bit x (4 * k + 2) \<noteq> bit x (4 * k + 3))"
    by (simp only: y z)
  then show ?thesis using m by (simp add: bit_simps)
qed

text \<open>The product puts the sum of the eight low bits of the nibbles into the top nibble.\<close>

lemma upt8: "[0..<8] = [0, 1, 2, 3, 4, 5, 6, 7]"
  by code_simp

lemma nibble_sum:
  "drop_bit 28 ((z AND 0x11111111) * 0x11111111) AND 1 = (of_bool (odd (\<Sum>k\<leftarrow>[0..<8]. of_bool (bit (z AND 0x11111111) (4 * k)) :: nat)) :: u32)"
proof -
  define b where "b k = bit z (4 * k)" for k
  define p where "p k = (if b k then 2 ^ (4 * k) else 0 :: u32)" for k
  have one: "z AND 2 ^ (4 * k) = p k" for k by (rule bit_word_eqI) (auto simp: p_def b_def bit_simps)
  have m: "(0x11111111 :: u32) = 2 ^ (4 * 0) OR 2 ^ (4 * 1) OR 2 ^ (4 * 2) OR 2 ^ (4 * 3) OR 2 ^ (4 * 4) OR 2 ^ (4 * 5) OR 2 ^ (4 * 6) OR 2 ^ (4 * 7)"
    by code_simp
  have w: "z AND 0x11111111 = p 0 OR p 1 OR p 2 OR p 3 OR p 4 OR p 5 OR p 6 OR p 7"
    unfolding m bit.conj_disj_distrib one ..
  have bits: "list_all (\<lambda>k. bit (z AND 0x11111111) (4 * k) = b k) [0..<8]"
  proof -
    have "list_all (\<lambda>k. bit (0x11111111 :: u32) (4 * k)) [0..<8]" by code_simp
    then show ?thesis by (simp add: list_all_iff bit_simps b_def)
  qed
  have "(\<Sum>k\<leftarrow>[0..<8]. of_bool (bit (z AND 0x11111111) (4 * k)) :: nat) = (\<Sum>k\<leftarrow>[0..<8]. of_bool (b k))"
    using bits by (intro arg_cong [of _ _ sum_list] map_cong refl) (simp add: list_all_iff)
  also have "\<dots> = of_bool (b 0) + of_bool (b 1) + of_bool (b 2) + of_bool (b 3) + of_bool (b 4) + of_bool (b 5) + of_bool (b 6) + of_bool (b 7)"
    unfolding upt8 by simp
  finally have s: "(\<Sum>k\<leftarrow>[0..<8]. of_bool (bit (z AND 0x11111111) (4 * k)) :: nat) = \<dots>" .
  show ?thesis unfolding s unfolding w
    by (cases "b 0"; cases "b 1"; cases "b 2"; cases "b 3"; cases "b 4"; cases "b 5"; cases "b 6"; cases "b 7") (simp_all add: p_def)
qed

lemma parity_portable_eq: "parity_portable x = parity x"
proof -
  define y where "y = x XOR drop_bit 1 x"
  define z where "z = y XOR drop_bit 2 y"
  let ?n = "\<lambda>k. \<Sum>i\<leftarrow>[4 * k, 4 * k + 1, 4 * k + 2, 4 * k + 3]. of_bool (bit x i) :: nat"
  have u32: "[0..<32] = concat (map (\<lambda>k. [4 * k, 4 * k + 1, 4 * k + 2, 4 * k + 3]) [0..<8])" by code_simp
  have "(\<Sum>k\<leftarrow>[0..<8]. of_bool (bit (z AND 0x11111111) (4 * k)) :: nat) = (\<Sum>k\<leftarrow>[0..<8]. of_bool (odd (?n k)))"
    using nibble_parity [OF y_def z_def] by (intro arg_cong [of _ _ sum_list] map_cong refl) simp
  then have "odd (\<Sum>k\<leftarrow>[0..<8]. of_bool (bit (z AND 0x11111111) (4 * k)) :: nat) \<longleftrightarrow> odd (\<Sum>k\<leftarrow>[0..<8]. ?n k)"
    by (simp only: odd_sum_odd)
  also have "(\<Sum>k\<leftarrow>[0..<8]. ?n k) = length (filter (bit x) [0..<32])"
    unfolding u32 length_filter_sum upt8 by simp
  finally have o: "odd (\<Sum>k\<leftarrow>[0..<8]. of_bool (bit (z AND 0x11111111) (4 * k)) :: nat) \<longleftrightarrow> odd (length (filter (bit x) [0..<32]))" .
  have "of_nat n AND 1 = (of_bool (odd n) :: u32)" for n
  proof -
    have "unat (of_nat n AND 1 :: u32) = n mod 2"
      using and_pow2_mask [of "of_nat n" 1] by (simp add: unat_of_nat mod_mod_cancel)
    then show ?thesis by (simp add: word_unat_eq_iff odd_iff_mod_2_eq_one)
  qed
  then show ?thesis
    unfolding parity_portable_def Let_def y_def [symmetric] z_def [symmetric] nibble_sum o parity_def popcount_def by simp
qed

text \<open>
  C40: the code for compilers without builtins computes the same parity and the same number
  of trailing zeros as the builtins, for every word.
\<close>

theorem portable_bits: "parity_portable x = parity x \<and> ctz_portable x = ctz x"
  by (simp add: parity_portable_eq ctz_portable_eq)

end
