(* ===== verification/Cpu.thy ===== *)
theory Cpu
  imports Devices
begin

text \<open>
  The remaining intrinsics of \<open>stage3/include/x86/intrinsics.h\<close>: the instructions that halt
  the processor or read and write its registers, on a record of those registers.
\<close>

section \<open>Model\<close>

text \<open>\<open>cpu_leaves\<close> is what the CPUID instruction answers in EAX, EBX, ECX and EDX.\<close>

record cpu =
  cpu_eflags :: u32
  cpu_cr4 :: u32
  cpu_msrs :: "u32 \<Rightarrow> u64"
  cpu_tsc :: u64
  cpu_leaves :: "u32 \<Rightarrow> u32 \<times> u32 \<times> u32 \<times> u32"
  cpu_halted :: bool

definition halt :: "cpu \<Rightarrow> cpu" where
  "halt c = c\<lparr>cpu_halted := True\<rparr>"

definition hang :: "cpu \<Rightarrow> cpu" where
  "hang c = halt (c\<lparr>cpu_eflags := cli (cpu_eflags c)\<rparr>)"

definition read_cr4 :: "cpu \<Rightarrow> u32" where
  "read_cr4 c = cpu_cr4 c"

definition get_cpuid :: "cpu \<Rightarrow> u32" where
  "get_cpuid c = (let (a, _, _, d) = cpu_leaves c 1 in d)"

definition rdmsr :: "cpu \<Rightarrow> u32 \<Rightarrow> u64" where
  "rdmsr c msr_id = cpu_msrs c msr_id"

definition wrmsr :: "cpu \<Rightarrow> u32 \<Rightarrow> u64 \<Rightarrow> cpu" where
  "wrmsr c msr_id msr_value = c\<lparr>cpu_msrs := (cpu_msrs c)(msr_id := msr_value)\<rparr>"

definition rdtsc :: "cpu \<Rightarrow> u64" where
  "rdtsc c = cpu_tsc c"

text \<open>What ends a halt: an interrupt line if interrupts are on, or the non-maskable interrupt.\<close>

datatype wakeup = Maskable | NonMaskable

fun wake :: "wakeup \<Rightarrow> cpu \<Rightarrow> cpu" where
  "wake Maskable c = (if cpu_eflags c AND EFLAGS_IF \<noteq> 0 then c\<lparr>cpu_halted := False\<rparr> else c)"
| "wake NonMaskable c = c\<lparr>cpu_halted := False\<rparr>"

text \<open>The loop at the end of \<open>panic\<close> (\<open>stage3/crt/assert.c\<close>): whenever the halt ends, \<open>hang\<close> is called again.\<close>

definition hang_again :: "wakeup \<Rightarrow> cpu \<Rightarrow> cpu" where
  "hang_again s c = (let c = wake s c in if cpu_halted c then c else hang c)"

definition panic_loop :: "wakeup list \<Rightarrow> cpu \<Rightarrow> cpu" where
  "panic_loop ss c = fold hang_again ss (hang c)"

section \<open>Halting\<close>

lemma cli_masks: "cli f AND EFLAGS_IF = 0"
  by (simp add: cli_def and.assoc)

lemma hang_state: "cpu_halted (hang c)" "cpu_eflags (hang c) AND EFLAGS_IF = 0"
  by (simp_all add: hang_def halt_def cli_masks)

text \<open>One \<open>hang\<close> outlasts every maskable interrupt, but not a non-maskable one.\<close>

lemma hang_masked: "fold wake (replicate n Maskable) (hang c) = hang c"
  by (induction n) (simp_all add: hang_state)

lemma hang_nmi: "\<not> cpu_halted (wake NonMaskable (hang c))"
  by simp

text \<open>The loop of \<open>panic\<close> does: after any wakeups the processor is halted with interrupts off.\<close>

lemma panic_loop_halts: "cpu_halted (panic_loop ss c) \<and> cpu_eflags (panic_loop ss c) AND EFLAGS_IF = 0"
proof -
  have "cpu_halted (fold hang_again ss d) \<and> cpu_eflags (fold hang_again ss d) AND EFLAGS_IF = 0"
    if "cpu_halted d \<and> cpu_eflags d AND EFLAGS_IF = 0" for d
    using that
  proof (induction ss arbitrary: d)
    case (Cons s ss)
    have "cpu_halted (hang_again s d) \<and> cpu_eflags (hang_again s d) AND EFLAGS_IF = 0"
      using Cons.prems by (cases s) (simp_all add: hang_again_def Let_def hang_state)
    then show ?case using Cons.IH by simp
  qed simp
  then show ?thesis by (simp add: panic_loop_def hang_state)
qed

lemma msr_written: "rdmsr (wrmsr c i x) j = (if j = i then x else rdmsr c j)"
  by (simp add: rdmsr_def wrmsr_def)

end
