(* ===== verification/Machine.thy ===== *)
theory Machine
  imports Boot_Prelude
begin

text \<open>
  The processor's view of memory that the paging code of both stages works through:
  physical memory as 4 KiB frames of 32-bit words, the two-level page walk of 32-bit
  x86 (4 MiB pages included) from the frame in CR3, and word loads and stores at
  virtual addresses. The walk always reads the current tables; \<open>Translation_Cache\<close> shows
  that a processor that keeps translations goes to the same places.
\<close>

type_synonym frame = "20 word"
type_synonym idx = "10 word"

record machine =
  cr3 :: frame
  pmem :: "frame \<Rightarrow> idx \<Rightarrow> u32"

section \<open>Addresses\<close>

definition pdi_of :: "u32 \<Rightarrow> idx" where
  "pdi_of v = ucast (drop_bit 22 v)"

definition pti_of :: "u32 \<Rightarrow> idx" where
  "pti_of v = ucast (drop_bit 12 v)"

definition woff_of :: "u32 \<Rightarrow> idx" where
  "woff_of v = ucast (drop_bit 2 v)"

definition frame_of :: "u32 \<Rightarrow> frame" where
  "frame_of e = ucast (drop_bit 12 e)"

definition frame_addr :: "frame \<Rightarrow> u32" where
  "frame_addr f = push_bit 12 (ucast f)"

lemma unat_pdi: "unat (pdi_of v) = unat v div 4194304"
proof -
  have "unat v div 4194304 < 1024" using unsigned_less [of v, where ?'a = nat] by simp
  then show ?thesis by (simp add: pdi_of_def unsigned_ucast_eq unat_drop_bit_eq drop_bit_eq_div
        take_bit_eq_mod unat_div_distrib)
qed

lemma unat_pti: "unat (pti_of v) = unat v div 4096 mod 1024"
  by (simp add: pti_of_def unsigned_ucast_eq unat_drop_bit_eq drop_bit_eq_div take_bit_eq_mod unat_div_distrib)

lemma unat_woff: "unat (woff_of v) = unat v div 4 mod 1024"
  by (simp add: woff_of_def unsigned_ucast_eq unat_drop_bit_eq drop_bit_eq_div take_bit_eq_mod unat_div_distrib)

lemma unat_frame_of: "unat (frame_of e) = unat e div 4096"
proof -
  have "unat e div 4096 < 1048576" using unsigned_less [of e, where ?'a = nat] by simp
  then show ?thesis by (simp add: frame_of_def unsigned_ucast_eq unat_drop_bit_eq drop_bit_eq_div
        take_bit_eq_mod unat_div_distrib)
qed

lemma unat_frame_addr: "unat (frame_addr f) = unat f * 4096"
proof -
  have "unat f < 1048576" using unsigned_less [of f, where ?'a = nat] by simp
  moreover have "frame_addr f = of_nat (unat f * 4096)"
    by (simp add: frame_addr_def push_bit_eq_mult)
  ultimately show ?thesis by (simp only: unat_of_nat) simp
qed

lemma frame_of_addr [simp]: "frame_of (frame_addr f) = f"
  by (simp add: word_unat_eq_iff unat_frame_of unat_frame_addr)

lemma frame_addr_inj: "frame_addr f = frame_addr g \<longleftrightarrow> f = g"
  by (metis frame_of_addr)

section \<open>Translation, loads and stores\<close>

text \<open>Entry bits: present is bit 0, the 4 MiB page bit of a directory entry bit 7.\<close>

definition present :: "u32 \<Rightarrow> bool" where
  "present e \<longleftrightarrow> e AND 1 \<noteq> 0"

definition big_page :: "u32 \<Rightarrow> bool" where
  "big_page e \<longleftrightarrow> e AND 0x80 \<noteq> 0"

definition translate :: "machine \<Rightarrow> u32 \<Rightarrow> (frame \<times> idx) option" where
  "translate m v =
     (let pde = pmem m (cr3 m) (pdi_of v) in
      if \<not> present pde then None
      else if big_page pde then
        Some (frame_of ((pde AND 0xFFC00000) OR (v AND 0x003FF000)), woff_of v)
      else let pte = pmem m (frame_of pde) (pti_of v) in
        if \<not> present pte then None else Some (frame_of pte, woff_of v))"

definition rd32 :: "machine \<Rightarrow> u32 \<Rightarrow> u32 res" where
  "rd32 m v = (case translate m v of None \<Rightarrow> Inl (PageFault v) | Some (f, i) \<Rightarrow> Inr (pmem m f i))"

definition wr32 :: "machine \<Rightarrow> u32 \<Rightarrow> u32 \<Rightarrow> machine res" where
  "wr32 m v x = (case translate m v of None \<Rightarrow> Inl (PageFault v)
     | Some (f, i) \<Rightarrow> Inr (m\<lparr>pmem := (pmem m)(f := (pmem m f)(i := x))\<rparr>))"

text \<open>Bytes at virtual addresses, little-endian in their words.\<close>

definition rd8 :: "machine \<Rightarrow> u32 \<Rightarrow> u8 res" where
  "rd8 m v = bindR (rd32 m (v AND NOT 3)) (\<lambda>w. Inr (ucast (drop_bit (8 * unat (v AND 3)) w)))"

definition wr8 :: "machine \<Rightarrow> u32 \<Rightarrow> u8 \<Rightarrow> machine res" where
  "wr8 m v b = bindR (rd32 m (v AND NOT 3)) (\<lambda>w.
     let k = 8 * unat (v AND 3) in
     wr32 m (v AND NOT 3) ((w AND NOT (push_bit k 0xFF)) OR push_bit k (ucast b)))"

section \<open>The recursive mapping\<close>

text \<open>
  Directory entry 1023 maps the directory itself, so that the directory is at
  \<open>0xFFFFF000\<close> and the table of directory entry \<open>i\<close> at \<open>0xFFC00000 + 0x1000 * i\<close>.
\<close>

definition recursive :: "machine \<Rightarrow> bool" where
  "recursive m \<longleftrightarrow> present (pmem m (cr3 m) 1023) \<and> \<not> big_page (pmem m (cr3 m) 1023) \<and>
     frame_of (pmem m (cr3 m) 1023) = cr3 m"

text \<open>The address of word \<open>t\<close> of the table of directory entry \<open>p\<close> in the window.\<close>

definition window :: "nat \<Rightarrow> nat \<Rightarrow> u32" where
  "window p t = 0xFFC00000 + of_nat p * 0x1000 + of_nat t * 4"

lemma unat_window:
  assumes "p < 1024" "t < 1024"
  shows "unat (window p t) = 4290772992 + p * 4096 + t * 4"
proof -
  have "window p t = of_nat (4290772992 + p * 4096 + t * 4)" by (simp add: window_def)
  moreover have "4290772992 + p * 4096 + t * 4 < 4294967296" using assms by simp
  ultimately show ?thesis by (simp only: unat_of_nat32)
qed

lemma window_parts:
  assumes "p < 1024" "t < 1024"
  shows "pdi_of (window p t) = 1023" "unat (pti_of (window p t)) = p" "unat (woff_of (window p t)) = t"
proof -
  note u = unat_window [OF assms]
  have "4290772992 + p * 4096 + t * 4 = (p * 4096 + t * 4) + 4194304 * 1023" by simp
  then have "(4290772992 + p * 4096 + t * 4) div 4194304 = (p * 4096 + t * 4) div 4194304 + 1023"
    by (simp only: div_mult_self2)
  also have "\<dots> = 1023" using assms by simp
  finally show "pdi_of (window p t) = 1023" by (simp add: word_unat_eq_iff unat_pdi u)
  have "4290772992 + p * 4096 + t * 4 = t * 4 + 4096 * (p + 1024 * 1023)" by simp
  then have "(4290772992 + p * 4096 + t * 4) div 4096 = t * 4 div 4096 + (p + 1024 * 1023)"
    by (simp only: div_mult_self2)
  also have "\<dots> = p + 1024 * 1023" using assms by simp
  finally have d: "(4290772992 + p * 4096 + t * 4) div 4096 = p + 1024 * 1023" .
  have "(p + 1024 * 1023) mod 1024 = p" using assms(1) by (simp only: mod_mult_self2 mod_less)
  then show "unat (pti_of (window p t)) = p" by (simp only: unat_pti u d)
  have "4290772992 + p * 4096 + t * 4 = 4 * (t + 1024 * (p + 1024 * 1023))" by simp
  then have "(4290772992 + p * 4096 + t * 4) div 4 = t + 1024 * (p + 1024 * 1023)"
    by (simp only: nonzero_mult_div_cancel_left)
  moreover have "(t + 1024 * (p + 1024 * 1023)) mod 1024 = t" using assms(2) by (simp only: mod_mult_self2 mod_less)
  ultimately show "unat (woff_of (window p t)) = t" by (simp only: unat_woff u)
qed

text \<open>Through the window the walk ends in the frame a directory entry points to.\<close>

lemma translate_window:
  assumes "recursive m" "p < 1024" "t < 1024" "present (pmem m (cr3 m) (of_nat p))"
  shows "translate m (window p t) = Some (frame_of (pmem m (cr3 m) (of_nat p)), of_nat t)"
proof -
  have "pti_of (window p t) = of_nat p" "woff_of (window p t) = of_nat t"
    using window_parts [OF assms(2,3)] assms(2,3) by (simp_all add: word_unat_eq_iff unat_of_nat)
  then show ?thesis using assms(1,4) window_parts(1) [OF assms(2,3)]
    by (simp add: translate_def recursive_def Let_def)
qed

lemma translate_directory:
  assumes "recursive m" "p < 1024"
  shows "translate m (window 1023 p) = Some (cr3 m, of_nat p)"
  using translate_window [OF assms(1), of 1023 p] assms by (simp add: recursive_def)

lemma translate_absent:
  assumes "recursive m" "p < 1024" "t < 1024" "\<not> present (pmem m (cr3 m) (of_nat p))"
  shows "translate m (window p t) = None"
proof -
  have "pti_of (window p t) = of_nat p"
    using window_parts [OF assms(2,3)] assms(2) by (simp add: word_unat_eq_iff unat_of_nat)
  then show ?thesis using assms(1,4) window_parts(1) [OF assms(2,3)]
    by (simp add: translate_def recursive_def Let_def)
qed

text \<open>The pointers of the source, for the entries of an address.\<close>

definition pd_ptr :: "u32 \<Rightarrow> u32" where
  "pd_ptr pdi = 0xFFFFF000 + pdi * 4"

definition pt_ptr :: "u32 \<Rightarrow> u32 \<Rightarrow> u32" where
  "pt_ptr pdi pti = 0xFFC00000 + (0x400 * pdi) * 4 + pti * 4"

lemma u32_indices:
  "drop_bit 22 v = of_nat (unat (pdi_of v))" "drop_bit 12 v AND 0x3FF = of_nat (unat (pti_of v))"
  for v :: u32
proof -
  have "unat (drop_bit 22 v) = unat (pdi_of v)"
    by (simp add: unat_pdi drop_bit_eq_div unat_div_distrib)
  from arg_cong [OF this, of "of_nat :: nat \<Rightarrow> u32"] show "drop_bit 22 v = of_nat (unat (pdi_of v))" by simp
  have "drop_bit 12 v AND 0x3FF = take_bit 10 (drop_bit 12 v)"
    by (simp add: take_bit_eq_mask mask_eq_exp_minus_1)
  then have "unat (drop_bit 12 v AND 0x3FF) = unat (pti_of v)"
    by (simp add: unat_take_bit_pow unat_pti drop_bit_eq_div unat_div_distrib)
  from arg_cong [OF this, of "of_nat :: nat \<Rightarrow> u32"]
  show "drop_bit 12 v AND 0x3FF = of_nat (unat (pti_of v))" by simp
qed

lemma unat_idx [simp]: "unat (i :: idx) < 1024"
  using unsigned_less [of i, where ?'a = nat] by simp

lemma pd_ptr_window: "pd_ptr (drop_bit 22 v) = window 1023 (unat (pdi_of v))"
  by (simp add: pd_ptr_def window_def u32_indices)

lemma pt_ptr_window:
  "pt_ptr (drop_bit 22 v) (drop_bit 12 v AND 0x3FF) = window (unat (pdi_of v)) (unat (pti_of v))"
  unfolding u32_indices by (simp add: pt_ptr_def window_def)

text \<open>What the source's accesses through these pointers read and write.\<close>

lemma rd32_pd:
  assumes "recursive m"
  shows "rd32 m (pd_ptr (drop_bit 22 v)) = Inr (pmem m (cr3 m) (pdi_of v))"
  using translate_directory [OF assms unat_idx [of "pdi_of v"]] by (simp add: rd32_def pd_ptr_window)

lemma wr32_pd:
  assumes "recursive m"
  shows "wr32 m (pd_ptr (drop_bit 22 v)) x =
    Inr (m\<lparr>pmem := (pmem m)(cr3 m := (pmem m (cr3 m))(pdi_of v := x))\<rparr>)"
  using translate_directory [OF assms unat_idx [of "pdi_of v"]] by (simp add: wr32_def pd_ptr_window)

text \<open>The frame of the table that maps an address.\<close>

definition table_of :: "machine \<Rightarrow> u32 \<Rightarrow> frame" where
  "table_of m v = frame_of (pmem m (cr3 m) (pdi_of v))"

lemma rd32_pt:
  assumes "recursive m" "present (pmem m (cr3 m) (pdi_of v))"
  shows "rd32 m (pt_ptr (drop_bit 22 v) (drop_bit 12 v AND 0x3FF)) = Inr (pmem m (table_of m v) (pti_of v))"
  using translate_window [OF assms(1) unat_idx [of "pdi_of v"] unat_idx [of "pti_of v"]] assms(2)
  by (simp add: rd32_def pt_ptr_window table_of_def)

lemma wr32_pt:
  assumes "recursive m" "present (pmem m (cr3 m) (pdi_of v))"
  shows "wr32 m (pt_ptr (drop_bit 22 v) (drop_bit 12 v AND 0x3FF)) x =
    Inr (m\<lparr>pmem := (pmem m)(table_of m v := (pmem m (table_of m v))(pti_of v := x))\<rparr>)"
  using translate_window [OF assms(1) unat_idx [of "pdi_of v"] unat_idx [of "pti_of v"]] assms(2)
  by (simp add: wr32_def pt_ptr_window table_of_def)

lemma rd32_pt_absent:
  assumes "recursive m" "\<not> present (pmem m (cr3 m) (pdi_of v))"
  shows "rd32 m (pt_ptr (drop_bit 22 v) (drop_bit 12 v AND 0x3FF)) =
    Inl (PageFault (pt_ptr (drop_bit 22 v) (drop_bit 12 v AND 0x3FF)))"
  using translate_absent [OF assms(1) unat_idx [of "pdi_of v"] unat_idx [of "pti_of v"]] assms(2)
  by (simp add: rd32_def pt_ptr_window)

end
