(* ===== verification/Vaddr.thy ===== *)
theory Vaddr
  imports Machine
begin

text \<open>
  The page table primitives of stage 3 (\<open>stage3/mem/vaddr.cpp\<close>, \<open>vaddr.h\<close>) and the
  \<open>PageTable\<close> class (\<open>stage3/mem/pagetable.cpp\<close>), on the machine's memory through
  the recursive mapping.
\<close>

section \<open>Model\<close>

definition PT_PAGE_MASK :: u32 where "PT_PAGE_MASK = 0xFFFFF000"
definition PT_FLAGS_MASK :: u32 where "PT_FLAGS_MASK = 0xFFF"
definition PT_INVALID_PAGE :: u32 where "PT_INVALID_PAGE = 0xFFFFFFFF"
definition PRESENT :: u32 where "PRESENT = 1"
definition RW :: u32 where "RW = 2"
definition RAM_PRESENT :: u32 where "RAM_PRESENT = 1536"

definition get_paddr :: "machine \<Rightarrow> u32 \<Rightarrow> u32 res" where
  "get_paddr m vaddr =
     (let pdi = drop_bit 22 vaddr; pti = drop_bit 12 vaddr AND 0x3FF in
      bindR (rd32 m (pd_ptr pdi)) (\<lambda>pde.
      if pde AND PRESENT = 0 then Inr PT_INVALID_PAGE
      else bindR (rd32 m (pt_ptr pdi pti)) (\<lambda>pte.
        if pte AND PRESENT = 0 then Inr PT_INVALID_PAGE
        else bindR (rd32 m (pt_ptr pdi pti)) (\<lambda>pte. Inr ((pte AND NOT 0xFFF) + (vaddr AND 0xFFF))))))"

definition pt_map :: "machine \<Rightarrow> u32 \<Rightarrow> u32 \<Rightarrow> u32 \<Rightarrow> (u32 \<times> machine) res" where
  "pt_map m paddr vaddr flags =
     (let pdi = drop_bit 22 vaddr; pti = drop_bit 12 vaddr AND 0x3FF in
      bindR (rd32 m (pd_ptr pdi)) (\<lambda>pde.
      if pde AND PRESENT = 0 then Inr (PT_INVALID_PAGE, m)
      else bindR (rd32 m (pt_ptr pdi pti)) (\<lambda>tmp.
        bindR (wr32 m (pt_ptr pdi pti) (paddr OR (flags AND PT_FLAGS_MASK) OR PRESENT)) (\<lambda>m.
        Inr (tmp, m)))))"

definition pd_map :: "machine \<Rightarrow> u32 \<Rightarrow> u32 \<Rightarrow> u32 \<Rightarrow> (u32 \<times> machine) res" where
  "pd_map m paddr vaddr flags =
     (let pdi = drop_bit 22 vaddr in
      bindR (rd32 m (pd_ptr pdi)) (\<lambda>old.
      bindR (wr32 m (pd_ptr pdi) (paddr OR (flags AND PT_FLAGS_MASK) OR PRESENT)) (\<lambda>m.
      Inr (old, m))))"

definition pt_unmap :: "machine \<Rightarrow> u32 \<Rightarrow> (u32 \<times> machine) res" where
  "pt_unmap m vaddr =
     (let pdi = drop_bit 22 vaddr; pti = drop_bit 12 vaddr AND 0x3FF in
      bindR (rd32 m (pd_ptr pdi)) (\<lambda>pde.
      if pde AND PRESENT \<noteq> 0 then
        bindR (rd32 m (pt_ptr pdi pti)) (\<lambda>pte.
        bindR (wr32 m (pt_ptr pdi pti) (pte AND NOT PRESENT)) (\<lambda>m.
        Inr (pte AND PT_PAGE_MASK, m)))
      else Inr (0, m)))"

definition get_flags :: "machine \<Rightarrow> u32 \<Rightarrow> u32 res" where
  "get_flags m vaddr =
     (let pdi = drop_bit 22 vaddr; pti = drop_bit 12 vaddr AND 0x3FF in
      bindR (rd32 m (pd_ptr pdi)) (\<lambda>pde.
      if pde AND PRESENT = 0 then Inr PT_INVALID_PAGE
      else bindR (rd32 m (pt_ptr pdi pti)) (\<lambda>pte. Inr (pte AND 0xE00))))"

definition vmark :: "machine \<Rightarrow> u32 \<Rightarrow> u32 \<Rightarrow> (u32 \<times> machine) res" where
  "vmark m vaddr flags =
     (let pdi = drop_bit 22 vaddr; pti = drop_bit 12 vaddr AND 0x3FF in
      bindR (rd32 m (pd_ptr pdi)) (\<lambda>pde.
      if pde AND PRESENT = 0 then Inr (PT_INVALID_PAGE, m)
      else bindR (rd32 m (pt_ptr pdi pti)) (\<lambda>paddr.
        bindR (wr32 m (pt_ptr pdi pti) ((paddr AND PT_PAGE_MASK) OR flags)) (\<lambda>m.
        Inr (paddr, m)))))"

text \<open>The class of \<open>pagetable.cpp\<close>: the directory's virtual and physical address.\<close>

record PageTable =
  ptb_vaddr :: u32
  ptb_paddr :: u32

definition PageTable_new :: "machine \<Rightarrow> u32 \<Rightarrow> PageTable res" where
  "PageTable_new m newPD = bindR (get_paddr m newPD) (\<lambda>p. Inr \<lparr>ptb_vaddr = newPD, ptb_paddr = p\<rparr>)"

definition PageTable_clear :: "machine \<Rightarrow> PageTable \<Rightarrow> machine res" where
  "PageTable_clear m pt =
     bindR (forR (\<lambda>i m. wr32 m (ptb_vaddr pt + of_nat i * 4) 2) [0..<1023] m) (\<lambda>m.
     wr32 m (ptb_vaddr pt + 1023 * 4) (3 OR ptb_paddr pt))"

definition PageTable_set :: "machine \<Rightarrow> PageTable \<Rightarrow> u32 \<Rightarrow> (u32 \<times> PageTable) res" where
  "PageTable_set m pt newPD =
     bindR (get_paddr m newPD) (\<lambda>p.
     Inr (ptb_vaddr pt, pt\<lparr>ptb_paddr := p, ptb_vaddr := newPD\<rparr>))"

text \<open>\<open>loadPageDirectory\<close> is the assembly routine that moves its argument to CR3.\<close>

definition PageTable_activate :: "machine \<Rightarrow> PageTable \<Rightarrow> (machine \<times> PageTable) res" where
  "PageTable_activate m pt =
     bindR (rd32 m (ptb_vaddr pt + 1023 * 4)) (\<lambda>e.
     Inr (m\<lparr>cr3 := frame_of (e AND 0xFFFFF000)\<rparr>, pt\<lparr>ptb_vaddr := 0xFFFFF000\<rparr>))"

definition PageTable_addPT :: "machine \<Rightarrow> PageTable \<Rightarrow> u16 \<Rightarrow> u32 \<Rightarrow> machine res" where
  "PageTable_addPT m pt i paddr = wr32 m (ptb_vaddr pt + ucast i * 4) (paddr OR 3)"

definition PageTable_remap :: "machine \<Rightarrow> PageTable \<Rightarrow> u32 \<Rightarrow> u32 \<Rightarrow> (bool \<times> PageTable \<times> machine) res" where
  "PageTable_remap m pt vptr flags =
     bindR (pt_map m (ptb_paddr pt) vptr flags) (\<lambda>(r, m).
     if r \<noteq> 0 then Inr (True, pt\<lparr>ptb_vaddr := vptr\<rparr>, m) else Inr (False, pt, m))"

section \<open>Changing one entry\<close>

definition same_page :: "u32 \<Rightarrow> u32 \<Rightarrow> bool" where
  "same_page v w \<longleftrightarrow> pdi_of v = pdi_of w \<and> pti_of v = pti_of w"

text \<open>
  Address spaces the code works on: the directory is mapped recursively, and every page
  table belongs to one directory entry (so no table is the directory).
\<close>

definition wf_tables :: "machine \<Rightarrow> bool" where
  "wf_tables m \<longleftrightarrow> recursive m \<and>
     (\<forall>p q. let d = pmem m (cr3 m) in
        present (d p) \<longrightarrow> \<not> big_page (d p) \<longrightarrow> present (d q) \<longrightarrow> \<not> big_page (d q) \<longrightarrow>
        frame_of (d p) = frame_of (d q) \<longrightarrow> p = q)"

definition has_table :: "machine \<Rightarrow> u32 \<Rightarrow> bool" where
  "has_table m v \<longleftrightarrow> pdi_of v \<noteq> 1023 \<and> present (pmem m (cr3 m) (pdi_of v)) \<and>
     \<not> big_page (pmem m (cr3 m) (pdi_of v))"

definition set_pte :: "machine \<Rightarrow> u32 \<Rightarrow> u32 \<Rightarrow> machine" where
  "set_pte m v e = m\<lparr>pmem := (pmem m)(table_of m v := (pmem m (table_of m v))(pti_of v := e))\<rparr>"

definition pte_of :: "machine \<Rightarrow> u32 \<Rightarrow> u32" where
  "pte_of m v = pmem m (table_of m v) (pti_of v)"

lemma wf_recursive: "wf_tables m \<Longrightarrow> recursive m"
  by (simp add: wf_tables_def)

lemma wf_tables_inj:
  assumes "wf_tables m" "present (pmem m (cr3 m) p)" "\<not> big_page (pmem m (cr3 m) p)"
    and "present (pmem m (cr3 m) q)" "\<not> big_page (pmem m (cr3 m) q)"
    and "frame_of (pmem m (cr3 m) p) = frame_of (pmem m (cr3 m) q)"
  shows "p = q"
  using assms by (simp add: wf_tables_def Let_def)

lemma table_not_directory:
  assumes "wf_tables m" "has_table m v"
  shows "table_of m v \<noteq> cr3 m"
proof
  assume "table_of m v = cr3 m"
  moreover have "recursive m" using assms(1) by (rule wf_recursive)
  ultimately have "pdi_of v = 1023"
    using assms by (intro wf_tables_inj [OF assms(1)]) (auto simp: recursive_def has_table_def table_of_def)
  then show False using assms(2) by (simp add: has_table_def)
qed

lemma set_pte_directory:
  assumes "wf_tables m" "has_table m v"
  shows "pmem (set_pte m v e) (cr3 m) = pmem m (cr3 m)" "cr3 (set_pte m v e) = cr3 m"
  using table_not_directory [OF assms] by (simp_all add: set_pte_def)

lemma set_pte_wf:
  assumes "wf_tables m" "has_table m v"
  shows "wf_tables (set_pte m v e)" "has_table (set_pte m v e) w = has_table m w"
    "table_of (set_pte m v e) w = table_of m w"
  using assms set_pte_directory [OF assms, of e]
  by (simp_all add: wf_tables_def has_table_def recursive_def table_of_def)

lemma set_pte_translate:
  assumes "wf_tables m" "has_table m v"
  shows "translate (set_pte m v e) w =
    (if same_page v w then if present e then Some (frame_of e, woff_of w) else None else translate m w)"
proof -
  note D = set_pte_directory [OF assms, of e]
  let ?d = "pmem m (cr3 m)"
  show ?thesis
  proof (cases "present (?d (pdi_of w)) \<and> \<not> big_page (?d (pdi_of w))")
    case False
    then have "\<not> same_page v w" using assms(2) by (auto simp: same_page_def has_table_def)
    then show ?thesis using False D by (auto simp: translate_def Let_def)
  next
    case True
    have "frame_of (?d (pdi_of w)) = table_of m v \<longleftrightarrow> pdi_of w = pdi_of v"
      using wf_tables_inj [OF assms(1), of "pdi_of w" "pdi_of v"] True assms(2)
      by (auto simp: has_table_def table_of_def)
    then show ?thesis using True D
      by (auto simp: translate_def Let_def same_page_def set_pte_def table_of_def)
  qed
qed

section \<open>The primitives\<close>

lemma present_PRESENT: "e AND PRESENT = 0 \<longleftrightarrow> \<not> present e"
  by (simp add: present_def PRESENT_def)

lemma pt_map_eq:
  assumes "recursive m"
  shows "pt_map m paddr v flags =
    (if present (pmem m (cr3 m) (pdi_of v))
     then Inr (pte_of m v, set_pte m v (paddr OR (flags AND PT_FLAGS_MASK) OR PRESENT))
     else Inr (PT_INVALID_PAGE, m))"
  using rd32_pd [OF assms] rd32_pt [OF assms] wr32_pt [OF assms]
  by (simp add: pt_map_def Let_def present_PRESENT pte_of_def set_pte_def)

lemma pt_unmap_eq:
  assumes "recursive m"
  shows "pt_unmap m v =
    (if present (pmem m (cr3 m) (pdi_of v))
     then Inr (pte_of m v AND PT_PAGE_MASK, set_pte m v (pte_of m v AND NOT PRESENT)) else Inr (0, m))"
  using rd32_pd [OF assms] rd32_pt [OF assms] wr32_pt [OF assms]
  by (simp add: pt_unmap_def Let_def present_PRESENT pte_of_def set_pte_def)

lemma vmark_eq:
  assumes "recursive m"
  shows "vmark m v flags =
    (if present (pmem m (cr3 m) (pdi_of v))
     then Inr (pte_of m v, set_pte m v ((pte_of m v AND PT_PAGE_MASK) OR flags))
     else Inr (PT_INVALID_PAGE, m))"
  using rd32_pd [OF assms] rd32_pt [OF assms] wr32_pt [OF assms]
  by (simp add: vmark_def Let_def present_PRESENT pte_of_def set_pte_def)

lemma get_paddr_eq:
  assumes "recursive m"
  shows "get_paddr m v =
    Inr (if present (pmem m (cr3 m) (pdi_of v)) \<and> present (pte_of m v)
         then (pte_of m v AND NOT 0xFFF) + (v AND 0xFFF) else PT_INVALID_PAGE)"
  using rd32_pd [OF assms] rd32_pt [OF assms]
  by (simp add: get_paddr_def Let_def present_PRESENT pte_of_def)

text \<open>Bits of an entry.\<close>

lemma entry_frame: "frame_of (paddr OR (flags AND PT_FLAGS_MASK) OR PRESENT) = frame_of paddr"
  unfolding frame_of_def PT_FLAGS_MASK_def PRESENT_def
  by (rule bit_word_eqI) (auto simp: bit_simps numeral_eq_Suc)

lemma present_bit: "present e \<longleftrightarrow> bit e 0"
  by (simp add: present_def bit_0 and_one_eq odd_iff_mod_2_eq_one)

lemma entry_present: "present (paddr OR (flags AND PT_FLAGS_MASK) OR PRESENT)"
  by (simp add: present_bit bit_simps PRESENT_def)

lemma page_mask_not: "PT_PAGE_MASK = NOT (mask 12)" "(0xFFF :: u32) = mask 12"
  by (simp_all add: PT_PAGE_MASK_def mask_eq_exp_minus_1)

lemma frame_addr_mask: "frame_addr (frame_of e) = e AND NOT (mask 12)"
proof (rule bit_word_eqI)
  fix n assume "n < LENGTH(32)"
  then show "bit (frame_addr (frame_of e)) n = bit (e AND NOT (mask 12)) n"
    by (cases "n < 12") (auto simp: frame_addr_def frame_of_def bit_simps)
qed

lemma page_mask_frame: "e AND PT_PAGE_MASK = frame_addr (frame_of e)"
  by (simp add: frame_addr_mask page_mask_not)

lemma not_mask_frame: "e AND NOT 0xFFF = frame_addr (frame_of e)"
  unfolding page_mask_not(2) frame_addr_mask ..

lemma clear_present: "\<not> present (e AND NOT PRESENT)" "frame_of (e AND NOT PRESENT) = frame_of e"
proof -
  show "\<not> present (e AND NOT PRESENT)" by (simp add: present_bit bit_simps PRESENT_def)
  show "frame_of (e AND NOT PRESENT) = frame_of e"
    unfolding frame_of_def PRESENT_def by (rule bit_word_eqI) (auto simp: bit_simps numeral_eq_Suc)
qed

text \<open>
  An address space: the directory in frame 1, the kernel's table in frame 2 with one page,
  and the first 4 MiB mapped by one entry.
\<close>

definition example_machine :: machine where
  "example_machine = \<lparr>cr3 = 1, pmem = (\<lambda>_ _. 0)
     (1 := (\<lambda>_. 0)(1023 := 0x1003, 768 := 0x2003, 0 := 0x8B),
      2 := (\<lambda>_. 0)(5 := 0x3003))\<rparr>"

lemma example_wf: "wf_tables example_machine"
  by (auto simp: wf_tables_def recursive_def example_machine_def present_def big_page_def frame_of_def Let_def)

lemma example_table: "has_table example_machine 0xC0005000" "pte_of example_machine 0xC0005000 = 0x3003"
  by (simp_all add: has_table_def pte_of_def table_of_def example_machine_def present_def big_page_def
      frame_of_def pdi_of_def pti_of_def)

text \<open>
  C19: \<open>pt_map\<close> of an address that has a page table returns the old entry and changes the
  translation of that one page: it then leads to the given frame. Every other translation
  and the well-formedness of the tables stay.
\<close>

theorem pt_map_installs:
  assumes "wf_tables m" "has_table m v"
  shows "\<exists>m'. pt_map m paddr v flags = Inr (pte_of m v, m') \<and> wf_tables m' \<and>
    (\<forall>w. translate m' w = (if same_page v w then Some (frame_of paddr, woff_of w) else translate m w))"
proof -
  let ?e = "paddr OR (flags AND PT_FLAGS_MASK) OR PRESENT"
  have "pt_map m paddr v flags = Inr (pte_of m v, set_pte m v ?e)"
    using pt_map_eq [OF wf_recursive [OF assms(1)]] assms(2) by (simp add: has_table_def)
  then show ?thesis
    using set_pte_wf(1) [OF assms] set_pte_translate [OF assms, of ?e] entry_present [of paddr flags]
      entry_frame [of paddr flags] by (intro exI [of _ "set_pte m v ?e"]) simp
qed

theorem pt_map_installs_witness:
  "\<exists>m'. pt_map example_machine 0x7000 0xC0005000 2 = Inr (0x3003, m') \<and>
     translate m' 0xC0005010 = Some (7, 4)"
proof -
  obtain m' where "pt_map example_machine 0x7000 0xC0005000 2 = Inr (0x3003, m')"
    "\<forall>w. translate m' w = (if same_page 0xC0005000 w then Some (frame_of 0x7000, woff_of w)
      else translate example_machine w)"
    using pt_map_installs [OF example_wf example_table(1), of "0x7000" 2] example_table(2) by auto
  then show ?thesis by (simp add: same_page_def pdi_of_def pti_of_def woff_of_def frame_of_def)
qed

text \<open>
  Unmapping returns the address of the page that was mapped and takes away exactly that
  page's translation.
\<close>

theorem pt_unmap_removes:
  assumes "wf_tables m" "has_table m v" "translate m v = Some (f, i)"
  shows "\<exists>m'. pt_unmap m v = Inr (frame_addr f, m') \<and> wf_tables m' \<and>
    (\<forall>w. translate m' w = (if same_page v w then None else translate m w))"
proof -
  let ?e = "pte_of m v AND NOT PRESENT"
  have "frame_of (pte_of m v) = f"
    using assms(2,3) by (auto simp: translate_def Let_def has_table_def pte_of_def table_of_def split: if_splits)
  then have "pt_unmap m v = Inr (frame_addr f, set_pte m v ?e)"
    using pt_unmap_eq [OF wf_recursive [OF assms(1)]] assms(2) by (simp add: has_table_def page_mask_frame)
  then show ?thesis
    using set_pte_wf(1) [OF assms(1,2)] set_pte_translate [OF assms(1,2), of ?e] clear_present
    by (intro exI [of _ "set_pte m v ?e"]) simp
qed

theorem pt_unmap_removes_witness:
  "\<exists>m'. pt_unmap example_machine 0xC0005000 = Inr (0x3000, m') \<and> translate m' 0xC0005000 = None"
proof -
  have "translate example_machine 0xC0005000 = Some (3, 0)"
    by (simp add: translate_def example_machine_def present_def big_page_def frame_of_def pdi_of_def
        pti_of_def woff_of_def Let_def)
  from pt_unmap_removes [OF example_wf example_table(1) this] show ?thesis
    by (auto simp: same_page_def frame_addr_def)
qed

text \<open>
  C34: for an address below no 4 MiB page, \<open>get_paddr\<close> is the page walk: the physical address
  the processor would use, or the invalid page where it would fault.
\<close>

theorem get_paddr_is_walk:
  assumes "wf_tables m" "\<not> big_page (pmem m (cr3 m) (pdi_of v))"
  shows "get_paddr m v = Inr (case translate m v of None \<Rightarrow> PT_INVALID_PAGE
    | Some (f, i) \<Rightarrow> frame_addr f + (v AND 0xFFF))"
  using get_paddr_eq [OF wf_recursive [OF assms(1)], of v, unfolded not_mask_frame] assms(2)
  by (simp add: translate_def Let_def pte_of_def table_of_def)

theorem get_paddr_is_walk_witness: "get_paddr example_machine 0xC0005123 = Inr 0x3123"
proof -
  have "translate example_machine 0xC0005123 = Some (3, 0x48)"
    by (simp add: translate_def example_machine_def present_def big_page_def frame_of_def pdi_of_def
        pti_of_def woff_of_def Let_def)
  moreover have "\<not> big_page (pmem example_machine (cr3 example_machine) (pdi_of 0xC0005123))"
    by (simp add: example_machine_def big_page_def pdi_of_def)
  ultimately show ?thesis
    using get_paddr_is_walk [OF example_wf, of "0xC0005123"] by (simp add: frame_addr_def)
qed

text \<open>
  For an address in a 4 MiB page, such as stage 2's identity mapping of the first 4 MiB,
  \<open>get_paddr\<close> takes a word of the mapped memory itself for a page table entry.
\<close>

theorem get_paddr_big_page:
  assumes "wf_tables m" "present (pmem m (cr3 m) (pdi_of v))" "big_page (pmem m (cr3 m) (pdi_of v))"
  defines "e \<equiv> pmem m (frame_of (pmem m (cr3 m) (pdi_of v))) (pti_of v)"
  shows "get_paddr m v = Inr (if present e then frame_addr (frame_of e) + (v AND 0xFFF) else PT_INVALID_PAGE)"
  using get_paddr_eq [OF wf_recursive [OF assms(1)], of v, unfolded not_mask_frame] assms(2)
  by (simp add: pte_of_def table_of_def e_def)

theorem get_paddr_big_page_witness:
  "get_paddr example_machine 0x00001234 = Inr PT_INVALID_PAGE \<and>
   translate example_machine 0x00001234 = Some (1, 0x8D)"
proof -
  have "translate example_machine 0x00001234 = Some (1, 0x8D)"
    by (simp add: translate_def example_machine_def present_def big_page_def frame_of_def pdi_of_def
        woff_of_def Let_def)
  moreover have "get_paddr example_machine 0x00001234 = Inr PT_INVALID_PAGE"
    using get_paddr_big_page [OF example_wf, of "0x00001234"]
    by (simp add: example_machine_def present_def big_page_def frame_of_def pdi_of_def pti_of_def)
  ultimately show ?thesis by simp
qed

text \<open>
  \<open>remap\<close> takes the old entry for a success flag: into an empty slot it maps the directory
  and reports failure, and without a page table it maps nothing and reports success.
\<close>

theorem PageTable_remap_inverted:
  assumes "wf_tables m"
  shows "(has_table m v \<longrightarrow> pte_of m v = 0 \<longrightarrow>
      (\<exists>m'. PageTable_remap m pt v flags = Inr (False, pt, m') \<and>
        translate m' v = Some (frame_of (ptb_paddr pt), woff_of v))) \<and>
    (\<not> present (pmem m (cr3 m) (pdi_of v)) \<longrightarrow>
      PageTable_remap m pt v flags = Inr (True, pt\<lparr>ptb_vaddr := v\<rparr>, m) \<and> translate m v = None)"
proof (intro conjI impI)
  assume "has_table m v" "pte_of m v = 0"
  then show "\<exists>m'. PageTable_remap m pt v flags = Inr (False, pt, m') \<and>
      translate m' v = Some (frame_of (ptb_paddr pt), woff_of v)"
    using pt_map_installs [OF assms(1), of v "ptb_paddr pt" flags]
    by (auto simp: PageTable_remap_def same_page_def)
next
  assume "\<not> present (pmem m (cr3 m) (pdi_of v))"
  then show "PageTable_remap m pt v flags = Inr (True, pt\<lparr>ptb_vaddr := v\<rparr>, m)" "translate m v = None"
    using pt_map_eq [OF wf_recursive [OF assms(1)]]
    by (simp_all add: PageTable_remap_def PT_INVALID_PAGE_def translate_def Let_def)
qed

theorem PageTable_remap_inverted_witness:
  "PageTable_remap example_machine \<lparr>ptb_vaddr = 0, ptb_paddr = 0x1000\<rparr> 0xD0000000 2 =
     Inr (True, \<lparr>ptb_vaddr = 0xD0000000, ptb_paddr = 0x1000\<rparr>, example_machine)"
  using PageTable_remap_inverted [OF example_wf, of "0xD0000000" "\<lparr>ptb_vaddr = 0, ptb_paddr = 0x1000\<rparr>" 2]
  by (simp add: example_machine_def present_def pdi_of_def)

end
