(* ===== verification/Translation_Cache.thy ===== *)
theory Translation_Cache
  imports Vaddr
begin

text \<open>
  The page table primitives of \<open>stage3/mem/vaddr.cpp\<close> on a processor that keeps
  translations: every access goes through the cache, and entries stay until \<open>invlpg\<close> or a
  load of CR3 removes them. As long as the kernel changes the address space with these
  primitives the cache never holds a stale translation, whatever the processor keeps or
  drops in between, and the primitives do what \<open>Vaddr\<close> says they do without a cache.
\<close>

section \<open>Model\<close>

type_synonym tlb = "idx \<times> idx \<Rightarrow> frame option"

definition page_of :: "u32 \<Rightarrow> idx \<times> idx" where
  "page_of v = (pdi_of v, pti_of v)"

text \<open>A translation as the processor finds it: in the cache, or by walking the tables.\<close>

definition lookup_page :: "tlb \<Rightarrow> machine \<Rightarrow> u32 \<Rightarrow> (frame \<times> idx) option" where
  "lookup_page t m v = (case t (page_of v) of Some f \<Rightarrow> Some (f, woff_of v) | None \<Rightarrow> translate m v)"

definition load32 :: "tlb \<Rightarrow> machine \<Rightarrow> u32 \<Rightarrow> u32 res" where
  "load32 t m v = (case lookup_page t m v of None \<Rightarrow> Inl (PageFault v) | Some (f, i) \<Rightarrow> Inr (pmem m f i))"

definition store32 :: "tlb \<Rightarrow> machine \<Rightarrow> u32 \<Rightarrow> u32 \<Rightarrow> machine res" where
  "store32 t m v x = (case lookup_page t m v of None \<Rightarrow> Inl (PageFault v)
     | Some (f, i) \<Rightarrow> Inr (m\<lparr>pmem := (pmem m)(f := (pmem m f)(i := x))\<rparr>))"

definition invlpg :: "tlb \<Rightarrow> u32 \<Rightarrow> tlb" where
  "invlpg t v = t(page_of v := None)"

definition pt_map_cached :: "tlb \<Rightarrow> machine \<Rightarrow> u32 \<Rightarrow> u32 \<Rightarrow> u32 \<Rightarrow> (u32 \<times> machine \<times> tlb) res" where
  "pt_map_cached t m paddr vaddr flags =
     (let pdi = drop_bit 22 vaddr; pti = drop_bit 12 vaddr AND 0x3FF; vaddr = vaddr AND 0xFFFFF000 in
      bindR (load32 t m (pd_ptr pdi)) (\<lambda>pde.
      if pde AND PRESENT = 0 then Inr (PT_INVALID_PAGE, m, t)
      else bindR (load32 t m (pt_ptr pdi pti)) (\<lambda>tmp.
        bindR (store32 t m (pt_ptr pdi pti) (paddr OR (flags AND PT_FLAGS_MASK) OR PRESENT)) (\<lambda>m.
        Inr (tmp, m, invlpg t vaddr)))))"

definition pd_map_cached :: "tlb \<Rightarrow> machine \<Rightarrow> u32 \<Rightarrow> u32 \<Rightarrow> u32 \<Rightarrow> (u32 \<times> machine \<times> tlb) res" where
  "pd_map_cached t m paddr vaddr flags =
     (let pdi = drop_bit 22 vaddr in
      bindR (load32 t m (pd_ptr pdi)) (\<lambda>old.
      bindR (store32 t m (pd_ptr pdi) (paddr OR (flags AND PT_FLAGS_MASK) OR PRESENT)) (\<lambda>m.
      Inr (old, m, invlpg t (pd_ptr pdi)))))"

definition pt_unmap_cached :: "tlb \<Rightarrow> machine \<Rightarrow> u32 \<Rightarrow> (u32 \<times> machine \<times> tlb) res" where
  "pt_unmap_cached t m vaddr =
     (let pdi = drop_bit 22 vaddr; pti = drop_bit 12 vaddr AND 0x3FF in
      bindR (load32 t m (pd_ptr pdi)) (\<lambda>pde.
      if pde AND PRESENT \<noteq> 0 then
        bindR (load32 t m (pt_ptr pdi pti)) (\<lambda>pte.
        bindR (store32 t m (pt_ptr pdi pti) (pte AND NOT PRESENT)) (\<lambda>m.
        Inr (pte AND PT_PAGE_MASK, m, invlpg t vaddr)))
      else Inr (0, m, t)))"

definition vmark_cached :: "tlb \<Rightarrow> machine \<Rightarrow> u32 \<Rightarrow> u32 \<Rightarrow> (u32 \<times> machine \<times> tlb) res" where
  "vmark_cached t m vaddr flags =
     (let pdi = drop_bit 22 vaddr; pti = drop_bit 12 vaddr AND 0x3FF in
      bindR (load32 t m (pd_ptr pdi)) (\<lambda>pde.
      if pde AND PRESENT = 0 then Inr (PT_INVALID_PAGE, m, t)
      else bindR (load32 t m (pt_ptr pdi pti)) (\<lambda>paddr.
        bindR (store32 t m (pt_ptr pdi pti) ((paddr AND PT_PAGE_MASK) OR flags)) (\<lambda>m.
        Inr (paddr, m, invlpg t vaddr)))))"

text \<open>Loading CR3 empties the cache: no page of the program is a global one.\<close>

definition activate_cached :: "tlb \<Rightarrow> machine \<Rightarrow> PageTable \<Rightarrow> (machine \<times> tlb \<times> PageTable) res" where
  "activate_cached t m pt =
     bindR (load32 t m (ptb_vaddr pt + 1023 * 4)) (\<lambda>e.
     Inr (m\<lparr>cr3 := frame_of (e AND 0xFFFFF000)\<rparr>, \<lambda>_. None, pt\<lparr>ptb_vaddr := 0xFFFFF000\<rparr>))"

section \<open>Coherence\<close>

definition coherent :: "tlb \<Rightarrow> machine \<Rightarrow> bool" where
  "coherent t m \<longleftrightarrow> (\<forall>v f. t (page_of v) = Some f \<longrightarrow> translate m v = Some (f, woff_of v))"

lemma same_page_of: "same_page v w \<longleftrightarrow> page_of v = page_of w"
  by (simp add: same_page_def page_of_def)

lemma lookup_coherent: "coherent t m \<Longrightarrow> lookup_page t m v = translate m v"
  by (auto simp: lookup_page_def coherent_def split: option.splits)

lemma access_coherent:
  assumes "coherent t m"
  shows "load32 t m v = rd32 m v" "store32 t m v x = wr32 m v x"
  by (simp_all add: load32_def store32_def rd32_def wr32_def lookup_coherent [OF assms])

text \<open>With a coherent cache the primitives are those of \<open>Vaddr\<close>, and invalidate the page they change.\<close>

definition with_tlb :: "tlb \<Rightarrow> ('a \<times> machine) res \<Rightarrow> ('a \<times> machine \<times> tlb) res" where
  "with_tlb t r = bindR r (\<lambda>(a, m). Inr (a, m, t))"

lemma page_of_mask: "page_of (v AND 0xFFFFF000) = page_of v"
proof -
  have m: "(0xFFFFF000 :: u32) = NOT (mask 12)" by (simp add: mask_eq_exp_minus_1)
  have "frame_of (v AND 0xFFFFF000) = frame_of v"
    unfolding m frame_of_def by (rule bit_word_eqI) (auto simp: bit_simps)
  then have d: "unat (v AND 0xFFFFF000) div 4096 = unat v div 4096" by (metis unat_frame_of)
  then have "unat (v AND 0xFFFFF000) div 4096 div 1024 = unat v div 4096 div 1024" by (rule arg_cong)
  then have "unat (v AND 0xFFFFF000) div 4194304 = unat v div 4194304" unfolding div_mult2_eq [symmetric] by simp
  then show ?thesis using d by (simp add: page_of_def word_unat_eq_iff unat_pdi unat_pti)
qed

lemma cached_eq:
  assumes "coherent t m" "recursive m" "present (pmem m (cr3 m) (pdi_of v))"
  shows "pt_map_cached t m paddr v flags = with_tlb (invlpg t v) (pt_map m paddr v flags)"
    "pt_unmap_cached t m v = with_tlb (invlpg t v) (pt_unmap m v)"
    "vmark_cached t m v flags = with_tlb (invlpg t v) (vmark m v flags)"
proof -
  note A = access_coherent [OF assms(1)] rd32_pd [OF assms(2)] rd32_pt [OF assms(2,3)] wr32_pt [OF assms(2,3)]
  have i: "invlpg t (v AND 0xFFFFF000) = invlpg t v" by (simp add: invlpg_def page_of_mask)
  show "pt_map_cached t m paddr v flags = with_tlb (invlpg t v) (pt_map m paddr v flags)"
    using assms(3) by (simp add: pt_map_cached_def pt_map_def with_tlb_def Let_def A i present_PRESENT)
  show "pt_unmap_cached t m v = with_tlb (invlpg t v) (pt_unmap m v)"
    using assms(3) by (simp add: pt_unmap_cached_def pt_unmap_def with_tlb_def Let_def A present_PRESENT)
  show "vmark_cached t m v flags = with_tlb (invlpg t v) (vmark m v flags)"
    using assms(3) by (simp add: vmark_cached_def vmark_def with_tlb_def Let_def A present_PRESENT)
qed

lemma coherent_set_pte:
  assumes "coherent t m" "wf_tables m" "has_table m v"
  shows "coherent (invlpg t v) (set_pte m v e)"
  using assms(1) set_pte_translate [OF assms(2,3), of e]
  by (auto simp: coherent_def invlpg_def same_page_of)

section \<open>Any sequence of operations\<close>

text \<open>The operations on memory alone.\<close>

inductive space_step :: "machine \<Rightarrow> machine \<Rightarrow> bool" where
  map: "has_table m v \<Longrightarrow> pt_map m paddr v flags = Inr (r, m') \<Longrightarrow> space_step m m'"
| unmap: "has_table m v \<Longrightarrow> pt_unmap m v = Inr (r, m') \<Longrightarrow> space_step m m'"
| mark: "has_table m v \<Longrightarrow> vmark m v flags = Inr (r, m') \<Longrightarrow> space_step m m'"
| activate: "PageTable_activate m pt = Inr (m', pt') \<Longrightarrow> wf_tables m' \<Longrightarrow> space_step m m'"

text \<open>
  The same operations with the cache; between them the processor may keep any translation
  that the tables give at that moment, and drop any.
\<close>

inductive cached_step :: "tlb \<times> machine \<Rightarrow> tlb \<times> machine \<Rightarrow> bool" where
  keep: "translate m v = Some (f, i) \<Longrightarrow> cached_step (t, m) (t(page_of v \<mapsto> f), m)"
| drop: "cached_step (t, m) (t(p := None), m)"
| map: "has_table m v \<Longrightarrow> pt_map_cached t m paddr v flags = Inr (r, m', t') \<Longrightarrow> cached_step (t, m) (t', m')"
| unmap: "has_table m v \<Longrightarrow> pt_unmap_cached t m v = Inr (r, m', t') \<Longrightarrow> cached_step (t, m) (t', m')"
| mark: "has_table m v \<Longrightarrow> vmark_cached t m v flags = Inr (r, m', t') \<Longrightarrow> cached_step (t, m) (t', m')"
| activate: "activate_cached t m pt = Inr (m', t', pt') \<Longrightarrow> wf_tables m' \<Longrightarrow> cached_step (t, m) (t', m')"

lemma with_tlb_Inr: "with_tlb t r = Inr (a, m', t') \<longleftrightarrow> r = Inr (a, m') \<and> t' = t"
  by (cases r) (auto simp: with_tlb_def)

text \<open>What the three primitives have in common: they set one entry.\<close>

lemma sets_entry:
  assumes "wf_tables m" "has_table m v"
    and "pt_map m paddr v flags = Inr (r, m') \<or> pt_unmap m v = Inr (r, m') \<or> vmark m v flags = Inr (r, m')"
  obtains e where "m' = set_pte m v e"
proof -
  have p: "present (pmem m (cr3 m) (pdi_of v))" using assms(2) by (simp add: has_table_def)
  note E = pt_map_eq [OF wf_recursive [OF assms(1)], of paddr v flags] pt_unmap_eq [OF wf_recursive [OF assms(1)], of v]
    vmark_eq [OF wf_recursive [OF assms(1)], of v flags]
  from assms(3) show thesis unfolding E using p by (auto intro: that)
qed

lemma translate_page: "page_of v = page_of w \<Longrightarrow> translate m v = Some (f, i) \<Longrightarrow> translate m w = Some (f, woff_of w)"
proof -
  assume p: "page_of v = page_of w" and v: "translate m v = Some (f, i)"
  have "v AND 0x003FF000 = w AND 0x003FF000"
  proof -
    have e: "x AND 0x003FF000 = of_nat (unat (pti_of x)) * 4096" for x :: u32
    proof -
      have m: "(0x003FF000 :: u32) = push_bit 12 (mask 10)" "(0x3FF :: u32) = mask 10"
        by (simp_all add: mask_eq_exp_minus_1 push_bit_eq_mult)
      have "x AND 0x003FF000 = push_bit 12 (drop_bit 12 x AND 0x3FF)"
        unfolding m by (rule bit_word_eqI) (auto simp: bit_simps)
      then show ?thesis by (simp add: u32_indices(2) push_bit_eq_mult)
    qed
    show ?thesis unfolding e using p by (simp add: page_of_def)
  qed
  then show ?thesis using p v by (auto simp: translate_def Let_def page_of_def split: if_splits)
qed

lemma cached_step_sound:
  assumes "cached_step (t, m) (t', m')" "wf_tables m" "coherent t m"
  shows "wf_tables m' \<and> coherent t' m' \<and> space_step\<^sup>*\<^sup>* m m'"
  using assms
proof (cases rule: cached_step.cases)
  case (keep v f i)
  then have "coherent t' m'" using assms(3) translate_page [of v _ m f i] by (auto simp: coherent_def)
  then show ?thesis using keep assms(2) by simp
next
  case (drop p)
  then show ?thesis using assms(2,3) by (simp add: coherent_def)
next
  case (map v paddr flags r)
  note C = cached_eq(1) [OF assms(3) wf_recursive [OF assms(2)]]
  from map have m: "pt_map m paddr v flags = Inr (r, m')" "t' = invlpg t v" using C by (simp_all add: has_table_def with_tlb_Inr)
  obtain e where "m' = set_pte m v e" using sets_entry [OF assms(2) map(1)] m(1) by blast
  then show ?thesis using coherent_set_pte [OF assms(3,2) map(1)] set_pte_wf(1) [OF assms(2) map(1)] m space_step.map [OF map(1) m(1)]
    by auto
next
  case (unmap v r)
  note C = cached_eq(2) [OF assms(3) wf_recursive [OF assms(2)]]
  from unmap have m: "pt_unmap m v = Inr (r, m')" "t' = invlpg t v" using C by (simp_all add: has_table_def with_tlb_Inr)
  obtain e where "m' = set_pte m v e" using sets_entry [OF assms(2) unmap(1)] m(1) by blast
  then show ?thesis using coherent_set_pte [OF assms(3,2) unmap(1)] set_pte_wf(1) [OF assms(2) unmap(1)] m space_step.unmap [OF unmap(1) m(1)]
    by auto
next
  case (mark v flags r)
  note C = cached_eq(3) [OF assms(3) wf_recursive [OF assms(2)]]
  from mark have m: "vmark m v flags = Inr (r, m')" "t' = invlpg t v" using C by (simp_all add: has_table_def with_tlb_Inr)
  obtain e where "m' = set_pte m v e" using sets_entry [OF assms(2) mark(1)] m(1) by blast
  then show ?thesis using coherent_set_pte [OF assms(3,2) mark(1)] set_pte_wf(1) [OF assms(2) mark(1)] m space_step.mark [OF mark(1) m(1)]
    by auto
next
  case (activate pt pt')
  then have "PageTable_activate m pt = Inr (m', pt')" "t' = (\<lambda>_. None)"
    by (auto simp: activate_cached_def PageTable_activate_def access_coherent(1) [OF assms(3)] elim!: bindR_InrE)
  then show ?thesis using activate(2) space_step.activate by (auto simp: coherent_def)
qed



section \<open>A new page table over an old one\<close>

text \<open>
  \<open>pd_map\<close> changes 1024 translations at once but invalidates one page, that of the directory
  entry itself: a page of the old table that is in the cache stays there.
\<close>

lemma pd_map_stale:
  assumes "wf_tables m" "coherent t m" "has_table m v" "t (page_of v) = Some f"
    and "frame_of paddr \<noteq> cr3 m" "\<not> present (pmem m (frame_of paddr) (pti_of v))" "\<not> big_page (paddr OR (flags AND PT_FLAGS_MASK) OR PRESENT)"
  shows "\<exists>m' t'. pd_map_cached t m paddr v flags = Inr (pmem m (cr3 m) (pdi_of v), m', t') \<and>
    translate m' v = None \<and> lookup_page t' m' v = Some (f, woff_of v)"
proof -
  let ?e = "paddr OR (flags AND PT_FLAGS_MASK) OR PRESENT"
  define m' where "m' = m\<lparr>pmem := (pmem m)(cr3 m := (pmem m (cr3 m))(pdi_of v := ?e))\<rparr>"
  note R = wf_recursive [OF assms(1)]
  have "pdi_of (pd_ptr (drop_bit 22 v)) = 1023" unfolding pd_ptr_window by (rule window_parts(1)) simp_all
  then have n: "page_of (pd_ptr (drop_bit 22 v)) \<noteq> page_of v" using assms(3) by (simp add: page_of_def has_table_def)
  have "pd_map_cached t m paddr v flags = Inr (pmem m (cr3 m) (pdi_of v), m', invlpg t (pd_ptr (drop_bit 22 v)))"
    by (simp add: pd_map_cached_def Let_def access_coherent [OF assms(2)] rd32_pd [OF R] wr32_pd [OF R] m'_def)
  moreover have "translate m' v = None"
    using assms(5-7) entry_present [of paddr flags] entry_frame [of paddr flags] by (simp add: translate_def Let_def m'_def)
  moreover have "lookup_page (invlpg t (pd_ptr (drop_bit 22 v))) m' v = Some (f, woff_of v)"
    using assms(4) n by (simp add: lookup_page_def invlpg_def)
  ultimately show ?thesis by blast
qed

end
