(* ===== verification/E820.thy ===== *)
theory E820
  imports Boot_Prelude
begin

text \<open>
  The clean-up of the BIOS memory map in stage 2 (\<open>stage2/e820.c\<close>, \<open>e820.h\<close>, with
  \<open>min\<close> and \<open>max\<close> of \<open>stage2/util.c\<close>). \<open>validate\<close> packs the 24-byte entries into
  12-byte entries in the same memory, so \<open>compressE820\<close> is modelled on the 32-bit
  words of that memory; the later passes work on the array of packed entries.
\<close>

section \<open>Model\<close>

record SMAP_entry =
  sm_base :: u64
  sm_length :: u64
  sm_type :: u32
  sm_acpi :: u32

record SMAP32 =
  sm32_base :: u32
  sm32_length :: u32
  sm32_type :: u16
  sm32_acpi :: u16

definition max_u32 :: "u32 \<Rightarrow> u32 \<Rightarrow> u32" where
  "max_u32 a b = (if a > b then a else b)"

definition min_u32 :: "u32 \<Rightarrow> u32 \<Rightarrow> u32" where
  "min_u32 a b = (if a < b then a else b)"

text \<open>The little-endian layout of both structures in 32-bit words.\<close>

definition entry_words :: "SMAP_entry \<Rightarrow> u32 list" where
  "entry_words e =
     [ucast (sm_base e), ucast (drop_bit 32 (sm_base e)),
      ucast (sm_length e), ucast (drop_bit 32 (sm_length e)), sm_type e, sm_acpi e]"

definition words_entry :: "u32 list \<Rightarrow> SMAP_entry" where
  "words_entry w =
     \<lparr>sm_base = push_bit 32 (ucast (w ! 1)) OR ucast (w ! 0),
      sm_length = push_bit 32 (ucast (w ! 3)) OR ucast (w ! 2),
      sm_type = w ! 4, sm_acpi = w ! 5\<rparr>"

definition entry32_words :: "SMAP32 \<Rightarrow> u32 list" where
  "entry32_words e =
     [sm32_base e, sm32_length e, push_bit 16 (ucast (sm32_acpi e)) OR ucast (sm32_type e)]"

definition words_entry32 :: "u32 list \<Rightarrow> SMAP32" where
  "words_entry32 w =
     \<lparr>sm32_base = w ! 0, sm32_length = w ! 1,
      sm32_type = ucast (w ! 2), sm32_acpi = ucast (drop_bit 16 (w ! 2))\<rparr>"

definition get_in :: "u32 list \<Rightarrow> nat \<Rightarrow> SMAP_entry res" where
  "get_in m i = (if 6 * i + 6 \<le> length m then Inr (words_entry (take 6 (drop (6 * i) m))) else Inl OutOfBounds)"

definition set_out :: "u32 list \<Rightarrow> nat \<Rightarrow> SMAP32 \<Rightarrow> u32 list res" where
  "set_out m j e =
     (if 3 * j + 3 \<le> length m then Inr (take (3 * j) m @ entry32_words e @ drop (3 * j + 3) m) else Inl OutOfBounds)"

definition compress_entry :: "SMAP_entry \<Rightarrow> SMAP32" where
  "compress_entry e =
     (let base = ucast (sm_base e) :: u32 in
      \<lparr>sm32_base = base,
       sm32_length = (if sm_base e + sm_length e > 0xFFFFFFFF then (0xFFFFFFFF - base) + 1
                      else ucast (sm_length e)),
       sm32_type = ucast (sm_type e AND 0xFFFF), sm32_acpi = ucast (sm_acpi e AND 0xFFFF)\<rparr>)"

definition compress_step :: "nat \<Rightarrow> u32 list \<times> nat \<Rightarrow> (u32 list \<times> nat) res" where
  "compress_step i = (\<lambda>(m, j).
     bindR (get_in m i) (\<lambda>e.
     if sm_base e < 0xFFFFFFFF
     then bindR (set_out m j (compress_entry e)) (\<lambda>m. Inr (m, j + 1))
     else Inr (m, j)))"

definition compressE820 :: "u32 list \<Rightarrow> u16 \<Rightarrow> (u32 list \<times> nat) res" where
  "compressE820 m n = forR compress_step [0..<unat n] (m, 0)"

definition compE820 :: "SMAP32 \<Rightarrow> SMAP32 \<Rightarrow> bool" where
  "compE820 a b \<longleftrightarrow> sm32_base a < sm32_base b \<or> sm32_type a < sm32_type b"

text \<open>
  The insertion loop. \<open>j\<close> is a \<open>uint16_t\<close>, so its guard \<open>j >= 0\<close> always holds and
  \<open>j--\<close> takes 0 to 65535; the indices \<open>j\<close> and \<open>j + 1\<close> are computed as \<open>int\<close>.
\<close>

definition sort_guard :: "SMAP32 \<Rightarrow> u16 \<times> SMAP32 list \<Rightarrow> bool res" where
  "sort_guard current = (\<lambda>(j, e820). bindR (getR e820 (unat j)) (\<lambda>e. Inr (compE820 current e)))"

definition sort_body :: "u16 \<times> SMAP32 list \<Rightarrow> (u16 \<times> SMAP32 list) res" where
  "sort_body = (\<lambda>(j, e820).
     bindR (getR e820 (unat j)) (\<lambda>e.
     bindR (setR e820 (unat j + 1) e) (\<lambda>e820. Inr (j - 1, e820))))"

definition sort_insert :: "nat \<Rightarrow> SMAP32 list \<Rightarrow> SMAP32 list res" where
  "sort_insert i e820 =
     bindR (getR e820 i) (\<lambda>current.
     bindR (whileR 65537 (sort_guard current) sort_body (of_nat (i - 1), e820)) (\<lambda>(j, e820).
     setR e820 (unat j + 1) current))"

definition sortE820 :: "SMAP32 list \<Rightarrow> nat \<Rightarrow> SMAP32 list res" where
  "sortE820 e820 len = forR sort_insert [1..<len] e820"

text \<open>\<open>e820\<close> starts at index \<open>off\<close> of the array; the state is \<open>i\<close>, \<open>len\<close> and the array.\<close>

definition merge_body :: "nat \<Rightarrow> nat \<times> nat \<times> SMAP32 list \<Rightarrow> (nat \<times> nat \<times> SMAP32 list) res" where
  "merge_body off = (\<lambda>(i, len, e820).
     bindR (getR e820 (off + i - 1)) (\<lambda>p.
     bindR (getR e820 (off + i)) (\<lambda>c.
     if sm32_base p + sm32_length p > sm32_base c then
       bindR (setR e820 (off + i - 1)
         (p\<lparr>sm32_length := max_u32 (sm32_length p) (sm32_base c + sm32_length c)\<rparr>)) (\<lambda>e820.
       bindR (forR (\<lambda>j e820. bindR (getR e820 (off + j)) (\<lambda>e. setR e820 (off + j - 1) e))
         [i + 1..<len] e820) (\<lambda>e820.
       Inr (i + 1, len - 1, e820)))
     else Inr (i + 1, len, e820))))"

definition mergeE820 :: "nat \<Rightarrow> nat \<Rightarrow> SMAP32 list \<Rightarrow> SMAP32 list res" where
  "mergeE820 off len e820 =
     bindR (whileR (len + 1) (\<lambda>(i, len, e820). Inr (i < len)) (merge_body off) (1, len, e820))
       (\<lambda>(i, len, e820). Inr e820)"

definition count_type :: "SMAP32 list \<Rightarrow> nat \<Rightarrow> nat list \<Rightarrow> nat list res" where
  "count_type e820 i typelengths =
     bindR (getR e820 i) (\<lambda>e.
     if sm32_type e = 0 then Inl OutOfBounds
     else let k = unat (sm32_type e) - 1 in
       bindR (getR typelengths k) (\<lambda>c. setR typelengths k ((c + 1) mod 65536)))"

definition view32 :: "u32 list \<Rightarrow> SMAP32 list" where
  "view32 m = map (\<lambda>j. words_entry32 (take 3 (drop (3 * j) m))) [0..<length m div 3]"

definition validate :: "u32 list \<Rightarrow> u16 \<Rightarrow> (nat \<times> SMAP32 list) res" where
  "validate data n =
     bindR (compressE820 data n) (\<lambda>(m, n).
     bindR (sortE820 (view32 m) n) (\<lambda>newdata.
     bindR (forR (count_type newdata) [0..<n] (replicate 5 0)) (\<lambda>typelengths.
     forR (\<lambda>i (len, newdata).
       bindR (getR typelengths i) (\<lambda>c.
       bindR (mergeE820 len c newdata) (\<lambda>newdata. Inr (len + c, newdata))))
       [0..<5] (0, newdata))))"

section \<open>Packing in place\<close>

lemma halves64: "push_bit 32 (ucast (ucast (drop_bit 32 x) :: u32)) OR ucast (ucast x :: u32) = x" for x :: u64
proof (rule bit_word_eqI)
  fix n assume "n < LENGTH(64)"
  then show "bit (push_bit 32 (ucast (ucast (drop_bit 32 x) :: u32)) OR ucast (ucast x :: u32) :: u64) n = bit x n"
    by (cases "n < 32") (auto simp: bit_simps not_less)
qed

lemma words_entry_words: "words_entry (entry_words e) = e"
  by (simp add: words_entry_def entry_words_def halves64)

lemma low16: "ucast (push_bit 16 (ucast y :: u32) OR ucast x :: u32) = x" for x y :: u16
  by (rule bit_word_eqI) (simp add: bit_simps)

lemma high16: "ucast (drop_bit 16 (push_bit 16 (ucast y :: u32) OR ucast x :: u32)) = y" for x y :: u16
  by (rule bit_word_eqI) (auto simp: bit_simps dest: bit_imp_le_length)

lemma words_entry32_words: "words_entry32 (entry32_words e) = e"
  by (simp add: words_entry32_def entry32_words_def low16 high16 [simplified])

lemma length_entry_words [simp]: "length (entry_words e) = 6" "length (entry32_words e32) = 3"
  by (simp_all add: entry_words_def entry32_words_def)

text \<open>The entries that are kept, and what is kept of them.\<close>

definition packed :: "SMAP_entry list \<Rightarrow> SMAP32 list" where
  "packed es = map compress_entry (filter (\<lambda>e. sm_base e < 0xFFFFFFFF) es)"

text \<open>Reading entry \<open>i\<close> back from memory that holds the entries from \<open>i\<close> on.\<close>

definition holds_from :: "u32 list \<Rightarrow> SMAP_entry list \<Rightarrow> nat \<Rightarrow> bool" where
  "holds_from m es i \<longleftrightarrow> drop (6 * i) m = concat (map entry_words (drop i es))"

definition holds_out :: "u32 list \<Rightarrow> SMAP32 list \<Rightarrow> bool" where
  "holds_out m os \<longleftrightarrow> take (3 * length os) m = concat (map entry32_words os) \<and> 3 * length os \<le> length m"

lemma length_entry32_words: "length (concat (map entry32_words os)) = 3 * length os"
  by (induction os) simp_all

lemma get_in_ok:
  assumes "holds_from m es i" "i < length es"
  shows "get_in m i = Inr (es ! i)"
proof -
  have d: "drop (6 * i) m = entry_words (es ! i) @ concat (map entry_words (drop (Suc i) es))"
    using assms by (simp add: holds_from_def flip: Cons_nth_drop_Suc)
  then have "6 \<le> length (drop (6 * i) m)" by simp
  then have "6 * i + 6 \<le> length m" by simp
  then show ?thesis using d by (simp add: get_in_def words_entry_words)
qed

lemma holds_from_Suc: "holds_from m es i \<Longrightarrow> i < length es \<Longrightarrow> holds_from m es (Suc i)"
proof -
  assume a: "holds_from m es i" "i < length es"
  then have "drop 6 (drop (6 * i) m) = concat (map entry_words (drop (Suc i) es))"
    by (simp add: holds_from_def flip: Cons_nth_drop_Suc)
  then show ?thesis by (simp add: holds_from_def algebra_simps)
qed

lemma set_out_ok:
  assumes "holds_out m os" "holds_from m es (Suc i)" "length os \<le> i" "i < length es"
    and len: "length m = 6 * length es"
  shows "\<exists>m'. set_out m (length os) e = Inr m' \<and> holds_out m' (os @ [e]) \<and> holds_from m' es (Suc i) \<and>
    length m' = length m"
proof -
  let ?j = "length os"
  have fits: "3 * ?j + 3 \<le> 6 * Suc i" "6 * Suc i \<le> length m" using assms(3,4) len by auto
  define m' where "m' = take (3 * ?j) m @ entry32_words e @ drop (3 * ?j + 3) m"
  have "set_out m ?j e = Inr m'" using fits by (simp add: set_out_def m'_def)
  moreover have "length m' = length m" using fits by (simp add: m'_def)
  moreover have "holds_out m' (os @ [e])"
    using assms(1) fits by (simp add: holds_out_def m'_def length_entry32_words)
  moreover have "drop (6 * Suc i) m' = drop (6 * Suc i) m"
    using fits by (simp add: m'_def)
  ultimately show ?thesis using assms(2) by (simp add: holds_from_def)
qed

lemma compress_ok:
  assumes m: "m = concat (map entry_words es)" and n: "length es = unat n"
  shows "\<exists>m'. compressE820 m n = Inr (m', length (packed es)) \<and> holds_out m' (packed es) \<and> length m' = length m"
proof -
  let ?I = "\<lambda>i (m', j). j = length (packed (take i es)) \<and> holds_out m' (packed (take i es)) \<and>
    holds_from m' es i \<and> length m' = 6 * length es"
  have len: "length m = 6 * length es" unfolding m by (induction es) simp_all
  have "\<exists>s. forR compress_step [0..<unat n] (m, 0) = Inr s \<and> ?I (unat n) s"
  proof (rule forR_upt_total [where I = ?I])
    show "?I 0 (m, 0)" using m len by (simp add: packed_def holds_out_def holds_from_def)
  next
    fix i s assume i: "i < unat n" and I: "?I i s"
    obtain m1 j where s: "s = (m1, j)" by (cases s)
    have I': "j = length (packed (take i es))" "holds_out m1 (packed (take i es))" "holds_from m1 es i"
      "length m1 = 6 * length es" using I s by auto
    have get: "get_in m1 i = Inr (es ! i)" using get_in_ok I'(3) i n by simp
    have nxt: "holds_from m1 es (Suc i)" using holds_from_Suc I'(3) i n by simp
    have pk: "packed (take (Suc i) es) = packed (take i es) @
        (if sm_base (es ! i) < 0xFFFFFFFF then [compress_entry (es ! i)] else [])"
      using i n by (simp add: packed_def take_Suc_conv_app_nth)
      have "length (packed (take i es)) \<le> length (take i es)"
      using length_filter_le [of _ "take i es"] by (simp only: packed_def length_map)
    then have "length (packed (take i es)) \<le> i" by simp
    from set_out_ok [OF I'(2) nxt this _ I'(4), of "compress_entry (es ! i)"] i n
    show "\<exists>s'. compress_step i s = Inr s' \<and> ?I (Suc i) s'"
      using I' get nxt pk by (cases "sm_base (es ! i) < 0xFFFFFFFF") (auto simp: compress_step_def s)
  qed simp
  then show ?thesis using n len by (auto simp: compressE820_def)
qed

lemma view32_ok:
  assumes "holds_out m os"
  shows "length os \<le> length (view32 m)" "take (length os) (view32 m) = os"
proof -
  show l: "length os \<le> length (view32 m)" using assms by (simp add: holds_out_def view32_def less_eq_div_iff_mult_less_eq)
  have "words_entry32 (take 3 (drop (3 * j) m)) = os ! j" if j: "j < length os" for j
  proof -
    have e: "take (3 * length os) m = concat (map entry32_words (take j os)) @ entry32_words (os ! j) @
        concat (map entry32_words (drop (Suc j) os))"
      using assms j id_take_nth_drop [OF j] unfolding holds_out_def by (metis concat.simps(2) concat_append list.simps(9) map_append)
    have "length (concat (map entry32_words (take j os))) = 3 * j"
      using j by (simp add: length_entry32_words)
    with e have "take 3 (drop (3 * j) (take (3 * length os) m)) = entry32_words (os ! j)" by simp
    moreover have "take 3 (drop (3 * j) (take (3 * length os) m)) = take 3 (drop (3 * j) m)"
      using j by (simp add: drop_take)
    ultimately show ?thesis by (simp add: words_entry32_words)
  qed
  then show "take (length os) (view32 m) = os" using l by (intro nth_equalityI) (simp_all add: view32_def)
qed

section \<open>What an entry covers\<close>

lemma unat_low32: "unat (ucast x :: u32) = unat x mod 4294967296" for x :: u64
proof -
  have "unat (ucast x :: u32) = take_bit 32 (unat x)" by (simp add: unsigned_ucast_eq)
  then show ?thesis by (simp add: take_bit_eq_mod)
qed

lemma compress_entry_range:
  assumes "sm_base e < 0xFFFFFFFF" "unat (sm_base e) + unat (sm_length e) < 18446744073709551616"
    and "sm_base e \<noteq> 0 \<or> unat (sm_length e) < 4294967296"
  shows "unat (sm32_base (compress_entry e)) = unat (sm_base e) \<and>
    unat (sm32_base (compress_entry e)) + unat (sm32_length (compress_entry e)) =
      min (unat (sm_base e) + unat (sm_length e)) 4294967296"
proof -
  let ?B = "unat (sm_base e)" and ?L = "unat (sm_length e)" and ?b = "ucast (sm_base e) :: u32"
  have B: "?B < 4294967295" using unat_less_of_lt [OF assms(1)] by simp
  then have b: "unat ?b = ?B" by (simp add: unat_low32)
  have sum: "unat (sm_base e + sm_length e) = ?B + ?L" using assms(2) by (simp add: unat_add_nowrap)
  show ?thesis
  proof (cases "?B + ?L > 4294967295")
    case True
    then have "sm_base e + sm_length e > 0xFFFFFFFF" using sum by (simp add: word_less_nat_alt)
    then have l: "sm32_length (compress_entry e) = - ?b" by (simp add: compress_entry_def Let_def)
    have "?B \<noteq> 0"
    proof
      assume z: "?B = 0"
      then have "sm_base e = 0" by (simp add: unat_eq_zero)
      then show False using assms(3) True z by simp
    qed
    then have "?b \<noteq> 0" using b by (metis unat_0)
    then have "unat (0 - ?b) = 4294967296 - ?B" using b \<open>?B \<noteq> 0\<close> by (simp only: unat_sub_if_size) (simp add: word_size)
    then have "unat (- ?b) = 4294967296 - ?B" by simp
    then show ?thesis using l b True B by (simp add: compress_entry_def Let_def min_def)
  next
    case False
    then have "\<not> sm_base e + sm_length e > 0xFFFFFFFF" using sum by (simp add: word_less_nat_alt)
    then have "sm32_length (compress_entry e) = ucast (sm_length e)"
      by (simp add: compress_entry_def Let_def)
    then show ?thesis using b False by (simp add: compress_entry_def Let_def unat_low32)
  qed
qed

lemma compress_entry_4GiB:
  assumes "sm_base e = 0" "unat (sm_length e) \<ge> 4294967296"
  shows "sm32_length (compress_entry e) = 0"
proof -
  have "sm_length e > 0xFFFFFFFF" using assms(2) by (simp add: word_less_nat_alt)
  then show ?thesis using assms(1) by (simp add: compress_entry_def Let_def)
qed

section \<open>Sorting\<close>

lemma sort_insert_ok:
  assumes P: "P \<noteq> []" "length P \<le> 65535" and first: "\<not> compE820 c (hd P)"
  shows "\<exists>A B. P = A @ B \<and> A \<noteq> [] \<and> (\<forall>b\<in>set B. compE820 c b) \<and> \<not> compE820 c (last A) \<and>
    sort_insert (length P) (P @ c # R) = Inr (A @ c # B @ R)"
proof -
  let ?I = "\<lambda>(j, arr). \<exists>A B x. P = A @ B \<and> A \<noteq> [] \<and> (\<forall>b\<in>set B. compE820 c b) \<and>
    arr = A @ x # B @ R \<and> j = (of_nat (length A - 1) :: u16)"
  have u: "unat (of_nat (length A - 1) :: u16) = length A - 1" if "P = A @ B" for A B
    using P(2) that by (simp add: unat_of_nat)
  have guard: "sort_guard c (of_nat (length A - 1), A @ x # B @ R) = Inr (compE820 c (last A))"
    if "P = A @ B" "A \<noteq> []" for A B x
    using that u [OF that(1)] by (simp add: sort_guard_def nth_append last_conv_nth)
  have "\<exists>t. whileR 65537 (sort_guard c) sort_body (of_nat (length P - 1), P @ c # R) = Inr t \<and>
      ?I t \<and> sort_guard c t = Inr False"
  proof (rule whileR_total [where m = "\<lambda>(j, arr). unat j"])
    show "?I (of_nat (length P - 1), P @ c # R)"
      using P(1) by simp (rule exI [of _ P], rule exI [of _ "[]"], simp)
    have "unat (of_nat (length P - 1) :: u16) < 2 ^ LENGTH(16)" by (rule unsigned_less)
    then show "(case (of_nat (length P - 1) :: u16, P @ c # R) of (j, arr) \<Rightarrow> unat j) < 65537" by simp
  next
    fix s assume "?I s"
    then obtain A B x where "P = A @ B" "A \<noteq> []" "s = (of_nat (length A - 1), A @ x # B @ R)" by auto
    then show "\<exists>t. sort_guard c s = Inr t" using guard by simp
  next
    fix s assume "?I s" and g: "sort_guard c s = Inr True"
    then obtain A B x where s: "P = A @ B" "A \<noteq> []" "\<forall>b\<in>set B. compE820 c b"
      "s = (of_nat (length A - 1), A @ x # B @ R)" by auto
    have last: "compE820 c (last A)" using g guard [OF s(1,2)] s(4) by simp
    define A' where "A' = butlast A"
    have A: "A = A' @ [last A]" using s(2) by (simp add: A'_def)
    have ne: "A' \<noteq> []"
    proof
      assume "A' = []"
      then have "hd P = last A" using A s(1) by (metis append_Nil append_Cons list.sel(1))
      then show False using first last by simp
    qed
    have len: "length A - 1 = length A'" "length A' \<noteq> 0" using arg_cong [OF A, of length] ne by simp_all
    have "sort_body s = Inr (of_nat (length A') - 1, (A' @ [last A]) @ last A # B @ R)"
    proof -
      have "sort_body (of_nat (length A'), (A' @ [last A]) @ x # B @ R) =
          Inr (of_nat (length A') - 1, (A' @ [last A]) @ last A # B @ R)"
        using u [OF s(1), unfolded len(1)] by (simp add: sort_body_def nth_append list_update_append)
      then show ?thesis unfolding s(4) len(1) by (simp only: A [symmetric])
    qed
    moreover have "of_nat (length A') - 1 = (of_nat (length A' - 1) :: u16)"
      using ne by (cases A') simp_all
    moreover have "unat (of_nat (length A' - 1) :: u16) < unat (of_nat (length A - 1) :: u16)"
      using u [OF s(1)] u [of A' "last A # B"] s(1) A len(2) unfolding len(1)
      by (metis append.assoc append_Cons append_Nil diff_less len(2) neq0_conv zero_less_one)
    moreover have "?I (of_nat (length A' - 1), (A' @ [last A]) @ last A # B @ R)"
      unfolding prod.case
      by (rule exI [of _ A'], rule exI [of _ "last A # B"], rule exI [of _ "last A"])
        (use s(1,3) A ne last in auto)
    ultimately show "\<exists>s'. sort_body s = Inr s' \<and> ?I s' \<and>
        (case s' of (j, arr) \<Rightarrow> unat j) < (case s of (j, arr) \<Rightarrow> unat j)"
      using s(4) by (intro exI conjI) (assumption | simp)+
  qed
  then obtain A B x where W: "P = A @ B" "A \<noteq> []" "\<forall>b\<in>set B. compE820 c b"
    "whileR 65537 (sort_guard c) sort_body (of_nat (length P - 1), P @ c # R) =
      Inr (of_nat (length A - 1), A @ x # B @ R)"
    "sort_guard c (of_nat (length A - 1), A @ x # B @ R) = Inr False" by auto
  have "sort_insert (length P) (P @ c # R) = Inr (A @ c # B @ R)"
    using W(4) u [OF W(1)] W(2) by (simp add: sort_insert_def)
  then show ?thesis using W guard [OF W(1,2)] by auto
qed

lemma insert_is_sort_key:
  assumes "A @ B = sort_key f xs" "\<forall>b\<in>set B. f c < f b" "\<forall>a\<in>set A. f a \<le> f c"
  shows "A @ c # B = sort_key f (xs @ [c])"
proof (rule properties_for_sort_key [symmetric])
  have m: "mset (A @ B) = mset xs" using assms(1) by simp
  then show "mset (A @ c # B) = mset (xs @ [c])" by simp
  show "sorted (map f (A @ c # B))"
    using assms(2,3) sorted_sort_key [of f xs] unfolding assms(1) [symmetric]
    by (auto simp: sorted_append less_imp_le)
  fix k
  have "filter (\<lambda>x. f k = f x) (A @ B) = filter (\<lambda>x. f k = f x) xs"
    unfolding assms(1) using sort_key_stable [of f "f k" xs] by (simp only: eq_commute [of "f k"])
  moreover have "f k = f c \<Longrightarrow> filter (\<lambda>x. f k = f x) B = []"
    using assms(2) by (auto simp: filter_empty_conv)
  ultimately show "filter (\<lambda>x. f k = f x) (A @ c # B) = filter (\<lambda>x. f k = f x) (xs @ [c])"
    by auto
qed

text \<open>On entries in order of base whose first has the least type, the sort is a stable sort by type.\<close>

lemma sort_key_prefix_ok:
  assumes base: "sorted_wrt (\<lambda>a b. sm32_base a \<le> sm32_base b) xs"
    and first: "\<forall>x\<in>set xs. sm32_type (hd xs) \<le> sm32_type x"
    and len: "length xs \<le> 65535"
  shows "\<exists>s. forR sort_insert [1..<length xs] (xs @ rest) = Inr s \<and> s = sort_key sm32_type xs @ rest"
proof (cases "xs = []")
  case True
  then show ?thesis by simp
next
  case False
  let ?I = "\<lambda>i arr. arr = sort_key sm32_type (take i xs) @ drop i xs @ rest"
  have "\<exists>s. forR sort_insert [1..<length xs] (xs @ rest) = Inr s \<and> ?I (length xs) s"
  proof (rule forR_upt_total [where I = ?I])
    show "?I 1 (xs @ rest)" using False by (cases xs) simp_all
    show "1 \<le> length xs" using False by (cases xs) simp_all
  next
    fix i arr assume i: "1 \<le> i" "i < length xs" and I: "?I i arr"
    let ?P = "sort_key sm32_type (take i xs)" and ?c = "xs ! i" and ?R = "drop (Suc i) xs @ rest"
    have P: "length ?P = i" "?P \<noteq> []" using i by (auto simp flip: length_0_conv)
    have arr: "arr = ?P @ ?c # ?R" using I i by (simp add: Cons_nth_drop_Suc)
    have small: "sm32_base b \<le> sm32_base ?c" if "b \<in> set ?P" for b
    proof -
      have "b \<in> set (take i xs)" using that by simp
      then obtain k where "k < i" "b = xs ! k" by (auto simp only: in_set_conv_nth length_take min_less_iff_conj nth_take)
      then show ?thesis using base i(2) by (simp add: sorted_wrt_iff_nth_less)
    qed
    then have comp: "compE820 ?c b \<longleftrightarrow> sm32_type ?c < sm32_type b" if "b \<in> set ?P" for b
      using that by (auto simp: compE820_def not_less [symmetric])
    have "hd xs \<in> set (take i xs)" using i False by (cases xs; cases i) auto
    then have "hd xs \<in> set ?P" by simp
    moreover have "sorted (map sm32_type ?P)" by simp
    ultimately have "sm32_type (hd ?P) \<le> sm32_type (hd xs)" using P(2) by (cases ?P) auto
    also have "\<dots> \<le> sm32_type ?c" using first i(2) by simp
    finally have "\<not> compE820 ?c (hd ?P)" using comp [OF hd_in_set [OF P(2)]] by simp
    from sort_insert_ok [OF P(2) _ this, of ?R] obtain A B where
      AB: "?P = A @ B" "A \<noteq> []" "\<forall>b\<in>set B. compE820 ?c b" "\<not> compE820 ?c (last A)"
      "sort_insert i arr = Inr (A @ ?c # B @ ?R)" using P(1) i(2) len arr by auto
    have in_P: "set A \<subseteq> set ?P" "set B \<subseteq> set ?P" by (simp_all add: AB(1))
    have "A @ ?c # B = sort_key sm32_type (take i xs @ [?c])"
    proof (rule insert_is_sort_key)
      show "A @ B = ?P" by (simp add: AB(1))
      show "\<forall>b\<in>set B. sm32_type ?c < sm32_type b" using AB(3) in_P comp by auto
      have "sm32_type (last A) \<le> sm32_type ?c" using AB(4) last_in_set [OF AB(2)] in_P(1) comp [of "last A"]
        by (auto simp: not_less)
      moreover have "sorted (map sm32_type A)" using sorted_sort_key [of sm32_type "take i xs"]
        unfolding AB(1) by (simp add: sorted_append)
      ultimately show "\<forall>a\<in>set A. sm32_type a \<le> sm32_type ?c" using AB(2)
        by (induction A rule: rev_induct) (auto simp: sorted_append intro: order_trans)
    qed
    then show "\<exists>s'. sort_insert i arr = Inr s' \<and> ?I (Suc i) s'"
      using AB(5) i(2) by (simp add: take_Suc_conv_app_nth)
  qed
  then show ?thesis by simp
qed

lemma sortE820_ok:
  assumes "sorted_wrt (\<lambda>a b. sm32_base a \<le> sm32_base b) (take n arr)"
    and "\<forall>x\<in>set (take n arr). sm32_type (hd (take n arr)) \<le> sm32_type x"
    and "n \<le> length arr" "n \<le> 65535"
  shows "sortE820 arr n = Inr (sort_key sm32_type (take n arr) @ drop n arr)"
  using sort_key_prefix_ok [OF assms(1,2), of "drop n arr"] assms(3,4) by (simp add: sortE820_def)

text \<open>An entry that belongs before the first one sends the loop past the start of the array.\<close>

lemma sort_insert_front:
  assumes "compE820 (arr ! 1) (arr ! 0)" "2 \<le> length arr" "length arr \<le> 65535"
  shows "sort_insert 1 arr = Inl OutOfBounds"
proof -
  let ?c = "arr ! 1"
  let ?w = "\<lambda>n. whileR n (sort_guard ?c) sort_body"
  have behind: "sort_guard ?c (- 1, arr') = Inl OutOfBounds" if "length arr' = length arr" for arr'
    using that assms(3) by (simp add: sort_guard_def unsigned_minus_1_eq_mask mask_eq_exp_minus_1)
  have here: "sort_guard ?c (0, arr) = Inr True" "sort_body (0, arr) = Inr (- 1, arr[1 := arr ! 0])"
    using assms(1,2) by (simp_all add: sort_guard_def sort_body_def getR_def setR_def) auto
  have "?w (Suc (Suc 65535)) (0, arr) = Inl OutOfBounds"
    by (simp only: whileR.simps(2) here bindR_Inr if_True behind [of "arr[1 := arr ! 0]"]
        length_list_update bindR_Inl)
  then show ?thesis using assms(2) by (simp add: sort_insert_def)
qed

section \<open>Merging\<close>

lemma merge_disjoint:
  assumes "off + len \<le> length arr"
    and "\<And>i. 1 \<le> i \<Longrightarrow> i < len \<Longrightarrow>
      \<not> sm32_base (arr ! (off + i - 1)) + sm32_length (arr ! (off + i - 1)) > sm32_base (arr ! (off + i))"
  shows "mergeE820 off len arr = Inr arr"
proof -
  let ?b = "\<lambda>(i, len, e820). Inr (i < len) :: bool res"
  have "\<exists>t. whileR (len + 1) ?b (merge_body off) (1, len, arr) = Inr t \<and>
      (\<lambda>(i, l, a). 1 \<le> i \<and> l = len \<and> a = arr) t \<and> ?b t = Inr False"
  proof (rule whileR_total [where m = "\<lambda>(i, l, a). len - i"])
    fix s :: "nat \<times> nat \<times> SMAP32 list"
    assume s: "(\<lambda>(i, l, a). 1 \<le> i \<and> l = len \<and> a = arr) s"
    then show "\<exists>t. ?b s = Inr t" by auto
    assume "?b s = Inr True"
    then show "\<exists>s'. merge_body off s = Inr s' \<and> (\<lambda>(i, l, a). 1 \<le> i \<and> l = len \<and> a = arr) s' \<and>
        (case s' of (i, l, a) \<Rightarrow> len - i) < (case s of (i, l, a) \<Rightarrow> len - i)"
      using s assms by (auto simp: merge_body_def)
  qed auto
  then show ?thesis by (auto simp: mergeE820_def)
qed

text \<open>Two overlapping entries: the new length is an end address, unless the old length exceeds it.\<close>

lemma merge_two:
  assumes "sm32_base a + sm32_length a > sm32_base b"
  shows "mergeE820 0 2 [a, b] =
    Inr [a\<lparr>sm32_length := max_u32 (sm32_length a) (sm32_base b + sm32_length b)\<rparr>, b]"
proof -
  have "mergeE820 0 2 [a, b] = bindR (whileR (Suc (Suc (Suc 0))) (\<lambda>(i, len, e820). Inr (i < len)) (merge_body 0)
      (1, 2, [a, b])) (\<lambda>(i, len, e820). Inr e820)" by (simp add: mergeE820_def numeral_eq_Suc)
  then show ?thesis using assms by (simp add: merge_body_def)
qed

section \<open>The whole clean-up\<close>

lemma sorted_nth_le:
  assumes "sorted (map f zs)" "p < length zs"
  shows "f (zs ! p) \<le> (i :: nat) \<longleftrightarrow> p < length (filter (\<lambda>x. f x \<le> i) zs)"
  using assms
proof (induction zs arbitrary: p)
  case (Cons z zs)
  have "filter (\<lambda>x. f x \<le> i) zs = []" if "\<not> f z \<le> i"
    using Cons.prems(1) that by (auto simp: filter_empty_conv)
  then show ?case using Cons by (cases p) auto
qed simp

text \<open>Neighbours of the same key keep the order they had before a stable sort.\<close>

lemma sort_key_neighbours:
  assumes "sorted_wrt R xs" "Suc p < length xs"
    and "f (sort_key f xs ! p) = f (sort_key f xs ! Suc p)"
  shows "R (sort_key f xs ! p) (sort_key f xs ! Suc p)"
proof -
  let ?ys = "sort_key f xs" and ?k = "f (sort_key f xs ! p)"
  have "?ys = take p ?ys @ ?ys ! p # ?ys ! Suc p # drop (Suc (Suc p)) ?ys"
    using assms(2) by (simp add: Cons_nth_drop_Suc)
  then have "filter (\<lambda>y. f y = ?k) ?ys = filter (\<lambda>y. f y = ?k) (take p ?ys) @ ?ys ! p # ?ys ! Suc p #
      filter (\<lambda>y. f y = ?k) (drop (Suc (Suc p)) ?ys)"
    using assms(3) by (metis (mono_tags, lifting) filter.simps(2) filter_append)
  moreover have "sorted_wrt R (filter (\<lambda>y. f y = ?k) ?ys)"
    unfolding sort_key_stable using assms(1) by (rule sorted_wrt_filter)
  ultimately show ?thesis by (simp add: sorted_wrt_append)
qed

definition type_count :: "SMAP32 list \<Rightarrow> nat \<Rightarrow> nat" where
  "type_count xs k = length (filter (\<lambda>e. unat (sm32_type e) = k) xs)"

lemma count_types_ok:
  assumes "\<forall>e\<in>set xs. unat (sm32_type e) \<in> {1..5}" "length xs \<le> 65535"
  shows "forR (count_type (xs @ rest)) [0..<length xs] (replicate 5 0) =
    Inr (map (\<lambda>k. type_count xs (k + 1)) [0..<5])"
proof -
  let ?I = "\<lambda>i ls. ls = map (\<lambda>k. type_count (take i xs) (k + 1)) [0..<5]"
  have "\<exists>ls. forR (count_type (xs @ rest)) [0..<length xs] (replicate 5 0) = Inr ls \<and> ?I (length xs) ls"
  proof (rule forR_upt_total [where I = ?I])
    show "?I 0 (replicate 5 0)" by (simp add: type_count_def list_eq_iff_nth_eq)
  next
    fix i ls assume i: "i < length xs" and I: "?I i ls"
    let ?e = "xs ! i"
    have t: "1 \<le> unat (sm32_type ?e)" "unat (sm32_type ?e) \<le> 5" using assms(1) i by auto
    then have t0: "sm32_type ?e \<noteq> 0" by auto
    have small: "(type_count (take i xs) k + 1) mod 65536 = type_count (take i xs) k + 1" for k
    proof -
      have "type_count (take i xs) k \<le> length (take i xs)" unfolding type_count_def by (rule length_filter_le)
      also have "\<dots> < 65535" using i assms(2) by simp
      finally show ?thesis by simp
    qed
    have "type_count (take (Suc i) xs) k = type_count (take i xs) k + (if unat (sm32_type ?e) = k then 1 else 0)" for k
      using i by (simp add: type_count_def take_Suc_conv_app_nth)
    then have "map (\<lambda>k. type_count (take (Suc i) xs) (k + 1)) [0..<5] =
        ls[unat (sm32_type ?e) - 1 := type_count (take i xs) (unat (sm32_type ?e)) + 1]"
      using I t by (intro nth_equalityI) (auto simp: nth_list_update)
    then show "\<exists>ls'. count_type (xs @ rest) i ls = Inr ls' \<and> ?I (Suc i) ls'"
      using I i t t0 small by (simp add: count_type_def Let_def nth_append)
  qed simp
  then show ?thesis by simp
qed

lemma type_counts_upto:
  "length (filter (\<lambda>e. unat (sm32_type e) \<le> i) xs) + type_count xs (Suc i) =
   length (filter (\<lambda>e. unat (sm32_type e) \<le> Suc i) xs)"
  by (induction xs) (auto simp: type_count_def)

definition disjoint_regions :: "SMAP32 list \<Rightarrow> bool" where
  "disjoint_regions xs \<longleftrightarrow>
     sorted_wrt (\<lambda>a b. unat (sm32_base a) + unat (sm32_length a) \<le> unat (sm32_base b)) xs"

lemma merge_sorted_region:
  assumes ys: "ys = sort_key (\<lambda>e. unat (sm32_type e)) xs" and dis: "disjoint_regions xs"
    and off: "off = length (filter (\<lambda>e. unat (sm32_type e) \<le> i) ys)"
    and c: "c = type_count ys (Suc i)"
  shows "mergeE820 off c (ys @ rest) = Inr (ys @ rest)"
proof (rule merge_disjoint)
  let ?f = "\<lambda>e. unat (sm32_type e)"
  have end': "off + c = length (filter (\<lambda>e. ?f e \<le> Suc i) ys)" using off c type_counts_upto by simp
  then have len: "off + c \<le> length ys" by simp
  then show "off + c \<le> length (ys @ rest)" by simp
  fix k assume k: "1 \<le> k" "k < c"
  define p where "p = off + k - 1"
  have p: "Suc p = off + k" "Suc p < length ys" "off \<le> p" "Suc p < off + c" using k len by (auto simp: p_def)
  have s: "sorted (map ?f ys)" by (simp add: ys)
  have ty: "?f (ys ! q) = Suc i" if "off \<le> q" "q < off + c" for q
    using sorted_nth_le [OF s, of q i] sorted_nth_le [OF s, of q "Suc i"] that len off end' by simp
  have "unat (sm32_base (ys ! p)) + unat (sm32_length (ys ! p)) \<le> unat (sm32_base (ys ! Suc p))"
    using sort_key_neighbours [OF dis [unfolded disjoint_regions_def], of p ?f] ty p ys by simp
  then have "\<not> sm32_base (ys ! p) + sm32_length (ys ! p) > sm32_base (ys ! Suc p)"
    using unsigned_less [of "sm32_base (ys ! Suc p)", where ?'a = nat]
    by (simp add: word_less_nat_alt unat_add_nowrap)
  then show "\<not> sm32_base ((ys @ rest) ! (off + k - 1)) + sm32_length ((ys @ rest) ! (off + k - 1)) >
      sm32_base ((ys @ rest) ! (off + k))"
    using p by (simp add: nth_append p_def)
qed

lemma validate_passes_ok:
  assumes ys: "ys = sort_key (\<lambda>e. unat (sm32_type e)) xs" and dis: "disjoint_regions xs"
    and ty: "\<forall>e\<in>set xs. unat (sm32_type e) \<in> {1..5}"
  shows "forR (\<lambda>i (len, newdata).
       bindR (getR (map (\<lambda>k. type_count ys (k + 1)) [0..<5]) i) (\<lambda>c.
       bindR (mergeE820 len c newdata) (\<lambda>newdata. Inr (len + c, newdata))))
       [0..<5] (0, ys @ rest) = Inr (length xs, ys @ rest)" (is "forR ?f _ _ = _")
proof -
  let ?I = "\<lambda>i s. s = (length (filter (\<lambda>e. unat (sm32_type e) \<le> i) ys), ys @ rest)"
  have "\<exists>s. forR ?f [0..<5] (0, ys @ rest) = Inr s \<and> ?I 5 s"
  proof (rule forR_upt_total [where I = ?I])
    have "filter (\<lambda>e. unat (sm32_type e) \<le> 0) ys = []" using ty by (auto simp: filter_empty_conv ys)
    then show "?I 0 (0, ys @ rest)" by simp
  next
    fix i s assume i: "(i::nat) < 5" and I: "?I i s"
    then show "\<exists>s'. ?f i s = Inr s' \<and> ?I (Suc i) s'"
      using merge_sorted_region [OF ys dis refl refl, of i rest] type_counts_upto [of i ys] by simp
  qed simp
  moreover have "filter (\<lambda>e. unat (sm32_type e) \<le> 5) ys = ys" using ty by (simp add: filter_id_conv ys)
  ultimately show ?thesis by (simp add: ys)
qed

lemma validate_ok:
  assumes "data = concat (map entry_words es)" "length es = unat n"
    and "disjoint_regions (packed es)"
    and "\<forall>e\<in>set (packed es). unat (sm32_type e) \<in> {1..5}"
    and "\<forall>e\<in>set (packed es). sm32_type (hd (packed es)) \<le> sm32_type e"
  shows "\<exists>new. validate data n = Inr (length (packed es), new) \<and>
    take (length (packed es)) new = sort_key (\<lambda>e. unat (sm32_type e)) (packed es)"
proof -
  let ?os = "packed es" and ?f = "\<lambda>e. unat (sm32_type e)"
  obtain m where m: "compressE820 data n = Inr (m, length ?os)" "holds_out m ?os"
    using compress_ok [OF assms(1,2)] by auto
  define rest where "rest = drop (length ?os) (view32 m)"
  have v: "view32 m = ?os @ rest" using view32_ok [OF m(2)] unfolding rest_def by (metis append_take_drop_id)
  have "length ?os \<le> length es" by (simp add: packed_def)
  also have "\<dots> < 65536" using unsigned_less [of n, where ?'a = nat] assms(2) by simp
  finally have len: "length ?os \<le> 65535" by simp
  have base: "sorted_wrt (\<lambda>a b. sm32_base a \<le> sm32_base b) ?os"
    using assms(3) unfolding disjoint_regions_def
    by (rule sorted_wrt_mono_rel [rotated]) (simp add: word_le_nat_alt)
  have key: "sort_key sm32_type ?os = sort_key ?f ?os"
  proof (rule properties_for_sort_key)
    fix k
    show "filter (\<lambda>x. sm32_type k = sm32_type x) (sort_key ?f ?os) = filter (\<lambda>x. sm32_type k = sm32_type x) ?os"
      using sort_key_stable [of ?f "?f k" ?os] by (simp add: eq_commute word_unat_eq_iff)
    have "sorted (map ?f (sort_key ?f ?os))" by simp
    then show "sorted (map sm32_type (sort_key ?f ?os))"
      by (simp add: sorted_wrt_map word_le_nat_alt)
  qed simp
  define ys where "ys = sort_key ?f ?os"
  have sort: "sortE820 (?os @ rest) (length ?os) = Inr (ys @ rest)"
    using sortE820_ok [of "length ?os" "?os @ rest"] base assms(5) len by (simp add: key ys_def)
  have "forR (count_type (ys @ rest)) [0..<length ys] (replicate 5 0) =
      Inr (map (\<lambda>k. type_count ys (k + 1)) [0..<5])"
    by (rule count_types_ok) (use assms(4) len in \<open>auto simp: ys_def\<close>)
  moreover have "length ys = length ?os" by (simp add: ys_def)
  ultimately have "validate data n = Inr (length ?os, ys @ rest)"
    using m(1) sort validate_passes_ok [OF ys_def assms(3,4), of rest]
    by (simp add: validate_def v)
  then show ?thesis by (simp add: ys_def)
qed

text \<open>
  C14: in place, over the firmware's own list, \<open>validate\<close> packs the entries below 4 GiB, sorts
  them by type keeping their order within each type, and returns their number. The list is to
  be in order of address without overlaps, with types 1 to 5, and its first entry of the least
  type.
\<close>

theorem validate_sorts_by_type:
  assumes "data = concat (map entry_words es)" "length es = unat n"
    and "disjoint_regions (packed es)"
    and "\<forall>e\<in>set (packed es). unat (sm32_type e) \<in> {1..5}"
    and "\<forall>e\<in>set (packed es). sm32_type (hd (packed es)) \<le> sm32_type e"
  shows "\<exists>new. validate data n = Inr (length (packed es), new) \<and>
    take (length (packed es)) new = sort_key (\<lambda>e. unat (sm32_type e)) (packed es)"
  by (rule validate_ok [OF assms])

text \<open>A map as firmware gives it: low memory, the BIOS data area, and the memory above 1 MiB.\<close>

definition example_map :: "SMAP_entry list" where
  "example_map =
     [\<lparr>sm_base = 0, sm_length = 0x9FC00, sm_type = 1, sm_acpi = 1\<rparr>,
      \<lparr>sm_base = 0x9FC00, sm_length = 0x400, sm_type = 2, sm_acpi = 1\<rparr>,
      \<lparr>sm_base = 0x100000, sm_length = 0x7F00000, sm_type = 1, sm_acpi = 1\<rparr>,
      \<lparr>sm_base = 0x100000000, sm_length = 0x1000, sm_type = 1, sm_acpi = 1\<rparr>]"

lemma packed_example:
  "packed example_map =
     [\<lparr>sm32_base = 0, sm32_length = 0x9FC00, sm32_type = 1, sm32_acpi = 1\<rparr>,
      \<lparr>sm32_base = 0x9FC00, sm32_length = 0x400, sm32_type = 2, sm32_acpi = 1\<rparr>,
      \<lparr>sm32_base = 0x100000, sm32_length = 0x7F00000, sm32_type = 1, sm32_acpi = 1\<rparr>]"
  by (simp add: packed_def example_map_def compress_entry_def Let_def)

theorem validate_sorts_by_type_witness:
  "\<exists>new. validate (concat (map entry_words example_map)) 4 = Inr (3, new) \<and>
     map sm32_base (take 3 new) = [0, 0x100000, 0x9FC00]"
proof -
  have "disjoint_regions (packed example_map)" by (simp add: packed_example disjoint_regions_def)
  moreover have "length example_map = unat (4 :: u16)" by (simp add: example_map_def)
  ultimately show ?thesis
    using validate_sorts_by_type [of _ example_map 4] by (auto simp: packed_example numeral_3_eq_3)
qed

text \<open>
  C23: packing is right although the 12-byte entries overwrite the 24-byte entries they are
  made from: every entry is read before its memory is written.
\<close>

theorem compressE820_in_place:
  assumes "data = concat (map entry_words es)" "length es = unat n"
  shows "\<exists>m. compressE820 data n = Inr (m, length (packed es)) \<and>
    take (length (packed es)) (view32 m) = packed es"
  using compress_ok [OF assms] view32_ok(2) by blast

theorem compressE820_in_place_witness:
  "\<exists>m. compressE820 (concat (map entry_words example_map)) 4 = Inr (m, 3) \<and>
     map sm32_type (take 3 (view32 m)) = [1, 2, 1]"
proof -
  have "length example_map = unat (4 :: u16)" by (simp add: example_map_def)
  from compressE820_in_place [OF refl this] show ?thesis
    by (auto simp: packed_example numeral_3_eq_3)
qed

text \<open>
  A packed entry covers the part of its entry below 4 GiB, except when an entry starts at
  address 0 and reaches 4 GiB.
\<close>

theorem compress_entry_exact:
  assumes "sm_base e < 0xFFFFFFFF" "unat (sm_base e) + unat (sm_length e) < 18446744073709551616"
    and "sm_base e \<noteq> 0 \<or> unat (sm_length e) < 4294967296"
  shows "unat (sm32_base (compress_entry e)) = unat (sm_base e) \<and>
    unat (sm32_base (compress_entry e)) + unat (sm32_length (compress_entry e)) =
      min (unat (sm_base e) + unat (sm_length e)) 4294967296"
  using assms by (rule compress_entry_range)

theorem compress_entry_exact_witness:
  "unat (sm32_base (compress_entry \<lparr>sm_base = 0xFEC00000, sm_length = 0x2000000, sm_type = 2, sm_acpi = 1\<rparr>)) +
   unat (sm32_length (compress_entry \<lparr>sm_base = 0xFEC00000, sm_length = 0x2000000, sm_type = 2, sm_acpi = 1\<rparr>)) =
   4294967296"
  using compress_entry_exact [of "\<lparr>sm_base = 0xFEC00000, sm_length = 0x2000000, sm_type = 2, sm_acpi = 1\<rparr>"]
  by simp

text \<open>
  When the second entry sorts before the first, the sort's index wraps to 65535 and the
  loop reads far outside the array.
\<close>

theorem sortE820_underflow:
  assumes "compE820 b a" "2 \<le> len" "length arr \<le> 65533"
  shows "sortE820 (a # b # arr) len = Inl OutOfBounds"
proof -
  have "[1..<len] = 1 # [2..<len]" using assms(2) by (simp add: upt_conv_Cons numeral_2_eq_2)
  then show ?thesis using sort_insert_front [of "a # b # arr"] assms(1,3) by (simp add: sortE820_def)
qed

theorem sortE820_underflow_witness:
  "sortE820 [compress_entry (example_map ! 1), compress_entry (example_map ! 2)] 2 = Inl OutOfBounds"
  using sortE820_underflow [of "compress_entry (example_map ! 2)" "compress_entry (example_map ! 1)" 2 "[]"]
  by (simp add: compE820_def compress_entry_def example_map_def Let_def)

text \<open>
  Of two overlapping entries the merge makes one that ends as many bytes past the second's
  end as the first's base: the length is set to the second's end address.
\<close>

theorem mergeE820_overshoots:
  assumes "unat (sm32_base a) + unat (sm32_length a) < 4294967296"
    and "unat (sm32_base b) + unat (sm32_length b) < 4294967296"
    and "unat (sm32_base b) < unat (sm32_base a) + unat (sm32_length a)"
    and "unat (sm32_length a) < unat (sm32_base b) + unat (sm32_length b)"
  shows "\<exists>m. mergeE820 0 2 [a, b] = Inr [m, b] \<and> sm32_base m = sm32_base a \<and>
    unat (sm32_base m) + unat (sm32_length m) =
      unat (sm32_base a) + (unat (sm32_base b) + unat (sm32_length b))"
proof -
  have "sm32_base a + sm32_length a > sm32_base b"
    using assms(1,3) by (simp add: word_less_nat_alt unat_add_nowrap)
  moreover have "unat (max_u32 (sm32_length a) (sm32_base b + sm32_length b)) =
      unat (sm32_base b) + unat (sm32_length b)"
    using assms(2,4) by (simp add: max_u32_def word_less_nat_alt unat_add_nowrap)
  ultimately show ?thesis by (simp add: merge_two)
qed

theorem mergeE820_overshoots_witness:
  "\<exists>m. mergeE820 0 2
       [\<lparr>sm32_base = 0x1000, sm32_length = 0x2000, sm32_type = 1, sm32_acpi = 1\<rparr>,
        \<lparr>sm32_base = 0x2000, sm32_length = 0x2000, sm32_type = 1, sm32_acpi = 1\<rparr>] =
     Inr [m, \<lparr>sm32_base = 0x2000, sm32_length = 0x2000, sm32_type = 1, sm32_acpi = 1\<rparr>] \<and>
     unat (sm32_base m) + unat (sm32_length m) = 0x5000"
  using mergeE820_overshoots [of "\<lparr>sm32_base = 0x1000, sm32_length = 0x2000, sm32_type = 1, sm32_acpi = 1\<rparr>"
    "\<lparr>sm32_base = 0x2000, sm32_length = 0x2000, sm32_type = 1, sm32_acpi = 1\<rparr>"]
  by auto

end
