(* ===== verification/Boot_Paging.thy ===== *)
theory Boot_Paging
  imports Vaddr E820
begin

text \<open>
  Paging in stage 2 (\<open>stage2/pt.c\<close>): pages are taken from the top of the last usable
  region of the cleaned-up memory map downwards, page tables are filled through the
  recursive mapping. The memory map is kept as the array of its entries, apart from the
  memory the pages are in.
\<close>

section \<open>Model\<close>

text \<open>
  \<open>bp_mem\<close> is the memory (with CR3), \<open>bp_e820\<close> the array \<open>e820\<close> points to, \<open>bp_index\<close> is
  \<open>entries_index\<close> and \<open>bp_addr\<close> \<open>entry_addr\<close>.
\<close>

record boot_pt =
  bp_mem :: machine
  bp_e820 :: "SMAP32 list"
  bp_index :: u16
  bp_addr :: u32

definition region_top :: "SMAP32 \<Rightarrow> u32" where
  "region_top e = (sm32_base e + sm32_length e + 0x0FFF) AND 0xFFFFF000"

definition palloc :: "boot_pt \<Rightarrow> (u32 \<times> boot_pt) res" where
  "palloc s =
     (let paddr = bp_addr s - 0x1000; s = s\<lparr>bp_addr := bp_addr s - 0x1000\<rparr> in
      bindR (getR (bp_e820 s) (unat (bp_index s))) (\<lambda>e.
      let e = e\<lparr>sm32_length := if sm32_length e \<ge> 0x1000 then sm32_length e - 0x1000 else 0\<rparr> in
      bindR (setR (bp_e820 s) (unat (bp_index s)) e) (\<lambda>es.
      let s = s\<lparr>bp_e820 := es\<rparr> in
      bindR (if bp_addr s \<le> sm32_base e
             then let i = bp_index s - 1 in
               bindR (getR (bp_e820 s) (unat i)) (\<lambda>e. Inr (s\<lparr>bp_index := i, bp_addr := region_top e\<rparr>))
             else Inr s) (\<lambda>s.
      Inr (paddr, s)))))"

text \<open>
  \<open>pt_init\<close> runs before paging: \<open>pdir\<close> is the address of \<open>page_directory\<close>, and its words
  are written physically. The loop reads \<open>e820[entries_index + 1]\<close> without a bound.
\<close>

definition init_directory :: "u32 \<Rightarrow> (idx \<Rightarrow> u32) \<Rightarrow> idx \<Rightarrow> u32" where
  "init_directory pdir d =
     (fold (\<lambda>i d. d(of_nat i := 2)) [0..<1024] d)(0 := 0x8B, 1023 := 3 OR pdir)"

definition pt_init :: "u32 \<Rightarrow> boot_pt \<Rightarrow> SMAP32 list \<Rightarrow> boot_pt res" where
  "pt_init pdir s e820 =
     (let m = bp_mem s; f = frame_of pdir;
          m = m\<lparr>pmem := (pmem m)(f := init_directory pdir (pmem m f))\<rparr> in
      bindR (whileR 65537 (\<lambda>i. bindR (getR e820 (unat i + 1)) (\<lambda>e. Inr (sm32_type e = 1)))
        (\<lambda>i. Inr (i + 1)) (bp_index s)) (\<lambda>i.
      bindR (getR e820 (unat i)) (\<lambda>e.
      Inr (s\<lparr>bp_mem := m\<lparr>cr3 := f\<rparr>, bp_e820 := e820, bp_index := i, bp_addr := region_top e\<rparr>))))"

definition new_table :: "boot_pt \<Rightarrow> u32 \<Rightarrow> boot_pt res" where
  "new_table s pdi =
     bindR (palloc s) (\<lambda>(temp, s).
     bindR (wr32 (bp_mem s) (pd_ptr pdi) (temp OR 3)) (\<lambda>m.
     bindR (forR (\<lambda>i m. wr32 m (pt_ptr pdi (of_nat i)) 2) [0..<1024] m) (\<lambda>m.
     Inr (s\<lparr>bp_mem := m\<rparr>))))"

definition boot_pt_map :: "boot_pt \<Rightarrow> u32 \<Rightarrow> boot_pt res" where
  "boot_pt_map s vaddr =
     (let pdi = drop_bit 22 vaddr; pti = drop_bit 12 vaddr AND 0x3FF in
      bindR (rd32 (bp_mem s) (pd_ptr pdi)) (\<lambda>pde.
      bindR (if pde AND 1 = 0 then new_table s pdi else Inr s) (\<lambda>s.
      bindR (palloc s) (\<lambda>(page, s).
      bindR (wr32 (bp_mem s) (pt_ptr pdi pti) (page OR 3)) (\<lambda>m.
      Inr (s\<lparr>bp_mem := m\<rparr>))))))"

section \<open>The page allocator\<close>

text \<open>
  Within a region a page is taken off the top: while more than a page is above the base,
  \<open>palloc\<close> returns the highest page and moves the top down by one.
\<close>

lemma palloc_step:
  assumes "unat (bp_index s) < length (bp_e820 s)"
    and "unat (sm32_base (bp_e820 s ! unat (bp_index s))) + 4096 < unat (bp_addr s)"
  shows "\<exists>es. palloc s = Inr (bp_addr s - 4096, s\<lparr>bp_addr := bp_addr s - 4096, bp_e820 := es\<rparr>) \<and>
    length es = length (bp_e820 s) \<and> sm32_base (es ! unat (bp_index s)) = sm32_base (bp_e820 s ! unat (bp_index s)) \<and>
    (\<exists>l. es = (bp_e820 s)[unat (bp_index s) := (bp_e820 s ! unat (bp_index s))\<lparr>sm32_length := l\<rparr>] \<and>
      unat l = unat (sm32_length (bp_e820 s ! unat (bp_index s))) - 4096)"
proof -
  define l where "l = (if sm32_length (bp_e820 s ! unat (bp_index s)) \<ge> 0x1000 then sm32_length (bp_e820 s ! unat (bp_index s)) - 0x1000 else 0)"
  have ul: "unat l = unat (sm32_length (bp_e820 s ! unat (bp_index s))) - 4096"
    by (simp add: l_def unat_sub word_le_nat_alt)
  have "unat (bp_addr s - 4096) = unat (bp_addr s) - 4096" using assms(2) by (simp add: unat_sub word_le_nat_alt)
  then have "\<not> bp_addr s - 4096 \<le> sm32_base (bp_e820 s ! unat (bp_index s))"
    using assms(2) by (simp add: word_le_nat_alt)
  then have "palloc s = Inr (bp_addr s - 4096, s\<lparr>bp_addr := bp_addr s - 4096,
      bp_e820 := (bp_e820 s)[unat (bp_index s) := (bp_e820 s ! unat (bp_index s))\<lparr>sm32_length := l\<rparr>]\<rparr>)"
    using assms(1) by (simp add: palloc_def Let_def l_def)
  then show ?thesis using assms(1) ul by (intro exI conjI) (assumption, simp_all)
qed

text \<open>Several pages in a row.\<close>

fun pallocs :: "nat \<Rightarrow> boot_pt \<Rightarrow> (u32 list \<times> boot_pt) res" where
  "pallocs 0 s = Inr ([], s)"
| "pallocs (Suc n) s = bindR (palloc s) (\<lambda>(p, s). bindR (pallocs n s) (\<lambda>(ps, s). Inr (p # ps, s)))"

lemma pallocs_region:
  assumes "unat (bp_index s) < length (bp_e820 s)"
    and "unat (sm32_base (bp_e820 s ! unat (bp_index s))) + n * 4096 < unat (bp_addr s)"
  shows "\<exists>s'. pallocs n s = Inr (map (\<lambda>k. bp_addr s - of_nat (Suc k) * 4096) [0..<n], s') \<and> bp_mem s' = bp_mem s"
  using assms
proof (induction n arbitrary: s)
  case (Suc n)
  obtain es where 1: "palloc s = Inr (bp_addr s - 4096, s\<lparr>bp_addr := bp_addr s - 4096, bp_e820 := es\<rparr>)"
    "length es = length (bp_e820 s)" "sm32_base (es ! unat (bp_index s)) = sm32_base (bp_e820 s ! unat (bp_index s))"
    using palloc_step [of s] Suc.prems by auto
  let ?s = "s\<lparr>bp_addr := bp_addr s - 4096, bp_e820 := es\<rparr>"
  have "unat (bp_addr s - 4096) = unat (bp_addr s) - 4096" using Suc.prems(2) by (simp add: unat_sub word_le_nat_alt)
  then have "\<exists>s'. pallocs n ?s = Inr (map (\<lambda>k. bp_addr ?s - of_nat (Suc k) * 4096) [0..<n], s') \<and> bp_mem s' = bp_mem ?s"
    using Suc.prems 1 by (intro Suc.IH) simp_all
  then obtain s' where 2: "pallocs n ?s = Inr (map (\<lambda>k. bp_addr s - 4096 - of_nat (Suc k) * 4096) [0..<n], s')" "bp_mem s' = bp_mem s"
    by auto
  have "map (\<lambda>k. bp_addr s - of_nat (Suc k) * 4096) [0..<Suc n] =
    (bp_addr s - 4096) # map (\<lambda>k. bp_addr s - 4096 - of_nat (Suc k) * 4096) [0..<n]"
    by (simp only: map_upt_Suc) (simp add: algebra_simps)
  then show ?case using 1(1) 2 by simp
qed simp


section \<open>Mapping\<close>

text \<open>A frame that is no table of the address space.\<close>

definition unused_frame :: "machine \<Rightarrow> frame \<Rightarrow> bool" where
  "unused_frame m f \<longleftrightarrow> f \<noteq> cr3 m \<and>
     (\<forall>q. present (pmem m (cr3 m) q) \<longrightarrow> \<not> big_page (pmem m (cr3 m) q) \<longrightarrow> frame_of (pmem m (cr3 m) q) \<noteq> f)"

lemma table_entry:
  "present (frame_addr f OR 3)" "\<not> big_page (frame_addr f OR 3)" "frame_of (p OR 3) = frame_of p" "present (p OR 3)"
proof -
  have three: "(3 :: u32) = 1 OR 2" by simp
  have p: "present (x OR 3)" for x unfolding three by (simp add: present_bit bit_simps)
  show "present (frame_addr f OR 3)" "present (p OR 3)" by (rule p)+
  have e80: "(0x80 :: u32) = 2 ^ 7" by simp
  have "\<not> bit (frame_addr f OR 3) 7"
    unfolding three frame_addr_def by (simp only: bit_or_iff bit_push_bit_iff bit_1_iff) (simp add: bit_simps)
  then show "\<not> big_page (frame_addr f OR 3)" unfolding big_page_def e80 and_exp_eq_0_iff_not_bit by blast
  show "frame_of (p OR 3) = frame_of p"
    unfolding frame_of_def three by (rule bit_word_eqI) (auto simp: bit_simps numeral_eq_Suc)
qed

lemma pt_ptr_index:
  "pt_ptr (drop_bit 22 v) (of_nat i) = window (unat (pdi_of v)) i"
  unfolding u32_indices by (simp add: pt_ptr_def window_def)

lemma palloc_mem: "palloc s = Inr (p, s') \<Longrightarrow> bp_mem s' = bp_mem s"
  by (auto simp: palloc_def Let_def bindR_eq_Inr split: if_splits)

text \<open>Filling a table through the recursive mapping.\<close>

lemma fill_table:
  assumes "recursive m" "present (pmem m (cr3 m) (pdi_of v))" "frame_of (pmem m (cr3 m) (pdi_of v)) = f" "f \<noteq> cr3 m"
  shows "forR (\<lambda>i m. wr32 m (pt_ptr (drop_bit 22 v) (of_nat i)) x) [0..<1024] m = Inr (m\<lparr>pmem := (pmem m)(f := \<lambda>_. x)\<rparr>)"
proof -
  let ?I = "\<lambda>i m'. m' = m\<lparr>pmem := (pmem m)(f := \<lambda>j. if unat j < i then x else pmem m f j)\<rparr>"
  have "\<exists>m'. forR (\<lambda>i m. wr32 m (pt_ptr (drop_bit 22 v) (of_nat i)) x) [0..<1024] m = Inr m' \<and> ?I 1024 m'"
  proof (rule forR_upt_total [where I = ?I])
    show "?I 0 m" by simp
    fix i m' assume i: "i < 1024" and I: "?I i m'"
    have d: "pmem m' (cr3 m) = pmem m (cr3 m)" "cr3 m' = cr3 m" using I assms(4) by simp_all
    have "recursive m'" "present (pmem m' (cr3 m') (of_nat (unat (pdi_of v))))"
      using assms(1,2) by (simp_all add: recursive_def d)
    from translate_window [OF this(1) unat_idx i this(2)]
    have t: "translate m' (window (unat (pdi_of v)) i) = Some (f, of_nat i)" using assms(3) by (simp add: d)
    have "unat (of_nat i :: idx) = i" using i by (simp add: unat_of_nat)
    then have "unat j < Suc i \<longleftrightarrow> unat j < i \<or> j = of_nat i" for j :: idx by (auto simp: less_Suc_eq)
    then show "\<exists>m''. wr32 m' (pt_ptr (drop_bit 22 v) (of_nat i)) x = Inr m'' \<and> ?I (Suc i) m''"
      unfolding pt_ptr_index wr32_def t by (simp add: I fun_eq_iff)
  qed simp
  then show ?thesis by simp
qed

text \<open>The page table that \<open>new_table\<close> installs: empty, and all other translations as before.\<close>

definition with_table :: "machine \<Rightarrow> u32 \<Rightarrow> frame \<Rightarrow> machine" where
  "with_table m v f = m\<lparr>pmem := (pmem m)(cr3 m := (pmem m (cr3 m))(pdi_of v := frame_addr f OR 3), f := \<lambda>_. 2)\<rparr>"

lemma with_table_directory:
  assumes "unused_frame m f"
  shows "pmem (with_table m v f) (cr3 m) = (pmem m (cr3 m))(pdi_of v := frame_addr f OR 3)" "cr3 (with_table m v f) = cr3 m"
  using assms by (auto simp: with_table_def unused_frame_def)

lemma new_table_eq:
  assumes "recursive (bp_mem s)" "pdi_of v \<noteq> 1023" "palloc s = Inr (frame_addr f, s1)" "bp_mem s1 = bp_mem s"
    "unused_frame (bp_mem s) f"
  shows "new_table s (drop_bit 22 v) = Inr (s1\<lparr>bp_mem := with_table (bp_mem s) v f\<rparr>)"
proof -
  let ?m = "bp_mem s"
  let ?m1 = "?m\<lparr>pmem := (pmem ?m)(cr3 ?m := (pmem ?m (cr3 ?m))(pdi_of v := frame_addr f OR 3))\<rparr>"
  have "recursive ?m1" using assms(1,2) by (simp add: recursive_def)
  moreover have "f \<noteq> cr3 ?m1" using assms(5) by (simp add: unused_frame_def)
  ultimately have "forR (\<lambda>i m. wr32 m (pt_ptr (drop_bit 22 v) (of_nat i)) 2) [0..<1024] ?m1 = Inr (?m1\<lparr>pmem := (pmem ?m1)(f := \<lambda>_. 2)\<rparr>)"
    by (intro fill_table) (simp_all add: table_entry)
  then show ?thesis
    using wr32_pd [OF assms(1), of v "frame_addr f OR 3"] assms(3,4) by (simp add: new_table_def with_table_def)
qed

lemma with_table_wf:
  assumes "wf_tables m" "unused_frame m f" "pdi_of v \<noteq> 1023"
  shows "wf_tables (with_table m v f)" "has_table (with_table m v f) v"
proof -
  note D = with_table_directory [OF assms(2), of v]
  show "has_table (with_table m v f) v" using assms(3) by (simp add: has_table_def D table_entry)
  have "recursive (with_table m v f)" using wf_recursive [OF assms(1)] assms(3) by (simp add: recursive_def D)
  moreover have "p = q" if "present ((pmem (with_table m v f) (cr3 m)) p)" "\<not> big_page (pmem (with_table m v f) (cr3 m) p)"
    "present (pmem (with_table m v f) (cr3 m) q)" "\<not> big_page (pmem (with_table m v f) (cr3 m) q)"
    "frame_of (pmem (with_table m v f) (cr3 m) p) = frame_of (pmem (with_table m v f) (cr3 m) q)" for p q
  proof -
    let ?d = "pmem m (cr3 m)"
    have u: "frame_of (?d r) \<noteq> f" if "present (?d r)" "\<not> big_page (?d r)" for r using assms(2) that by (simp add: unused_frame_def)
    show ?thesis
    proof (cases "p = pdi_of v \<or> q = pdi_of v")
      case True
      show ?thesis
      proof (rule ccontr)
        assume "p \<noteq> q"
        then consider "p = pdi_of v" "q \<noteq> pdi_of v" | "q = pdi_of v" "p \<noteq> pdi_of v" using True by blast
        then show False using that u [of p] u [of q] by cases (simp_all add: D table_entry)
      qed
    next
      case False
      then show ?thesis using that wf_tables_inj [OF assms(1), of p q] by (simp add: D)
    qed
  qed
  ultimately show "wf_tables (with_table m v f)" unfolding wf_tables_def Let_def D(2) by blast
qed

lemma with_table_translate:
  assumes "wf_tables m" "unused_frame m f" "\<not> present (pmem m (cr3 m) (pdi_of v))" "pdi_of w \<noteq> 1023"
  shows "translate (with_table m v f) w = translate m w"
proof -
  note D = with_table_directory [OF assms(2), of v]
  show ?thesis
  proof (cases "pdi_of w = pdi_of v")
    case True
    have "\<not> present 2" by (simp add: present_def)
    then show ?thesis using True assms(3) by (simp add: translate_def D table_entry) (simp add: with_table_def)
  next
    case False
    have "frame_of (pmem m (cr3 m) (pdi_of w)) \<noteq> f" "frame_of (pmem m (cr3 m) (pdi_of w)) \<noteq> cr3 m"
      if "present (pmem m (cr3 m) (pdi_of w))" "\<not> big_page (pmem m (cr3 m) (pdi_of w))"
    proof -
      show "frame_of (pmem m (cr3 m) (pdi_of w)) \<noteq> f" using assms(2) that by (simp add: unused_frame_def)
      show "frame_of (pmem m (cr3 m) (pdi_of w)) \<noteq> cr3 m"
        using table_not_directory [OF assms(1), of w] assms(4) that by (simp add: has_table_def table_of_def)
    qed
    then show ?thesis using False by (auto simp: translate_def D Let_def) (auto simp: with_table_def)
  qed
qed

text \<open>The result of a mapping: with a page table, new or not, one entry changes.\<close>

lemma boot_pt_map_eq:
  assumes wf: "wf_tables (bp_mem s)" and "pdi_of v \<noteq> 1023" "\<not> big_page (pmem (bp_mem s) (cr3 (bp_mem s)) (pdi_of v))"
    and new: "present (pmem (bp_mem s) (cr3 (bp_mem s)) (pdi_of v)) \<or>
      palloc s = Inr (frame_addr f, s1) \<and> unused_frame (bp_mem s) f"
    and old: "present (pmem (bp_mem s) (cr3 (bp_mem s)) (pdi_of v)) \<longrightarrow> s1 = s"
    and page: "palloc (s1\<lparr>bp_mem := m1\<rparr>) = Inr (p, s2)"
    and m1: "m1 = (if present (pmem (bp_mem s) (cr3 (bp_mem s)) (pdi_of v)) then bp_mem s else with_table (bp_mem s) v f)"
  shows "boot_pt_map s v = Inr (s2\<lparr>bp_mem := set_pte m1 v (p OR 3)\<rparr>)" "wf_tables m1" "has_table m1 v"
    "pdi_of w \<noteq> 1023 \<Longrightarrow> translate m1 w = translate (bp_mem s) w"
proof -
  let ?m = "bp_mem s" and ?e = "p OR 3"
  have "wf_tables m1 \<and> has_table m1 v"
    using wf assms(2,3) new with_table_wf [OF wf _ assms(2), of f] by (auto simp: m1 has_table_def)
  then show m1wf: "wf_tables m1" "has_table m1 v" by blast+
  show "translate m1 w = translate ?m w" if "pdi_of w \<noteq> 1023"
    using new with_table_translate [OF wf _ _ that, of f v] by (auto simp: m1)
  have mem: "bp_mem s2 = m1" using palloc_mem [OF page] by simp
  have step: "(if pmem ?m (cr3 ?m) (pdi_of v) AND 1 = 0 then new_table s (drop_bit 22 v) else Inr s) = Inr (s1\<lparr>bp_mem := m1\<rparr>)"
    using new_table_eq [OF wf_recursive [OF wf] assms(2)] new old by (auto simp: m1 present_def palloc_mem)
  have "wr32 m1 (pt_ptr (drop_bit 22 v) (drop_bit 12 v AND 0x3FF)) ?e = Inr (set_pte m1 v ?e)"
    using wr32_pt [OF wf_recursive [OF m1wf(1)], of v ?e] m1wf(2) by (simp add: has_table_def set_pte_def)
  then show "boot_pt_map s v = Inr (s2\<lparr>bp_mem := set_pte m1 v ?e\<rparr>)"
    unfolding boot_pt_map_def Let_def rd32_pd [OF wf_recursive [OF wf]] bindR_Inr step page by (simp add: mem)
qed


definition example_boot :: boot_pt where
  "example_boot = \<lparr>bp_mem = example_machine,
     bp_e820 = [\<lparr>sm32_base = 0x100000, sm32_length = 0x10000, sm32_type = 1, sm32_acpi = 0\<rparr>],
     bp_index = 0, bp_addr = 0x110000\<rparr>"



section \<open>The first page directory\<close>

lemma init_directory_entry:
  "init_directory pdir d j = (if j = 1023 then 3 OR pdir else if j = 0 then 0x8B else 2)"
proof -
  have "fold (\<lambda>i d. d(of_nat i := 2)) [0..<n] d j = (if unat j < n then 2 else d j)" if "n \<le> 1024" for n
    using that
  proof (induction n)
    case (Suc n)
    have "unat (of_nat n :: idx) = n" using Suc.prems by (simp add: unat_of_nat)
    then have "unat j < Suc n \<longleftrightarrow> unat j < n \<or> j = of_nat n" by (auto simp: less_Suc_eq)
    then show ?case using Suc by auto
  qed simp
  from this [of 1024] show ?thesis by (simp add: init_directory_def)
qed

lemma identity_frame:
  assumes "pdi_of w = 0"
  shows "frame_of ((0x8B AND 0xFFC00000) OR (w AND 0x003FF000)) = frame_of w"
proof -
  have "unat w div 4194304 = 0" using unat_pdi [of w] assms by simp
  then have "unat w < 2 ^ 22" by (simp add: div_eq_0_iff)
  then have "take_bit 22 w = w" by (simp add: word_unat_eq_iff unat_take_bit_pow)
  then have w: "w AND mask 22 = w" by (simp only: take_bit_eq_mask)
  have "(0x003FF000 :: u32) = mask 22 AND NOT (mask 12)" by (simp add: mask_eq_exp_minus_1)
  then have "w AND 0x003FF000 = (w AND mask 22) AND NOT (mask 12)" by (simp only: and.assoc)
  also have "\<dots> = frame_addr (frame_of w)" unfolding w frame_addr_mask ..
  finally show ?thesis by simp
qed

text \<open>The address space that \<open>pt_init\<close> sets up in the frame of the page directory.\<close>

definition init_memory :: "machine \<Rightarrow> frame \<Rightarrow> machine" where
  "init_memory m f = m\<lparr>pmem := (pmem m)(f := init_directory (frame_addr f) (pmem m f)), cr3 := f\<rparr>"

lemma init_memory_directory:
  "pmem (init_memory m f) (cr3 (init_memory m f)) q = (if q = 1023 then frame_addr f OR 3 else if q = 0 then 0x8B else 2)"
  by (simp add: init_memory_def init_directory_entry or.commute)

lemma init_memory_bits: "\<not> present 2" "present 0x8B" "big_page 0x8B" "\<not> big_page 2"
  by (simp_all add: present_def big_page_def)

lemma init_memory_table:
  "present (pmem (init_memory m f) (cr3 (init_memory m f)) q) \<Longrightarrow> \<not> big_page (pmem (init_memory m f) (cr3 (init_memory m f)) q) \<Longrightarrow> q = 1023"
  unfolding init_memory_directory using init_memory_bits by (auto split: if_splits)

lemma init_memory_wf: "wf_tables (init_memory m f)"
proof -
  have "recursive (init_memory m f)" unfolding recursive_def init_memory_directory by (simp add: table_entry init_memory_def)
  then show ?thesis unfolding wf_tables_def Let_def using init_memory_table by blast
qed

lemma init_memory_translate:
  "pdi_of w = 0 \<Longrightarrow> translate (init_memory m f) w = Some (frame_of w, woff_of w)"
  "pdi_of w \<noteq> 0 \<Longrightarrow> pdi_of w \<noteq> 1023 \<Longrightarrow> translate (init_memory m f) w = None"
  using identity_frame [of w] by (simp_all add: translate_def init_memory_directory init_memory_bits Let_def)

lemma pt_init_eq:
  assumes "bp_index s = 0" "j + 1 < length e820" "j < 65535"
    and "\<forall>k. 1 \<le> k \<and> k \<le> j \<longrightarrow> sm32_type (e820 ! k) = 1" "sm32_type (e820 ! (j + 1)) \<noteq> 1"
  obtains i where "unat i = j" "pt_init (frame_addr f) s e820 =
    Inr (s\<lparr>bp_mem := init_memory (bp_mem s) f, bp_e820 := e820, bp_index := i, bp_addr := region_top (e820 ! j)\<rparr>)"
proof -
  have "\<exists>i. whileR 65537 (\<lambda>i. bindR (getR e820 (unat i + 1)) (\<lambda>e. Inr (sm32_type e = 1))) (\<lambda>i. Inr (i + 1)) (0 :: u16) = Inr i \<and>
      unat i \<le> j \<and> bindR (getR e820 (unat i + 1)) (\<lambda>e. Inr (sm32_type e = 1)) = Inr False"
  proof (rule whileR_total [where I = "\<lambda>i. unat i \<le> j" and m = "\<lambda>i. j - unat i"])
    fix i :: u16 assume i: "unat i \<le> j"
    show "\<exists>t. bindR (getR e820 (unat i + 1)) (\<lambda>e. Inr (sm32_type e = 1)) = Inr t" using i assms(2) by simp
    assume "bindR (getR e820 (unat i + 1)) (\<lambda>e. Inr (sm32_type e = 1)) = Inr True"
    then have "unat i \<noteq> j" using assms(2,5) by auto
    then have "unat i + 1 \<le> j" using i by simp
    moreover have "unat (i + 1) = unat i + 1" using calculation assms(3) by (subst unat_add_nowrap) simp_all
    ultimately show "\<exists>s'. Inr (i + 1) = (Inr s' :: u16 res) \<and> unat s' \<le> j \<and> j - unat s' < j - unat i" by auto
  qed (use assms(3) in simp_all)
  then obtain i where i: "whileR 65537 (\<lambda>i. bindR (getR e820 (unat i + 1)) (\<lambda>e. Inr (sm32_type e = 1))) (\<lambda>i. Inr (i + 1)) (0 :: u16) = Inr i"
    "unat i \<le> j" "bindR (getR e820 (unat i + 1)) (\<lambda>e. Inr (sm32_type e = 1)) = Inr False" by blast
  have ij: "unat i = j"
  proof (rule ccontr)
    assume "unat i \<noteq> j"
    then have "sm32_type (e820 ! (unat i + 1)) = 1" using i(2) assms(4) by simp
    then show False using i(2,3) assms(2) by simp
  qed
  have "pt_init (frame_addr f) s e820 =
    Inr (s\<lparr>bp_mem := init_memory (bp_mem s) f, bp_e820 := e820, bp_index := i, bp_addr := region_top (e820 ! j)\<rparr>)"
    unfolding pt_init_def Let_def frame_of_addr assms(1) i(1) bindR_Inr using assms(2) ij by (simp add: init_memory_def)
  then show ?thesis using that ij by blast
qed



text \<open>
  The end of a region is rounded up to a page: the first page of one that does not end on
  a page boundary is only partly in it.
\<close>

lemma palloc_past_end:
  "palloc \<lparr>bp_mem = m, bp_e820 = [SMAP32.make 0x100000 0x7EFE400 1 0], bp_index = 0,
     bp_addr = region_top (SMAP32.make 0x100000 0x7EFE400 1 0)\<rparr> =
   Inr (0x7FFE000, \<lparr>bp_mem = m, bp_e820 = [SMAP32.make 0x100000 0x7EFD400 1 0], bp_index = 0, bp_addr = 0x7FFE000\<rparr>)"
  by (simp add: palloc_def region_top_def SMAP32.defs)

text \<open>When the first region of the map is used up, the index wraps and leaves the array.\<close>

lemma palloc_underflow:
  assumes "bp_index s = 0" "length (bp_e820 s) < 65536" "bp_e820 s \<noteq> []" "bp_addr s - 4096 \<le> sm32_base (bp_e820 s ! 0)"
  shows "palloc s = Inl OutOfBounds"
proof -
  have "(0 - 1 :: u16) = 65535" by simp
  then have u: "unat (0 - 1 :: u16) = 65535" by (simp only:) simp
  have o: "getR (xs :: SMAP32 list) 65535 = Inl OutOfBounds" if "length xs = length (bp_e820 s)" for xs
    using assms(2) that by simp
  have z: "unat (bp_index s) = 0" "0 < length (bp_e820 s)" using assms(1,3) by simp_all
  have le: "sm32_base ((bp_e820 s ! 0)\<lparr>sm32_length := n\<rparr>) = sm32_base (bp_e820 s ! 0)" for n by simp
  show ?thesis
    unfolding palloc_def Let_def assms(1) using assms(4) z u
    by (simp add: assms(1) o del: getR_out)
qed

end
