(* ===== verification/Elf.thy ===== *)
theory Elf
  imports Boot_Paging Fat_Read
begin

text \<open>
  The kernel loader of stage 2 (\<open>stage2/elf.c\<close>, \<open>elf.h\<close>) and the boot sequence that
  uses it (\<open>stage2/stage2.c\<close>). The three headers share one buffer of 124 bytes, whose
  fields are read and overwritten in place; segments are read into freshly mapped pages.
  The buffer is on the stack and kept apart from the memory that is mapped.
\<close>

section \<open>Model: the headers\<close>

text \<open>Offsets in the buffer: \<open>elf_pheader\<close> adds the size of a program header, not of the ELF header.\<close>

definition SIZEOF_EHDR :: nat where "SIZEOF_EHDR = 52"
definition SIZEOF_PHDR :: nat where "SIZEOF_PHDR = 32"
definition SIZEOF_SHDR :: nat where "SIZEOF_SHDR = 40"
definition elf_pheader :: nat where "elf_pheader = SIZEOF_PHDR"
definition elf_sheader :: nat where "elf_sheader = SIZEOF_PHDR + SIZEOF_SHDR"

lemmas elf_layout = SIZEOF_EHDR_def SIZEOF_PHDR_def SIZEOF_SHDR_def elf_pheader_def elf_sheader_def

text \<open>The fields of \<open>Elf32_Ehdr\<close>, \<open>Elf32_Phdr\<close> and \<open>Elf32_Shdr\<close> that are used.\<close>

definition e_type :: "u8 list \<Rightarrow> u16" where "e_type b = ld_word b 16"
definition e_machine :: "u8 list \<Rightarrow> u16" where "e_machine b = ld_word b 18"
definition e_entry :: "u8 list \<Rightarrow> u32" where "e_entry b = ld_dword b 24"
definition e_phoff :: "u8 list \<Rightarrow> u32" where "e_phoff b = ld_dword b 28"
definition e_shoff :: "u8 list \<Rightarrow> u32" where "e_shoff b = ld_dword b 32"
definition e_phentsize :: "u8 list \<Rightarrow> u16" where "e_phentsize b = ld_word b 42"
definition e_phnum :: "u8 list \<Rightarrow> u16" where "e_phnum b = ld_word b 44"
definition e_shentsize :: "u8 list \<Rightarrow> u16" where "e_shentsize b = ld_word b 46"
definition e_shnum :: "u8 list \<Rightarrow> u16" where "e_shnum b = ld_word b 48"

definition p_type :: "u8 list \<Rightarrow> u32" where "p_type b = ld_dword b elf_pheader"
definition p_offset :: "u8 list \<Rightarrow> u32" where "p_offset b = ld_dword b (elf_pheader + 4)"
definition p_vaddr :: "u8 list \<Rightarrow> u32" where "p_vaddr b = ld_dword b (elf_pheader + 8)"
definition p_paddr :: "u8 list \<Rightarrow> u32" where "p_paddr b = ld_dword b (elf_pheader + 12)"
definition p_filesz :: "u8 list \<Rightarrow> u32" where "p_filesz b = ld_dword b (elf_pheader + 16)"
definition p_memsz :: "u8 list \<Rightarrow> u32" where "p_memsz b = ld_dword b (elf_pheader + 20)"

definition sh_type :: "u8 list \<Rightarrow> u32" where "sh_type b = ld_dword b (elf_sheader + 4)"
definition sh_flags :: "u8 list \<Rightarrow> u32" where "sh_flags b = ld_dword b (elf_sheader + 8)"
definition sh_addr :: "u8 list \<Rightarrow> u32" where "sh_addr b = ld_dword b (elf_sheader + 12)"
definition sh_size :: "u8 list \<Rightarrow> u32" where "sh_size b = ld_dword b (elf_sheader + 20)"

definition ELF_MAGIC :: "u8 list" where "ELF_MAGIC = [0x7F, 0x45, 0x4C, 0x46]"
definition ELFCLASS32 :: u8 where "ELFCLASS32 = 1"
definition ELF_LSB :: u8 where "ELF_LSB = 1"
definition EM_X86 :: u16 where "EM_X86 = 3"
definition ET_EXEC :: u16 where "ET_EXEC = 2"
definition PT_LOAD :: u32 where "PT_LOAD = 1"
definition SHT_NOBITS :: u32 where "SHT_NOBITS = 8"
definition SHF_ALLOC :: u32 where "SHF_ALLOC = 2"

definition elf_is_elf :: "u8 list \<Rightarrow> bool" where
  "elf_is_elf hdr \<longleftrightarrow> take 4 hdr = ELF_MAGIC"

definition elf_is_supported :: "u8 list \<Rightarrow> bool" where
  "elf_is_supported hdr =
     (if \<not> elf_is_elf hdr then False
      else if hdr ! 4 \<noteq> ELFCLASS32 then False
      else if hdr ! 5 \<noteq> ELF_LSB then False
      else if e_machine hdr \<noteq> EM_X86 then False
      else if hdr ! 6 \<noteq> 1 then False
      else if e_type hdr \<noteq> ET_EXEC then False
      else True)"

section \<open>Model: loading\<close>

record loader =
  ld_boot :: boot_pt
  ld_fat :: pff

text \<open>Bytes stored in the buffer, and in mapped memory.\<close>

definition put :: "u8 list \<Rightarrow> nat \<Rightarrow> u8 list \<Rightarrow> u8 list" where
  "put b i bytes = take i b @ bytes @ drop (i + length bytes) b"

definition store_bytes :: "machine \<Rightarrow> u32 \<Rightarrow> u8 list \<Rightarrow> machine res" where
  "store_bytes m v bytes = forR (\<lambda>k m. wr8 m (v + of_nat k) (bytes ! k)) [0..<length bytes] m"

definition memset_virt :: "machine \<Rightarrow> u32 \<Rightarrow> u8 \<Rightarrow> u32 \<Rightarrow> machine res" where
  "memset_virt m v c n = forR (\<lambda>k m. wr8 m (v + of_nat k) c) [0..<unat n] m"

text \<open>\<open>for (bytesread = 0; bytesread <= size; bytesread += 0x1000) pt_map(addr + bytesread)\<close>\<close>

definition map_range :: "boot_pt \<Rightarrow> u32 \<Rightarrow> u32 \<Rightarrow> boot_pt res" where
  "map_range s addr n =
     bindR (whileR 1048577 (\<lambda>(k, s). Inr (k \<le> n))
       (\<lambda>(k, s). bindR (boot_pt_map s (addr + k)) (\<lambda>s. Inr (k + 0x1000, s))) (0, s)) (\<lambda>(k, s). Inr s)"

text \<open>
  A round of the loop over section headers, and of that over program headers. The state
  is whether the function goes on (else it returns NULL), \<open>i\<close>, the buffer and the loader.
\<close>

type_synonym elf_state = "bool \<times> nat \<times> u8 list \<times> loader"

definition sh_body :: "disk \<Rightarrow> u32 \<Rightarrow> elf_state \<Rightarrow> elf_state res" where
  "sh_body disk bufp = (\<lambda>(ok, i, b, l).
     bindR (pf_lseek disk (ld_fat l) (e_shoff b + of_nat i * ucast (e_shentsize b))) (\<lambda>(r, f).
     if r \<noteq> FR_OK then Inr (False, i, b, l\<lparr>ld_fat := f\<rparr>)
     else bindR (pf_read disk f (bufp + of_nat elf_sheader) (of_nat SIZEOF_SHDR)) (\<lambda>(r, n, bytes, f).
       let b = put b elf_sheader bytes; l = l\<lparr>ld_fat := f\<rparr> in
       if r \<noteq> FR_OK \<or> n \<noteq> of_nat SIZEOF_SHDR then Inr (False, i, b, l)
       else bindR (if sh_type b = SHT_NOBITS \<and> sh_size b \<noteq> 0 \<and> sh_flags b AND SHF_ALLOC \<noteq> 0
                   then map_range (ld_boot l) (sh_addr b) (sh_size b) else Inr (ld_boot l)) (\<lambda>s.
         Inr (True, i + 1, b, l\<lparr>ld_boot := s\<rparr>)))))"

definition load_segment :: "disk \<Rightarrow> u8 list \<Rightarrow> loader \<Rightarrow> loader res" where
  "load_segment disk b l =
     bindR (pf_lseek disk (ld_fat l) (p_offset b)) (\<lambda>(r, f).
     bindR (map_range (ld_boot l) (p_vaddr b) (p_filesz b)) (\<lambda>s.
     bindR (pf_read disk f (p_vaddr b) (p_filesz b)) (\<lambda>(r, n, bytes, f).
     bindR (store_bytes (bp_mem s) (p_vaddr b) bytes) (\<lambda>m.
     bindR (memset_virt m (p_vaddr b + n) 0 (p_memsz b - n)) (\<lambda>m.
     Inr (l\<lparr>ld_boot := s\<lparr>bp_mem := m\<rparr>, ld_fat := f\<rparr>))))))"

definition ph_body :: "disk \<Rightarrow> u32 \<Rightarrow> elf_state \<Rightarrow> elf_state res" where
  "ph_body disk bufp = (\<lambda>(ok, i, b, l).
     bindR (pf_lseek disk (ld_fat l) (e_phoff b + of_nat i * ucast (e_phentsize b))) (\<lambda>(r, f).
     if r \<noteq> FR_OK then Inr (False, i, b, l\<lparr>ld_fat := f\<rparr>)
     else bindR (pf_read disk f (bufp + of_nat elf_pheader) (of_nat SIZEOF_PHDR)) (\<lambda>(r, n, bytes, f).
       let b = put b elf_pheader bytes; l = l\<lparr>ld_fat := f\<rparr> in
       if r \<noteq> FR_OK \<or> n \<noteq> of_nat SIZEOF_PHDR then Inr (False, i, b, l)
       else bindR (if p_type b = PT_LOAD then load_segment disk b l else Inr l) (\<lambda>l.
         Inr (True, i + 1, b, l)))))"

definition sh_guard :: "elf_state \<Rightarrow> bool res" where
  "sh_guard = (\<lambda>(ok, i, b, l). Inr (ok \<and> i < unat (e_shnum b)))"

definition ph_guard :: "elf_state \<Rightarrow> bool res" where
  "ph_guard = (\<lambda>(ok, i, b, l). Inr (ok \<and> i < unat (e_phnum b)))"

text \<open>
  The result is the entry point, 0 for NULL, with the buffer and the loader. \<open>sp\<close> and
  \<open>dir\<close> are the local arrays of \<open>pf_open\<close>; \<open>bufp\<close> is the address of the buffer \<open>b\<close>.
\<close>

definition elf_load_file :: "disk \<Rightarrow> u8 list \<Rightarrow> u8 list \<Rightarrow> loader \<Rightarrow> u8 list \<Rightarrow> u32 \<Rightarrow> u8 list \<Rightarrow> u32 \<Rightarrow>
    (u32 \<times> u8 list \<times> loader) res" where
  "elf_load_file disk sp dir l filename bufp b bufsiz =
     bindR (pf_open disk (ld_fat l) sp dir filename) (\<lambda>(r, f).
     let l = l\<lparr>ld_fat := f\<rparr> in
     if r \<noteq> FR_OK \<or> unat bufsiz < SIZEOF_EHDR + SIZEOF_PHDR + SIZEOF_SHDR then Inr (0, b, l)
     else bindR (pf_read disk f bufp (of_nat SIZEOF_EHDR)) (\<lambda>(r, n, bytes, f).
       let b = put b 0 bytes; l = l\<lparr>ld_fat := f\<rparr> in
       if r \<noteq> FR_OK then Inr (0, b, l)
       else if n \<noteq> of_nat SIZEOF_EHDR then Inr (0, b, l)
       else if \<not> elf_is_supported b then Inr (0, b, l)
       else bindR (whileR 65537 sh_guard (sh_body disk bufp) (True, 0, b, l)) (\<lambda>(ok, i, b, l).
         if \<not> ok then Inr (0, b, l)
         else bindR (whileR 65537 ph_guard (ph_body disk bufp) (True, 0, b, l)) (\<lambda>(ok, i, b, l).
           Inr (if ok then e_entry b else 0, b, l)))))"

section \<open>Model: the boot sequence\<close>

definition NEW_STACK :: u32 where "NEW_STACK = 0xFFC00000"

text \<open>\<open>KERNEL.ELF\<close> with its NUL.\<close>

definition kernel_name :: "u8 list" where
  "kernel_name = [75, 69, 82, 78, 69, 76, 46, 69, 76, 70, 0]"

text \<open>
  \<open>bmain\<close> up to \<open>enter\<close>, without the segment registers. \<open>data\<close> are the words of the BIOS
  memory map, \<open>fs\<close> and \<open>hdrs\<close> (at \<open>bufp\<close>) the uninitialised locals. The result is what
  \<open>enter\<close> receives: entry point, stack, memory map and its size, with the memory.
\<close>

definition bmain :: "disk \<Rightarrow> u32 \<Rightarrow> u8 list \<Rightarrow> u8 list \<Rightarrow> FATFS \<Rightarrow> u32 \<Rightarrow> u8 list \<Rightarrow> machine \<Rightarrow> u32 list \<Rightarrow> u16 \<Rightarrow> u16 \<Rightarrow>
    (u32 \<times> u32 \<times> SMAP32 list \<times> u16 \<times> machine) res" where
  "bmain disk pdir sp dir fs bufp hdrs m data e820size dx =
     (let c = setDrive dcache_start dx in
      bindR (validate data e820size) (\<lambda>(n, e820).
      bindR (pf_mount disk \<lparr>pff_mounted = False, pff_fs = fs, pff_cache = c\<rparr>) (\<lambda>(r, f).
      bindR (assertR (r = FR_OK)) (\<lambda>_.
      bindR (pt_init pdir \<lparr>bp_mem = m, bp_e820 = [], bp_index = 0, bp_addr = 0\<rparr> e820) (\<lambda>s.
      bindR (elf_load_file disk sp dir \<lparr>ld_boot = s, ld_fat = f\<rparr> kernel_name bufp hdrs 124) (\<lambda>(entry, b, l).
      bindR (assertR (entry \<noteq> 0)) (\<lambda>_.
      bindR (boot_pt_map (ld_boot l) (NEW_STACK - 0x1000)) (\<lambda>s.
      Inr (entry, NEW_STACK, bp_e820 s, of_nat n, bp_mem s)))))))))"

end
