(* ===== verification/Virt_Bytes.thy ===== *)
theory Virt_Bytes
  imports Boot_Paging
begin

text \<open>
  Bytes in mapped memory. A range of addresses is owned when it is mapped to frames that
  are no tables and different pages of it to different frames: then a store at one of its
  addresses is read back there and nowhere else, and leaves all translations as they are.
\<close>

section \<open>One byte\<close>

definition byte_of :: "u32 \<Rightarrow> u32 \<Rightarrow> u8" where
  "byte_of w v = ucast (drop_bit (8 * unat (v AND 3)) w)"

definition put_byte :: "u32 \<Rightarrow> u32 \<Rightarrow> u8 \<Rightarrow> u32" where
  "put_byte w v b = (w AND NOT (push_bit (8 * unat (v AND 3)) 0xFF)) OR push_bit (8 * unat (v AND 3)) (ucast b)"

lemma byte_of_put:
  "byte_of (put_byte w v b) v' = (if v' AND 3 = v AND 3 then b else byte_of w v')"
proof -
  have small: "unat (x AND 3) < 4" for x :: u32 using and_pow2_mask [of x 2] by simp
  define j where "j = unat (v AND 3)"
  define k where "k = unat (v' AND 3)"
  have jk: "j < 4" "k < 4" using small by (simp_all add: j_def k_def)
  have eq: "v' AND 3 = v AND 3 \<longleftrightarrow> k = j" by (simp add: j_def k_def word_unat_eq_iff)
  have m: "(0xFF :: u32) = mask 8" by (simp add: mask_eq_exp_minus_1)
  show ?thesis
    unfolding byte_of_def put_byte_def eq j_def [symmetric] k_def [symmetric] m
  proof (rule bit_word_eqI)
    fix n assume n: "n < LENGTH(8)"
    show "bit (ucast (drop_bit (8 * k) ((w AND NOT (push_bit (8 * j) (mask 8))) OR push_bit (8 * j) (ucast b))) :: u8) n =
      bit (if k = j then b else ucast (drop_bit (8 * k) w)) n"
    proof (cases "k = j")
      case True
      then show ?thesis using n jk by (simp add: bit_simps)
    next
      case False
      then consider "k < j" | "j < k" by linarith
      then have far: "\<not> (8 * j \<le> 8 * k + n \<and> 8 * k + n - 8 * j < 8)" using n by cases simp_all
      moreover have "\<not> bit b (8 * k + n - 8 * j)" if "8 * j \<le> 8 * k + n" using far that by (simp add: bit_simps impossible_bit)
      ultimately show ?thesis using n jk False by (auto simp: bit_simps)
    qed
  qed
qed

lemma not3_parts:
  "pdi_of (v AND NOT 3) = pdi_of v" "pti_of (v AND NOT 3) = pti_of v" "woff_of (v AND NOT 3) = woff_of v"
  "(v AND NOT 3) AND 0x003FF000 = v AND 0x003FF000" for v :: u32
proof -
  have m: "(3 :: u32) = mask 2" by (simp add: mask_eq_exp_minus_1)
  have d: "drop_bit k (v AND NOT 3) = drop_bit k v" if "2 \<le> k" for k
    unfolding m by (rule bit_word_eqI) (use that in \<open>auto simp: bit_simps dest: bit_imp_le_length\<close>)
  show "pdi_of (v AND NOT 3) = pdi_of v" "pti_of (v AND NOT 3) = pti_of v" "woff_of (v AND NOT 3) = woff_of v"
    unfolding pdi_of_def pti_of_def woff_of_def by (subst d; simp)+
  have "NOT 3 AND (0x003FF000 :: u32) = 0x003FF000" by simp
  then show "(v AND NOT 3) AND 0x003FF000 = v AND 0x003FF000" by (simp only: and.assoc)
qed

lemma translate_not3: "translate m (v AND NOT 3) = translate m v"
  unfolding translate_def not3_parts Let_def ..

lemma rd8_eq:
  "rd8 m v = (case translate m v of None \<Rightarrow> Inl (PageFault (v AND NOT 3)) | Some (f, i) \<Rightarrow> Inr (byte_of (pmem m f i) v))"
  unfolding rd8_def rd32_def translate_not3 by (auto simp: byte_of_def split: option.split)

lemma wr8_eq:
  "wr8 m v b = (case translate m v of None \<Rightarrow> Inl (PageFault (v AND NOT 3))
     | Some (f, i) \<Rightarrow> Inr (m\<lparr>pmem := (pmem m)(f := (pmem m f)(i := put_byte (pmem m f i) v b))\<rparr>))"
  unfolding wr8_def rd32_def wr32_def translate_not3 by (auto simp: put_byte_def Let_def split: option.split)

lemma address_parts:
  "unat v = unat (pdi_of v) * 4194304 + unat (pti_of v) * 4096 + unat (woff_of v) * 4 + unat (v AND 3)"
proof -
  have "unat (v AND 3) = unat v mod 4" using and_pow2_mask [of v 2] by simp
  moreover have "n = n div 4194304 * 4194304 + n div 4096 mod 1024 * 4096 + n div 4 mod 1024 * 4 + n mod 4" for n :: nat
  proof -
    have d: "n div 4194304 = n div 4096 div 1024" "n div 4096 = n div 4 div 1024" by (simp_all flip: div_mult2_eq)
    define a where "a = n div 4"
    define b where "b = a div 1024"
    have "n = a * 4 + n mod 4" "a = b * 1024 + a mod 1024" "b = b div 1024 * 1024 + b mod 1024" by (simp_all add: a_def b_def)
    then show ?thesis unfolding d a_def [symmetric] b_def [symmetric] by linarith
  qed
  ultimately show ?thesis unfolding unat_pdi unat_pti unat_woff by simp
qed

lemma same_address:
  assumes "same_page v w" "woff_of v = woff_of w" "v AND 3 = w AND 3"
  shows "v = w"
  using assms address_parts [of v] address_parts [of w] by (simp add: same_page_def word_unat_eq_iff)

section \<open>Owned ranges\<close>

definition same_tables :: "machine \<Rightarrow> machine \<Rightarrow> bool" where
  "same_tables m m' \<longleftrightarrow> cr3 m' = cr3 m \<and> (\<forall>f. \<not> unused_frame m f \<longrightarrow> pmem m' f = pmem m f)"

lemma same_tables_refl: "same_tables m m"
  by (simp add: same_tables_def)

lemma same_tablesD:
  assumes "same_tables m m'"
  shows "cr3 m' = cr3 m" "pmem m' (cr3 m) = pmem m (cr3 m)" "translate m' = translate m"
    "unused_frame m' = unused_frame m" "wf_tables m' = wf_tables m"
proof -
  show c: "cr3 m' = cr3 m" and d: "pmem m' (cr3 m) = pmem m (cr3 m)"
    using assms by (simp_all add: same_tables_def unused_frame_def)
  have t: "pmem m' (frame_of (pmem m (cr3 m) q)) = pmem m (frame_of (pmem m (cr3 m) q))"
    if "present (pmem m (cr3 m) q)" "\<not> big_page (pmem m (cr3 m) q)" for q
    using assms that by (auto simp: same_tables_def unused_frame_def)
  show "translate m' = translate m" by (rule ext) (simp add: translate_def c d t Let_def)
  show "unused_frame m' = unused_frame m" by (rule ext) (simp add: unused_frame_def c d)
  show "wf_tables m' = wf_tables m" by (simp add: wf_tables_def recursive_def c d)
qed

lemma same_tables_trans: "same_tables a b \<Longrightarrow> same_tables b c \<Longrightarrow> same_tables a c"
  using same_tablesD(4) [of a b] by (simp add: same_tables_def)

definition own_pages :: "machine \<Rightarrow> u32 set \<Rightarrow> bool" where
  "own_pages m A \<longleftrightarrow> (\<forall>v\<in>A. \<exists>f. translate m v = Some (f, woff_of v) \<and> unused_frame m f) \<and>
     (\<forall>v\<in>A. \<forall>w\<in>A. \<forall>f. translate m v = Some (f, woff_of v) \<longrightarrow> translate m w = Some (f, woff_of w) \<longrightarrow> same_page v w)"

lemma own_pages_same_tables: "same_tables m m' \<Longrightarrow> own_pages m' A = own_pages m A"
  by (simp add: own_pages_def same_tablesD)

lemma own_pages_subset: "own_pages m A \<Longrightarrow> B \<subseteq> A \<Longrightarrow> own_pages m B"
  unfolding own_pages_def by blast

lemma wr8_owned:
  assumes "own_pages m A" "v \<in> A"
  shows "\<exists>m'. wr8 m v b = Inr m' \<and> same_tables m m' \<and> (\<forall>w\<in>A. rd8 m' w = (if w = v then Inr b else rd8 m w))"
proof -
  obtain f where f: "translate m v = Some (f, woff_of v)" "unused_frame m f" using assms by (auto simp: own_pages_def)
  let ?x = "put_byte (pmem m f (woff_of v)) v b"
  let ?m = "m\<lparr>pmem := (pmem m)(f := (pmem m f)(woff_of v := ?x))\<rparr>"
  have s: "same_tables m ?m" using f(2) by (auto simp: same_tables_def)
  have "rd8 ?m w = (if w = v then Inr b else rd8 m w)" if w: "w \<in> A" for w
  proof -
    obtain g where g: "translate m w = Some (g, woff_of w)" using assms w by (auto simp: own_pages_def)
    have "v = w" if "g = f" "woff_of w = woff_of v" "w AND 3 = v AND 3"
    proof (rule same_address)
      show "same_page v w" using assms w f(1) g that(1) unfolding own_pages_def by blast
    qed (use that in simp_all)
    moreover have "g = f" if "w = v" using that f(1) g by simp
    ultimately show ?thesis by (auto simp: rd8_eq same_tablesD(3) [OF s] g byte_of_put)
  qed
  then show ?thesis using s by (intro exI [of _ ?m]) (simp add: wr8_eq f(1))
qed

text \<open>Stores at successive addresses.\<close>

lemma fill_owned:
  assumes "own_pages m A" "\<forall>k<n. v + of_nat k \<in> A" "n \<le> 4294967296"
  shows "\<exists>m'. forR (\<lambda>k m. wr8 m (v + of_nat k) (g k)) [0..<n] m = Inr m' \<and> same_tables m m' \<and>
    (\<forall>w\<in>A. rd8 m' w = (if unat (w - v) < n then Inr (g (unat (w - v))) else rd8 m w))"
proof (rule forR_upt_total [where I = "\<lambda>k m'. same_tables m m' \<and>
    (\<forall>w\<in>A. rd8 m' w = (if unat (w - v) < k then Inr (g (unat (w - v))) else rd8 m w))"])
  fix k m1 assume k: "0 \<le> k" "k < n" and I: "same_tables m m1 \<and>
    (\<forall>w\<in>A. rd8 m1 w = (if unat (w - v) < k then Inr (g (unat (w - v))) else rd8 m w))"
  have "own_pages m1 A" using I assms(1) own_pages_same_tables by blast
  then obtain m2 where m2: "wr8 m1 (v + of_nat k) (g k) = Inr m2" "same_tables m1 m2"
    "\<forall>w\<in>A. rd8 m2 w = (if w = v + of_nat k then Inr (g k) else rd8 m1 w)"
    using wr8_owned assms(2) k(2) by blast
  have u: "unat (of_nat k :: u32) = k" using k assms(3) by (intro unat_of_nat32) simp
  have eq: "w = v + of_nat k \<longleftrightarrow> unat (w - v) = k" for w
  proof
    assume "unat (w - v) = k"
    then have "w - v = of_nat k" using u by (metis word_unat_eq_iff)
    then show "w = v + of_nat k" by (simp add: algebra_simps)
  qed (simp add: u)
  have "rd8 m2 w = (if unat (w - v) < Suc k then Inr (g (unat (w - v))) else rd8 m w)" if "w \<in> A" for w
    using that m2(3) I by (auto simp: eq less_Suc_eq)
  then show "\<exists>m'. wr8 m1 (v + of_nat k) (g k) = Inr m' \<and> same_tables m m' \<and>
      (\<forall>w\<in>A. rd8 m' w = (if unat (w - v) < Suc k then Inr (g (unat (w - v))) else rd8 m w))"
    using m2 I same_tables_trans by blast
qed (simp_all add: same_tables_refl)

end
