(* ===== verification/Boot_Alloc.thy ===== *)
theory Boot_Alloc
  imports Virt_Bytes
begin

text \<open>
  Mapping page after page in stage 2: as long as the allocator hands out frames that
  nothing uses, every page mapped is owned, and the frames below stay unused.
\<close>

section \<open>The allocator's invariant\<close>

definition fresh_frame :: "machine \<Rightarrow> frame \<Rightarrow> bool" where
  "fresh_frame m f \<longleftrightarrow> unused_frame m f \<and> (\<forall>w. pdi_of w \<noteq> 1023 \<longrightarrow> (\<forall>i. translate m w \<noteq> Some (f, i)))"

text \<open>
  The region the pages come from: the frame it is used down to, the frame of the page
  directory, the memory map before the first page was taken and the region's index in it.
\<close>

record pool_region =
  rg_lo :: nat
  rg_dir :: frame
  rg_map :: "SMAP32 list"
  rg_index :: u16

abbreviation rg_entry :: "pool_region \<Rightarrow> SMAP32" where
  "rg_entry rg \<equiv> rg_map rg ! unat (rg_index rg)"

text \<open>
  The memory map differs from what it was in the length of the region, which is less by what
  is taken, and ends below it.
\<close>

definition map_shrunk :: "pool_region \<Rightarrow> boot_pt \<Rightarrow> bool" where
  "map_shrunk rg s \<longleftrightarrow> bp_index s = rg_index rg \<and> unat (rg_index rg) < length (rg_map rg) \<and>
     (\<exists>l. bp_e820 s = (rg_map rg)[unat (rg_index rg) := (rg_entry rg)\<lparr>sm32_length := l\<rparr>] \<and>
        unat l = unat (sm32_length (rg_entry rg)) - (unat (region_top (rg_entry rg)) - unat (bp_addr s)) \<and>
        unat (sm32_base (rg_entry rg)) + unat l \<le> unat (bp_addr s))"

definition taken :: "pool_region \<Rightarrow> boot_pt \<Rightarrow> frame \<Rightarrow> bool" where
  "taken rg s f \<longleftrightarrow> unat (bp_addr s) \<le> unat f * 4096 \<and> unat f * 4096 < unat (region_top (rg_entry rg))"

text \<open>Page tables and mapped pages are all among the pages taken; the low 4 MiB and the directory are not.\<close>

definition uses_taken :: "pool_region \<Rightarrow> boot_pt \<Rightarrow> machine \<Rightarrow> bool" where
  "uses_taken rg s m \<longleftrightarrow> cr3 m = rg_dir rg \<and> (\<forall>q. big_page (pmem m (cr3 m) q) \<longrightarrow> q = 0) \<and>
     (\<forall>q. q \<noteq> 1023 \<longrightarrow> present (pmem m (cr3 m) q) \<longrightarrow> \<not> big_page (pmem m (cr3 m) q) \<longrightarrow> taken rg s (frame_of (pmem m (cr3 m) q))) \<and>
     (\<forall>w f i. pdi_of w \<noteq> 1023 \<longrightarrow> pdi_of w \<noteq> 0 \<longrightarrow> translate m w = Some (f, i) \<longrightarrow> taken rg s f)"

text \<open>The frames from \<open>rg_lo\<close> up to the top of the allocator are in its region, and fresh.\<close>

definition boot_ready :: "pool_region \<Rightarrow> boot_pt \<Rightarrow> bool" where
  "boot_ready rg s \<longleftrightarrow> wf_tables (bp_mem s) \<and> map_shrunk rg s \<and> uses_taken rg s (bp_mem s) \<and>
     unat (sm32_base (rg_entry rg)) < rg_lo rg * 4096 \<and> unat (bp_addr s) mod 4096 = 0 \<and>
     unat (bp_addr s) \<le> unat (region_top (rg_entry rg)) \<and>
     (\<forall>f. rg_lo rg \<le> unat f \<longrightarrow> unat f * 4096 < unat (bp_addr s) \<longrightarrow> fresh_frame (bp_mem s) f)"

lemma boot_readyD:
  assumes "boot_ready rg s"
  shows "unat (bp_index s) < length (bp_e820 s)" "unat (sm32_base (bp_e820 s ! unat (bp_index s))) < rg_lo rg * 4096"
  using assms by (auto simp: boot_ready_def map_shrunk_def)

lemma taken_below: "taken rg s f \<Longrightarrow> unat (bp_addr s') \<le> unat (bp_addr s) \<Longrightarrow> taken rg s' f"
  by (simp add: taken_def)

lemma memory_apart [simp]:
  "taken rg (s\<lparr>bp_mem := m\<rparr>) = taken rg s" "map_shrunk rg (s\<lparr>bp_mem := m\<rparr>) = map_shrunk rg s"
  "uses_taken rg (s\<lparr>bp_mem := m\<rparr>) = uses_taken rg s"
  by (simp_all add: taken_def map_shrunk_def uses_taken_def fun_eq_iff)

lemma uses_taken_below:
  assumes "uses_taken rg s m" "unat (bp_addr s') \<le> unat (bp_addr s)"
  shows "uses_taken rg s' m"
proof -
  have t: "taken rg s' f" if "taken rg s f" for f using taken_below [OF that assms(2)] .
  from assms(1) show ?thesis unfolding uses_taken_def by (auto simp: t)
qed

lemma palloc_ready:
  assumes r: "boot_ready rg s" and room: "(rg_lo rg + 1) * 4096 \<le> unat (bp_addr s)"
  obtains f s' where "palloc s = Inr (frame_addr f, s')" "bp_mem s' = bp_mem s" "unat (bp_addr s') = unat f * 4096"
    "unat (bp_addr s) = unat f * 4096 + 4096" "rg_lo rg \<le> unat f" "boot_ready rg s'" "fresh_frame (bp_mem s) f" "taken rg s' f"
proof -
  let ?n = "unat (bp_addr s)" and ?f = "frame_of (bp_addr s - 4096)"
  obtain es where es: "palloc s = Inr (bp_addr s - 4096, s\<lparr>bp_addr := bp_addr s - 4096, bp_e820 := es\<rparr>)"
    "\<exists>l. es = (bp_e820 s)[unat (bp_index s) := (bp_e820 s ! unat (bp_index s))\<lparr>sm32_length := l\<rparr>] \<and>
      unat l = unat (sm32_length (bp_e820 s ! unat (bp_index s))) - 4096"
    using palloc_step [of s] boot_readyD [OF r] room by auto
  obtain k where k: "?n = k * 4096" using r by (auto simp: boot_ready_def elim: dvdE simp flip: dvd_eq_mod_eq_0)
  then have "rg_lo rg + 1 \<le> k" using room by simp
  have u: "unat (bp_addr s - 4096) = ?n - 4096" using room by (simp add: unat_sub word_le_nat_alt)
  have f: "unat ?f = k - 1" unfolding unat_frame_of u k by (simp add: diff_mult_distrib [symmetric])
  have a: "frame_addr ?f = bp_addr s - 4096"
    unfolding word_unat_eq_iff unat_frame_addr f u k by (simp add: diff_mult_distrib)
  let ?s = "s\<lparr>bp_addr := bp_addr s - 4096, bp_e820 := es\<rparr>"
  have top: "?n = unat ?f * 4096 + 4096" using f k \<open>rg_lo rg + 1 \<le> k\<close> by (cases k) simp_all
  have lo: "rg_lo rg \<le> unat ?f" using f \<open>rg_lo rg + 1 \<le> k\<close> by simp
  have "bp_addr ?s = bp_addr s - 4096" by simp
  then have addr: "unat (bp_addr ?s) = unat ?f * 4096" using u top by (metis add_diff_cancel_right')
  have "map_shrunk rg ?s"
  proof -
    have sh: "map_shrunk rg s" "unat (sm32_base (rg_entry rg)) < rg_lo rg * 4096" using r by (simp_all add: boot_ready_def)
    obtain l where l: "bp_index s = rg_index rg" "unat (rg_index rg) < length (rg_map rg)"
      "bp_e820 s = (rg_map rg)[unat (rg_index rg) := (rg_entry rg)\<lparr>sm32_length := l\<rparr>]"
      "unat (sm32_base (rg_entry rg)) + unat l \<le> ?n"
      "unat l = unat (sm32_length (rg_entry rg)) - (unat (region_top (rg_entry rg)) - ?n)" using sh(1) by (auto simp: map_shrunk_def)
    obtain l' where l': "es = (bp_e820 s)[unat (bp_index s) := (bp_e820 s ! unat (bp_index s))\<lparr>sm32_length := l'\<rparr>]"
      "unat l' = unat (sm32_length (bp_e820 s ! unat (bp_index s))) - 4096" using es(2) by blast
    have "unat l' = unat l - 4096" using l'(2) l(1-3) by simp
    moreover have "?n \<le> unat (region_top (rg_entry rg))" using r by (simp add: boot_ready_def)
    ultimately have "unat l' = unat (sm32_length (rg_entry rg)) - (unat (region_top (rg_entry rg)) - unat ?f * 4096)"
      "unat (sm32_base (rg_entry rg)) + unat l' \<le> unat ?f * 4096"
      using l(4,5) sh(2) top lo by linarith+
    then show ?thesis unfolding map_shrunk_def addr using l(1,2) by (auto simp: l'(1) l(3))
  qed
  moreover have "uses_taken rg ?s (bp_mem s)"
  proof (rule uses_taken_below)
    show "uses_taken rg s (bp_mem s)" using r by (simp add: boot_ready_def)
    show "unat (bp_addr ?s) \<le> ?n" unfolding addr top by simp
  qed
  ultimately have ready: "boot_ready rg ?s"
    unfolding boot_ready_def addr using r top lo by (simp add: boot_ready_def)
  show thesis
  proof (rule that [OF _ _ addr top lo ready])
    show "palloc s = Inr (frame_addr ?f, ?s)" unfolding a by (rule es(1))
    show "bp_mem ?s = bp_mem s" by simp
    show "fresh_frame (bp_mem s) ?f" using r top lo by (simp add: boot_ready_def)
    show "taken rg ?s ?f" unfolding taken_def addr using r top by (simp add: boot_ready_def)
  qed
qed

section \<open>What a mapping leaves fresh\<close>

lemma with_table_unused:
  assumes "unused_frame m f" "unused_frame m g" "g \<noteq> f"
  shows "unused_frame (with_table m v f) g"
  using assms with_table_directory [OF assms(1), of v] by (auto simp: unused_frame_def table_entry)

lemma with_table_fresh:
  assumes "wf_tables m" "unused_frame m f" "\<not> present (pmem m (cr3 m) (pdi_of v))" "fresh_frame m g" "g \<noteq> f"
  shows "fresh_frame (with_table m v f) g"
  using assms with_table_unused [OF assms(2)] with_table_translate [OF assms(1-3)] by (simp add: fresh_frame_def)

lemma set_pte_unused:
  assumes "wf_tables m" "has_table m v"
  shows "unused_frame (set_pte m v e) g = unused_frame m g"
  using set_pte_directory [OF assms] by (simp add: unused_frame_def)

lemma set_pte_fresh:
  assumes "wf_tables m" "has_table m v" "fresh_frame m g" "g \<noteq> f"
  shows "fresh_frame (set_pte m v (frame_addr f OR 3)) g"
  using assms(3,4) set_pte_unused [OF assms(1,2)] set_pte_translate [OF assms(1,2)] by (simp add: fresh_frame_def table_entry)

lemma boot_ready_mem:
  assumes "boot_ready rg s" "wf_tables m" "uses_taken rg s m"
    and "\<And>g. rg_lo rg \<le> unat g \<Longrightarrow> unat g * 4096 < unat (bp_addr s) \<Longrightarrow> fresh_frame m g"
  shows "boot_ready rg (s\<lparr>bp_mem := m\<rparr>)"
  using assms by (simp add: boot_ready_def)

lemma with_table_uses:
  assumes "wf_tables m" "unused_frame m f" "\<not> present (pmem m (cr3 m) (pdi_of v))" "uses_taken rg s m" "taken rg s f"
  shows "uses_taken rg s (with_table m v f)"
  using assms(4,5) with_table_directory [OF assms(2), of v] with_table_translate [OF assms(1-3)]
  by (auto simp: uses_taken_def table_entry)

lemma set_pte_uses:
  assumes "wf_tables m" "has_table m v" "uses_taken rg s m" "taken rg s f"
  shows "uses_taken rg s (set_pte m v (frame_addr f OR 3))"
  using assms(3,4) set_pte_directory [OF assms(1,2)] set_pte_translate [OF assms(1,2)]
  by (auto simp: uses_taken_def table_entry split: if_splits)

text \<open>One mapping: the page leads to a fresh frame, all else stays.\<close>

lemma boot_pt_map_ready:
  assumes r: "boot_ready rg s" and room: "(rg_lo rg + 2) * 4096 \<le> unat (bp_addr s)"
    and v: "pdi_of v \<noteq> 1023" "\<not> big_page (pmem (bp_mem s) (cr3 (bp_mem s)) (pdi_of v))"
  obtains s' f where "boot_pt_map s v = Inr s'" "boot_ready rg s'" "unat (bp_addr s) \<le> unat (bp_addr s') + 8192"
    "\<And>w. pdi_of w \<noteq> 1023 \<Longrightarrow> translate (bp_mem s') w = (if same_page v w then Some (f, woff_of w) else translate (bp_mem s) w)"
    "fresh_frame (bp_mem s) f" "unused_frame (bp_mem s') f"
    "\<And>w g i. pdi_of w \<noteq> 1023 \<Longrightarrow> translate (bp_mem s) w = Some (g, i) \<Longrightarrow> unused_frame (bp_mem s) g \<Longrightarrow> unused_frame (bp_mem s') g"
    "\<And>q. big_page (pmem (bp_mem s') (cr3 (bp_mem s')) q) \<Longrightarrow> big_page (pmem (bp_mem s) (cr3 (bp_mem s)) q)"
    "\<And>w g i. pdi_of w \<noteq> 1023 \<Longrightarrow> translate (bp_mem s) w = Some (g, i) \<Longrightarrow> unused_frame (bp_mem s) g \<Longrightarrow> pmem (bp_mem s') g = pmem (bp_mem s) g"
proof -
  let ?m = "bp_mem s"
  have wf: "wf_tables ?m" using r by (simp add: boot_ready_def)
  define old where "old \<longleftrightarrow> present (pmem ?m (cr3 ?m) (pdi_of v))"
  obtain f1 s1 where p1: "palloc s = Inr (frame_addr f1, s1)" "bp_mem s1 = ?m" "unat (bp_addr s1) = unat f1 * 4096"
    "unat (bp_addr s) = unat f1 * 4096 + 4096" "rg_lo rg \<le> unat f1" "boot_ready rg s1" "fresh_frame ?m f1" "taken rg s1 f1"
    using palloc_ready [OF r] room by auto
  have u1: "unused_frame ?m f1" using p1(7) by (simp add: fresh_frame_def)
  define m1 where "m1 = (if old then ?m else with_table ?m v f1)"
  define s0 where "s0 = (if old then s else s1)\<lparr>bp_mem := m1\<rparr>"
  have wf1: "wf_tables m1 \<and> has_table m1 v"
    using wf v with_table_wf [OF wf u1 v(1)] by (auto simp: m1_def old_def has_table_def)
  have below: "fresh_frame m1 g" if "rg_lo rg \<le> unat g" "unat g * 4096 < unat (bp_addr s0)" for g :: frame
  proof (cases old)
    case True
    then show ?thesis using r that by (simp add: m1_def s0_def boot_ready_def)
  next
    case False
    then have lt: "unat g * 4096 < unat f1 * 4096" using that p1(3) by (simp add: s0_def)
    then have "g \<noteq> f1" by auto
    moreover have "fresh_frame ?m g" using r that(1) lt p1(4) by (simp add: boot_ready_def)
    ultimately show ?thesis using False with_table_fresh [OF wf u1] by (simp add: m1_def old_def)
  qed
  have uses1: "uses_taken rg (if old then s else s1) m1"
    using r with_table_uses [OF wf u1, of v rg s1] p1(2,6,8) by (simp add: m1_def old_def boot_ready_def)
  have r0: "boot_ready rg s0"
    unfolding s0_def by (rule boot_ready_mem) (use r p1(6) wf1 below uses1 in \<open>simp_all add: s0_def\<close>)
  have room0: "(rg_lo rg + 1) * 4096 \<le> unat (bp_addr s0)" "unat (bp_addr s) \<le> unat (bp_addr s0) + 4096"
    using room p1(3,4) by (simp_all add: s0_def)
  obtain f s2 where p2: "palloc s0 = Inr (frame_addr f, s2)" "bp_mem s2 = bp_mem s0" "unat (bp_addr s2) = unat f * 4096"
    "unat (bp_addr s0) = unat f * 4096 + 4096" "rg_lo rg \<le> unat f" "boot_ready rg s2" "fresh_frame (bp_mem s0) f" "taken rg s2 f"
    using palloc_ready [OF r0 room0(1)] by auto
  let ?m2 = "set_pte m1 v (frame_addr f OR 3)"
  define sa where "sa = (if old then s else s1)"
  have eq: "boot_pt_map s v = Inr (s2\<lparr>bp_mem := ?m2\<rparr>)" "pdi_of w \<noteq> 1023 \<Longrightarrow> translate m1 w = translate ?m w" for w
    using boot_pt_map_eq [OF wf v, of f1 sa m1 "frame_addr f" s2] p1(1) u1 p2(1)
    by (simp_all add: sa_def s0_def m1_def old_def)
  note S = set_pte_wf(1) [of m1 v] set_pte_unused [of m1 v] set_pte_translate [of m1 v] set_pte_directory [of m1 v]
  have fm: "fresh_frame m1 f" using p2(7) by (simp add: s0_def)
  have ff: "fresh_frame ?m f"
  proof -
    have "unat f * 4096 < unat (bp_addr s)" using p2(4) p1(3,4) by (cases old) (simp_all add: s0_def)
    then show ?thesis using r p2(5) by (simp add: boot_ready_def)
  qed
  have ready: "boot_ready rg (s2\<lparr>bp_mem := ?m2\<rparr>)"
  proof (rule boot_ready_mem [OF p2(6)])
    fix g :: frame assume g: "rg_lo rg \<le> unat g" "unat g * 4096 < unat (bp_addr s2)"
    then have "g \<noteq> f" using p2(3) by auto
    moreover have "fresh_frame m1 g" using below g p2(3,4) by simp
    ultimately show "fresh_frame ?m2 g" using set_pte_fresh wf1 by blast
  next
    have "uses_taken rg s2 m1" using p2(2,6) by (simp add: boot_ready_def s0_def)
    then show "uses_taken rg s2 ?m2" using set_pte_uses wf1 p2(8) by blast
  qed (use S(1) wf1 in simp)
  show thesis
  proof (rule that [OF eq(1) ready _ _ ff])
    show "unat (bp_addr s) \<le> unat (bp_addr (s2\<lparr>bp_mem := ?m2\<rparr>)) + 8192" using room0(2) p2(3,4) by simp
    show "translate (bp_mem (s2\<lparr>bp_mem := ?m2\<rparr>)) w = (if same_page v w then Some (f, woff_of w) else translate ?m w)"
      if "pdi_of w \<noteq> 1023" for w
      using S(3) [of "frame_addr f OR 3" w] wf1 eq(2) that by (simp add: table_entry)
    show "unused_frame (bp_mem (s2\<lparr>bp_mem := ?m2\<rparr>)) f" using S(2) [of _ f] wf1 fm by (simp add: fresh_frame_def)
    show "unused_frame (bp_mem (s2\<lparr>bp_mem := ?m2\<rparr>)) g"
      if w: "pdi_of w \<noteq> 1023" "translate ?m w = Some (g, i)" "unused_frame ?m g" for w g i
    proof -
      have "g \<noteq> f1" using p1(7) w by (auto simp: fresh_frame_def)
      then have "unused_frame m1 g" using w(3) with_table_unused [OF u1] by (simp add: m1_def)
      then show ?thesis using S(2) [of _ g] wf1 by simp
    qed
    show "pmem (bp_mem (s2\<lparr>bp_mem := ?m2\<rparr>)) g = pmem ?m g"
      if w: "pdi_of w \<noteq> 1023" "translate ?m w = Some (g, i)" "unused_frame ?m g" for w g i
    proof -
      have g: "g \<noteq> f1" "g \<noteq> cr3 ?m" using p1(7) w by (auto simp: fresh_frame_def unused_frame_def)
      then have 1: "unused_frame m1 g" "pmem m1 g = pmem ?m g" using w(3) with_table_unused [OF u1] by (simp_all add: m1_def with_table_def)
      then have "g \<noteq> frame_of (pmem m1 (cr3 m1) (pdi_of v))" using wf1 by (auto simp: unused_frame_def has_table_def)
      then show ?thesis using 1(2) by (simp add: set_pte_def table_of_def)
    qed
    show "big_page (pmem ?m (cr3 ?m) q)"
      if "big_page (pmem (bp_mem (s2\<lparr>bp_mem := ?m2\<rparr>)) (cr3 (bp_mem (s2\<lparr>bp_mem := ?m2\<rparr>))) q)" for q
      using that S(4,5) wf1 with_table_directory [OF u1, of v]
      by (cases "q = pdi_of v") (simp_all add: m1_def table_entry split: if_splits)
  qed
qed

section \<open>Ranges of pages\<close>

lemma same_page_div: "same_page v w \<longleftrightarrow> unat v div 4096 = unat w div 4096"
proof -
  have d: "n div 4194304 = n div 4096 div 1024" for n :: nat by (simp flip: div_mult2_eq)
  have "a = b \<longleftrightarrow> a div 1024 = b div 1024 \<and> a mod 1024 = b mod 1024" for a b :: nat by (metis div_mult_mod_eq)
  then show ?thesis unfolding same_page_def word_unat_eq_iff unat_pdi unat_pti d by metis
qed

lemma below_window: "pdi_of v \<noteq> 1023 \<longleftrightarrow> unat v < 4290772992"
proof -
  have "unat v < 4294967296" using unsigned_less [of v, where ?'a = nat] by simp
  then show ?thesis by (simp add: word_unat_eq_iff unat_pdi) linarith
qed

text \<open>A mapping of a fresh frame adds its page to what is owned.\<close>

lemma own_pages_map:
  assumes own: "own_pages m A" and low: "\<And>w. w \<in> A \<Longrightarrow> pdi_of w \<noteq> 1023" "pdi_of v \<noteq> 1023"
    and tr: "\<And>w. pdi_of w \<noteq> 1023 \<Longrightarrow> translate m' w = (if same_page v w then Some (f, woff_of w) else translate m w)"
    and f: "fresh_frame m f" "unused_frame m' f"
    and keep: "\<And>w g i. pdi_of w \<noteq> 1023 \<Longrightarrow> translate m w = Some (g, i) \<Longrightarrow> unused_frame m g \<Longrightarrow> unused_frame m' g"
  shows "own_pages m' (A \<union> {w. same_page v w})"
proof -
  have one: "\<exists>g. translate m' w = Some (g, woff_of w) \<and> unused_frame m' g" if "w \<in> A \<union> {w. same_page v w}" for w
  proof (cases "same_page v w")
    case True
    then have "pdi_of w \<noteq> 1023" using low(2) by (simp add: same_page_def)
    then show ?thesis using True tr f(2) by simp
  next
    case False
    then have w: "w \<in> A" "pdi_of w \<noteq> 1023" using that low(1) by auto
    then obtain g where "translate m w = Some (g, woff_of w)" "unused_frame m g" using own by (auto simp: own_pages_def)
    then show ?thesis using False w tr keep by auto
  qed
  have two: "same_page x y" if "x \<in> A \<union> {w. same_page v w}" "y \<in> A \<union> {w. same_page v w}"
    "translate m' x = Some (g, woff_of x)" "translate m' y = Some (g, woff_of y)" for x y g
  proof -
    have lw: "pdi_of w \<noteq> 1023" if "w \<in> A \<union> {w. same_page v w}" for w using that low by (auto simp: same_page_def)
    have no: "translate m w \<noteq> Some (f, i)" if "pdi_of w \<noteq> 1023" for w i using f(1) that by (simp add: fresh_frame_def)
    note t = tr [OF lw [OF that(1)]] tr [OF lw [OF that(2)]] no [OF lw [OF that(1)]] no [OF lw [OF that(2)]]
    consider "same_page v x" "same_page v y" | "\<not> same_page v x" "\<not> same_page v y" |
      "same_page v x \<noteq> same_page v y" by blast
    then show ?thesis
    proof cases
      case 1
      then show ?thesis by (simp add: same_page_def)
    next
      case 2
      then show ?thesis using that own t by (auto simp: own_pages_def)
    next
      case 3
      then show ?thesis using that(3,4) t by (auto split: if_splits)
    qed
  qed
  show ?thesis unfolding own_pages_def using one two by blast
qed

text \<open>The addresses of \<open>n\<close> pages from \<open>v\<close> on.\<close>

definition page_range :: "u32 \<Rightarrow> nat \<Rightarrow> u32 set" where
  "page_range v n = {w. unat v \<le> unat w \<and> unat w < unat v + n * 4096}"

lemma div_page: "p = x div 4096 \<longleftrightarrow> p * 4096 \<le> x \<and> x < p * 4096 + 4096" for x :: nat
proof
  assume "p = x div 4096"
  then show "p * 4096 \<le> x \<and> x < p * 4096 + 4096" using div_mult_mod_eq [of x 4096] mod_less_divisor [of 4096 x] by linarith
next
  assume "p * 4096 \<le> x \<and> x < p * 4096 + 4096"
  then show "p = x div 4096" by (intro div_nat_eqI [symmetric]) simp_all
qed

lemma page_range_Suc:
  assumes "unat v mod 4096 = 0" "unat v + Suc n * 4096 < 4294967296"
  shows "page_range v (Suc n) = page_range v n \<union> {w. same_page (v + of_nat (n * 4096)) w}"
proof -
  have "unat (of_nat (n * 4096) :: u32) = n * 4096" using assms(2) by (intro unat_of_nat32) simp
  moreover have "unat v + n * 4096 < 2 ^ LENGTH(32)" using assms(2) by simp
  ultimately have u: "unat (v + of_nat (n * 4096)) = unat v + n * 4096" by (metis unat_add_nowrap)
  define q where "q = unat v div 4096"
  have q: "unat v = q * 4096" using assms(1) div_mult_mod_eq [of "unat v" 4096] by (simp add: q_def)
  have "(q * 4096 + n * 4096) div 4096 = q + n" unfolding add_mult_distrib [symmetric] by simp
  then have "same_page (v + of_nat (n * 4096)) w \<longleftrightarrow> (q + n) * 4096 \<le> unat w \<and> unat w < (q + n) * 4096 + 4096" for w
    unfolding same_page_div u q by (metis div_page)
  then have "{w. same_page (v + of_nat (n * 4096)) w} = {w. q * 4096 + n * 4096 \<le> unat w \<and> unat w < q * 4096 + Suc n * 4096}"
    by (intro Collect_cong) (simp only: add_mult_distrib, simp add: algebra_simps)
  moreover have "{w :: u32. q * 4096 \<le> unat w \<and> unat w < q * 4096 + Suc n * 4096} =
      {w. q * 4096 \<le> unat w \<and> unat w < q * 4096 + n * 4096} \<union> {w. q * 4096 + n * 4096 \<le> unat w \<and> unat w < q * 4096 + Suc n * 4096}"
    by (rule set_eqI) (simp, linarith)
  ultimately show ?thesis unfolding page_range_def q by simp
qed

end
