(* ===== verification/Elf_Load.thy ===== *)
theory Elf_Load
  imports Elf Boot_Alloc
begin

text \<open>
  What the kernel loader achieves: mapping a range of pages, and loading a segment of the
  open file into them.
\<close>

section \<open>Mapping a range\<close>

text \<open>No directory entry becomes a big page.\<close>

definition keeps_small :: "machine \<Rightarrow> machine \<Rightarrow> bool" where
  "keeps_small m m' \<longleftrightarrow> (\<forall>q. big_page (pmem m' (cr3 m') q) \<longrightarrow> big_page (pmem m (cr3 m) q))"

lemma keeps_small_trans: "keeps_small a b \<Longrightarrow> keeps_small b c \<Longrightarrow> keeps_small a c"
  by (simp add: keeps_small_def)

lemma map_range_ready:
  assumes r: "boot_ready rg s" and al: "unat addr mod 4096 = 0"
    and P: "P = unat n div 4096 + 1" and top: "unat addr + P * 4096 \<le> 4290772992"
    and room: "(rg_lo rg + 2 * P) * 4096 \<le> unat (bp_addr s)"
    and small: "\<And>w. w \<in> page_range addr P \<Longrightarrow> \<not> big_page (pmem (bp_mem s) (cr3 (bp_mem s)) (pdi_of w))"
    and own: "own_pages (bp_mem s) A" "\<And>w. w \<in> A \<Longrightarrow> pdi_of w \<noteq> 1023"
  shows "\<exists>s'. map_range s addr n = Inr s' \<and> boot_ready rg s' \<and> own_pages (bp_mem s') (A \<union> page_range addr P) \<and>
    unat (bp_addr s) \<le> unat (bp_addr s') + P * 8192 \<and> keeps_small (bp_mem s) (bp_mem s')"
proof -
  define N where "N = unat n"
  let ?k = "\<lambda>j. of_nat (j * 4096) :: u32"
  let ?J = "\<lambda>j t. boot_ready rg t \<and> own_pages (bp_mem t) (A \<union> page_range addr j) \<and> unat (bp_addr s) \<le> unat (bp_addr t) + j * 8192 \<and>
    (\<forall>q. big_page (pmem (bp_mem t) (cr3 (bp_mem t)) q) \<longrightarrow> big_page (pmem (bp_mem s) (cr3 (bp_mem s)) q))"
  let ?I = "\<lambda>(k, t). \<exists>j\<le>P. k = ?k j \<and> ?J j t"
  have uk: "unat (?k j) = j * 4096" if "j \<le> P" for j
  proof (rule unat_of_nat32)
    have "j * 4096 \<le> P * 4096" using that by simp
    then show "j * 4096 < 4294967296" using top by linarith
  qed
  have ua: "unat (addr + ?k j) = unat addr + j * 4096" if "j < P" for j
  proof -
    have "j * 4096 \<le> P * 4096" using that by simp
    then have "unat addr + unat (?k j) < 2 ^ LENGTH(32)" using top uk [of j] that by simp
    then show ?thesis using uk [of j] that by (metis unat_add_nowrap order_less_imp_le)
  qed
  have lt: "?k j \<le> n \<longleftrightarrow> j < P" if "j \<le> P" for j
    using uk [OF that] by (simp add: word_le_nat_alt P N_def [symmetric]) linarith
  have step: "\<exists>t'. boot_pt_map t (addr + ?k j) = Inr t' \<and> ?J (Suc j) t'" if j: "j < P" and J: "?J j t" for j t
  proof -
    have jP: "Suc j * 4096 \<le> P * 4096" using j by simp
    have pr: "page_range addr (Suc j) = page_range addr j \<union> {w. same_page (addr + ?k j) w}"
      by (rule page_range_Suc) (use al jP top in linarith)+
    have low: "pdi_of w \<noteq> 1023" if "w \<in> page_range addr (Suc j)" for w
      using that jP top unfolding below_window page_range_def by simp
    have v: "addr + ?k j \<in> page_range addr (Suc j)" "addr + ?k j \<in> page_range addr P"
      unfolding page_range_def mem_Collect_eq ua [OF j] using jP by auto
    have "(rg_lo rg + 2) * 4096 \<le> unat (bp_addr t)" using J jP room by (simp add: add_mult_distrib)
    moreover have "\<not> big_page (pmem (bp_mem t) (cr3 (bp_mem t)) (pdi_of (addr + ?k j)))" using J small [OF v(2)] by blast
    ultimately obtain t' f where t: "boot_pt_map t (addr + ?k j) = Inr t'" "boot_ready rg t'" "unat (bp_addr t) \<le> unat (bp_addr t') + 8192"
      "\<And>w. pdi_of w \<noteq> 1023 \<Longrightarrow> translate (bp_mem t') w = (if same_page (addr + ?k j) w then Some (f, woff_of w) else translate (bp_mem t) w)"
      "fresh_frame (bp_mem t) f" "unused_frame (bp_mem t') f"
      "\<And>w g i. pdi_of w \<noteq> 1023 \<Longrightarrow> translate (bp_mem t) w = Some (g, i) \<Longrightarrow> unused_frame (bp_mem t) g \<Longrightarrow> unused_frame (bp_mem t') g"
      "\<And>q. big_page (pmem (bp_mem t') (cr3 (bp_mem t')) q) \<Longrightarrow> big_page (pmem (bp_mem t) (cr3 (bp_mem t)) q)"
      using boot_pt_map_ready [of rg t "addr + ?k j"] J low [OF v(1)] by (smt (verit))
    have "own_pages (bp_mem t') ((A \<union> page_range addr j) \<union> {w. same_page (addr + ?k j) w})"
      by (rule own_pages_map [OF _ _ _ t(4-7)]) (use J low own(2) v(1) pr in auto)
    then have "own_pages (bp_mem t') (A \<union> page_range addr (Suc j))" unfolding pr Un_assoc .
    moreover have "unat (bp_addr s) \<le> unat (bp_addr t') + Suc j * 8192" using J t(3) by simp
    ultimately show ?thesis using t(1,2,8) J by blast
  qed
  have "\<exists>x. whileR 1048577 (\<lambda>(k, s). Inr (k \<le> n))
       (\<lambda>(k, s). bindR (boot_pt_map s (addr + k)) (\<lambda>s. Inr (k + 0x1000, s))) (0, s) = Inr x \<and> ?I x \<and>
     (\<lambda>(k, s). Inr (k \<le> n)) x = (Inr False :: bool res)"
  proof (rule whileR_total [where I = ?I and m = "\<lambda>(k, t). P - unat k div 4096"])
    have "A \<union> page_range addr 0 = A" by (auto simp: page_range_def)
    then show "?I (0, s)" using r own(1) by auto
    have "P * 4096 \<le> 4290772992" using top by simp
    then show "(\<lambda>(k, t). P - unat k div 4096) (0, s) < 1048577" by simp
  next
    fix x assume I: "?I x" and g: "(\<lambda>(k, s). Inr (k \<le> n)) x = (Inr True :: bool res)"
    obtain k t where x: "x = (k, t)" by fastforce
    obtain j where j: "j \<le> P" "k = ?k j" "?J j t" using I x by auto
    have "j < P" using g lt [OF j(1)] by (simp add: x j(2))
    then obtain t' where t': "boot_pt_map t (addr + ?k j) = Inr t'" "?J (Suc j) t'" using step j(3) by blast
    have k': "k + 0x1000 = ?k (Suc j)" by (simp add: j(2) algebra_simps)
    have d: "unat (k + 0x1000) div 4096 = Suc j" "unat k div 4096 = j"
      unfolding k' unfolding j(2) using uk [of "Suc j"] uk [of j] \<open>j < P\<close> by (simp_all only: Suc_leI order_less_imp_le) simp_all
    have t1: "boot_pt_map t (addr + k) = Inr t'" using t'(1) j(2) by simp
    have "\<exists>i\<le>P. k + 0x1000 = ?k i \<and> ?J i t'" using k' t'(2) \<open>j < P\<close> by (metis Suc_leI)
    then show "\<exists>s'. (\<lambda>(k, s). bindR (boot_pt_map s (addr + k)) (\<lambda>s. Inr (k + 0x1000, s))) x = Inr s' \<and> ?I s' \<and>
        (\<lambda>(k, t). P - unat k div 4096) s' < (\<lambda>(k, t). P - unat k div 4096) x"
      unfolding x prod.case t1 bindR_Inr using d \<open>j < P\<close> by (intro exI [of _ "(k + 0x1000, t')"]) simp
  qed auto
  then obtain j t where fin: "whileR 1048577 (\<lambda>(k, s). Inr (k \<le> n))
       (\<lambda>(k, s). bindR (boot_pt_map s (addr + k)) (\<lambda>s. Inr (k + 0x1000, s))) (0, s) = Inr (?k j, t)" "j \<le> P" "?J j t" "\<not> ?k j \<le> n"
    by auto
  then have "j = P" using lt by (metis le_neq_implies_less)
  then show ?thesis using fin unfolding map_range_def keeps_small_def by auto
qed

text \<open>The loop's \<open>\<le>\<close> maps a page even for an empty range, and one too many for whole pages.\<close>

lemma map_range_empty: "map_range s addr 0 = boot_pt_map s addr"
proof -
  obtain n where n: "1048577 = Suc (Suc n)" using that [of 1048575] by simp
  show ?thesis unfolding map_range_def n by (cases "boot_pt_map s addr") simp_all
qed

section \<open>Loading a segment\<close>

lemma same_tables_ready:
  assumes "boot_ready rg s" "same_tables (bp_mem s) m"
  shows "boot_ready rg (s\<lparr>bp_mem := m\<rparr>)"
proof -
  note S = same_tablesD [OF assms(2)]
  have "uses_taken rg s m = uses_taken rg s (bp_mem s)" unfolding uses_taken_def S(1-3) ..
  then show ?thesis using assms(1) by (simp add: boot_ready_def fresh_frame_def S)
qed

text \<open>The bytes of a segment go to pages it owns, zeros after them.\<close>

lemma store_segment:
  assumes own: "own_pages m A" and A: "\<forall>k<n. v + of_nat k \<in> A" and len: "length bytes \<le> n" and n: "n < 4294967296"
  shows "\<exists>m1 m2. store_bytes m v bytes = Inr m1 \<and>
    memset_virt m1 (v + of_nat (length bytes)) 0 (of_nat n - of_nat (length bytes)) = Inr m2 \<and> same_tables m m2 \<and>
    (\<forall>k<n. rd8 m2 (v + of_nat k) = Inr (if k < length bytes then bytes ! k else 0))"
proof -
  let ?b = "length bytes"
  have uo: "unat (of_nat k :: u32) = k" if "k \<le> n" for k by (rule unat_of_nat32) (use that n in linarith)
  have "\<forall>k<?b. v + of_nat k \<in> A" using A len by simp
  from fill_owned [OF own this] obtain m1 where m1: "store_bytes m v bytes = Inr m1" "same_tables m m1"
    "\<forall>w\<in>A. rd8 m1 w = (if unat (w - v) < ?b then Inr (bytes ! unat (w - v)) else rd8 m w)"
    using len n unfolding store_bytes_def by auto
  have own1: "own_pages m1 A" using own own_pages_same_tables [OF m1(2)] by blast
  have "(of_nat n :: u32) - of_nat ?b = of_nat (n - ?b)" using len by simp
  then have cnt: "unat ((of_nat n :: u32) - of_nat ?b) = n - ?b" using uo [of "n - ?b"] by simp
  have "\<forall>k<n - ?b. v + of_nat ?b + of_nat k \<in> A"
  proof (intro allI impI)
    fix k assume "k < n - ?b"
    then have "v + of_nat (?b + k) \<in> A" using A by (metis add.commute less_diff_conv)
    then show "v + of_nat ?b + of_nat k \<in> A" by (simp add: add.assoc)
  qed
  moreover have "n - ?b \<le> 4294967296" using n by linarith
  ultimately obtain m2 where m2: "memset_virt m1 (v + of_nat ?b) 0 (of_nat n - of_nat ?b) = Inr m2"
    "same_tables m1 m2" "\<forall>w\<in>A. rd8 m2 w = (if unat (w - (v + of_nat ?b)) < n - ?b then Inr 0 else rd8 m1 w)"
    using fill_owned [OF own1, of "n - ?b" "v + of_nat ?b" "\<lambda>_. 0"] unfolding memset_virt_def cnt by blast
  have "rd8 m2 (v + of_nat k) = Inr (if k < ?b then bytes ! k else 0)" if k: "k < n" for k
  proof -
    have kA: "v + of_nat k \<in> A" using k A by simp
    have uk: "unat (of_nat k :: u32) = k" using uo k by simp
    show ?thesis
    proof (cases "k < ?b")
      case True
      then have "unat ((of_nat k :: u32) - of_nat ?b) = k + 4294967296 - ?b"
        using uo [of ?b] uk len by (simp add: unat_sub_if')
      then have "\<not> unat (v + of_nat k - (v + of_nat ?b)) < n - ?b" using True len n by simp
      then show ?thesis using m2(3) m1(3) kA True uk by simp
    next
      case False
      have "(of_nat k :: u32) - of_nat ?b = of_nat (k - ?b)" using False by simp
      then have "unat ((of_nat k :: u32) - of_nat ?b) = k - ?b" using uo [of "k - ?b"] k by simp
      then have "unat (v + of_nat k - (v + of_nat ?b)) < n - ?b" using False k by simp
      then show ?thesis using m2(3) kA False by simp
    qed
  qed
  then show ?thesis using m1(1) m2(1) same_tables_trans [OF m1(2) m2(2)] by blast
qed

text \<open>
  Loading a page-aligned segment when the pages \<open>A\<close> have been mapped before: if they and
  the segment's own pages cover its memory, that holds the bytes of the file from the
  segment's offset on and zeros after them.
\<close>

lemma load_segment_loads:
  assumes opened: "file_open disk drv (ld_fat l) cl" and r: "boot_ready rg (ld_boot l)"
    and al: "unat (p_vaddr b) mod 4096 = 0" "p_vaddr b \<noteq> 0"
    and P: "P = unat (p_filesz b) div 4096 + 1" and top: "unat (p_vaddr b) + P * 4096 \<le> 4290772992"
    and room: "(rg_lo rg + 2 * P) * 4096 \<le> unat (bp_addr (ld_boot l))"
    and small: "\<And>w. w \<in> page_range (p_vaddr b) P \<Longrightarrow>
      \<not> big_page (pmem (bp_mem (ld_boot l)) (cr3 (bp_mem (ld_boot l))) (pdi_of w))"
    and inside: "unat (p_offset b) + unat (p_filesz b) \<le> unat (fsize (pff_fs (ld_fat l)))"
    and own: "own_pages (bp_mem (ld_boot l)) A" "\<And>w. w \<in> A \<Longrightarrow> pdi_of w \<noteq> 1023"
    and mem: "p_filesz b \<le> p_memsz b" "\<forall>k<unat (p_memsz b). p_vaddr b + of_nat k \<in> A \<union> page_range (p_vaddr b) P"
  shows "\<exists>l'. load_segment disk b l = Inr l' \<and> file_open disk drv (ld_fat l') cl \<and> boot_ready rg (ld_boot l') \<and>
    own_pages (bp_mem (ld_boot l')) (A \<union> page_range (p_vaddr b) P) \<and>
    unat (bp_addr (ld_boot l)) \<le> unat (bp_addr (ld_boot l')) + P * 8192 \<and>
    keeps_small (bp_mem (ld_boot l)) (bp_mem (ld_boot l')) \<and>
    (\<forall>k<unat (p_memsz b). rd8 (bp_mem (ld_boot l')) (p_vaddr b + of_nat k) =
      Inr (if k < unat (p_filesz b) then file_byte disk drv (pff_fs (ld_fat l)) cl (unat (p_offset b) + k) else 0))"
proof -
  let ?fs = "pff_fs (ld_fat l)" and ?v = "p_vaddr b" and ?n = "unat (p_filesz b)"
  obtain f1 where f1: "pf_lseek disk (ld_fat l) (p_offset b) = Inr (FR_OK, f1)" "file_open disk drv f1 cl"
    "unat (fptr (pff_fs f1)) = unat (p_offset b)" "same_file ?fs (pff_fs f1)"
    using pf_lseek_ok [OF opened, of "p_offset b"] inside by auto
  obtain s where s: "map_range (ld_boot l) ?v (p_filesz b) = Inr s" "boot_ready rg s" "own_pages (bp_mem s) (A \<union> page_range ?v P)"
    "unat (bp_addr (ld_boot l)) \<le> unat (bp_addr s) + P * 8192" "keeps_small (bp_mem (ld_boot l)) (bp_mem s)"
    using map_range_ready [OF r al(1) P top room small own] by blast
  let ?bytes = "map (file_byte disk drv (pff_fs f1) cl) [unat (p_offset b)..<unat (p_offset b) + ?n]"
  have n: "?n = min ?n (unat (fsize (pff_fs f1)) - unat (fptr (pff_fs f1)))"
    unfolding f1(3) same_fileD(2) [OF f1(4)] using inside by simp
  have "?n \<le> P * 4096" using P by simp
  then have "unat ?v + ?n < 4294967296" using top by linarith
  from pf_read_ok [OF f1(2) al(2) n this] obtain f2 where
    f2: "pf_read disk f1 ?v (p_filesz b) = Inr (FR_OK, p_filesz b, ?bytes, f2)" "file_open disk drv f2 cl"
    by (auto simp: f1(3))
  have len: "length ?bytes = ?n" "?n \<le> unat (p_memsz b)" using mem(1) by (simp_all add: word_le_nat_alt)
  have "unat (p_memsz b) < 4294967296" using unsigned_less [of "p_memsz b", where ?'a = nat] by simp
  then obtain m1 m2 where m: "store_bytes (bp_mem s) ?v ?bytes = Inr m1"
    "memset_virt m1 (?v + p_filesz b) 0 (p_memsz b - p_filesz b) = Inr m2" "same_tables (bp_mem s) m2"
    "\<forall>k<unat (p_memsz b). rd8 m2 (?v + of_nat k) = Inr (if k < ?n then ?bytes ! k else 0)"
    using store_segment [OF s(3) mem(2), of ?bytes] len by auto
  have "load_segment disk b l = Inr (l\<lparr>ld_boot := s\<lparr>bp_mem := m2\<rparr>, ld_fat := f2\<rparr>)"
    by (simp add: load_segment_def f1(1) s(1) f2(1) m(1,2))
  moreover have "boot_ready rg (s\<lparr>bp_mem := m2\<rparr>)" by (rule same_tables_ready [OF s(2) m(3)])
  moreover have "?bytes ! k = file_byte disk drv ?fs cl (unat (p_offset b) + k)" if "k < ?n" for k
    using that by (simp add: same_file_chain(2) [OF f1(4)])
  moreover have "own_pages m2 (A \<union> page_range ?v P)" using s(3) own_pages_same_tables [OF m(3)] by blast
  moreover have "keeps_small (bp_mem (ld_boot l)) m2" using s(5) same_tablesD [OF m(3)] by (simp add: keeps_small_def)
  ultimately show ?thesis using m(4) f2(2) s(4) by (intro exI [of _ "l\<lparr>ld_boot := s\<lparr>bp_mem := m2\<rparr>, ld_fat := f2\<rparr>"]) simp
qed

text \<open>An allocator above 8 MiB.\<close>

definition example_loader :: loader where
  "example_loader = \<lparr>ld_boot = \<lparr>bp_mem = example_machine,
     bp_e820 = [\<lparr>sm32_base = 0x800000, sm32_length = 0x10000, sm32_type = 1, sm32_acpi = 0\<rparr>], bp_index = 0, bp_addr = 0x810000\<rparr>,
     ld_fat = example_pff\<rparr>"

section \<open>The header buffer\<close>

text \<open>
  The program header overwrites the end of the ELF header: the number of program headers
  is the low half of the segment's physical address, the size of one the high half of its
  virtual address.
\<close>

lemma header_overlap:
  "e_phnum b = ucast (p_paddr b)" "e_phentsize b = ucast (drop_bit 16 (p_vaddr b))"
  unfolding e_phnum_def p_paddr_def e_phentsize_def p_vaddr_def elf_layout ld_word_def ld_dword_def Let_def
  by (rule bit_word_eqI; auto simp: bit_simps dest: bit_imp_le_length)+

text \<open>
  Once a program header has been read whose physical address is a multiple of 64 KiB,
  the loop over the program headers ends, whatever their number in the file: of a kernel
  with several segments only the first is loaded, and the entry point is still returned.
\<close>

lemma elf_loads_one_segment:
  assumes "e_phnum b \<noteq> 0" "ph_body disk bufp (True, 0, b, l) = Inr (True, 1, b1, l1)" "unat (p_paddr b1) mod 65536 = 0"
  shows "whileR 65537 ph_guard (ph_body disk bufp) (True, 0, b, l) = Inr (True, 1, b1, l1)"
proof -
  have "e_phnum b1 = 0"
    unfolding header_overlap by (simp add: word_unat_eq_iff unsigned_ucast_eq take_bit_eq_mod assms(3))
  moreover obtain n where n: "65537 = Suc (Suc n)" using that [of 65535] by simp
  moreover have "0 < unat (e_phnum b)" using assms(1) by (simp add: word_unat_eq_iff)
  ultimately show ?thesis unfolding n by (simp add: ph_guard_def assms(2))
qed

text \<open>An ELF header that announces two program headers.\<close>

definition two_segments :: "u8 list" where
  "two_segments = (replicate 124 0)[44 := 2]"

lemma put_nth:
  "i \<le> j \<Longrightarrow> j < i + length bytes \<Longrightarrow> i \<le> length b \<Longrightarrow> put b i bytes ! j = bytes ! (j - i)"
  by (simp add: put_def nth_append less_diff_conv2)

section \<open>What is refused\<close>

lemma supported_fields:
  assumes "elf_is_supported h"
  shows "take 4 h = [0x7F, 0x45, 0x4C, 0x46] \<and> h ! 4 = 1 \<and> h ! 5 = 1 \<and> h ! 6 = 1 \<and> ld_word h 16 = 2 \<and> ld_word h 18 = 3"
  using assms unfolding elf_is_supported_def elf_is_elf_def ELF_MAGIC_def ELFCLASS32_def ELF_LSB_def EM_X86_def ET_EXEC_def
    e_type_def e_machine_def by (simp only: if_not_P simp_thms split: if_splits)

text \<open>
  C29: a file that cannot be opened or read, a buffer that cannot hold the three headers and
  a file that does not begin with the header of a 32-bit little-endian x86 executable of
  version 1 are refused: \<open>elf_load_file\<close> returns NULL and has mapped nothing.
\<close>

theorem elf_refuses_others:
  assumes "pf_open disk (ld_fat l) sp dir filename = Inr (r, f)" "pf_read disk f bufp 52 = Inr (r2, n, bytes, f')"
    and "\<not> (r = FR_OK \<and> 124 \<le> unat bufsiz \<and> r2 = FR_OK \<and> n = 52 \<and> take 4 (put b 0 bytes) = [0x7F, 0x45, 0x4C, 0x46] \<and>
      put b 0 bytes ! 4 = 1 \<and> put b 0 bytes ! 5 = 1 \<and> put b 0 bytes ! 6 = 1 \<and>
      ld_word (put b 0 bytes) 16 = 2 \<and> ld_word (put b 0 bytes) 18 = 3)"
  shows "\<exists>b' l'. elf_load_file disk sp dir l filename bufp b bufsiz = Inr (0, b', l') \<and> ld_boot l' = ld_boot l"
proof -
  have "r \<noteq> FR_OK \<or> unat bufsiz < 124 \<or> r2 \<noteq> FR_OK \<or> n \<noteq> 52 \<or> \<not> elf_is_supported (put b 0 bytes)"
    using assms(3) supported_fields [of "put b 0 bytes"] by linarith
  then show ?thesis unfolding elf_load_file_def assms(1) bindR_Inr Let_def prod.case
    using assms(2) by (cases "r \<noteq> FR_OK \<or> unat bufsiz < 124") (auto simp: elf_layout)
qed

text \<open>With no volume mounted the file cannot be opened.\<close>

theorem elf_refuses_others_witness:
  "\<exists>b' l'. elf_load_file example_disk (replicate 12 0) (replicate 32 0) (example_loader\<lparr>ld_fat := example_pff\<lparr>pff_mounted := False\<rparr>\<rparr>)
      kernel_name 0x9000 two_segments 124 = Inr (0, b', l') \<and> ld_boot l' = ld_boot example_loader"
proof -
  let ?l = "example_loader\<lparr>ld_fat := example_pff\<lparr>pff_mounted := False\<rparr>\<rparr>"
  have "pf_open example_disk (ld_fat ?l) (replicate 12 0) (replicate 32 0) kernel_name = Inr (FR_NOT_ENABLED, ld_fat ?l)"
    "pf_read example_disk (ld_fat ?l) 0x9000 52 = Inr (FR_NOT_ENABLED, 0, [], ld_fat ?l)"
    by (simp_all add: pf_open_def pf_read_def)
  from elf_refuses_others [OF this, of 124 two_segments] show ?thesis by simp
qed

end
