(* ===== verification/Fat_Mount.thy ===== *)
theory Fat_Mount
  imports Fat_Path
begin

text \<open>
  Mounting: the fields of the boot sector as numbers, what a boot sector must satisfy for
  them to fit, and the proof that \<open>pf_mount\<close> finds the volume, on the whole drive or in
  its first partition, and derives a volume on which reading and searching are correct.
\<close>

section \<open>The boot sector\<close>

text \<open>Sectors in all, of the tables, before the data area, and clusters of the data area.\<close>

definition boot_total :: "u8 list \<Rightarrow> nat" where
  "boot_total b = (if ld_word b 19 = 0 then unat (ld_dword b 32) else unat (ld_word b 19))"

definition boot_fats :: "u8 list \<Rightarrow> nat" where
  "boot_fats b = (if ld_word b 22 = 0 then unat (ld_dword b 36) else unat (ld_word b 22)) * unat (b ! 16)"

definition boot_offset :: "u8 list \<Rightarrow> nat" where
  "boot_offset b = unat (ld_word b 14) + boot_fats b + unat (ld_word b 17) div 16"

definition boot_clusters :: "u8 list \<Rightarrow> nat" where
  "boot_clusters b = (boot_total b - boot_offset b) div unat (b ! 13)"

definition fat_signed :: "u8 list \<Rightarrow> bool" where
  "fat_signed b \<longleftrightarrow> ld_word b 510 = 0xAA55 \<and> (ld_word b 54 = 0x4146 \<or> ld_word b 82 = 0x4146)"

text \<open>
  A boot sector at sector \<open>bs\<close>: signatures, a cluster size that is a power of two,
  reserved sectors and tables, areas that fit into the volume and the volume into 32-bit
  sector numbers, and enough clusters for FAT16.
\<close>

definition boot_ok :: "u32 \<Rightarrow> u8 list \<Rightarrow> bool" where
  "boot_ok bs b \<longleftrightarrow> fat_signed b \<and> list_ex (\<lambda>e. unat (b ! 13) = 2 ^ e) [0..<8] \<and>
     0 < unat (ld_word b 14) \<and> 0 < boot_fats b \<and> boot_offset b \<le> boot_total b \<and>
     unat bs + boot_total b \<le> 4294967295 \<and> 0xFF6 \<le> boot_clusters b"

text \<open>The volume it describes.\<close>

definition mounted :: "FATFS \<Rightarrow> u32 \<Rightarrow> u8 list \<Rightarrow> FATFS" where
  "mounted fs bs b =
     (let fat32 = 0xFFF7 \<le> boot_clusters b + 2; fat = bs + ucast (ld_word b 14) in
      fs\<lparr>fatbase := fat, csize := b ! 13, n_rootdir := ld_word b 17, n_fatent := of_nat (boot_clusters b + 2),
         fs_type := if fat32 then FS_FAT32 else FS_FAT16,
         dirbase := if fat32 then ld_dword b 44 else fat + of_nat (boot_fats b),
         database := bs + of_nat (boot_offset b), fs_flag := 0\<rparr>)"

lemma boot_okD:
  assumes "boot_ok bs b"
  shows "0 < unat (b ! 13)" "boot_clusters b * unat (b ! 13) + boot_offset b \<le> boot_total b" "boot_total b < 4294967296"
    "boot_clusters b + 2 \<le> boot_total b"
proof -
  obtain e where "unat (b ! 13) = 2 ^ e" using assms by (auto simp: boot_ok_def list_ex_iff)
  then show c: "0 < unat (b ! 13)" by simp
  have o: "boot_offset b \<le> boot_total b" "unat (ld_word b 14) \<ge> 1" "boot_fats b \<ge> 1" using assms by (auto simp: boot_ok_def)
  have "boot_clusters b * unat (b ! 13) \<le> boot_total b - boot_offset b" by (simp add: boot_clusters_def)
  then show 1: "boot_clusters b * unat (b ! 13) + boot_offset b \<le> boot_total b" using o(1) by linarith
  show "boot_total b < 4294967296" using assms by (simp add: boot_ok_def)
  have "boot_clusters b \<le> boot_clusters b * unat (b ! 13)" using c by simp
  moreover have "2 \<le> boot_offset b" using o(2,3) by (simp add: boot_offset_def)
  ultimately show "boot_clusters b + 2 \<le> boot_total b" using 1 by linarith
qed

lemma word_of_unat: "unat (w :: u32) = n \<Longrightarrow> w = of_nat n"
  by auto

lemma ucast_of_nat: "LENGTH('a) \<le> 32 \<Longrightarrow> (ucast (w :: 'a::len word) :: u32) = of_nat (unat w)"
  by (rule word_of_unat) simp

lemma mount_fields_ok:
  assumes "boot_ok bs b" "length b = 512"
  shows "mount_fields fs bs (take 36 (drop 13 b)) = Inr (FR_OK, mounted fs bs b)"
proof -
  let ?buf = "take 36 (drop 13 b)"
  note d = boot_okD [OF assms(1)]
  define N where "N = boot_clusters b + 2"
  have f: "ld_word ?buf 1 = ld_word b 14" "ld_word ?buf 4 = ld_word b 17" "ld_word ?buf 6 = ld_word b 19" "ld_word ?buf 9 = ld_word b 22"
    "ld_dword ?buf 19 = ld_dword b 32" "ld_dword ?buf 23 = ld_dword b 36" "ld_dword ?buf 31 = ld_dword b 44" "?buf ! 0 = b ! 13" "?buf ! 3 = b ! 16"
    using assms(2) by (simp_all add: ld_word_part ld_dword_part)
  have ts: "(if ld_word b 19 = 0 then ld_dword b 32 else ucast (ld_word b 19)) = of_nat (boot_total b)"
    by (simp add: boot_total_def)
  have fz: "(if ld_word b 22 = 0 then ld_dword b 36 else ucast (ld_word b 22)) * ucast (b ! 16) = of_nat (boot_fats b)"
    by (simp add: boot_fats_def)
  have rd: "(ucast (ld_word b 17 div 16) :: u32) = of_nat (unat (ld_word b 17) div 16)"
    by (subst ucast_of_nat) (simp_all add: unat_div_distrib)
  have off: "(ucast (ld_word b 14) + of_nat (boot_fats b) + of_nat (unat (ld_word b 17) div 16) :: u32) = of_nat (boot_offset b)"
    by (simp add: boot_offset_def)
  have le: "boot_offset b \<le> boot_total b" using d(2) by linarith
  have "of_nat (boot_total b) - ucast (ld_word b 14) - of_nat (boot_fats b) - of_nat (unat (ld_word b 17) div 16) =
    of_nat (boot_total b) - (of_nat (boot_offset b) :: u32)" unfolding off [symmetric] by (simp add: algebra_simps)
  also have "\<dots> = of_nat (boot_total b - boot_offset b)" using le by simp
  finally have data: "of_nat (boot_total b) - ucast (ld_word b 14) - of_nat (boot_fats b) - of_nat (unat (ld_word b 17) div 16) =
    (of_nat (boot_total b - boot_offset b) :: u32)" .
  have n: "(of_nat (boot_total b - boot_offset b) :: u32) div ucast (b ! 13) + 2 = of_nat (N)"
  proof -
    have "unat (of_nat (boot_total b - boot_offset b) :: u32) = boot_total b - boot_offset b" using d(3) by (intro unat_of_nat32) simp
    then have "unat ((of_nat (boot_total b - boot_offset b) :: u32) div ucast (b ! 13)) = boot_clusters b"
      by (simp add: unat_div_distrib boot_clusters_def)
    from word_of_unat [OF this] show ?thesis by (simp add: N_def)
  qed
  have un: "unat (of_nat (N) :: u32) = N" using d(3,4) by (intro unat_of_nat32) (simp add: N_def)
  have c0: "b ! 13 \<noteq> 0" using d(1) by auto
  have c: "0xFF8 \<le> N" using assms(1) by (simp add: boot_ok_def N_def)
  have cmp: "of_nat (N) \<ge> (0xFFF7 :: u32) \<longleftrightarrow> 0xFFF7 \<le> N"
    "of_nat (N) < (0xFFF7 :: u32) \<longleftrightarrow> \<not> 0xFFF7 \<le> N"
    "of_nat (N) \<ge> (0xFF8 :: u32)"
    unfolding word_le_nat_alt word_less_nat_alt un using c by (simp_all add: not_le)
  have fmt: "FS_FAT32 \<noteq> 0" "FS_FAT16 \<noteq> 0" "FS_FAT32 \<noteq> FS_FAT16" by (simp_all add: FS_FAT32_def FS_FAT16_def)
  have db: "bs + ucast (ld_word b 14) + of_nat (boot_fats b) + of_nat (unat (ld_word b 17) div 16) = bs + of_nat (boot_offset b)"
    unfolding off [symmetric] by (simp add: add.assoc)
  show ?thesis
    unfolding mount_fields_def f ts fz Let_def mounted_def N_def [symmetric]
    using c0 fmt by (simp add: rd data n cmp db)
qed

text \<open>The volume is one on which the file system works, and its root can be searched.\<close>

lemma mounted_numbers:
  assumes "boot_ok bs b"
  shows "unat (n_fatent (mounted fs bs b)) = boot_clusters b + 2" "unat (fatbase (mounted fs bs b)) = unat bs + unat (ld_word b 14)"
    "unat (database (mounted fs bs b)) = unat bs + boot_offset b" "csize (mounted fs bs b) = b ! 13"
    "fs_type (mounted fs bs b) = (if 65525 \<le> boot_clusters b then FS_FAT32 else FS_FAT16)"
proof -
  note d = boot_okD [OF assms]
  define N where "N = boot_clusters b + 2"
  have a: "unat bs + boot_total b \<le> 4294967295" using assms by (simp add: boot_ok_def)
  have off: "unat (ld_word b 14) + boot_fats b \<le> boot_offset b" by (simp add: boot_offset_def)
  have un: "unat (of_nat N :: u32) = N" using d(3,4) by (intro unat_of_nat32) (simp add: N_def)
  have le: "boot_offset b \<le> boot_total b" using d(2) by linarith
  have ub: "unat (bs + ucast (ld_word b 14)) = unat bs + unat (ld_word b 14)"
    using a off le by (subst unat_add_nowrap) simp_all
  have uo: "unat (of_nat (boot_offset b) :: u32) = boot_offset b" using d(3) le by (intro unat_of_nat32) linarith
  then have ud: "unat (bs + of_nat (boot_offset b)) = unat bs + boot_offset b"
    using a le by (subst unat_add_nowrap) simp_all
  show "unat (n_fatent (mounted fs bs b)) = boot_clusters b + 2" "unat (fatbase (mounted fs bs b)) = unat bs + unat (ld_word b 14)"
    "unat (database (mounted fs bs b)) = unat bs + boot_offset b" "csize (mounted fs bs b) = b ! 13"
    unfolding mounted_def Let_def N_def [symmetric] by (simp_all add: un ub ud)
  show "fs_type (mounted fs bs b) = (if 65525 \<le> boot_clusters b then FS_FAT32 else FS_FAT16)"
    by (simp add: mounted_def Let_def)
qed

lemma mounted_volume:
  assumes "boot_ok bs b"
  shows "volume_ok (mounted fs bs b)"
proof -
  note d = boot_okD [OF assms]
  have a: "unat bs + boot_total b \<le> 4294967295" "0xFF6 \<le> boot_clusters b" using assms by (simp_all add: boot_ok_def)
  have off: "unat (ld_word b 14) + boot_fats b \<le> boot_offset b" "0 < boot_offset b"
    using assms by (simp_all add: boot_offset_def boot_ok_def)
  have "boot_clusters b \<le> boot_clusters b * unat (b ! 13)" using d(1) by simp
  moreover have "(boot_clusters b + 2) div 128 < boot_clusters b" using a(2) by linarith
  ultimately have fat: "unat bs + unat (ld_word b 14) + (boot_clusters b + 2) div 128 < 4294967295"
    using d(2) off(1) a(1) by linarith
  have data: "unat bs + boot_offset b + boot_clusters b * unat (b ! 13) \<le> 4294967295" using d(2) a(1) by linarith
  show ?thesis
    unfolding volume_ok_def mounted_numbers [OF assms] using assms fat data off(2) by (simp add: boot_ok_def)
qed

lemma mounted_root16:
  assumes "boot_ok bs b" "boot_clusters b + 2 < 0xFFF7" "0 < unat (ld_word b 17)" "unat (ld_word b 17) mod 16 = 0"
  shows "dir_chain disk drv (mounted fs bs b) 0 []"
proof -
  note d = boot_okD [OF assms(1)]
  have a: "unat bs + boot_total b \<le> 4294967295" "0 < boot_fats b" using assms by (simp_all add: boot_ok_def)
  have le: "unat (ld_word b 14) + boot_fats b + unat (ld_word b 17) div 16 \<le> boot_total b"
    using d(2) by (simp add: boot_offset_def)
  have "unat (bs + ucast (ld_word b 14)) = unat bs + unat (ld_word b 14)"
    using a(1) le by (subst unat_add_nowrap) simp_all
  moreover have "unat (of_nat (boot_fats b) :: u32) = boot_fats b" using d(3) le by (intro unat_of_nat32) linarith
  ultimately have u: "unat (bs + ucast (ld_word b 14) + of_nat (boot_fats b)) = unat bs + unat (ld_word b 14) + boot_fats b"
    using a(1) le by (subst unat_add_nowrap) simp_all
  then have "bs + ucast (ld_word b 14) + of_nat (boot_fats b) \<noteq> 0" using a(2) by (metis add_is_0 less_numeral_extra(3) unat_0)
  moreover have "dirbase (mounted fs bs b) = bs + ucast (ld_word b 14) + of_nat (boot_fats b)"
    "fs_type (mounted fs bs b) = FS_FAT16" "n_rootdir (mounted fs bs b) = ld_word b 17"
    using assms(2) by (simp_all add: mounted_def Let_def)
  ultimately show ?thesis using assms(3,4) le a(1) u
    by (simp add: dir_chain_def FS_FAT16_def FS_FAT32_def)
qed

section \<open>Mounting\<close>

text \<open>
  Where the volume is: sector 0 itself, or the start of the first partition of the table
  in it.
\<close>

definition volume_at :: "disk \<Rightarrow> u16 \<Rightarrow> u32 \<Rightarrow> bool" where
  "volume_at disk drv bs \<longleftrightarrow>
     (let b0 = sector_bytes disk drv 0 in
      if fat_signed b0 then bs = 0
      else ld_word b0 510 = 0xAA55 \<and> b0 ! 450 \<noteq> 0 \<and> bs = ld_dword b0 454)"

lemma check_fs_ok:
  assumes "dcache_ok disk drv (pff_cache s)" "bs \<noteq> 0xFFFFFFFF" "b = sector_bytes disk drv bs"
  shows "\<exists>c. check_fs disk s bs = Inr (if ld_word b 510 \<noteq> 0xAA55 then 2 else if fat_signed b then 0 else 1, s\<lparr>pff_cache := c\<rparr>) \<and>
    dcache_ok disk drv c"
proof -
  have w: "ld_word (take 2 (drop 510 b)) 0 = ld_word b 510" "ld_word (take 2 (drop 54 b)) 0 = ld_word b 54"
    "ld_word (take 2 (drop 82 b)) 0 = ld_word b 82" by (subst ld_word_part; simp add: assms(3))+
  have w': "ld_word (drop 510 b) 0 = ld_word b 510" by (simp add: ld_word_def assms(3))
  obtain c1 where 1: "read_local disk s bs 510 2 = Inr (Some (take 2 (drop 510 b)), s\<lparr>pff_cache := c1\<rparr>)" "dcache_ok disk drv c1"
    using read_local_ok [OF assms(1,2), of 510 2] by (auto simp: assms(3))
  define s1 where "s1 = s\<lparr>pff_cache := c1\<rparr>"
  have "dcache_ok disk drv (pff_cache s1)" using 1(2) by (simp add: s1_def)
  from read_local_ok [OF this assms(2), of 54 2] obtain c2 where
    2: "read_local disk s1 bs 54 2 = Inr (Some (take 2 (drop 54 b)), s1\<lparr>pff_cache := c2\<rparr>)" "dcache_ok disk drv c2"
    by (auto simp: assms(3))
  define s2 where "s2 = s1\<lparr>pff_cache := c2\<rparr>"
  have "dcache_ok disk drv (pff_cache s2)" using 2(2) by (simp add: s2_def)
  from read_local_ok [OF this assms(2), of 82 2] obtain c3 where
    3: "read_local disk s2 bs 82 2 = Inr (Some (take 2 (drop 82 b)), s2\<lparr>pff_cache := c3\<rparr>)" "dcache_ok disk drv c3"
    by (auto simp: assms(3))
  have again: "s1\<lparr>pff_cache := c\<rparr> = s\<lparr>pff_cache := c\<rparr>" "s2\<lparr>pff_cache := c\<rparr> = s\<lparr>pff_cache := c\<rparr>" for c by (simp_all add: s1_def s2_def)
  have e: "check_fs disk s bs = Inr (if ld_word b 510 \<noteq> 0xAA55 then (2, s\<lparr>pff_cache := c1\<rparr>)
      else if ld_word b 54 = 0x4146 then (0, s\<lparr>pff_cache := c2\<rparr>)
      else if ld_word b 82 = 0x4146 then (0, s\<lparr>pff_cache := c3\<rparr>) else (1, s\<lparr>pff_cache := c3\<rparr>))"
    unfolding check_fs_def 1(1) s1_def [symmetric] bindR_Inr prod.case option.case w 2(1) s2_def [symmetric] 3(1)
    by (simp add: w w' again) (simp add: s1_def s2_def)
  show ?thesis
    using 1(2) 2(2) 3(2) unfolding e
    by (intro exI [of _ "if ld_word b 510 \<noteq> 0xAA55 then c1 else if ld_word b 54 = 0x4146 then c2 else c3"]) (simp add: fat_signed_def)
qed

lemma pf_mount_ok:
  assumes "dcache_ok disk drv (pff_cache s)" "drv \<noteq> 0xFFFF" "volume_at disk drv bs" "boot_ok bs (sector_bytes disk drv bs)"
  shows "\<exists>c. pf_mount disk s = Inr (FR_OK, s\<lparr>pff_mounted := True, pff_fs := mounted (pff_fs s) bs (sector_bytes disk drv bs),
      pff_cache := c\<rparr>) \<and> dcache_ok disk drv c"
proof -
  define b0 where "b0 = sector_bytes disk drv 0"
  define b where "b = sector_bytes disk drv bs"
  have lb: "length b0 = 512" "length b = 512" by (simp_all add: b0_def b_def)
  have bs: "bs \<noteq> 0xFFFFFFFF" using boot_okD(4) [OF assms(4)] assms(4) by (auto simp: boot_ok_def)
  have sg: "fat_signed b" using assms(4) by (simp add: boot_ok_def b_def)
  have init: "disk_initialize (pff_cache s) AND STA_NOINIT = 0"
    using assms(1,2) by (simp add: disk_initialize_def dcache_ok_def)
  define s0 where "s0 = s\<lparr>pff_mounted := False\<rparr>"
  have s0: "s0\<lparr>pff_cache := c, pff_mounted := m\<rparr> = s\<lparr>pff_cache := c, pff_mounted := m\<rparr>" for c m by (simp add: s0_def)
  have c0: "dcache_ok disk drv (pff_cache s0)" using assms(1) by (simp add: s0_def)
  obtain c1 where 1: "check_fs disk s0 0 = Inr (if ld_word b0 510 \<noteq> 0xAA55 then 2 else if fat_signed b0 then 0 else 1, s0\<lparr>pff_cache := c1\<rparr>)"
    "dcache_ok disk drv c1" using check_fs_ok [OF c0 _ b0_def] by auto
  have find: "\<exists>c2. bindR (if (if ld_word b0 510 \<noteq> 0xAA55 then 2 else if fat_signed b0 then 0 else 1) = (1 :: u8) then
            bindR (read_local disk (s0\<lparr>pff_cache := c1\<rparr>) 0 446 16) (\<lambda>(r, s).
            case r of None \<Rightarrow> Inr (3, 0, s)
            | Some buf \<Rightarrow>
              if buf ! 4 \<noteq> 0 then
                bindR (check_fs disk s (ld_dword buf 8)) (\<lambda>(fmt, s). Inr (fmt, ld_dword buf 8, s))
              else Inr (if ld_word b0 510 \<noteq> 0xAA55 then 2 else if fat_signed b0 then 0 else 1, 0, s))
          else Inr (if ld_word b0 510 \<noteq> 0xAA55 then 2 else if fat_signed b0 then 0 else 1, 0, s0\<lparr>pff_cache := c1\<rparr>)) k =
      k (0, bs, s0\<lparr>pff_cache := c2\<rparr>) \<and> dcache_ok disk drv c2" for k :: "u8 \<times> u32 \<times> pff \<Rightarrow> (FRESULT \<times> pff) res"
  proof (cases "fat_signed b0")
    case True
    then have "bs = 0" using assms(3) by (simp add: volume_at_def Let_def b0_def)
    then show ?thesis using 1(2) True by (intro exI [of _ c1]) (simp add: fat_signed_def)
  next
    case False
    then have p: "ld_word b0 510 = 0xAA55" "b0 ! 450 \<noteq> 0" "bs = ld_dword b0 454"
      using assms(3) by (simp_all add: volume_at_def Let_def b0_def)
    obtain c2 where 2: "read_local disk (s0\<lparr>pff_cache := c1\<rparr>) 0 446 16 = Inr (Some (take 16 (drop 446 b0)), s0\<lparr>pff_cache := c2\<rparr>)"
      "dcache_ok disk drv c2"
      using read_local_ok [of disk drv "s0\<lparr>pff_cache := c1\<rparr>" 0 446 16] 1(2) by (auto simp: b0_def)
    have w: "take 16 (drop 446 b0) ! 4 = b0 ! 450" "ld_dword (take 16 (drop 446 b0)) 8 = bs"
      using lb(1) by (simp_all add: ld_dword_part p(3))
    obtain c3 where 3: "check_fs disk (s0\<lparr>pff_cache := c2\<rparr>) bs = Inr (0, s0\<lparr>pff_cache := c3\<rparr>)" "dcache_ok disk drv c3"
      using check_fs_ok [of disk drv "s0\<lparr>pff_cache := c2\<rparr>" bs, OF _ bs b_def] 2(2) sg by (auto simp: fat_signed_def)
    show ?thesis using False p(1,2) 2(1) 3 by (intro exI [of _ c3]) (simp add: w)
  qed
  define k where "k = (\<lambda>(fmt :: u8, bsect, s).
        if fmt = 3 then Inr (FR_DISK_ERR, s)
        else if fmt \<noteq> 0 then Inr (FR_NO_FILESYSTEM, s)
        else bindR (read_local disk s bsect 13 36) (\<lambda>(r, s).
          case r of None \<Rightarrow> Inr (FR_DISK_ERR, s)
          | Some buf \<Rightarrow>
            bindR (mount_fields (pff_fs s) bsect buf) (\<lambda>(res, fs).
            Inr (res, s\<lparr>pff_fs := fs, pff_mounted := res = FR_OK\<rparr>))) :: (FRESULT \<times> pff) res)"
  have i0: "(disk_initialize (pff_cache s0) AND STA_NOINIT \<noteq> 0) = False" using init by (simp add: s0_def)
  obtain c2 where 2: "pf_mount disk s = k (0, bs, s0\<lparr>pff_cache := c2\<rparr>)" "dcache_ok disk drv c2"
    using find [of k] unfolding pf_mount_def Let_def s0_def [symmetric] k_def [symmetric] i0 if_False 1(1) bindR_Inr prod.case by blast
  obtain c3 where 3: "read_local disk (s0\<lparr>pff_cache := c2\<rparr>) bs 13 36 = Inr (Some (take 36 (drop 13 b)), s0\<lparr>pff_cache := c3\<rparr>)"
    "dcache_ok disk drv c3"
    using read_local_ok [of disk drv "s0\<lparr>pff_cache := c2\<rparr>" bs 13 36] 2(2) bs by (auto simp: b_def)
  have mf: "mount_fields (pff_fs s) bs (take 36 (drop 13 b)) = Inr (FR_OK, mounted (pff_fs s) bs b)"
    using mount_fields_ok [OF assms(4)] by (simp add: b_def)
  have "k (0, bs, s0\<lparr>pff_cache := c2\<rparr>) = Inr (FR_OK, s\<lparr>pff_mounted := True, pff_fs := mounted (pff_fs s) bs b, pff_cache := c3\<rparr>)"
    unfolding k_def prod.case 3(1) bindR_Inr option.case using mf by (simp add: s0_def)
  then show ?thesis using 2(1) 3(2) by (auto simp: b_def)
qed


text \<open>A FAT16 volume of 10127 clusters in the first partition, which starts at sector 63.\<close>

definition mount_disk :: disk where
  "mount_disk drv sector k =
     (if k = 510 then 0x55 else if k = 511 then 0xAA
      else if sector = 0 then (if k = 450 then 6 else if k = 454 then 63 else 0)
      else if sector = 63 then
        (if k = 13 then 1 else if k = 14 then 1 else if k = 16 then 2 else if k = 18 then 2 else if k = 20 then 0x28
         else if k = 22 then 40 else if k = 54 then 0x46 else if k = 55 then 0x41 else 0)
      else 0)"


text \<open>The gap between the types: a volume of exactly 4085 clusters, FAT16 by the format's definition, is refused.\<close>

lemma mount_gap:
  assumes "buf ! 0 \<noteq> 0" "(tsect - ucast (ld_word buf 1) - fatsz - ucast (ld_word buf 4 div 16)) div ucast (buf ! 0) = 4085"
    "tsect = (if ld_word buf 6 = 0 then ld_dword buf 19 else ucast (ld_word buf 6))"
    "fatsz = (if ld_word buf 9 = 0 then ld_dword buf 23 else ucast (ld_word buf 9)) * ucast (buf ! 3)"
  shows "\<exists>fs'. mount_fields fs bsect buf = Inr (FR_NO_FILESYSTEM, fs')"
  using assms(1,2) by (simp add: mount_fields_def Let_def assms(3,4) split del: if_split)

end
