(* ===== verification/Elf_Boot.thy ===== *)
theory Elf_Boot
  imports Elf_Load Fat_Mount
begin

text \<open>
  Loading the kernel as a whole: what its file must contain, which pages it takes, and the
  proof that \<open>elf_load_file\<close> finds it by its name, maps the pages of its zero-initialised
  sections and of its segment, fills them from the file and returns the entry point.
\<close>

section \<open>The image in the file\<close>

text \<open>\<open>F\<close> are the bytes of the file. The ELF header, a section header, the first program header.\<close>

definition file_part :: "(nat \<Rightarrow> u8) \<Rightarrow> u32 \<Rightarrow> nat \<Rightarrow> u8 list" where
  "file_part F o1 n = map F [unat o1..<unat o1 + n]"

definition elf_head :: "(nat \<Rightarrow> u8) \<Rightarrow> u8 list" where
  "elf_head F = map F [0..<52]"

definition sec_offset :: "u8 list \<Rightarrow> nat \<Rightarrow> u32" where
  "sec_offset h i = e_shoff h + of_nat i * ucast (e_shentsize h)"

definition sec_head :: "(nat \<Rightarrow> u8) \<Rightarrow> nat \<Rightarrow> u8 list" where
  "sec_head F i = file_part F (sec_offset (elf_head F) i) 40"

definition seg_head :: "(nat \<Rightarrow> u8) \<Rightarrow> u8 list" where
  "seg_head F = file_part F (e_phoff (elf_head F)) 32"

text \<open>The pages mapped for a section that occupies memory but no file, and for the segment.\<close>

definition bss_pages :: "u8 list \<Rightarrow> nat" where
  "bss_pages s = (if ld_dword s 4 = SHT_NOBITS \<and> ld_dword s 20 \<noteq> 0 \<and> ld_dword s 8 AND SHF_ALLOC \<noteq> 0
     then unat (ld_dword s 20) div 4096 + 1 else 0)"

definition bss_range :: "u8 list \<Rightarrow> u32 set" where
  "bss_range s = page_range (ld_dword s 12) (bss_pages s)"

definition seg_pages :: "u8 list \<Rightarrow> nat" where
  "seg_pages p = unat (ld_dword p 16) div 4096 + 1"

definition range_ok :: "u32 \<Rightarrow> nat \<Rightarrow> bool" where
  "range_ok v n \<longleftrightarrow> unat v mod 4096 = 0 \<and> unat v + n * 4096 \<le> 0xFFC00000"

text \<open>
  An executable of one segment: it fits into the file, its pages are aligned and end below
  the window of the page tables.
\<close>

definition image_ok :: "(nat \<Rightarrow> u8) \<Rightarrow> nat \<Rightarrow> bool" where
  "image_ok F sz \<longleftrightarrow> (let h = elf_head F; p = seg_head F in
     52 \<le> sz \<and> elf_is_supported h \<and> e_phnum h \<noteq> 0 \<and> unat (e_phoff h) + 32 \<le> sz \<and>
     list_all (\<lambda>i. unat (sec_offset h i) + 40 \<le> sz \<and>
       (bss_pages (sec_head F i) = 0 \<or> range_ok (ld_dword (sec_head F i) 12) (bss_pages (sec_head F i)))) [0..<unat (e_shnum h)] \<and>
     ld_dword p 0 = PT_LOAD \<and> unat (ld_dword p 12) mod 65536 = 0 \<and> ld_dword p 8 \<noteq> 0 \<and> range_ok (ld_dword p 8) (seg_pages p) \<and>
     unat (ld_dword p 4) + unat (ld_dword p 16) \<le> sz \<and> ld_dword p 16 \<le> ld_dword p 20)"

definition bss_upto :: "(nat \<Rightarrow> u8) \<Rightarrow> nat \<Rightarrow> u32 set" where
  "bss_upto F n = (\<Union>i<n. bss_range (sec_head F i))"

definition bss_count :: "(nat \<Rightarrow> u8) \<Rightarrow> nat \<Rightarrow> nat" where
  "bss_count F n = (\<Sum>i<n. bss_pages (sec_head F i))"

definition image_space :: "(nat \<Rightarrow> u8) \<Rightarrow> u32 set" where
  "image_space F = bss_upto F (unat (e_shnum (elf_head F))) \<union> page_range (ld_dword (seg_head F) 8) (seg_pages (seg_head F))"

definition image_pages :: "(nat \<Rightarrow> u8) \<Rightarrow> nat" where
  "image_pages F = bss_count F (unat (e_shnum (elf_head F))) + seg_pages (seg_head F)"

section \<open>The buffer of the headers\<close>

lemma length_put [simp]: "i + length bytes \<le> length b \<Longrightarrow> length (put b i bytes) = length b"
  by (simp add: put_def)

lemma put_part: "i \<le> length b \<Longrightarrow> take (length bytes) (drop i (put b i bytes)) = bytes"
  by (simp add: put_def)

lemma take_put: "n \<le> i \<Longrightarrow> i \<le> length b \<Longrightarrow> take n (put b i bytes) = take n b"
  by (simp add: put_def)

lemma ld_word_take: "take n b = take n c \<Longrightarrow> i + 2 \<le> n \<Longrightarrow> ld_word b i = ld_word c i"
  unfolding ld_word_def by (metis One_nat_def add_Suc_right add_lessD1 less_eq_Suc_le nat_1_add_1 nth_take plus_1_eq_Suc)

lemma ld_dword_take:
  assumes "take n b = take n c" "i + 4 \<le> n"
  shows "ld_dword b i = ld_dword c i"
proof -
  have "b ! (i + k) = c ! (i + k)" if "k < 4" for k
    using assms that by (metis add_less_cancel_left nth_take order_less_le_trans)
  from this [of 0] this [of 1] this [of 2] this [of 3] show ?thesis by (simp add: ld_dword_def)
qed

lemma put_dword:
  assumes "j + 4 \<le> length bytes" "i + length bytes \<le> length b"
  shows "ld_dword (put b i bytes) (i + j) = ld_dword bytes j"
proof -
  have "ld_dword (put b i bytes) (i + j) = ld_dword (take (length bytes) (drop i (put b i bytes))) j"
    using assms by (subst ld_dword_part) simp_all
  then show ?thesis using assms(2) by (simp add: put_part)
qed

text \<open>Reading at a position of the open file, as the loader does for each header.\<close>

lemma seek_read_part:
  assumes "file_open disk drv f cl" "unat o1 + unat n \<le> unat (fsize (pff_fs f))" "buff \<noteq> 0" "unat buff + unat n < 4294967296"
    "F = file_byte disk drv (pff_fs f) cl"
  obtains f1 f2 where "pf_lseek disk f o1 = Inr (FR_OK, f1)" "pf_read disk f1 buff n = Inr (FR_OK, n, file_part F o1 (unat n), f2)"
    "file_open disk drv f2 cl" "same_file (pff_fs f) (pff_fs f2)"
proof -
  obtain f1 where 1: "pf_lseek disk f o1 = Inr (FR_OK, f1)" "file_open disk drv f1 cl" "unat (fptr (pff_fs f1)) = unat o1"
    "same_file (pff_fs f) (pff_fs f1)"
    using pf_lseek_ok [OF assms(1), of o1] assms(2) by auto
  have n: "unat n = min (unat n) (unat (fsize (pff_fs f1)) - unat (fptr (pff_fs f1)))"
    unfolding 1(3) same_fileD(2) [OF 1(4)] using assms(2) by simp
  obtain f2 where 2: "pf_read disk f1 buff n = Inr (FR_OK, of_nat (unat n), map (file_byte disk drv (pff_fs f1) cl) [unat o1..<unat o1 + unat n], f2)"
    "file_open disk drv f2 cl" "same_file (pff_fs f1) (pff_fs f2)"
    using pf_read_ok [OF 1(2) assms(3) n assms(4)] unfolding 1(3) by blast
  have "same_file (pff_fs f) (pff_fs f2)" using 1(4) 2(3) same_file_trans by blast
  then show ?thesis using that 1(1) 2(1,2) by (simp add: file_part_def assms(5) same_file_chain(2) [OF 1(4)])
qed

section \<open>The sections\<close>

lemma range_low: "range_ok v n \<Longrightarrow> w \<in> page_range v n \<Longrightarrow> pdi_of w \<noteq> 1023"
  unfolding range_ok_def page_range_def below_window by simp

lemma empty_range [simp]: "page_range v 0 = {}"
  by (auto simp: page_range_def)

lemma bss_upto_Suc: "bss_upto F (Suc i) = bss_upto F i \<union> bss_range (sec_head F i)"
  by (simp add: bss_upto_def lessThan_Suc Un_commute)

lemma bss_count_Suc: "bss_count F (Suc i) = bss_count F i + bss_pages (sec_head F i)"
  by (simp add: bss_count_def)

lemma bss_count_mono: "i \<le> n \<Longrightarrow> bss_count F i \<le> bss_count F n"
  unfolding bss_count_def by (rule sum_mono2) auto

text \<open>The state after \<open>i\<close> sections; \<open>l0\<close> is the loader before, \<open>extra\<close> the pages still needed afterwards.\<close>

definition sections_done :: "disk \<Rightarrow> u16 \<Rightarrow> u32 list \<Rightarrow> (nat \<Rightarrow> u8) \<Rightarrow> pool_region \<Rightarrow> loader \<Rightarrow> elf_state \<Rightarrow> bool" where
  "sections_done disk drv cl F rg l0 = (\<lambda>(ok, i, b, l).
     ok \<and> i \<le> unat (e_shnum (elf_head F)) \<and> length b = 124 \<and> take 52 b = elf_head F \<and> file_open disk drv (ld_fat l) cl \<and>
     same_file (pff_fs (ld_fat l0)) (pff_fs (ld_fat l)) \<and> boot_ready rg (ld_boot l) \<and> own_pages (bp_mem (ld_boot l)) (bss_upto F i) \<and>
     keeps_small (bp_mem (ld_boot l0)) (bp_mem (ld_boot l)) \<and>
     unat (bp_addr (ld_boot l0)) \<le> unat (bp_addr (ld_boot l)) + bss_count F i * 8192)"

lemma image_okD:
  assumes "image_ok F sz"
  shows "i < unat (e_shnum (elf_head F)) \<Longrightarrow> unat (sec_offset (elf_head F) i) + 40 \<le> sz"
    "i < unat (e_shnum (elf_head F)) \<Longrightarrow> bss_pages (sec_head F i) \<noteq> 0 \<Longrightarrow> range_ok (ld_dword (sec_head F i) 12) (bss_pages (sec_head F i))"
    "w \<in> image_space F \<Longrightarrow> pdi_of w \<noteq> 1023"
proof -
  have l: "list_all (\<lambda>i. unat (sec_offset (elf_head F) i) + 40 \<le> sz \<and>
       (bss_pages (sec_head F i) = 0 \<or> range_ok (ld_dword (sec_head F i) 12) (bss_pages (sec_head F i)))) [0..<unat (e_shnum (elf_head F))]"
    "range_ok (ld_dword (seg_head F) 8) (seg_pages (seg_head F))"
    using assms by (simp_all add: image_ok_def Let_def)
  show "i < unat (e_shnum (elf_head F)) \<Longrightarrow> unat (sec_offset (elf_head F) i) + 40 \<le> sz"
    using l(1) by (simp add: list_all_iff)
  show sec: "i < unat (e_shnum (elf_head F)) \<Longrightarrow> bss_pages (sec_head F i) \<noteq> 0 \<Longrightarrow> range_ok (ld_dword (sec_head F i) 12) (bss_pages (sec_head F i))" for i
  proof -
    assume "i < unat (e_shnum (elf_head F))" "bss_pages (sec_head F i) \<noteq> 0"
    moreover from this(1) have "i \<in> set [0..<unat (e_shnum (elf_head F))]" by simp
    ultimately show ?thesis using bspec [OF l(1) [unfolded list_all_iff], of i] by auto
  qed
  assume "w \<in> image_space F"
  then consider i where "i < unat (e_shnum (elf_head F))" "w \<in> bss_range (sec_head F i)" | "w \<in> page_range (ld_dword (seg_head F) 8) (seg_pages (seg_head F))"
    unfolding image_space_def bss_upto_def by auto
  then show "pdi_of w \<noteq> 1023"
  proof cases
    case (1 i)
    then have "bss_pages (sec_head F i) \<noteq> 0" by (intro notI) (simp add: bss_range_def)
    then show ?thesis using range_low [OF sec] 1 by (simp add: bss_range_def)
  next
    case 2
    then show ?thesis using range_low [OF l(2)] by simp
  qed
qed

lemma sh_body_ok:
  assumes img: "image_ok F sz" and F: "F = file_byte disk drv (pff_fs (ld_fat l0)) cl" and sz: "sz = unat (fsize (pff_fs (ld_fat l0)))"
    and buf: "bufp \<noteq> 0" "unat bufp + 124 < 4294967296"
    and room: "(rg_lo rg + 2 * image_pages F) * 4096 \<le> unat (bp_addr (ld_boot l0))"
    and small: "\<And>w. w \<in> image_space F \<Longrightarrow> \<not> big_page (pmem (bp_mem (ld_boot l0)) (cr3 (bp_mem (ld_boot l0))) (pdi_of w))"
    and I: "sections_done disk drv cl F rg l0 (True, i, b, l)" and i: "i < unat (e_shnum (elf_head F))"
  shows "\<exists>b' l'. sh_body disk bufp (True, i, b, l) = Inr (True, i + 1, b', l') \<and> sections_done disk drv cl F rg l0 (True, i + 1, b', l')"
proof -
  let ?h = "elf_head F" and ?s = "sec_head F i"
  note v = I [unfolded sections_done_def prod.case]
  have sf: "same_file (pff_fs (ld_fat l0)) (pff_fs (ld_fat l))" using v by blast
  have F1: "F = file_byte disk drv (pff_fs (ld_fat l)) cl" unfolding F same_file_chain(2) [OF sf] ..
  have eh: "take 52 b = take 52 ?h" using v by (simp add: elf_head_def)
  have off: "e_shoff b + of_nat i * ucast (e_shentsize b) = sec_offset ?h i"
    unfolding sec_offset_def e_shoff_def e_shentsize_def using ld_dword_take [OF eh, of 32] ld_word_take [OF eh, of 46] by simp
  have u40: "unat (of_nat SIZEOF_SHDR :: u32) = 40" by (simp add: SIZEOF_SHDR_def)
  have ub: "unat (bufp + of_nat elf_sheader) = unat bufp + 72" using buf(2) by (subst unat_add_nowrap) (simp_all add: elf_layout)
  have "bufp + of_nat elf_sheader \<noteq> 0" using ub by auto
  from seek_read_part [OF _ _ this _ F1, of "sec_offset ?h i" "of_nat SIZEOF_SHDR"] obtain f1 f2 where
    f: "pf_lseek disk (ld_fat l) (sec_offset ?h i) = Inr (FR_OK, f1)"
    "pf_read disk f1 (bufp + of_nat elf_sheader) (of_nat SIZEOF_SHDR) = Inr (FR_OK, of_nat SIZEOF_SHDR, ?s, f2)"
    "file_open disk drv f2 cl" "same_file (pff_fs (ld_fat l)) (pff_fs f2)"
    using v image_okD(1) [OF img i] buf(2) unfolding u40 ub same_fileD(2) [OF sf] sz [symmetric] sec_head_def by auto
  have ls: "length ?s = 40" by (simp add: sec_head_def file_part_def)
  define b' where "b' = put b 72 ?s"
  have b': "length b' = 124" "take 52 b' = ?h" using v ls by (simp_all add: b'_def take_put)
  have "ld_dword b' (72 + j) = ld_dword ?s j" if "j + 4 \<le> 40" for j
    unfolding b'_def by (rule put_dword) (use that ls v in simp_all)
  from this [of 4] this [of 8] this [of 12] this [of 20]
  have fields: "sh_type b' = ld_dword ?s 4" "sh_flags b' = ld_dword ?s 8" "sh_addr b' = ld_dword ?s 12" "sh_size b' = ld_dword ?s 20"
    by (simp_all add: sh_type_def sh_flags_def sh_addr_def sh_size_def elf_layout)
  let ?need = "sh_type b' = SHT_NOBITS \<and> sh_size b' \<noteq> 0 \<and> sh_flags b' AND SHF_ALLOC \<noteq> 0"
  have step: "\<exists>s. (if ?need then map_range (ld_boot l) (sh_addr b') (sh_size b') else Inr (ld_boot l)) = Inr s \<and> boot_ready rg s \<and>
    own_pages (bp_mem s) (bss_upto F (i + 1)) \<and> keeps_small (bp_mem (ld_boot l)) (bp_mem s) \<and>
    unat (bp_addr (ld_boot l)) \<le> unat (bp_addr s) + bss_pages ?s * 8192"
  proof (cases ?need)
    case False
    then have "bss_pages ?s = 0" by (simp add: bss_pages_def fields)
    then show ?thesis unfolding if_not_P [OF False] using v by (simp add: bss_upto_Suc bss_range_def keeps_small_def)
  next
    case True
    then have P: "bss_pages ?s = unat (sh_size b') div 4096 + 1" by (simp add: bss_pages_def fields)
    then have rg: "range_ok (sh_addr b') (bss_pages ?s)" using image_okD(2) [OF img i] by (simp add: fields)
    have sub: "bss_upto F i \<subseteq> image_space F" "page_range (sh_addr b') (bss_pages ?s) \<subseteq> image_space F"
      using i unfolding image_space_def bss_upto_def bss_range_def fields by (blast intro: less_trans, blast)
    have "bss_count F i + bss_pages ?s \<le> image_pages F"
      using bss_count_mono [of "Suc i" "unat (e_shnum ?h)" F] i by (simp add: image_pages_def bss_count_Suc)
    then have "(rg_lo rg + 2 * bss_pages ?s) * 4096 + bss_count F i * 8192 \<le> (rg_lo rg + 2 * image_pages F) * 4096" by (simp add: algebra_simps)
    then have "(rg_lo rg + 2 * bss_pages ?s) * 4096 \<le> unat (bp_addr (ld_boot l))" using room v by linarith
    moreover have "\<not> big_page (pmem (bp_mem (ld_boot l)) (cr3 (bp_mem (ld_boot l))) (pdi_of w))" if "w \<in> image_space F" for w
      using small [OF that] v by (auto simp: keeps_small_def)
    ultimately have "\<exists>s. map_range (ld_boot l) (sh_addr b') (sh_size b') = Inr s \<and> boot_ready rg s \<and>
      own_pages (bp_mem s) (bss_upto F i \<union> page_range (sh_addr b') (bss_pages ?s)) \<and>
      unat (bp_addr (ld_boot l)) \<le> unat (bp_addr s) + bss_pages ?s * 8192 \<and>
      keeps_small (bp_mem (ld_boot l)) (bp_mem s)"
      using v rg sub image_okD(3) [OF img] by (intro map_range_ready P) (auto simp: range_ok_def)
    then show ?thesis unfolding if_P [OF True] unfolding bss_upto_Suc Suc_eq_plus1 [symmetric] bss_range_def fields by blast
  qed
  then obtain s where s: "(if ?need then map_range (ld_boot l) (sh_addr b') (sh_size b') else Inr (ld_boot l)) = Inr s" "boot_ready rg s"
    "own_pages (bp_mem s) (bss_upto F (i + 1))" "keeps_small (bp_mem (ld_boot l)) (bp_mem s)"
    "unat (bp_addr (ld_boot l)) \<le> unat (bp_addr s) + bss_pages ?s * 8192" by blast
  have "sh_body disk bufp (True, i, b, l) = Inr (True, i + 1, b', l\<lparr>ld_fat := f2, ld_boot := s\<rparr>)"
    unfolding sh_body_def prod.case off f(1) bindR_Inr using f(2) s(1) ls
    by (cases ?need) (auto simp: b'_def [symmetric] elf_layout Let_def)
  moreover have "sections_done disk drv cl F rg l0 (True, i + 1, b', l\<lparr>ld_fat := f2, ld_boot := s\<rparr>)"
    using v i b' f(3) s(2,3,5) same_file_trans [OF sf f(4)] keeps_small_trans [OF _ s(4)] bss_count_Suc [of F i]
    by (simp add: sections_done_def add_mult_distrib)
  ultimately show ?thesis by blast
qed

lemma sh_loop:
  assumes img: "image_ok F sz" and F: "F = file_byte disk drv (pff_fs (ld_fat l)) cl" and sz: "sz = unat (fsize (pff_fs (ld_fat l)))"
    and buf: "bufp \<noteq> 0" "unat bufp + 124 < 4294967296"
    and room: "(rg_lo rg + 2 * image_pages F) * 4096 \<le> unat (bp_addr (ld_boot l))"
    and small: "\<And>w. w \<in> image_space F \<Longrightarrow> \<not> big_page (pmem (bp_mem (ld_boot l)) (cr3 (bp_mem (ld_boot l))) (pdi_of w))"
    and l: "file_open disk drv (ld_fat l) cl" "boot_ready rg (ld_boot l)" and b: "length b = 124" "take 52 b = elf_head F"
  obtains b' l' where "whileR 65537 sh_guard (sh_body disk bufp) (True, 0, b, l) = Inr (True, unat (e_shnum (elf_head F)), b', l')"
    "sections_done disk drv cl F rg l (True, unat (e_shnum (elf_head F)), b', l')"
proof -
  let ?n = "unat (e_shnum (elf_head F))"
  let ?I = "sections_done disk drv cl F rg l" and ?m = "\<lambda>(ok, i, b, l). ?n - i"
  have shnum: "e_shnum c = e_shnum (elf_head F)" if "?I (ok, i, c, k)" for ok i c k
  proof -
    have "take 52 c = take 52 (elf_head F)" using that by (simp add: sections_done_def elf_head_def)
    then show ?thesis unfolding e_shnum_def by (rule ld_word_take) simp
  qed
  have "\<exists>t. whileR 65537 sh_guard (sh_body disk bufp) (True, 0, b, l) = Inr t \<and> ?I t \<and> sh_guard t = Inr False"
  proof (rule whileR_total [where I = ?I and m = ?m])
    show "?I (True, 0, b, l)"
      using l b by (simp add: sections_done_def same_file_refl bss_upto_def bss_count_def own_pages_def keeps_small_def)
    have "?n < 65536" using unsigned_less [of "e_shnum (elf_head F)", where ?'a = nat] by simp
    then show "?m (True, 0, b, l) < 65537" by simp
    show "\<exists>t. sh_guard st = Inr t" for st by (cases st) (simp add: sh_guard_def)
    fix st assume I: "?I st" and g: "sh_guard st = Inr True"
    obtain ok i c k where st: "st = (ok, i, c, k)" by (cases st)
    have ok: "ok" and i: "i < ?n" using I g shnum [OF I [unfolded st]] by (simp_all add: st sh_guard_def sections_done_def)
    show "\<exists>st'. sh_body disk bufp st = Inr st' \<and> ?I st' \<and> ?m st' < ?m st"
      using sh_body_ok [OF img F sz buf room small, of i c k] I ok i unfolding st by fastforce
  qed
  then obtain ok i b' l' where t: "whileR 65537 sh_guard (sh_body disk bufp) (True, 0, b, l) = Inr (ok, i, b', l')" "?I (ok, i, b', l')"
    "sh_guard (ok, i, b', l') = Inr False" by (metis prod_cases4)
  have "ok" "i = ?n" using t(2,3) shnum [OF t(2)] by (simp_all add: sections_done_def sh_guard_def)
  then show ?thesis using that t(1,2) by simp
qed

section \<open>The segment\<close>

lemma ph_loop:
  assumes img: "image_ok F sz" and F: "F = file_byte disk drv (pff_fs (ld_fat l0)) cl" and sz: "sz = unat (fsize (pff_fs (ld_fat l0)))"
    and buf: "bufp \<noteq> 0" "unat bufp + 124 < 4294967296"
    and room: "(rg_lo rg + 2 * image_pages F) * 4096 \<le> unat (bp_addr (ld_boot l0))"
    and small: "\<And>w. w \<in> image_space F \<Longrightarrow> \<not> big_page (pmem (bp_mem (ld_boot l0)) (cr3 (bp_mem (ld_boot l0))) (pdi_of w))"
    and cover: "\<forall>k<unat (ld_dword (seg_head F) 20). ld_dword (seg_head F) 8 + of_nat k \<in> image_space F"
    and I: "sections_done disk drv cl F rg l0 (True, unat (e_shnum (elf_head F)), b, l)"
  obtains b' l' where "whileR 65537 ph_guard (ph_body disk bufp) (True, 0, b, l) = Inr (True, 1, b', l')"
    "e_entry b' = e_entry (elf_head F)" "boot_ready rg (ld_boot l')" "own_pages (bp_mem (ld_boot l')) (image_space F)"
    "\<forall>k<unat (ld_dword (seg_head F) 20). rd8 (bp_mem (ld_boot l')) (ld_dword (seg_head F) 8 + of_nat k) =
      Inr (if k < unat (ld_dword (seg_head F) 16) then F (unat (ld_dword (seg_head F) 4) + k) else 0)"
    "unat (bp_addr (ld_boot l0)) \<le> unat (bp_addr (ld_boot l')) + image_pages F * 8192" "keeps_small (bp_mem (ld_boot l0)) (bp_mem (ld_boot l'))"
proof -
  let ?h = "elf_head F" and ?p = "seg_head F"
  let ?n = "unat (e_shnum ?h)"
  note v = I [unfolded sections_done_def prod.case]
  have im: "e_phnum ?h \<noteq> 0" "unat (e_phoff ?h) + 32 \<le> sz" "ld_dword ?p 0 = PT_LOAD" "unat (ld_dword ?p 12) mod 65536 = 0"
    "ld_dword ?p 8 \<noteq> 0" "range_ok (ld_dword ?p 8) (seg_pages ?p)" "unat (ld_dword ?p 4) + unat (ld_dword ?p 16) \<le> sz"
    "ld_dword ?p 16 \<le> ld_dword ?p 20"
    using img by (simp_all add: image_ok_def Let_def)
  have sf: "same_file (pff_fs (ld_fat l0)) (pff_fs (ld_fat l))" using v by blast
  have F1: "F = file_byte disk drv (pff_fs (ld_fat l)) cl" unfolding F same_file_chain(2) [OF sf] ..
  have eh: "take 52 b = take 52 ?h" using v by (simp add: elf_head_def)
  have hd: "e_phoff b = e_phoff ?h" "e_phnum b = e_phnum ?h" "e_entry b = e_entry ?h"
    unfolding e_phoff_def e_phnum_def e_entry_def using ld_dword_take [OF eh] ld_word_take [OF eh] by simp_all
  have u32: "unat (of_nat SIZEOF_PHDR :: u32) = 32" by (simp add: SIZEOF_PHDR_def)
  have ub: "unat (bufp + of_nat elf_pheader) = unat bufp + 32" using buf(2) by (subst unat_add_nowrap) (simp_all add: elf_layout)
  have "bufp + of_nat elf_pheader \<noteq> 0" using ub by auto
  from seek_read_part [OF _ _ this _ F1, of "e_phoff ?h" "of_nat SIZEOF_PHDR"] obtain f1 f2 where
    f: "pf_lseek disk (ld_fat l) (e_phoff ?h) = Inr (FR_OK, f1)"
    "pf_read disk f1 (bufp + of_nat elf_pheader) (of_nat SIZEOF_PHDR) = Inr (FR_OK, of_nat SIZEOF_PHDR, ?p, f2)"
    "file_open disk drv f2 cl" "same_file (pff_fs (ld_fat l)) (pff_fs f2)"
    using v im(2) buf(2) unfolding u32 ub same_fileD(2) [OF sf] sz [symmetric] seg_head_def by auto
  have lp: "length ?p = 32" by (simp add: seg_head_def file_part_def)
  define b' where "b' = put b 32 ?p"
  have "ld_dword b' (32 + j) = ld_dword ?p j" if "j + 4 \<le> 32" for j
    unfolding b'_def by (rule put_dword) (use that lp v in simp_all)
  from this [of 0] this [of 4] this [of 8] this [of 12] this [of 16] this [of 20]
  have fields: "p_type b' = ld_dword ?p 0" "p_offset b' = ld_dword ?p 4" "p_vaddr b' = ld_dword ?p 8" "p_paddr b' = ld_dword ?p 12"
    "p_filesz b' = ld_dword ?p 16" "p_memsz b' = ld_dword ?p 20"
    by (simp_all add: p_type_def p_offset_def p_vaddr_def p_paddr_def p_filesz_def p_memsz_def elf_layout)
  have "take 32 b' = take 32 b" using v by (simp add: b'_def take_put)
  then have en: "e_entry b' = e_entry ?h" unfolding hd(3) [symmetric] unfolding e_entry_def by (rule ld_dword_take) simp
  define l1 where "l1 = l\<lparr>ld_fat := f2\<rparr>"
  have sf2: "same_file (pff_fs (ld_fat l0)) (pff_fs (ld_fat l1))" using same_file_trans [OF sf f(4)] by (simp add: l1_def)
  have F2: "F = file_byte disk drv (pff_fs (ld_fat l1)) cl" unfolding F same_file_chain(2) [OF sf2] ..
  have space: "image_space F = bss_upto F ?n \<union> page_range (p_vaddr b') (seg_pages ?p)" by (simp add: image_space_def fields)
  have low: "\<And>w. w \<in> bss_upto F ?n \<Longrightarrow> pdi_of w \<noteq> 1023" using image_okD(3) [OF img] unfolding space by blast
  have pg: "seg_pages ?p = unat (p_filesz b') div 4096 + 1" by (simp add: seg_pages_def fields)
  have "(rg_lo rg + 2 * seg_pages ?p) * 4096 + bss_count F ?n * 8192 = (rg_lo rg + 2 * image_pages F) * 4096"
    by (simp add: image_pages_def algebra_simps)
  then have room1: "(rg_lo rg + 2 * seg_pages ?p) * 4096 \<le> unat (bp_addr (ld_boot l1))" using room v by (simp add: l1_def)
  have small1: "\<not> big_page (pmem (bp_mem (ld_boot l1)) (cr3 (bp_mem (ld_boot l1))) (pdi_of w))" if "w \<in> page_range (p_vaddr b') (seg_pages ?p)" for w
    using small [of w] that v by (auto simp: keeps_small_def space l1_def)
  have "\<exists>l'. load_segment disk b' l1 = Inr l' \<and> file_open disk drv (ld_fat l') cl \<and> boot_ready rg (ld_boot l') \<and>
    own_pages (bp_mem (ld_boot l')) (bss_upto F ?n \<union> page_range (p_vaddr b') (seg_pages ?p)) \<and>
    unat (bp_addr (ld_boot l1)) \<le> unat (bp_addr (ld_boot l')) + seg_pages ?p * 8192 \<and>
    keeps_small (bp_mem (ld_boot l1)) (bp_mem (ld_boot l')) \<and>
    (\<forall>k<unat (p_memsz b'). rd8 (bp_mem (ld_boot l')) (p_vaddr b' + of_nat k) =
      Inr (if k < unat (p_filesz b') then file_byte disk drv (pff_fs (ld_fat l1)) cl (unat (p_offset b') + k) else 0))"
  proof (rule load_segment_loads [OF _ _ _ _ pg _ room1 small1])
    show "unat (p_vaddr b') mod 4096 = 0" "p_vaddr b' \<noteq> 0" "unat (p_vaddr b') + seg_pages ?p * 4096 \<le> 4290772992"
      using im(5,6) by (simp_all add: fields range_ok_def)
    show "unat (p_offset b') + unat (p_filesz b') \<le> unat (fsize (pff_fs (ld_fat l1)))"
      using im(7) unfolding same_fileD(2) [OF sf2] sz [symmetric] fields .
    show "own_pages (bp_mem (ld_boot l1)) (bss_upto F ?n)" using v by (simp add: l1_def)
    show "\<forall>k<unat (p_memsz b'). p_vaddr b' + of_nat k \<in> bss_upto F ?n \<union> page_range (p_vaddr b') (seg_pages ?p)"
      using cover unfolding space fields .
  qed (use low im(8) f(3) v in \<open>auto simp: fields l1_def\<close>)
  then obtain l' where l': "load_segment disk b' l1 = Inr l'" "file_open disk drv (ld_fat l') cl" "boot_ready rg (ld_boot l')"
    "own_pages (bp_mem (ld_boot l')) (image_space F)" "unat (bp_addr (ld_boot l1)) \<le> unat (bp_addr (ld_boot l')) + seg_pages ?p * 8192"
    "keeps_small (bp_mem (ld_boot l1)) (bp_mem (ld_boot l'))"
    "\<forall>k<unat (ld_dword ?p 20). rd8 (bp_mem (ld_boot l')) (ld_dword ?p 8 + of_nat k) =
      Inr (if k < unat (ld_dword ?p 16) then F (unat (ld_dword ?p 4) + k) else 0)"
    unfolding F2 [symmetric] fields image_space_def by blast
  have "ph_body disk bufp (True, 0, b, l) = Inr (True, 1, b', l')"
    unfolding ph_body_def prod.case hd(1) using f(1,2) l'(1) im(3)
    by (simp add: b'_def [symmetric] l1_def [symmetric] elf_layout Let_def fields)
  from elf_loads_one_segment [OF _ this] have "whileR 65537 ph_guard (ph_body disk bufp) (True, 0, b, l) = Inr (True, 1, b', l')"
    using im(1,4) by (simp add: hd fields)
  moreover have "unat (bp_addr (ld_boot l0)) \<le> unat (bp_addr (ld_boot l')) + image_pages F * 8192"
    using v l'(5) by (simp add: l1_def image_pages_def add_mult_distrib)
  moreover have "keeps_small (bp_mem (ld_boot l0)) (bp_mem (ld_boot l'))"
    using keeps_small_trans [OF _ l'(6)] v by (simp add: l1_def)
  ultimately show ?thesis using that en l'(2-4,7) by blast
qed

section \<open>The kernel\<close>

lemma supported_take:
  assumes "take 52 b = take 52 c"
  shows "elf_is_supported b = elf_is_supported c"
proof -
  have "take 4 (take 52 b) = take 4 (take 52 c)" using assms by simp
  then have "take 4 b = take 4 c" by simp
  moreover have "b ! k = c ! k" if "k < 52" for k using assms that by (metis nth_take)
  ultimately show ?thesis using ld_word_take [OF assms]
    by (simp add: elf_is_supported_def elf_is_elf_def e_machine_def e_type_def)
qed

lemma elf_load_file_ok:
  assumes vol: "pff_mounted (ld_fat l)" "volume_ok (pff_fs (ld_fat l))" "dcache_ok disk drv (pff_cache (ld_fat l))"
    and named: "names_file disk drv (pff_fs (ld_fat l)) chain ns e cl"
    and F: "F = file_byte disk drv (pff_fs (ld_fat l)) cl" and img: "image_ok F (unat (ld_dword e 28))"
    and bufs: "length sp = 12" "length b = 124" "124 \<le> unat bufsiz" "bufp \<noteq> 0" "unat bufp + 124 < 4294967296"
    and r: "boot_ready rg (ld_boot l)" and room: "(rg_lo rg + 2 * image_pages F) * 4096 \<le> unat (bp_addr (ld_boot l))"
    and small: "\<And>w. w \<in> image_space F \<Longrightarrow> \<not> big_page (pmem (bp_mem (ld_boot l)) (cr3 (bp_mem (ld_boot l))) (pdi_of w))"
    and cover: "\<forall>k<unat (ld_dword (seg_head F) 20). ld_dword (seg_head F) 8 + of_nat k \<in> image_space F"
  obtains b' l' where "elf_load_file disk sp dir l (path_arg blanks sep ns) bufp b bufsiz = Inr (e_entry (elf_head F), b', l')"
    "boot_ready rg (ld_boot l')" "own_pages (bp_mem (ld_boot l')) (image_space F)"
    "\<forall>k<unat (ld_dword (seg_head F) 20). rd8 (bp_mem (ld_boot l')) (ld_dword (seg_head F) 8 + of_nat k) =
      Inr (if k < unat (ld_dword (seg_head F) 16) then F (unat (ld_dword (seg_head F) 4) + k) else 0)"
    "unat (bp_addr (ld_boot l)) \<le> unat (bp_addr (ld_boot l')) + image_pages F * 8192"
    "keeps_small (bp_mem (ld_boot l)) (bp_mem (ld_boot l'))"
proof -
  obtain f where f: "pf_open disk (ld_fat l) sp dir (path_arg blanks sep ns) = Inr (FR_OK, f)" "file_open disk drv f cl"
    "pff_fs f = opened (pff_fs (ld_fat l)) e" using pf_open_file [OF vol named bufs(1)] .
  define l1 where "l1 = l\<lparr>ld_fat := f\<rparr>"
  have sz: "unat (fsize (pff_fs f)) = unat (ld_dword e 28)" "unat (fptr (pff_fs f)) = 0" by (simp_all add: f(3) opened_file)
  have F1: "F = file_byte disk drv (pff_fs f) cl" by (simp add: F f(3) opened_file)
  have s52: "52 \<le> unat (ld_dword e 28)" and sup: "elf_is_supported (elf_head F)"
    using img by (simp_all add: image_ok_def Let_def)
  have u52: "unat (of_nat SIZEOF_EHDR :: u32) = 52" by (simp add: SIZEOF_EHDR_def)
  have n: "52 = min (unat (of_nat SIZEOF_EHDR :: u32)) (unat (fsize (pff_fs f)) - unat (fptr (pff_fs f)))" using s52 by (simp add: u52 sz)
  have "unat bufp + 52 < 4294967296" using bufs(5) by simp
  from pf_read_ok [OF f(2) bufs(4) n this] obtain f2 where
    f2: "pf_read disk f bufp (of_nat SIZEOF_EHDR) = Inr (FR_OK, of_nat 52, elf_head F, f2)" "file_open disk drv f2 cl" "same_file (pff_fs f) (pff_fs f2)"
    unfolding sz F1 [symmetric] elf_head_def by auto
  define l2 where "l2 = l\<lparr>ld_fat := f2\<rparr>"
  define b1 where "b1 = put b 0 (elf_head F)"
  have lh: "length (elf_head F) = 52" by (simp add: elf_head_def)
  have b1: "length b1 = 124" "take 52 b1 = elf_head F" using bufs(2) lh by (simp_all add: b1_def put_def)
  have sup1: "elf_is_supported b1" using supported_take [of b1 "elf_head F"] sup b1(2) lh by simp
  have F2: "F = file_byte disk drv (pff_fs (ld_fat l2)) cl" unfolding F1 by (simp add: l2_def same_file_chain(2) [OF f2(3)])
  have sz2: "unat (ld_dword e 28) = unat (fsize (pff_fs (ld_fat l2)))" using sz(1) by (simp add: l2_def same_fileD(2) [OF f2(3)])
  have boot: "ld_boot l2 = ld_boot l" and open2: "file_open disk drv (ld_fat l2) cl" using f2(2) by (simp_all add: l2_def)
  have st: "(rg_lo rg + 2 * image_pages F) * 4096 \<le> unat (bp_addr (ld_boot l2))"
    "\<And>w. w \<in> image_space F \<Longrightarrow> \<not> big_page (pmem (bp_mem (ld_boot l2)) (cr3 (bp_mem (ld_boot l2))) (pdi_of w))"
    "boot_ready rg (ld_boot l2)" using room small r by (simp_all add: boot)
  obtain b3 l3 where sh: "whileR 65537 sh_guard (sh_body disk bufp) (True, 0, b1, l2) = Inr (True, unat (e_shnum (elf_head F)), b3, l3)"
    "sections_done disk drv cl F rg l2 (True, unat (e_shnum (elf_head F)), b3, l3)"
    using sh_loop [OF img F2 sz2 bufs(4,5) st(1,2) open2 st(3) b1] .
  obtain b4 l4 where ph: "whileR 65537 ph_guard (ph_body disk bufp) (True, 0, b3, l3) = Inr (True, 1, b4, l4)"
    "e_entry b4 = e_entry (elf_head F)" "boot_ready rg (ld_boot l4)" "own_pages (bp_mem (ld_boot l4)) (image_space F)"
    "\<forall>k<unat (ld_dword (seg_head F) 20). rd8 (bp_mem (ld_boot l4)) (ld_dword (seg_head F) 8 + of_nat k) =
      Inr (if k < unat (ld_dword (seg_head F) 16) then F (unat (ld_dword (seg_head F) 4) + k) else 0)"
    "unat (bp_addr (ld_boot l)) \<le> unat (bp_addr (ld_boot l4)) + image_pages F * 8192"
    "keeps_small (bp_mem (ld_boot l)) (bp_mem (ld_boot l4))"
    using ph_loop [OF img F2 sz2 bufs(4,5) st(1,2) cover sh(2)] unfolding boot by blast
  have "\<not> unat bufsiz < SIZEOF_EHDR + SIZEOF_PHDR + SIZEOF_SHDR" using bufs(3) by (simp add: elf_layout)
  then have "elf_load_file disk sp dir l (path_arg blanks sep ns) bufp b bufsiz = Inr (e_entry (elf_head F), b4, l4)"
    unfolding elf_load_file_def f(1) bindR_Inr prod.case Let_def f2(1) b1_def [symmetric]
    using sh(1) ph(1,2) sup1 by (simp add: l2_def SIZEOF_EHDR_def)
  then show ?thesis using that ph by blast
qed

end
