(* ===== verification/Boot_Main.thy ===== *)
theory Boot_Main
  imports Elf_Boot
begin

text \<open>
  Stage 2 as a whole: from the BIOS memory map and the disk to the jump to the kernel. The
  lemmas of the components are put together along \<open>bmain\<close>: the memory map is sorted, the
  volume mounted, paging set up with the last usable region as page pool, the kernel found
  by its name and loaded, its stack mapped.
\<close>

section \<open>The page pool\<close>

text \<open>Sorting by type puts the usable regions (type 1) first, in their order.\<close>

definition usable :: "SMAP32 \<Rightarrow> bool" where
  "usable e \<longleftrightarrow> sm32_type e = 1"

lemma sort_usable:
  assumes "\<forall>e\<in>set os. 1 \<le> unat (sm32_type e)"
  shows "sort_key (\<lambda>e. unat (sm32_type e)) os = filter usable os @ sort_key (\<lambda>e. unat (sm32_type e)) (filter (\<lambda>e. \<not> usable e) os)"
proof (rule properties_for_sort_key)
  let ?f = "\<lambda>e. unat (sm32_type e)" and ?r = "filter (\<lambda>e. \<not> usable e) os"
  have u: "usable e \<longleftrightarrow> ?f e = 1" for e by (simp add: usable_def word_unat_eq_iff)
  show "mset (filter usable os @ sort_key ?f ?r) = mset os" by (simp add: mset_filter flip: multiset_partition)
  fix k
  show "filter (\<lambda>x. ?f k = ?f x) (filter usable os @ sort_key ?f ?r) = filter (\<lambda>x. ?f k = ?f x) os"
  proof (cases "?f k = 1")
    case True
    then have "filter (\<lambda>x. ?f k = ?f x) (sort_key ?f ?r) = []" by (auto simp: filter_empty_conv u)
    moreover have "filter (\<lambda>x. ?f k = ?f x) (filter usable os) = filter (\<lambda>x. ?f k = ?f x) os"
      unfolding filter_filter by (rule filter_cong) (auto simp: u True)
    ultimately show ?thesis by simp
  next
    case False
    then have "filter (\<lambda>x. ?f k = ?f x) (filter usable os) = []" by (auto simp: filter_empty_conv u)
    moreover have "filter (\<lambda>x. ?f k = ?f x) ?r = filter (\<lambda>x. ?f k = ?f x) os"
      unfolding filter_filter by (rule filter_cong) (use False in \<open>auto simp: u\<close>)
    ultimately show ?thesis using sort_key_stable [of ?f "?f k" ?r] by (simp add: eq_commute)
  qed
next
  let ?f = "\<lambda>e. unat (sm32_type e)" and ?r = "filter (\<lambda>e. \<not> usable e) os"
  have "map ?f (filter usable os) = map (\<lambda>_. 1) (filter usable os)" by (rule map_cong) (simp_all add: usable_def)
  then have "sorted (map ?f (filter usable os))" by (simp only: map_replicate_const sorted_replicate)
  moreover have "\<forall>x\<in>set (map ?f (filter usable os)). \<forall>y\<in>set (map ?f (sort_key ?f ?r)). x \<le> y"
    using assms by (simp add: usable_def)
  ultimately show "sorted (map ?f (filter usable os @ sort_key ?f ?r))"
    unfolding map_append sorted_append by simp
qed

lemma region_top_aligned: "unat (region_top e) mod 4096 = 0"
proof -
  have m: "(0xFFFFF000 :: u32) = NOT (mask 12)" by (simp add: mask_eq_exp_minus_1)
  have "take_bit 12 (x AND NOT (mask 12)) = 0" for x :: u32 by (rule bit_word_eqI) (auto simp: bit_simps)
  then have "unat (take_bit 12 (region_top e)) = 0" unfolding region_top_def m by simp
  then show ?thesis unfolding unat_take_bit_pow by simp
qed

text \<open>A region with room for two pages above a frame above its base does not reach the end of the address space.\<close>

lemma region_top_bounds:
  assumes "unat (sm32_base e) < lo * 4096" "(lo + 2) * 4096 \<le> unat (region_top e)"
  shows "unat (sm32_base e) + unat (sm32_length e) \<le> unat (region_top e)" "unat (region_top e) < unat (sm32_base e) + unat (sm32_length e) + 4096"
proof -
  define S where "S = unat (sm32_base e) + unat (sm32_length e) + 4095"
  define T where "T = unat (sm32_base e + sm32_length e + 0x0FFF)"
  have T: "T = S mod 4294967296" by (simp add: T_def S_def unat_word_ariths mod_simps)
  have "region_top e = frame_addr (frame_of (sm32_base e + sm32_length e + 0x0FFF))"
    using page_mask_frame [of "sm32_base e + sm32_length e + 0x0FFF"] by (simp add: region_top_def PT_PAGE_MASK_def)
  then have top: "unat (region_top e) = T div 4096 * 4096" by (simp add: unat_frame_addr unat_frame_of T_def)
  have "unat (sm32_length e) < 4294967296" using unsigned_less [of "sm32_length e", where ?'a = nat] by simp
  moreover have "T \<ge> (lo + 2) * 4096" using assms(2) top by (metis div_times_less_eq_dividend order_trans)
  ultimately have "S < 4294967296" using assms(1) unfolding T S_def by (simp add: mod_if split: if_splits)
  then have "T = S" by (simp add: T)
  then show "unat (sm32_base e) + unat (sm32_length e) \<le> unat (region_top e)" "unat (region_top e) < unat (sm32_base e) + unat (sm32_length e) + 4096"
    unfolding top S_def using div_mult_mod_eq [of S 4096] mod_less_divisor [of 4096 S] by (simp_all add: S_def)
qed

lemma low_frame: "pdi_of w = 0 \<Longrightarrow> unat (frame_of w) < 1024"
  unfolding unat_frame_of word_unat_eq_iff unat_pdi by simp

lemma init_memory_fresh:
  assumes "unat f < 1024" "1024 \<le> unat g"
  shows "fresh_frame (init_memory m f) g"
proof -
  have "g \<noteq> f" using assms by auto
  have "unused_frame (init_memory m f) g"
    unfolding unused_frame_def
  proof (intro conjI allI impI)
    show "g \<noteq> cr3 (init_memory m f)" using \<open>g \<noteq> f\<close> by (simp add: init_memory_def)
    fix q assume "present (pmem (init_memory m f) (cr3 (init_memory m f)) q)" "\<not> big_page (pmem (init_memory m f) (cr3 (init_memory m f)) q)"
    then have "q = 1023" by (rule init_memory_table)
    then show "frame_of (pmem (init_memory m f) (cr3 (init_memory m f)) q) \<noteq> g"
      unfolding init_memory_directory using \<open>g \<noteq> f\<close> by (simp add: table_entry)
  qed
  moreover have "translate (init_memory m f) w \<noteq> Some (g, i)" if "pdi_of w \<noteq> 1023" for w i
    using init_memory_translate [of w m f] low_frame [of w] that assms(2) by (cases "pdi_of w = 0") auto
  ultimately show ?thesis by (simp add: fresh_frame_def)
qed

lemma init_memory_uses:
  "uses_taken \<lparr>rg_lo = lo, rg_dir = f, rg_map = es, rg_index = j\<rparr> s (init_memory m f)"
proof -
  have "q = 1023" if "present (pmem (init_memory m f) (cr3 (init_memory m f)) q)" "\<not> big_page (pmem (init_memory m f) (cr3 (init_memory m f)) q)" for q
    by (rule init_memory_table [OF that])
  moreover have "pdi_of w = 0" if "pdi_of w \<noteq> 1023" "translate (init_memory m f) w = Some (g, i)" for w g i
    using init_memory_translate [of w m f] that by (auto split: if_splits)
  moreover have "q = 0" if "big_page (pmem (init_memory m f) (cr3 (init_memory m f)) q)" for q
    using that unfolding init_memory_directory by (simp add: table_entry init_memory_bits split: if_splits)
  moreover have "cr3 (init_memory m f) = f" by (simp add: init_memory_def)
  ultimately show ?thesis unfolding uses_taken_def by auto
qed

lemma pt_init_ready:
  assumes "unat f < 1024" "1024 \<le> lo" "i < length e820" "unat j = i" "unat (sm32_base (e820 ! i)) < lo * 4096"
    and "unat (sm32_base (e820 ! i)) + unat (sm32_length (e820 ! i)) \<le> unat (region_top (e820 ! i))"
  shows "boot_ready \<lparr>rg_lo = lo, rg_dir = f, rg_map = e820, rg_index = j\<rparr>
    (s\<lparr>bp_mem := init_memory m f, bp_e820 := e820, bp_index := j, bp_addr := region_top (e820 ! i)\<rparr>)"
proof -
  have "map_shrunk \<lparr>rg_lo = lo, rg_dir = f, rg_map = e820, rg_index = j\<rparr>
      (s\<lparr>bp_mem := init_memory m f, bp_e820 := e820, bp_index := j, bp_addr := region_top (e820 ! i)\<rparr>)"
    using assms by (auto simp: map_shrunk_def intro!: exI [of _ "sm32_length (e820 ! i)"])
  then show ?thesis using assms init_memory_wf init_memory_fresh region_top_aligned init_memory_uses by (simp add: boot_ready_def)
qed

text \<open>A further page leaves what has been loaded as it is.\<close>

lemma map_further_page:
  assumes r: "boot_ready rg s" and room: "(rg_lo rg + 2) * 4096 \<le> unat (bp_addr s)"
    and v: "pdi_of v \<noteq> 1023" "\<not> big_page (pmem (bp_mem s) (cr3 (bp_mem s)) (pdi_of v))"
    and own: "own_pages (bp_mem s) A" "\<And>w. w \<in> A \<Longrightarrow> pdi_of w \<noteq> 1023 \<and> \<not> same_page v w"
  obtains s' where "boot_pt_map s v = Inr s'" "boot_ready rg s'" "unat (bp_addr s) \<le> unat (bp_addr s') + 8192" "own_pages (bp_mem s') (A \<union> {w. same_page v w})"
    "\<And>w. w \<in> A \<Longrightarrow> rd8 (bp_mem s') w = rd8 (bp_mem s) w"
proof (rule boot_pt_map_ready [OF r room v])
  fix s' f
  assume s': "boot_pt_map s v = Inr s'" "boot_ready rg s'" "unat (bp_addr s) \<le> unat (bp_addr s') + 8192"
    "\<And>w. pdi_of w \<noteq> 1023 \<Longrightarrow> translate (bp_mem s') w = (if same_page v w then Some (f, woff_of w) else translate (bp_mem s) w)"
    "fresh_frame (bp_mem s) f" "unused_frame (bp_mem s') f"
    "\<And>w g i. pdi_of w \<noteq> 1023 \<Longrightarrow> translate (bp_mem s) w = Some (g, i) \<Longrightarrow> unused_frame (bp_mem s) g \<Longrightarrow> unused_frame (bp_mem s') g"
    "\<And>q. big_page (pmem (bp_mem s') (cr3 (bp_mem s')) q) \<Longrightarrow> big_page (pmem (bp_mem s) (cr3 (bp_mem s)) q)"
    "\<And>w g i. pdi_of w \<noteq> 1023 \<Longrightarrow> translate (bp_mem s) w = Some (g, i) \<Longrightarrow> unused_frame (bp_mem s) g \<Longrightarrow> pmem (bp_mem s') g = pmem (bp_mem s) g"
  have pages: "own_pages (bp_mem s') (A \<union> {w. same_page v w})"
    by (rule own_pages_map [OF own(1) _ v(1) s'(4-7)]) (simp add: own(2))
  have same: "rd8 (bp_mem s') w = rd8 (bp_mem s) w" if wA: "w \<in> A" for w
  proof -
    have w: "pdi_of w \<noteq> 1023" "\<not> same_page v w" using own(2) [OF wA] by simp_all
    obtain g where g: "translate (bp_mem s) w = Some (g, woff_of w)" "unused_frame (bp_mem s) g"
      using bspec [OF conjunct1 [OF own(1) [unfolded own_pages_def]] wA] by (elim exE conjE)
    then show ?thesis using s'(4) [OF w(1)] s'(9) [OF w(1) g] w(2) by (simp add: rd8_eq)
  qed
  show thesis by (rule that [OF s'(1-3) pages same])
qed

section \<open>From the BIOS to the kernel\<close>

text \<open>
  The memory map of \<open>es\<close>: regions apart and of the known types, the first one usable and
  one that is not, and a last usable region with \<open>need\<close> times two pages above frame \<open>lo\<close>,
  which is above the first 4 MiB.
\<close>

definition memory_ok :: "SMAP_entry list \<Rightarrow> nat \<Rightarrow> nat \<Rightarrow> bool" where
  "memory_ok es lo need \<longleftrightarrow> (let os = packed es; top = last (filter usable os) in
     disjoint_regions os \<and> list_all (\<lambda>e. unat (sm32_type e) \<in> {1..5}) os \<and> os \<noteq> [] \<and> usable (hd os) \<and> \<not> list_all usable os \<and>
     1024 \<le> lo \<and> unat (sm32_base top) < lo * 4096 \<and> (lo + 2 * need) * 4096 \<le> unat (region_top top))"

definition kernel_fname :: fname where
  "kernel_fname = ([75, 69, 82, 78, 69, 76], [69, 76, 70])"

text \<open>The disk: a volume that holds the kernel image \<open>F\<close> under its name.\<close>

definition kernel_disk :: "disk \<Rightarrow> u16 \<Rightarrow> FATFS \<Rightarrow> u32 \<Rightarrow> (u32 \<Rightarrow> u32 list) \<Rightarrow> u8 list \<Rightarrow> u32 list \<Rightarrow> (nat \<Rightarrow> u8) \<Rightarrow> bool" where
  "kernel_disk disk drv fs bs chain e cl F \<longleftrightarrow>
     volume_at disk drv bs \<and> boot_ok bs (sector_bytes disk drv bs) \<and>
     names_file disk drv (mounted fs bs (sector_bytes disk drv bs)) chain [kernel_fname] e cl \<and>
     F = file_byte disk drv (mounted fs bs (sector_bytes disk drv bs)) cl \<and> image_ok F (unat (ld_dword e 28))"

lemma kernel_path: "kernel_name = path_arg 0 False [kernel_fname]"
  by (simp add: kernel_name_def path_arg_def kernel_fname_def path_form_def)

lemma validate_usable:
  assumes "data = concat (map entry_words es)" "length es = unat n" "memory_ok es lo need"
  obtains e820 j rest where "validate data n = Inr (length (packed es), e820)" "j + 1 < length e820" "j < 65535"
    "\<forall>k. 1 \<le> k \<and> k \<le> j \<longrightarrow> sm32_type (e820 ! k) = 1" "sm32_type (e820 ! (j + 1)) \<noteq> 1" "e820 ! j = last (filter usable (packed es))"
    "take (length (packed es)) e820 = filter usable (packed es) @ rest" "j + 1 = length (filter usable (packed es))" "rest \<noteq> []" "set rest \<subseteq> {e \<in> set (packed es). \<not> usable e}"
    "length (packed es) \<le> length e820" "filter usable (packed es) @ rest = sort_key (\<lambda>e. unat (sm32_type e)) (packed es)"
proof -
  let ?os = "packed es" and ?f = "\<lambda>e. unat (sm32_type e)"
  let ?u = "filter usable ?os"
  define rest where "rest = sort_key ?f (filter (\<lambda>e. \<not> usable e) ?os)"
  have m: "disjoint_regions ?os" "\<forall>e\<in>set ?os. ?f e \<in> {1..5}" "?os \<noteq> []" "usable (hd ?os)" "\<not> list_all usable ?os"
    using assms(3) by (simp_all add: memory_ok_def Let_def list_all_iff)
  have ge: "\<forall>e\<in>set ?os. 1 \<le> ?f e" using m(2) by simp
  then have least: "\<forall>e\<in>set ?os. sm32_type (hd ?os) \<le> sm32_type e" using m(4) by (simp add: usable_def word_le_nat_alt)
  obtain e820 where v: "validate data n = Inr (length ?os, e820)" "take (length ?os) e820 = ?u @ rest"
    using validate_ok [OF assms(1,2) m(1,2) least] sort_usable [OF ge] by (auto simp: rest_def)
  have sorted: "?u @ rest = sort_key ?f ?os" using sort_usable [OF ge] by (simp add: rest_def)
  have rest: "set rest \<subseteq> {e \<in> set ?os. \<not> usable e}" by (auto simp: rest_def)
  have ne: "?u \<noteq> []" using m(3,4) by (cases ?os) auto
  obtain x xs where r: "rest = x # xs" using m(5) by (cases rest) (auto simp: rest_def list_all_iff filter_empty_conv dest: arg_cong [of _ _ set])
  then have "x \<in> set rest" by simp
  then have x: "\<not> usable x" by (simp add: rest_def)
  define j where "j = length ?u - 1"
  have j: "j + 1 = length ?u" using ne by (cases ?u) (simp_all add: j_def)
  have lo: "length ?os = length ?u + length rest" by (simp add: rest_def sum_length_filter_compl)
  have "length (take (length ?os) e820) = length ?os" using arg_cong [OF v(2), of length] by (simp only: length_append lo)
  then have le: "length ?os \<le> length e820" by simp
  have at: "e820 ! k = (?u @ rest) ! k" if "k < length ?os" for k using that v(2) by (metis nth_take)
  have "length ?os \<le> length es" by (simp add: packed_def)
  also have "\<dots> < 65536" using unsigned_less [of n, where ?'a = nat] assms(2) by simp
  finally have l16: "length ?os < 65536" .
  have "e820 ! k \<in> set ?u" if "k \<le> j" for k
  proof -
    have "k < length ?u" using that j by linarith
    moreover from this have "e820 ! k = ?u ! k" using at [of k] lo by (simp add: nth_append)
    ultimately show ?thesis using nth_mem [of k ?u] by simp
  qed
  then have one: "sm32_type (e820 ! k) = 1" if "k \<le> j" for k using that by (simp add: usable_def)
  have "e820 ! (j + 1) = x" using at [of "j + 1"] j lo r by (simp add: nth_append)
  then have two: "sm32_type (e820 ! (j + 1)) \<noteq> 1" using x by (simp add: usable_def)
  have top: "e820 ! j = last ?u"
  proof -
    have "j < length ?u" using j by linarith
    then have "e820 ! j = ?u ! j" using at [of j] lo by (simp add: nth_append)
    then show ?thesis using ne by (simp add: last_conv_nth j_def)
  qed
  have "j + 1 < length e820" "j < 65535" "rest \<noteq> []" using j lo r le l16 by simp_all
  moreover have "\<forall>k. 1 \<le> k \<and> k \<le> j \<longrightarrow> sm32_type (e820 ! k) = 1" using one by simp
  ultimately show ?thesis using that [OF v(1) _ _ _ two top v(2) j _ rest le sorted] by blast
qed

text \<open>
  How \<open>bmain\<close> runs, with the state of the page allocator at its end: its memory map is the
  sorted one, with what was taken cut off the last usable region.
\<close>

lemma bmain_state:
  assumes map: "data = concat (map entry_words es)" "length es = unat n" "memory_ok es lo (image_pages F + 1)"
    and pdir: "pdir = frame_addr f" "unat f < 1024"
    and disk: "dx \<noteq> 0xFFFF" "kernel_disk disk dx fs bs chain e cl F"
    and bufs: "length sp = 12" "length hdrs = 124" "bufp \<noteq> 0" "unat bufp + 124 < 4294967296"
    and entry: "e_entry (elf_head F) \<noteq> 0"
    and space: "\<forall>w\<in>image_space F. 0x400000 \<le> unat w \<and> \<not> same_page (NEW_STACK - 0x1000) w"
    and cover: "\<forall>k<unat (ld_dword (seg_head F) 20). ld_dword (seg_head F) 8 + of_nat k \<in> image_space F"
  obtains rg s rest where "take (length (packed es)) (rg_map rg) = filter usable (packed es) @ rest" "rest \<noteq> []" "set rest \<subseteq> {e \<in> set (packed es). \<not> usable e}" "length (packed es) \<le> length (rg_map rg)"
    "filter usable (packed es) @ rest = sort_key (\<lambda>e. unat (sm32_type e)) (packed es)" "rg_entry rg = last (filter usable (packed es))"
    "unat (region_top (rg_entry rg)) \<le> unat (bp_addr s) + (image_pages F + 1) * 8192"
    "unat (rg_index rg) + 1 = length (filter usable (packed es))" "boot_ready rg s" "rg_dir rg = f" "rg_lo rg = lo"
    "bmain disk pdir sp dir fs bufp hdrs m data n dx = Inr (e_entry (elf_head F), NEW_STACK, bp_e820 s, of_nat (length (packed es)), bp_mem s)"
    "own_pages (bp_mem s) (image_space F \<union> {w. same_page (NEW_STACK - 0x1000) w})"
    "\<And>k. k < unat (ld_dword (seg_head F) 20) \<Longrightarrow> rd8 (bp_mem s) (ld_dword (seg_head F) 8 + of_nat k) =
      Inr (if k < unat (ld_dword (seg_head F) 16) then F (unat (ld_dword (seg_head F) 4) + k) else 0)"
proof -
  let ?stack = "NEW_STACK - 0x1000 :: u32" and ?b = "sector_bytes disk dx bs"
  note k = disk(2) [unfolded kernel_disk_def]
  have mem: "1024 \<le> lo" "unat (sm32_base (last (filter usable (packed es)))) < lo * 4096"
    "(lo + 2 * (image_pages F + 1)) * 4096 \<le> unat (region_top (last (filter usable (packed es))))"
    using map(3) by (simp_all add: memory_ok_def Let_def)
  obtain e820 j rest where v: "validate data n = Inr (length (packed es), e820)" "j + 1 < length e820" "j < 65535"
    "\<forall>k. 1 \<le> k \<and> k \<le> j \<longrightarrow> sm32_type (e820 ! k) = 1" "sm32_type (e820 ! (j + 1)) \<noteq> 1" "e820 ! j = last (filter usable (packed es))"
    "take (length (packed es)) e820 = filter usable (packed es) @ rest" "j + 1 = length (filter usable (packed es))" "rest \<noteq> []" "set rest \<subseteq> {e \<in> set (packed es). \<not> usable e}" "length (packed es) \<le> length e820"
    "filter usable (packed es) @ rest = sort_key (\<lambda>e. unat (sm32_type e)) (packed es)"
    using validate_usable [OF map] .
  define s0 where "s0 = \<lparr>pff_mounted = False, pff_fs = fs, pff_cache = setDrive dcache_start dx\<rparr>"
  obtain c where c: "pf_mount disk s0 = Inr (FR_OK, s0\<lparr>pff_mounted := True, pff_fs := mounted fs bs ?b, pff_cache := c\<rparr>)" "dcache_ok disk dx c"
    using pf_mount_ok [of disk dx s0 bs] disk(1) k by (auto simp: s0_def dcache_start_ok)
  define f1 where "f1 = s0\<lparr>pff_mounted := True, pff_fs := mounted fs bs ?b, pff_cache := c\<rparr>"
  define t0 :: boot_pt where "t0 = \<lparr>bp_mem = m, bp_e820 = [], bp_index = 0, bp_addr = 0\<rparr>"
  have "bp_index t0 = 0" by (simp add: t0_def)
  from pt_init_eq [OF this v(2-5)] obtain i where i: "unat i = j" "pt_init pdir t0 e820 =
      Inr (t0\<lparr>bp_mem := init_memory (bp_mem t0) f, bp_e820 := e820, bp_index := i, bp_addr := region_top (e820 ! j)\<rparr>)"
    unfolding pdir(1) .
  define rg where "rg = \<lparr>rg_lo = lo, rg_dir = f, rg_map = e820, rg_index = i\<rparr>"
  have rg: "rg_lo rg = lo" by (simp add: rg_def)
  define s1 where "s1 = t0\<lparr>bp_mem := init_memory (bp_mem t0) f, bp_e820 := e820, bp_index := i, bp_addr := region_top (e820 ! j)\<rparr>"
  have jl: "j < length e820" using v(2) by simp
  have "unat (sm32_base (e820 ! j)) < lo * 4096" using mem(2) v(6) by simp
  moreover have "unat (sm32_base (e820 ! j)) + unat (sm32_length (e820 ! j)) \<le> unat (region_top (e820 ! j))"
    unfolding v(6) by (rule region_top_bounds(1) [OF mem(2)]) (use mem(3) in simp)
  ultimately have r1: "boot_ready rg s1" unfolding s1_def rg_def by (rule pt_init_ready [OF pdir(2) mem(1) jl i(1)])
  have small: "\<not> big_page (pmem (bp_mem s1) (cr3 (bp_mem s1)) (pdi_of w))" if "w \<in> image_space F \<or> w = ?stack" for w
  proof -
    have "0x400000 \<le> unat w" using that space by (auto simp: NEW_STACK_def)
    then have "pdi_of w \<noteq> 0" by (auto simp: word_unat_eq_iff unat_pdi)
    then show ?thesis unfolding s1_def
      by (simp add: init_memory_directory init_memory_bits table_entry)
  qed
  have room: "(lo + 2 * (image_pages F + 1)) * 4096 \<le> unat (bp_addr s1)" using mem(3) v(6) by (simp add: s1_def)
  define l0 where "l0 = \<lparr>ld_boot = s1, ld_fat = f1\<rparr>"
  have vol: "pff_mounted (ld_fat l0)" "volume_ok (pff_fs (ld_fat l0))" "dcache_ok disk dx (pff_cache (ld_fat l0))"
    "names_file disk dx (pff_fs (ld_fat l0)) chain [kernel_fname] e cl" "boot_ready rg (ld_boot l0)"
    "(rg_lo rg + 2 * image_pages F) * 4096 \<le> unat (bp_addr (ld_boot l0))"
    using k c(2) r1 room mounted_volume by (simp_all add: l0_def f1_def rg)
  have F: "F = file_byte disk dx (pff_fs (ld_fat l0)) cl" using k unfolding l0_def f1_def by simp
  have img: "image_ok F (unat (ld_dword e 28))" using k by blast
  have small0: "\<And>w. w \<in> image_space F \<Longrightarrow> \<not> big_page (pmem (bp_mem (ld_boot l0)) (cr3 (bp_mem (ld_boot l0))) (pdi_of w))"
    using small by (simp add: l0_def)
  have u124: "124 \<le> unat (124 :: u32)" by simp
  obtain b' l' where ld: "elf_load_file disk sp dir l0 kernel_name bufp hdrs 124 = Inr (e_entry (elf_head F), b', l')"
    "boot_ready rg (ld_boot l')" "own_pages (bp_mem (ld_boot l')) (image_space F)"
    "\<forall>k<unat (ld_dword (seg_head F) 20). rd8 (bp_mem (ld_boot l')) (ld_dword (seg_head F) 8 + of_nat k) =
      Inr (if k < unat (ld_dword (seg_head F) 16) then F (unat (ld_dword (seg_head F) 4) + k) else 0)"
    "unat (bp_addr (ld_boot l0)) \<le> unat (bp_addr (ld_boot l')) + image_pages F * 8192"
    "keeps_small (bp_mem (ld_boot l0)) (bp_mem (ld_boot l'))"
    unfolding kernel_path
    using elf_load_file_ok [OF vol(1-4) F img bufs(1,2) u124 bufs(3,4) vol(5,6) small0 cover] .
  have stack: "pdi_of ?stack \<noteq> 1023" by (simp add: below_window NEW_STACK_def)
  have "\<not> big_page (pmem (bp_mem (ld_boot l')) (cr3 (bp_mem (ld_boot l'))) (pdi_of ?stack))"
    using small [of ?stack] ld(6) by (auto simp: keeps_small_def l0_def)
  moreover have "(rg_lo rg + 2) * 4096 \<le> unat (bp_addr (ld_boot l'))" using ld(5) room by (simp add: l0_def rg)
  moreover have "pdi_of w \<noteq> 1023 \<and> \<not> same_page ?stack w" if "w \<in> image_space F" for w
    using image_okD(3) [OF img that] space that by blast
  ultimately obtain s2 where s2: "boot_pt_map (ld_boot l') ?stack = Inr s2" "boot_ready rg s2" "unat (bp_addr (ld_boot l')) \<le> unat (bp_addr s2) + 8192"
    "own_pages (bp_mem s2) (image_space F \<union> {w. same_page ?stack w})" "\<And>w. w \<in> image_space F \<Longrightarrow> rd8 (bp_mem s2) w = rd8 (bp_mem (ld_boot l')) w"
    using map_further_page [OF ld(2) _ stack _ ld(3)] by blast
  have "bmain disk pdir sp dir fs bufp hdrs m data n dx =
    Inr (e_entry (elf_head F), NEW_STACK, bp_e820 s2, of_nat (length (packed es)), bp_mem s2)"
    unfolding bmain_def Let_def v(1) bindR_Inr prod.case s0_def [symmetric] t0_def [symmetric] c(1) f1_def [symmetric] i(2) s1_def [symmetric]
      l0_def [symmetric] ld(1)
    using entry s2(1) by simp
  moreover have "rd8 (bp_mem s2) (ld_dword (seg_head F) 8 + of_nat k) =
      Inr (if k < unat (ld_dword (seg_head F) 16) then F (unat (ld_dword (seg_head F) 4) + k) else 0)"
    if "k < unat (ld_dword (seg_head F) 20)" for k using that s2(5) ld(4) cover by auto
  moreover have "rg_map rg = e820" "rg_dir rg = f" "rg_index rg = i" by (simp_all add: rg_def)
  moreover from this have "rg_entry rg = last (filter usable (packed es))" by (simp add: i(1) v(6))
  moreover have "unat (region_top (e820 ! j)) \<le> unat (bp_addr s2) + (image_pages F + 1) * 8192"
    using ld(5) s2(3) by (simp add: l0_def s1_def)
  ultimately show thesis using v(6-12) i(1) s2(2,4) rg by (intro that [of rg rest s2]) simp_all
qed

text \<open>
  C2: stage 2 boots: from a memory map whose last usable region has room and a disk whose
  volume holds the kernel, \<open>bmain\<close> passes every assertion and enters the kernel at its entry
  point with the new stack and the memory map sorted by type, of which only the last usable
  region is changed: it has lost at most two pages for each page mapped. The kernel's memory
  then holds the bytes of the first program header's segment, the one stage 2 loads, from the
  file \<open>KERNEL.ELF\<close>, and zeros after them up to its size; the pages of the segment and
  of the zero-initialised sections and the stack have frames of their own, apart from the page
  tables.
\<close>

theorem bmain_enters_kernel:
  assumes map: "data = concat (map entry_words es)" "length es = unat n" "memory_ok es lo (image_pages F + 1)"
    and pdir: "pdir = frame_addr f" "unat f < 1024"
    and disk: "dx \<noteq> 0xFFFF" "kernel_disk disk dx fs bs chain e cl F"
    and bufs: "length sp = 12" "length hdrs = 124" "bufp \<noteq> 0" "unat bufp + 124 < 4294967296"
    and entry: "e_entry (elf_head F) \<noteq> 0"
    and space: "\<forall>w\<in>image_space F. 0x400000 \<le> unat w \<and> \<not> same_page (NEW_STACK - 0x1000) w"
    and cover: "\<forall>k<unat (ld_dword (seg_head F) 20). ld_dword (seg_head F) 8 + of_nat k \<in> image_space F"
  shows "\<exists>e820 l m'. bmain disk pdir sp dir fs bufp hdrs m data n dx =
      Inr (e_entry (elf_head F), NEW_STACK, e820, of_nat (length (packed es)), m') \<and>
    take (length (packed es)) e820 = (sort_key (\<lambda>e. unat (sm32_type e)) (packed es))
      [length (filter usable (packed es)) - 1 := (last (filter usable (packed es)))\<lparr>sm32_length := l\<rparr>] \<and>
    unat l \<le> unat (sm32_length (last (filter usable (packed es)))) \<and>
    unat (sm32_length (last (filter usable (packed es)))) \<le> unat l + (image_pages F + 1) * 8192 \<and>
    (\<forall>k<unat (ld_dword (seg_head F) 20). rd8 m' (ld_dword (seg_head F) 8 + of_nat k) =
      Inr (if k < unat (ld_dword (seg_head F) 16) then F (unat (ld_dword (seg_head F) 4) + k) else 0)) \<and>
    own_pages m' (image_space F \<union> {w. same_page (NEW_STACK - 0x1000) w})"
proof -
  let ?us = "filter usable (packed es)" and ?k = "length (packed es)"
  obtain rg s rest where b: "take ?k (rg_map rg) = ?us @ rest" "rest \<noteq> []" "set rest \<subseteq> {e \<in> set (packed es). \<not> usable e}"
    "?k \<le> length (rg_map rg)" "?us @ rest = sort_key (\<lambda>e. unat (sm32_type e)) (packed es)" "rg_entry rg = last ?us"
    "unat (region_top (rg_entry rg)) \<le> unat (bp_addr s) + (image_pages F + 1) * 8192"
    "unat (rg_index rg) + 1 = length ?us" "boot_ready rg s" "rg_dir rg = f" "rg_lo rg = lo"
    "bmain disk pdir sp dir fs bufp hdrs m data n dx = Inr (e_entry (elf_head F), NEW_STACK, bp_e820 s, of_nat ?k, bp_mem s)"
    "own_pages (bp_mem s) (image_space F \<union> {w. same_page (NEW_STACK - 0x1000) w})"
    "\<And>k. k < unat (ld_dword (seg_head F) 20) \<Longrightarrow> rd8 (bp_mem s) (ld_dword (seg_head F) 8 + of_nat k) =
      Inr (if k < unat (ld_dword (seg_head F) 16) then F (unat (ld_dword (seg_head F) 4) + k) else 0)"
    by (rule bmain_state [OF assms, of dir m]) (rule that, assumption+)
  obtain l where l: "bp_e820 s = (rg_map rg)[unat (rg_index rg) := (last ?us)\<lparr>sm32_length := l\<rparr>]"
    "unat l = unat (sm32_length (last ?us)) - (unat (region_top (last ?us)) - unat (bp_addr s))"
    using b(9) unfolding boot_ready_def map_shrunk_def b(6) by blast
  have j: "unat (rg_index rg) = length ?us - 1" using b(8) by simp
  have "take ?k (bp_e820 s) = (sort_key (\<lambda>e. unat (sm32_type e)) (packed es))[length ?us - 1 := (last ?us)\<lparr>sm32_length := l\<rparr>]"
    unfolding l(1) j take_update_swap b(1,5) ..
  moreover have "unat l \<le> unat (sm32_length (last ?us))" "unat (sm32_length (last ?us)) \<le> unat l + (image_pages F + 1) * 8192"
    using l(2) b(6,7) by simp_all
  ultimately show ?thesis using b(12-14) by blast
qed

subsection \<open>A machine that boots\<close>

text \<open>
  A FAT16 volume without partitions: a root table of 16 entries, \<open>KERNEL.ELF\<close> of 600 bytes
  in the first two clusters. The image has two program headers, of which the first is the
  segment at \<open>0xFF000000\<close> with 4 bytes of file, and a zero-initialised section in the page
  after it.
\<close>

definition kernel_bytes :: "u8 list" where
  "kernel_bytes =
     [0x7F, 0x45, 0x4C, 0x46, 1, 1, 1, 0, 0, 0, 0, 0, 0, 0, 0, 0, 2, 0, 3, 0, 1, 0, 0, 0, 0, 0, 0, 0xFF, 52, 0, 0, 0,
      84, 0, 0, 0, 0, 0, 0, 0, 52, 0, 32, 0, 2, 0, 40, 0, 1, 0, 0, 0] @
     [1, 0, 0, 0, 124, 0, 0, 0, 0, 0, 0, 0xFF, 0, 0, 0, 0xFF, 4, 0, 0, 0, 0, 0x11, 0, 0, 7, 0, 0, 0, 0, 0x10, 0, 0] @
     [0, 0, 0, 0, 8, 0, 0, 0, 3, 0, 0, 0, 0, 0x10, 0, 0xFF, 0, 0x20, 0, 0, 0, 1, 0, 0, 0, 0, 0, 0, 0, 0, 0, 0, 0, 0, 0, 0, 0, 0, 0, 0] @
     [0xEB, 0xFE, 0x90, 0x90]"

definition boot_disk :: disk where
  "boot_disk drv sector k =
     (let bs = (if sector = 0 then replicate 13 0 @ [1, 1, 0, 1, 16, 0, 0x36, 0x10, 0, 17, 0] @ replicate 30 0 @ [0x46, 0x41] @ replicate 454 0 @ [0x55, 0xAA]
                else if sector = 1 then [0, 0, 0, 0, 3, 0, 0xFF, 0xFF]
                else if sector = 18 then [75, 69, 82, 78, 69, 76, 32, 32, 69, 76, 70, 0x20] @ replicate 14 0 @ [2, 0, 88, 2]
                else if sector = 19 then kernel_bytes else [])
      in if k < length bs then bs ! k else 0)"

lemma nth_sector: "k < 512 \<Longrightarrow> sector_bytes boot_disk 0x80 n ! k = boot_disk 0x80 n k"
  by (simp add: sector_bytes_def)

abbreviation boot_fs :: FATFS where
  "boot_fs \<equiv> mounted (pff_fs example_pff) 0 (sector_bytes boot_disk 0x80 0)"

lemma boot_sector:
  "fat_signed (sector_bytes boot_disk 0x80 0)" "ld_word (sector_bytes boot_disk 0x80 0) 14 = 1" "ld_word (sector_bytes boot_disk 0x80 0) 17 = 16"
  "sector_bytes boot_disk 0x80 0 ! 13 = 1" "boot_fats (sector_bytes boot_disk 0x80 0) = 17" "boot_clusters (sector_bytes boot_disk 0x80 0) = 4131"
  "boot_offset (sector_bytes boot_disk 0x80 0) = 19" "boot_total (sector_bytes boot_disk 0x80 0) = 4150"
proof -
  let ?b = "sector_bytes boot_disk 0x80 0"
  have b: "boot_disk 0x80 0 13 = 1" "boot_disk 0x80 0 14 = 1" "boot_disk 0x80 0 15 = 0" "boot_disk 0x80 0 16 = 1" "boot_disk 0x80 0 17 = 16"
    "boot_disk 0x80 0 18 = 0" "boot_disk 0x80 0 19 = 0x36" "boot_disk 0x80 0 20 = 0x10" "boot_disk 0x80 0 22 = 17" "boot_disk 0x80 0 23 = 0"
    "boot_disk 0x80 0 54 = 0x46" "boot_disk 0x80 0 55 = 0x41" "boot_disk 0x80 0 510 = 0x55" "boot_disk 0x80 0 511 = 0xAA" by code_simp+
  show s: "fat_signed ?b" by (simp add: fat_signed_def ld_word_def nth_sector b)
  have f: "ld_word ?b 14 = 1" "ld_word ?b 17 = 16" "ld_word ?b 19 = 4150" "ld_word ?b 22 = 17" "?b ! 13 = 1" "?b ! 16 = 1"
    by (simp_all add: ld_word_def nth_sector b)
  then show "ld_word ?b 14 = 1" "ld_word ?b 17 = 16" "?b ! 13 = 1" "boot_fats ?b = 17" "boot_clusters ?b = 4131" "boot_offset ?b = 19" "boot_total ?b = 4150"
    by (simp_all add: boot_total_def boot_fats_def boot_offset_def boot_clusters_def)
qed

lemma boot_sector_ok: "boot_ok 0 (sector_bytes boot_disk 0x80 0)"
proof -
  have "list_ex (\<lambda>e. (1::nat) = 2 ^ e) [0..<8]" unfolding list_ex_iff by (intro bexI [of _ 0]) simp_all
  then show ?thesis by (simp add: boot_ok_def boot_sector)
qed

lemma boot_fs_fields:
  "fs_type boot_fs = FS_FAT16" "csize boot_fs = 1" "n_rootdir boot_fs = 16" "n_fatent boot_fs = 4133" "fatbase boot_fs = 1"
  "dirbase boot_fs = 18" "database boot_fs = 19"
  by (simp_all add: mounted_def Let_def boot_sector)

lemma boot_root: "dir_chain boot_disk 0x80 boot_fs 0 []"
  by (rule mounted_root16 [OF boot_sector_ok]) (simp_all add: boot_sector)

lemma boot_kernel_entry:
  "dir_lookup (dir_form kernel_fname) (dir_entries boot_disk 0x80 boot_fs []) = Some (dir_entry boot_disk 0x80 boot_fs [] 0)"
  "dir_entry boot_disk 0x80 boot_fs [] 0 ! 11 = 0x20" "get_clust boot_fs (dir_entry boot_disk 0x80 boot_fs [] 0) = 2"
  "ld_dword (dir_entry boot_disk 0x80 boot_fs [] 0) 28 = 600"
proof -
  let ?e = "dir_entry boot_disk 0x80 boot_fs [] 0"
  have s: "snd (dir_sector boot_fs [] 0) = 18" by (simp add: dir_sector_def boot_fs_fields)
  have n: "dir_sectors boot_fs [] = 1" by (simp add: dir_sectors_def boot_fs_fields)
  have b: "boot_disk 0x80 18 0 = 75" "boot_disk 0x80 18 11 = 0x20" "boot_disk 0x80 18 26 = 2" "boot_disk 0x80 18 27 = 0"
    "boot_disk 0x80 18 28 = 88" "boot_disk 0x80 18 29 = 2" "boot_disk 0x80 18 30 = 0" "boot_disk 0x80 18 31 = 0" by code_simp+
  have "map (boot_disk 0x80 18) [0..<11] = dir_form kernel_fname" by code_simp
  then have t: "take 11 ?e = dir_form kernel_fname" by (simp add: take_dir_entry s)
  show a: "?e ! 11 = 0x20" by (simp add: nth_dir_entry s b)
  show "get_clust boot_fs ?e = 2" "ld_dword ?e 28 = 600"
    by (simp_all add: get_clust_def boot_fs_fields FS_FAT16_def FS_FAT32_def ld_word_def ld_dword_def Let_def nth_dir_entry s b)
  show "dir_lookup (dir_form kernel_fname) (dir_entries boot_disk 0x80 boot_fs []) = Some ?e"
    using lookup_step [where i = 0 and fs = boot_fs and cl = "[]" and disk = boot_disk and drv = "0x80", OF _ refl] t a
    by (simp add: n s b nth_dir_entry AM_VOL_def)
qed

lemma boot_names_kernel:
  "names_file boot_disk 0x80 boot_fs (\<lambda>_. []) [kernel_fname] (dir_entry boot_disk 0x80 boot_fs [] 0) [2, 3]"
proof -
  have "boot_disk 0x80 1 4 = 3" "boot_disk 0x80 1 5 = 0" by code_simp+
  then have "fat_entry boot_disk 0x80 (opened boot_fs e) 2 = 3" for e
    by (simp add: fat_entry_def opened_def boot_fs_fields ld_word_def nth_sector)
  then have "chain_ok boot_disk 0x80 (opened boot_fs (dir_entry boot_disk 0x80 boot_fs [] 0)) [2, 3]"
    by (simp add: chain_ok_def cluster_bytes_def) (simp add: opened_def boot_fs_fields boot_kernel_entry)
  moreover have "name_ok kernel_fname" by (simp add: kernel_fname_def name_ok_def name_char_def)
  ultimately show ?thesis using boot_root by (simp add: names_file_def boot_kernel_entry AM_DIR_def)
qed

definition boot_image :: "nat \<Rightarrow> u8" where
  "boot_image = file_byte boot_disk 0x80 boot_fs [2, 3]"

lemma boot_image_byte: "k < 512 \<Longrightarrow> boot_image k = boot_disk 0x80 19 k"
  by (simp add: boot_image_def file_byte_def file_sector_def cluster_bytes_def boot_fs_fields)

lemma boot_image_part: "unat o1 + n \<le> 512 \<Longrightarrow> file_part boot_image o1 n = map (boot_disk 0x80 19) [unat o1..<unat o1 + n]"
  unfolding file_part_def by (rule map_cong) (simp_all add: boot_image_byte)

lemma boot_image_heads:
  "elf_head boot_image = take 52 kernel_bytes" "seg_head boot_image = take 32 (drop 52 kernel_bytes)"
  "sec_head boot_image 0 = take 40 (drop 84 kernel_bytes)"
proof -
  have "map boot_image [0..<52] = map (boot_disk 0x80 19) [0..<52]" by (rule map_cong) (simp_all add: boot_image_byte)
  also have "\<dots> = take 52 kernel_bytes" by code_simp
  finally show h: "elf_head boot_image = take 52 kernel_bytes" by (simp only: elf_head_def)
  have o: "e_phoff (take 52 kernel_bytes) = 52" "sec_offset (take 52 kernel_bytes) 0 = 84" by code_simp+
  have u: "unat (52 :: u32) = 52" "unat (84 :: u32) = 84" by simp_all
  have m: "map (boot_disk 0x80 19) [52..<52 + 32] = take 32 (drop 52 kernel_bytes)"
    "map (boot_disk 0x80 19) [84..<84 + 40] = take 40 (drop 84 kernel_bytes)" by code_simp+
  show "seg_head boot_image = take 32 (drop 52 kernel_bytes)"
    unfolding seg_head_def h o using boot_image_part [of 52 32] unfolding u m by simp
  show "sec_head boot_image 0 = take 40 (drop 84 kernel_bytes)"
    unfolding sec_head_def h o using boot_image_part [of 84 40] unfolding u m by simp
qed

lemma boot_image_fields:
  "e_entry (elf_head boot_image) = 0xFF000000" "e_shnum (elf_head boot_image) = 1" "e_phnum (elf_head boot_image) = 2"
  "e_phoff (elf_head boot_image) = 52" "sec_offset (elf_head boot_image) 0 = 84" "elf_is_supported (elf_head boot_image)"
  "ld_dword (seg_head boot_image) 0 = 1" "ld_dword (seg_head boot_image) 4 = 124" "ld_dword (seg_head boot_image) 8 = 0xFF000000"
  "ld_dword (seg_head boot_image) 12 = 0xFF000000" "ld_dword (seg_head boot_image) 16 = 4" "ld_dword (seg_head boot_image) 20 = 0x1100"
  "ld_dword (sec_head boot_image 0) 12 = 0xFF001000" "bss_pages (sec_head boot_image 0) = 1"
  unfolding boot_image_heads by code_simp+

lemma boot_image_pages:
  "image_pages boot_image = 2" "image_space boot_image = page_range 0xFF001000 1 \<union> page_range 0xFF000000 1"
  by (simp_all add: image_pages_def image_space_def bss_count_def bss_upto_def bss_range_def seg_pages_def boot_image_fields lessThan_Suc)

lemma boot_image_ok: "image_ok boot_image 600"
  by (simp add: image_ok_def Let_def boot_image_fields range_ok_def seg_pages_def PT_LOAD_def)

lemma boot_memory_ok: "memory_ok example_map 1024 3"
  by (simp add: memory_ok_def Let_def packed_example disjoint_regions_def usable_def region_top_def)

lemma boot_setting:
  "length example_map = unat (4 :: u16)" "memory_ok example_map 1024 (image_pages boot_image + 1)" "0x3000 = frame_addr 3"
  "unat (3 :: frame) < 1024" "(0x80 :: u16) \<noteq> 0xFFFF"
  "kernel_disk boot_disk 0x80 (pff_fs example_pff) 0 (\<lambda>_. []) (dir_entry boot_disk 0x80 boot_fs [] 0) [2, 3] boot_image"
  "e_entry (elf_head boot_image) \<noteq> 0"
  "\<forall>w\<in>image_space boot_image. 0x400000 \<le> unat w \<and> \<not> same_page (NEW_STACK - 0x1000) w"
  "\<forall>k<unat (ld_dword (seg_head boot_image) 20). ld_dword (seg_head boot_image) 8 + of_nat k \<in> image_space boot_image"
  "length (packed example_map) = 3"
proof -
  show "0x3000 = frame_addr 3" by (simp add: frame_addr_def push_bit_eq_mult)
  show "kernel_disk boot_disk 0x80 (pff_fs example_pff) 0 (\<lambda>_. []) (dir_entry boot_disk 0x80 boot_fs [] 0) [2, 3] boot_image"
    unfolding kernel_disk_def boot_kernel_entry
    using boot_names_kernel boot_sector(1) boot_sector_ok boot_image_ok by (simp add: volume_at_def boot_image_def)
  show "length example_map = unat (4 :: u16)" "length (packed example_map) = 3"
    by (simp add: example_map_def) (simp add: packed_example)
  show "memory_ok example_map 1024 (image_pages boot_image + 1)" using boot_memory_ok by (simp add: boot_image_pages)
  show "\<forall>w\<in>image_space boot_image. 0x400000 \<le> unat w \<and> \<not> same_page (NEW_STACK - 0x1000) w"
  proof
    fix w assume "w \<in> image_space boot_image"
    then have w: "4278190080 \<le> unat w" "unat w < 4278198272" unfolding boot_image_pages page_range_def by auto
    then have "unat w div 4096 < 1044482" by (simp add: less_mult_imp_div_less)
    then show "0x400000 \<le> unat w \<and> \<not> same_page (NEW_STACK - 0x1000) w"
      using w(1) by (simp add: same_page_div NEW_STACK_def)
  qed
  show "\<forall>k<unat (ld_dword (seg_head boot_image) 20). ld_dword (seg_head boot_image) 8 + of_nat k \<in> image_space boot_image"
  proof (intro allI impI)
    fix k assume "k < unat (ld_dword (seg_head boot_image) 20)"
    then have k: "k < 4352" by (simp add: boot_image_fields)
    then have "unat (0xFF000000 + of_nat k :: u32) = 4278190080 + k"
      by (subst unat_add_nowrap) (simp_all add: unat_of_nat32)
    then show "ld_dword (seg_head boot_image) 8 + of_nat k \<in> image_space boot_image"
      using k by (simp add: boot_image_pages boot_image_fields page_range_def) linarith
  qed
qed (simp_all add: boot_image_fields)

lemma example_sorted:
  "sort_key (\<lambda>e. unat (sm32_type e)) (packed example_map) =
     [\<lparr>sm32_base = 0, sm32_length = 0x9FC00, sm32_type = 1, sm32_acpi = 1\<rparr>,
      \<lparr>sm32_base = 0x100000, sm32_length = 0x7F00000, sm32_type = 1, sm32_acpi = 1\<rparr>,
      \<lparr>sm32_base = 0x9FC00, sm32_length = 0x400, sm32_type = 2, sm32_acpi = 1\<rparr>]"
  "filter usable (packed example_map) =
     [\<lparr>sm32_base = 0, sm32_length = 0x9FC00, sm32_type = 1, sm32_acpi = 1\<rparr>,
      \<lparr>sm32_base = 0x100000, sm32_length = 0x7F00000, sm32_type = 1, sm32_acpi = 1\<rparr>]"
  by (simp_all add: packed_example usable_def)

theorem bmain_enters_kernel_witness:
  "\<exists>e820 l m'. bmain boot_disk 0x3000 (replicate 12 0) [] (pff_fs example_pff) 0x7000 (replicate 124 0) example_machine
      (concat (map entry_words example_map)) 4 0x80 = Inr (0xFF000000, NEW_STACK, e820, 3, m') \<and>
    take 3 e820 = [\<lparr>sm32_base = 0, sm32_length = 0x9FC00, sm32_type = 1, sm32_acpi = 1\<rparr>,
      \<lparr>sm32_base = 0x100000, sm32_length = l, sm32_type = 1, sm32_acpi = 1\<rparr>,
      \<lparr>sm32_base = 0x9FC00, sm32_length = 0x400, sm32_type = 2, sm32_acpi = 1\<rparr>] \<and> 0x7EFA000 \<le> unat l \<and>
    (\<forall>k<0x1100. rd8 m' (0xFF000000 + of_nat k) = Inr (if k < 4 then boot_image (124 + k) else 0)) \<and>
    own_pages m' (image_space boot_image \<union> {w. same_page (NEW_STACK - 0x1000) w})"
proof -
  note h = bmain_enters_kernel [OF refl boot_setting(1,2,3,4,5,6) _ _ _ _ boot_setting(7-9), of "replicate 12 0" "replicate 124 0" "0x7000" "[]" example_machine]
  have u: "unat (0x1100 :: u32) = 0x1100" "unat (4 :: u32) = 4" "unat (124 :: u32) = 124" "image_pages boot_image = 2"
    by (simp_all add: boot_image_pages)
  from h obtain e820 l m' where b: "bmain boot_disk 0x3000 (replicate 12 0) [] (pff_fs example_pff) 0x7000 (replicate 124 0) example_machine
      (concat (map entry_words example_map)) 4 0x80 = Inr (0xFF000000, NEW_STACK, e820, of_nat 3, m')"
    "take 3 e820 = (sort_key (\<lambda>e. unat (sm32_type e)) (packed example_map))[length (filter usable (packed example_map)) - 1 :=
      (last (filter usable (packed example_map)))\<lparr>sm32_length := l\<rparr>]"
    "unat (sm32_length (last (filter usable (packed example_map)))) \<le> unat l + (2 + 1) * 8192"
    "\<forall>k<0x1100. rd8 m' (0xFF000000 + of_nat k) = Inr (if k < 4 then boot_image (124 + k) else 0)"
    "own_pages m' (image_space boot_image \<union> {w. same_page (NEW_STACK - 0x1000) w})"
    unfolding boot_image_fields boot_setting(10) u by (simp split del: if_split) blast
  show ?thesis using b unfolding example_sorted by (intro exI [of _ e820] exI [of _ l] exI [of _ m']) (simp split del: if_split)
qed

end
