(* ===== verification/Ring_Spec.thy ===== *)
theory Ring_Spec
  imports Boot_Prelude
begin

text \<open>
  The contract of a ring header: two counters, of the elements ever produced and
  ever consumed, from which a client derives slots of its own array. \<open>ring_index\<close>
  states what the header's operations do to the counters; what a client gets from
  them (a first-in first-out queue in its array) is proved here once.
\<close>

text \<open>\<open>memcpy(dst + off, src, n)\<close> into the array \<open>dst\<close>: touching a byte outside it is a fault.\<close>

definition memcpyR :: "'a list \<Rightarrow> int \<Rightarrow> 'a list \<Rightarrow> nat \<Rightarrow> 'a list res" where
  "memcpyR dst off src n =
     (if n = 0 then Inr dst
      else if 0 \<le> off \<and> nat off + n \<le> length dst \<and> n \<le> length src
      then Inr (take (nat off) dst @ take n src @ drop (nat off + n) dst)
      else Inl OutOfBounds)"

text \<open>The \<open>n\<close> elements from \<open>src + off\<close> on.\<close>

definition sliceR :: "'a list \<Rightarrow> int \<Rightarrow> nat \<Rightarrow> 'a list res" where
  "sliceR src off n =
     (if n = 0 then Inr []
      else if 0 \<le> off \<and> nat off + n \<le> length src then Inr (take n (drop (nat off) src))
      else Inl OutOfBounds)"

lemma memcpyR_in:
  assumes "o' + n \<le> length dst" "n \<le> length src"
  shows "\<exists>d. memcpyR dst (int o') src n = Inr d \<and> length d = length dst \<and>
    (\<forall>j<length dst. d ! j = (if o' \<le> j \<and> j < o' + n then src ! (j - o') else dst ! j))"
  using assms by (auto simp: memcpyR_def nth_append)

lemma sliceR_in:
  "o' + n \<le> length src \<Longrightarrow> sliceR src (int o') n = Inr (map (\<lambda>i. src ! (o' + i)) [0..<n])"
  by (auto simp: sliceR_def intro!: nth_equalityI)

lemma memcpyR_negative: "off < 0 \<Longrightarrow> 0 < n \<Longrightarrow> memcpyR dst off src n = Inl OutOfBounds"
  by (simp add: memcpyR_def)

locale ring_index =
  fixes cap :: nat
    and limit :: nat
    and ok :: "'h \<Rightarrow> bool"
    and head :: "'h \<Rightarrow> nat"
    and tail :: "'h \<Rightarrow> nat"
    and elements :: "'h \<Rightarrow> nat"
    and wslot :: "'h \<Rightarrow> nat \<Rightarrow> int \<times> 'h"
    and rslot :: "'h \<Rightarrow> nat \<Rightarrow> int"
    and wcommit :: "'h \<Rightarrow> nat \<Rightarrow> 'h"
    and rcommit :: "'h \<Rightarrow> nat \<Rightarrow> 'h"
  assumes cap_pos: "ok r \<Longrightarrow> 0 < cap"
    and order: "ok r \<Longrightarrow> tail r \<le> head r \<and> head r \<le> tail r + cap"
    and elements: "ok r \<Longrightarrow> elements r = head r - tail r"
    and wslot: "ok r \<Longrightarrow> head r - tail r + n < cap \<Longrightarrow> wslot r n = (int (head r mod cap), r)"
    and rslot: "ok r \<Longrightarrow> n \<le> head r - tail r \<Longrightarrow> rslot r n = int (tail r mod cap)"
    and wcommit: "ok r \<Longrightarrow> head r - tail r + n \<le> cap \<Longrightarrow> head r + n < limit \<Longrightarrow>
      ok (wcommit r n) \<and> head (wcommit r n) = head r + n \<and> tail (wcommit r n) = tail r"
    and rcommit: "ok r \<Longrightarrow> n \<le> head r - tail r \<Longrightarrow>
      ok (rcommit r n) \<and> head (rcommit r n) = head r \<and> tail (rcommit r n) = tail r + n"
begin

definition queue :: "'h \<Rightarrow> 'a list \<Rightarrow> 'a list" where
  "queue r b = map (\<lambda>i. b ! (i mod cap)) [tail r..<head r]"

lemma length_queue: "ok r \<Longrightarrow> length (queue r b) = elements r"
  by (simp add: queue_def elements)

lemma queue_produce:
  assumes r: "ok r" "head r - tail r + length xs \<le> cap" "head r + length xs < limit"
    and new: "\<And>i. i < length xs \<Longrightarrow> b' ! ((head r + i) mod cap) = xs ! i"
    and kept: "\<And>i. tail r \<le> i \<Longrightarrow> i < head r \<Longrightarrow> b' ! (i mod cap) = b ! (i mod cap)"
  shows "queue (wcommit r (length xs)) b' = queue r b @ xs"
proof -
  let ?f = "\<lambda>i. b' ! (i mod cap)"
  have "queue (wcommit r (length xs)) b' = map ?f [tail r..<head r + length xs]"
    using wcommit [OF r] by (simp add: queue_def)
  also have "\<dots> = map ?f [tail r..<head r] @ map ?f [head r..<head r + length xs]"
    using order [OF r(1)] by (subst upt_add_eq_append) simp_all
  also have "map ?f [head r..<head r + length xs] = xs"
    by (rule nth_equalityI) (auto simp: new)
  finally show ?thesis by (simp add: queue_def kept)
qed

lemma queue_consume:
  assumes "ok r" "n \<le> elements r"
  shows "queue (rcommit r n) b = drop n (queue r b)"
  using assms rcommit [of r n] by (simp add: queue_def elements drop_map drop_upt)

lemma queue_front:
  assumes "ok r" "n \<le> elements r"
  shows "map (\<lambda>i. b ! ((tail r + i) mod cap)) [0..<n] = take n (queue r b)"
  using assms by (intro nth_equalityI) (auto simp: queue_def elements)

lemma slots_apart:
  assumes "ok r" "head r - tail r + n \<le> cap" "i < n" "tail r \<le> j" "j < head r"
  shows "(head r + i) mod cap \<noteq> j mod cap"
proof
  assume eq: "(head r + i) mod cap = j mod cap"
  have "head r + i - j < cap" "j \<le> head r + i" "0 < head r + i - j"
    using assms order [OF assms(1)] by auto
  with eq show False by (metis mod_eq_dvd_iff_nat nat_dvd_not_less)
qed

end

end
