(* ===== verification/Ring_Buffer.thy ===== *)
theory Ring_Buffer
  imports Ring_Spec
begin

text \<open>
  The lock-free ring header of stage 3 (\<open>stage3/mem/ringbuf.cpp\<close>) and the atomic
  macros it uses (\<open>stage3/include/crt/atomic.h\<close>). The header is one 32-bit word:
  the count of elements written in bits 0 to 14, the count of elements read in
  bits 16 to 30.
\<close>

section \<open>Model\<close>

text \<open>
  The atomic operations, each as the new value of the object. The header file
  expands \<open>atomic_fetch_and_explicit\<close> to \<open>__atomic_fetch_add\<close>, like its \<open>sub\<close>,
  \<open>or\<close> and \<open>xor\<close> variants.
\<close>

definition atomic_fetch_add_explicit :: "u32 \<Rightarrow> u32 \<Rightarrow> u32" where
  "atomic_fetch_add_explicit obj val = obj + val"

definition atomic_fetch_and_explicit :: "u32 \<Rightarrow> u32 \<Rightarrow> u32" where
  "atomic_fetch_and_explicit obj val = obj + val"

definition MAX_ELEM :: u32 where
  "MAX_ELEM = 0x7FFF"

definition hdr_head :: "u32 \<Rightarrow> u32" where
  "hdr_head r = r AND MAX_ELEM"

definition hdr_tail :: "u32 \<Rightarrow> u32" where
  "hdr_tail r = drop_bit 16 r AND MAX_ELEM"

definition buf_init :: "u32 \<Rightarrow> u32" where
  "buf_init hdr = 0"

definition buf_elements :: "u32 \<Rightarrow> u32 \<Rightarrow> u32" where
  "buf_elements hdr sz = hdr_head hdr - hdr_tail hdr"

text \<open>
  The result and the new header. \<open>capacity\<close> is an \<open>int32_t\<close>, but the comparison
  with the \<open>uint32_t\<close> argument is unsigned.
\<close>

definition buf_write :: "u32 \<Rightarrow> u32 \<Rightarrow> u32 \<Rightarrow> u32 \<times> u32" where
  "buf_write hdr sz num =
     (let r = hdr; mask = sz - 1; head = hdr_head r; tail = hdr_tail r;
          capacity = (sz - (head - tail)) - 1;
          hdr' = (if r AND 0x8000 \<noteq> 0 then atomic_fetch_and_explicit hdr (NOT 0x8000) else hdr)
      in if capacity < num then (- capacity, hdr') else (head AND mask, hdr'))"

definition buf_read :: "u32 \<Rightarrow> u32 \<Rightarrow> u32 \<Rightarrow> u32" where
  "buf_read hdr sz num =
     (let mask = sz - 1; head = hdr_head hdr; tail = hdr_tail hdr; elems = head - tail
      in if elems < num then - elems else tail AND mask)"

definition buf_write_commit :: "u32 \<Rightarrow> u32 \<Rightarrow> u32" where
  "buf_write_commit hdr num = atomic_fetch_add_explicit hdr num"

definition buf_read_commit :: "u32 \<Rightarrow> u32 \<Rightarrow> u32" where
  "buf_read_commit hdr num = atomic_fetch_add_explicit hdr (num * 0x10000)"

section \<open>The header as two counters\<close>

lemma and_7FFF: "x AND 0x7FFF = x mod 32768" for x :: u32
  using take_bit_eq_mask [of 15 x] by (simp add: take_bit_eq_mod mask_eq_exp_minus_1)

lemma unat_hdr_head: "unat (hdr_head r) = unat r mod 32768"
  by (simp add: hdr_head_def MAX_ELEM_def and_7FFF unat_mod_distrib)

lemma unat_hdr_tail: "unat (hdr_tail r) = unat r div 65536 mod 32768"
  by (simp add: hdr_tail_def MAX_ELEM_def and_7FFF unat_mod_distrib unat_div_distrib unat_drop_bit_eq
      drop_bit_eq_div)

text \<open>
  A header in its normal range: the head counter has not reached \<open>0x8000\<close>, and at
  most \<open>2 ^ k\<close> elements are in the ring.
\<close>

definition ring_ok :: "nat \<Rightarrow> u32 \<Rightarrow> bool" where
  "ring_ok k r \<longleftrightarrow> k \<le> 14 \<and> unat r = unat (hdr_tail r) * 65536 + unat (hdr_head r) \<and>
     unat (hdr_tail r) \<le> unat (hdr_head r) \<and> unat (hdr_head r) \<le> unat (hdr_tail r) + 2 ^ k"

lemma ring_ok_counters:
  assumes "unat r = T * 65536 + H" "H < 32768" "T \<le> H"
  shows "unat (hdr_head r) = H" and "unat (hdr_tail r) = T"
proof -
  have "T * 65536 + H = H + 32768 * (2 * T)" by simp
  then have "(T * 65536 + H) mod 32768 = H" using assms(2) by (simp only: mod_mult_self2 mod_less)
  then show "unat (hdr_head r) = H" by (simp add: unat_hdr_head assms(1))
  have "(T * 65536 + H) div 65536 = T" using assms(2) by simp
  then show "unat (hdr_tail r) = T" using assms by (simp add: unat_hdr_tail)
qed

lemma ring_okI:
  assumes "unat r = T * 65536 + H" "H < 32768" "T \<le> H" "H \<le> T + 2 ^ k" "k \<le> 14"
  shows "ring_ok k r \<and> unat (hdr_head r) = H \<and> unat (hdr_tail r) = T"
  using assms ring_ok_counters [OF assms(1-3)] by (simp add: ring_ok_def)

lemma ring_okD:
  assumes "ring_ok k r"
  shows "unat r = unat (hdr_tail r) * 65536 + unat (hdr_head r)"
    "unat (hdr_tail r) \<le> unat (hdr_head r)" "unat (hdr_head r) < 32768"
    "unat (hdr_head r) \<le> unat (hdr_tail r) + 2 ^ k" "k \<le> 14"
  using assms by (auto simp: ring_ok_def unat_hdr_head)

lemma bit15_clear:
  assumes "ring_ok k r"
  shows "r AND 0x8000 = 0"
proof -
  define T H where "T = unat (hdr_tail r)" and "H = unat (hdr_head r)"
  have "unat r = H + 32768 * (2 * T)" "H < 32768"
    using ring_okD [OF assms] by (simp_all add: T_def H_def)
  then have "unat r div 32768 = 2 * T" by simp
  then have "\<not> bit (unat r) 15" by (simp add: bit_iff_odd)
  then have "\<not> bit r 15" by (simp add: bit_unsigned_iff)
  then show ?thesis using and_exp_eq_0_iff_not_bit [of r 15] by simp
qed

lemma elements_ok:
  assumes "ring_ok k r"
  shows "unat (buf_elements r sz) = unat (hdr_head r) - unat (hdr_tail r)"
  using ring_okD(2) [OF assms] by (simp add: buf_elements_def unat_sub word_le_nat_alt)

lemma capacity_ok:
  assumes "ring_ok k r" "unat (hdr_head r) - unat (hdr_tail r) + n < 2 ^ k"
  shows "unat (2 ^ k - (hdr_head r - hdr_tail r) - 1 :: u32) =
    2 ^ k - (unat (hdr_head r) - unat (hdr_tail r)) - 1"
proof -
  let ?d = "hdr_head r - hdr_tail r"
  have d: "unat ?d = unat (hdr_head r) - unat (hdr_tail r)"
    using elements_ok [OF assms(1)] by (simp add: buf_elements_def)
  have k: "unat (2 ^ k :: u32) = 2 ^ k"
    using ring_okD(5) [OF assms(1)] by (simp add: unat_pow2)
  have "unat (2 ^ k - ?d) = 2 ^ k - unat ?d"
    using assms(2) d k by (subst unat_sub) (auto simp: word_le_nat_alt)
  moreover have "1 \<le> (2 ^ k - ?d :: u32)"
    using calculation assms(2) d by (simp add: word_le_nat_alt)
  ultimately show ?thesis using d by (subst unat_sub) auto
qed

lemma pow2_bound:
  assumes "k \<le> 14"
  shows "(2::nat) ^ k \<le> 16384"
proof -
  have "(2::nat) ^ k \<le> 2 ^ 14" using assms by (intro power_increasing) auto
  then show ?thesis by simp
qed

lemma sint_slot:
  fixes x :: u32
  assumes "k \<le> 14"
  shows "sint (x AND (2 ^ k - 1)) = int (unat x mod 2 ^ k)"
proof -
  have "unat x mod 2 ^ k < 2 ^ k" by simp
  also have "\<dots> \<le> 16384" using assms by (rule pow2_bound)
  finally have "unat (x AND (2 ^ k - 1)) < 2147483648" by (simp add: and_pow2_mask)
  then show ?thesis by (simp add: sint_small32 and_pow2_mask)
qed

lemma wslot_ok:
  assumes "ring_ok k r" "unat (hdr_head r) - unat (hdr_tail r) + n < 2 ^ k"
  shows "buf_write r (2 ^ k) (of_nat n) = (hdr_head r AND (2 ^ k - 1), r)"
proof -
  have "n < 16384" using assms(2) pow2_bound [OF ring_okD(5) [OF assms(1)]] by simp
  then have "\<not> 2 ^ k - (hdr_head r - hdr_tail r) - 1 < (of_nat n :: u32)"
    using capacity_ok [OF assms] assms(2) by (simp add: word_less_nat_alt unat_of_nat32)
  then show ?thesis by (simp add: buf_write_def Let_def bit15_clear [OF assms(1)])
qed

lemma rslot_ok:
  assumes "ring_ok k r" "n \<le> unat (hdr_head r) - unat (hdr_tail r)"
  shows "buf_read r (2 ^ k) (of_nat n) = hdr_tail r AND (2 ^ k - 1)"
proof -
  have "n < 32768" using assms(2) ring_okD(3) [OF assms(1)] by simp
  then have "\<not> hdr_head r - hdr_tail r < (of_nat n :: u32)"
    using assms(2) elements_ok [OF assms(1)]
    by (simp add: word_less_nat_alt unat_of_nat32 buf_elements_def)
  then show ?thesis by (simp add: buf_read_def Let_def)
qed

lemma wcommit_ok:
  assumes "ring_ok k r" "unat (hdr_head r) - unat (hdr_tail r) + n \<le> 2 ^ k"
    and "unat (hdr_head r) + n < 32768"
  shows "ring_ok k (buf_write_commit r (of_nat n)) \<and>
    unat (hdr_head (buf_write_commit r (of_nat n))) = unat (hdr_head r) + n \<and>
    unat (hdr_tail (buf_write_commit r (of_nat n))) = unat (hdr_tail r)"
proof (rule ring_okI)
  have "unat r + n < 4294967296" using ring_okD(1,2) [OF assms(1)] assms(3) by linarith
  then show "unat (buf_write_commit r (of_nat n)) =
      unat (hdr_tail r) * 65536 + (unat (hdr_head r) + n)"
    using ring_okD(1) [OF assms(1)]
    by (simp add: buf_write_commit_def atomic_fetch_add_explicit_def unat_word_ariths unat_of_nat32)
qed (use assms ring_okD [OF assms(1)] in auto)

lemma rcommit_ok:
  assumes "ring_ok k r" "n \<le> unat (hdr_head r) - unat (hdr_tail r)"
  shows "ring_ok k (buf_read_commit r (of_nat n)) \<and>
    unat (hdr_head (buf_read_commit r (of_nat n))) = unat (hdr_head r) \<and>
    unat (hdr_tail (buf_read_commit r (of_nat n))) = unat (hdr_tail r) + n"
proof (rule ring_okI)
  have n: "n < 32768" "unat (hdr_tail r) + n < 32768"
    using assms(2) ring_okD(2,3) [OF assms(1)] by linarith+
  have "unat r + n * 65536 < 4294967296"
    using ring_okD(1,3) [OF assms(1)] n by linarith
  moreover have "unat (of_nat n * 0x10000 :: u32) = n * 65536"
    using n by (simp add: unat_word_ariths unat_of_nat32)
  ultimately show "unat (buf_read_commit r (of_nat n)) =
      (unat (hdr_tail r) + n) * 65536 + unat (hdr_head r)"
    using ring_okD(1) [OF assms(1)]
    by (simp add: buf_read_commit_def atomic_fetch_add_explicit_def unat_word_ariths)
qed (use assms ring_okD [OF assms(1)] in auto)

interpretation ring: ring_index "2 ^ k" 32768 "ring_ok k"
    "\<lambda>r. unat (hdr_head r)" "\<lambda>r. unat (hdr_tail r)" "\<lambda>r. unat (buf_elements r (2 ^ k))"
    "\<lambda>r n. (sint (fst (buf_write r (2 ^ k) (of_nat n))), snd (buf_write r (2 ^ k) (of_nat n)))"
    "\<lambda>r n. sint (buf_read r (2 ^ k) (of_nat n))"
    "\<lambda>r n. buf_write_commit r (of_nat n)" "\<lambda>r n. buf_read_commit r (of_nat n)" for k
  by unfold_locales
    (use ring_okD in \<open>auto simp: elements_ok wslot_ok rslot_ok sint_slot wcommit_ok rcommit_ok\<close>)

section \<open>The end of the counters' range\<close>

lemma bit15_split:
  assumes "r AND 0x8000 \<noteq> (0 :: u32)"
  shows "unat r = unat r div 65536 * 65536 + 32768 + unat (hdr_head r)"
proof -
  have "bit r 15" using assms and_exp_eq_0_iff_not_bit [of r 15] by simp
  then have "bit (unat r) 15" by (simp add: bit_unsigned_iff)
  then have "odd (unat r div 32768)" by (simp add: bit_iff_odd)
  then have "unat r div 32768 = 2 * (unat r div 32768 div 2) + 1" by simp
  moreover have "unat r div 32768 div 2 = unat r div 65536" by (simp add: div_mult2_eq [symmetric])
  moreover have "unat r = unat r div 32768 * 32768 + unat (hdr_head r)"
    by (simp add: unat_hdr_head)
  ultimately show ?thesis by linarith
qed

text \<open>
  Once the head counter has carried into bit 15, the next \<open>buf_write\<close>, which means to
  clear that bit, takes one away from the head counter as well: the \<open>fetch_and\<close> macro adds
  its argument. One element already written disappears from the ring.
\<close>

theorem buf_write_drops_an_element:
  assumes "r AND 0x8000 \<noteq> 0" "hdr_head r \<noteq> 0"
  shows "unat (hdr_head (snd (buf_write r sz num))) = unat (hdr_head r) - 1 \<and>
    hdr_tail (snd (buf_write r sz num)) = hdr_tail r"
proof -
  let ?r = "r + 0xFFFF7FFF" and ?h = "unat (hdr_head r)" and ?a = "unat r div 65536"
  have snd: "snd (buf_write r sz num) = ?r"
    using assms(1) by (simp add: buf_write_def Let_def atomic_fetch_and_explicit_def)
  have h: "0 < ?h" "?h < 32768" using assms(2) by (simp add: unat_gt_0, simp add: unat_hdr_head)
  have r: "unat r = ?a * 65536 + 32768 + ?h" by (rule bit15_split [OF assms(1)])
  have "unat ?r = (unat r + 4294934527) mod 4294967296" by (simp add: unat_word_ariths)
  also have "unat r + 4294934527 = (unat r - 32769) + 4294967296" using r h by linarith
  also have "\<dots> mod 4294967296 = unat r - 32769"
    using unsigned_less [of r, where ?'a = nat] by simp
  finally have new: "unat ?r = ?a * 65536 + (?h - 1)" using r h by linarith
  have "?a * 65536 + (?h - 1) = (?h - 1) + 32768 * (2 * ?a)" by simp
  then have "(?a * 65536 + (?h - 1)) mod 32768 = ?h - 1"
    using h by (simp only: mod_mult_self2) simp
  moreover have "(?a * 65536 + (?h - 1)) div 65536 = ?a" using h by simp
  ultimately show ?thesis
    unfolding snd by (simp add: unat_hdr_head unat_hdr_tail new word_unat_eq_iff)
qed

theorem buf_write_drops_an_element_witness:
  "unat (hdr_head 0x00008003) = 3 \<and> unat (hdr_head (snd (buf_write 0x00008003 64 1))) = 2"
  using buf_write_drops_an_element [of "0x00008003" 64 1]
  by (simp add: hdr_head_def MAX_ELEM_def)

text \<open>
  When the elements in the ring straddle the end of the head counter's 15-bit range,
  \<open>buf_elements\<close> is not their number but that number minus 32768, modulo \<open>2 ^ 32\<close>.
\<close>

theorem buf_elements_wraps:
  assumes "T < 32768" "n \<le> 64" "32768 \<le> T + n"
  shows "unat (buf_elements (buf_write_commit (of_nat (T * 65536 + T)) (of_nat n)) 64) =
    4294967296 - 32768 + n"
proof -
  let ?r = "buf_write_commit (of_nat (T * 65536 + T)) (of_nat n)"
  have "?r = of_nat (T * 65536 + (T + n))"
    by (simp add: buf_write_commit_def atomic_fetch_add_explicit_def)
  moreover have "T * 65536 + (T + n) < 4294967296" using assms by linarith
  ultimately have r: "unat ?r = T * 65536 + (T + n)" by (simp only: unat_of_nat32)
  have "T * 65536 + (T + n) = (T + n - 32768) + 32768 * (2 * T + 1)" using assms by simp
  then have "(T * 65536 + (T + n)) mod 32768 = T + n - 32768"
    using assms by (simp only: mod_mult_self2) simp
  then have h: "unat (hdr_head ?r) = T + n - 32768" by (simp only: unat_hdr_head r)
  have "(T * 65536 + (T + n)) div 65536 = T" using assms by simp
  then have t: "unat (hdr_tail ?r) = T" using assms by (simp only: unat_hdr_tail r mod_less)
  have "n < 32768" using assms by simp
  with h t assms have "hdr_head ?r < hdr_tail ?r" by (simp add: word_less_nat_alt)
  then have "unat (hdr_head ?r - hdr_tail ?r) = unat (hdr_head ?r) + 4294967296 - unat (hdr_tail ?r)"
    by (subst unat_sub_if_size) (auto simp: word_less_nat_alt word_le_nat_alt word_size)
  with h t assms show ?thesis by (simp add: buf_elements_def)
qed

theorem buf_elements_wraps_witness:
  "unat (buf_elements (buf_write_commit (of_nat (32766 * 65536 + 32766)) (of_nat 4)) 64) = 4294934532"
  using buf_elements_wraps [of 32766 4] by simp

end
