(* ===== verification/Serial.thy ===== *)
theory Serial
  imports Ring_Buffer Port_IO
begin

text \<open>
  The serial driver of stage 3 (\<open>stage3/x86/serial.c\<close>, \<open>stage3/include/x86/serial.h\<close>):
  writers append to a 64-byte ring; the transmitter interrupt \<open>com1_isr\<close>
  (\<open>stage3/x86/isrs.cc\<close>) moves up to 16 bytes to the UART's FIFO.
\<close>

section \<open>Model\<close>

definition SERIAL_BUFSIZE :: u32 where "SERIAL_BUFSIZE = 64"
definition SERIAL_FIFO :: u32 where "SERIAL_FIFO = 16"
definition SERIAL_COM1 :: u16 where "SERIAL_COM1 = 0x3F8"

text \<open>Register offsets and bits.\<close>

abbreviation "DATA \<equiv> 0 :: u16"
abbreviation "IER \<equiv> 1 :: u16"
abbreviation "DIVL \<equiv> 0 :: u16"
abbreviation "DIVH \<equiv> 1 :: u16"
abbreviation "FCR \<equiv> 2 :: u16"
abbreviation "LCR \<equiv> 3 :: u16"
abbreviation "MCR \<equiv> 4 :: u16"
abbreviation "LSR \<equiv> 5 :: u16"

record serial =
  ser_port :: u16
  ser_speed :: u8
  ser_fifo_empty :: u8
  ser_hdr :: u32
  ser_buffer :: "u8 list"

definition ser_init_poll :: "io_event list" where
  "ser_init_poll =
     [Outb (SERIAL_COM1 + IER) 0, Outb (SERIAL_COM1 + LCR) 0x80,
      Outb (SERIAL_COM1 + DIVL) 3, Outb (SERIAL_COM1 + DIVH) 0,
      Outb (SERIAL_COM1 + LCR) 3, Outb (SERIAL_COM1 + FCR) 0,
      Outb (SERIAL_COM1 + MCR) 3]"

text \<open>\<open>echo\<close> is what the chip returns from its data register in loopback mode.\<close>

definition ser_init :: "serial \<Rightarrow> u32 \<Rightarrow> u32 \<Rightarrow> u8 \<Rightarrow> bool \<times> serial \<times> io_event list" where
  "ser_init s base speed echo =
     (let s = s\<lparr>ser_port := ucast base, ser_speed := ucast speed, ser_fifo_empty := 0,
                ser_hdr := buf_init (ser_hdr s)\<rparr>;
          p = ser_port s;
          io = [Outb (p + IER) 2, Outb (p + LCR) 0x80,
                Outb (p + DIVL) (ser_speed s AND 0xFF), Outb (p + DIVH) (drop_bit 8 (ser_speed s)),
                Outb (p + LCR) 3, Outb (p + FCR) 0xC7, Outb (p + MCR) 0x0B,
                Outb (p + MCR) 0x1D, Outb (p + DATA) 0xAE, Inb (p + DATA) echo]
      in if echo \<noteq> 0xAE then (False, s, io) else (True, s, io @ [Outb (p + MCR) 0x0F]))"

definition ser_ready :: "serial \<Rightarrow> u32" where
  "ser_ready s = buf_elements (ser_hdr s) SERIAL_BUFSIZE"

definition ser_flush :: "serial \<Rightarrow> (serial \<times> io_event list) res" where
  "ser_flush s =
     (let buflen = buf_elements (ser_hdr s) SERIAL_BUFSIZE in
      if sint buflen > 0 then
        let buflen = (if sint buflen > sint SERIAL_FIFO then SERIAL_FIFO else buflen);
            tail = buf_read (ser_hdr s) SERIAL_BUFSIZE buflen;
            s = s\<lparr>ser_fifo_empty := 0\<rparr>
        in bindR
          (if sint (tail + buflen) > sint SERIAL_BUFSIZE then
             let space_left = SERIAL_BUFSIZE - tail in
             bindR (sliceR (ser_buffer s) (sint tail) (unat space_left)) (\<lambda>b1.
             bindR (sliceR (ser_buffer s) 0 (unat (buflen - space_left))) (\<lambda>b2.
             Inr (rep_outsb (ser_port s + DATA) b1 @ rep_outsb (ser_port s + DATA) b2)))
           else
             bindR (sliceR (ser_buffer s) (sint tail) (unat buflen)) (\<lambda>b.
             Inr (rep_outsb (ser_port s + DATA) b)))
          (\<lambda>io. Inr (s\<lparr>ser_hdr := buf_read_commit (ser_hdr s) buflen\<rparr>, io))
      else Inr (s\<lparr>ser_fifo_empty := 1\<rparr>, []))"

text \<open>The copy of \<open>written\<close> bytes into the ring's array at \<open>head\<close>.\<close>

definition ser_copy :: "u8 list \<Rightarrow> u32 \<Rightarrow> u8 list \<Rightarrow> u32 \<Rightarrow> u8 list res" where
  "ser_copy buffer head data written =
     (if sint (head + written) \<ge> sint SERIAL_BUFSIZE then
        let space_left = SERIAL_BUFSIZE - head in
        bindR (memcpyR buffer (sint head) data (unat space_left)) (\<lambda>buffer.
        memcpyR buffer 0 (drop (unat space_left) data) (unat (written - space_left)))
      else memcpyR buffer (sint head) data (unat written))"

text \<open>
  \<open>ser_write\<close> from the point where it has read the number of queued bytes into
  \<open>buflen\<close>: an interrupt can come between that and its critical section.
\<close>

definition ser_write_from :: "u32 \<Rightarrow> serial \<Rightarrow> u8 list \<Rightarrow> u32 \<Rightarrow> (u32 \<times> serial \<times> io_event list) res" where
  "ser_write_from buflen s data n =
     (let written = SERIAL_BUFSIZE - buflen;
          written = (if sint n \<le> sint written then n else written);
          (head, hdr) = buf_write (ser_hdr s) SERIAL_BUFSIZE written;
          s = s\<lparr>ser_hdr := hdr\<rparr>
      in bindR (ser_copy (ser_buffer s) head data written) (\<lambda>buffer.
         let s = s\<lparr>ser_buffer := buffer, ser_hdr := buf_write_commit (ser_hdr s) written\<rparr> in
         if ser_fifo_empty s \<noteq> 0
         then bindR (ser_flush s) (\<lambda>(s, io). Inr (written, s, io))
         else Inr (written, s, [])))"

definition ser_write :: "serial \<Rightarrow> u8 list \<Rightarrow> u32 \<Rightarrow> (u32 \<times> serial \<times> io_event list) res" where
  "ser_write s data n = ser_write_from (buf_elements (ser_hdr s) SERIAL_BUFSIZE) s data n"

definition ser_avail :: "u8 \<Rightarrow> bool" where
  "ser_avail lsr \<longleftrightarrow> lsr AND 1 \<noteq> 0"

text \<open>
  Reading polls the line status register; \<open>lsrs\<close> is what it answers, one value per
  poll, and \<open>d\<close> the byte the data register then holds.
\<close>

fun ser_read :: "u8 list \<Rightarrow> u8 \<Rightarrow> u8 res" where
  "ser_read [] d = Inl OutOfFuel"
| "ser_read (lsr # lsrs) d = (if ser_avail lsr then Inr d else ser_read lsrs d)"

text \<open>The handler of the transmitter interrupt.\<close>

definition com1_isr :: "serial \<Rightarrow> (serial \<times> io_event list) res" where
  "com1_isr s = bindR (ser_flush s) (\<lambda>(s, io). Inr (s, io @ pic_eoi PIC_COM1))"

text \<open>The handler of the timer interrupt writes a fixed message, \<open>"PIT interrupt received\r\n"\<close>.\<close>

definition timer_msg :: "u8 list" where
  "timer_msg = [0x50, 0x49, 0x54, 0x20, 0x69, 0x6E, 0x74, 0x65, 0x72, 0x72, 0x75, 0x70, 0x74, 0x20,
     0x72, 0x65, 0x63, 0x65, 0x69, 0x76, 0x65, 0x64, 0x0D, 0x0A]"

definition timer_isr :: "serial \<Rightarrow> (serial \<times> io_event list) res" where
  "timer_isr s = bindR (ser_write s timer_msg 24) (\<lambda>(n, s, io). Inr (s, io @ pic_eoi PIC_PIT))"

section \<open>The queue between writers and the UART\<close>

text \<open>The bytes accepted and not yet given to the UART, oldest first.\<close>

definition ser_queue :: "serial \<Rightarrow> u8 list" where
  "ser_queue s = map (\<lambda>i. ser_buffer s ! (i mod 64)) [unat (hdr_tail (ser_hdr s))..<unat (hdr_head (ser_hdr s))]"

definition ser_inv :: "serial \<Rightarrow> bool" where
  "ser_inv s \<longleftrightarrow> ring_ok 6 (ser_hdr s) \<and> length (ser_buffer s) = 64 \<and>
     unat (hdr_head (ser_hdr s)) - unat (hdr_tail (ser_hdr s)) \<le> 63"

lemma ser_queue_ring: "ser_queue s = ring.queue 6 (ser_hdr s) (ser_buffer s)"
  unfolding ser_queue_def ring.queue_def by simp

lemma ser_ready_length:
  "ser_inv s \<Longrightarrow> unat (ser_ready s) = length (ser_queue s)"
  using elements_ok [of 6 "ser_hdr s"] by (simp add: ser_inv_def ser_ready_def ser_queue_def)

lemma ser_invD:
  assumes "ser_inv s"
  shows "ring_ok 6 (ser_hdr s)" "length (ser_buffer s) = 64" "length (ser_queue s) \<le> 63"
    "unat (hdr_head (ser_hdr s)) - unat (hdr_tail (ser_hdr s)) = length (ser_queue s)"
  using assms by (simp_all add: ser_inv_def ser_queue_def)

text \<open>Reading \<open>n\<close> bytes from a slot on, wrapping at the end of the array, as \<open>ser_flush\<close> does.\<close>

lemma wrapped_slices:
  assumes "length b = 64" "p < 64" "n \<le> 64"
  shows "p + n \<le> 64 \<Longrightarrow> sliceR b (int p) n = Inr (map (\<lambda>i. b ! ((p + i) mod 64)) [0..<n])"
    and "64 < p + n \<Longrightarrow> \<exists>b1 b2. sliceR b (int p) (64 - p) = Inr b1 \<and> sliceR b 0 (n - (64 - p)) = Inr b2 \<and>
      b1 @ b2 = map (\<lambda>i. b ! ((p + i) mod 64)) [0..<n]"
proof -
  assume "p + n \<le> 64"
  then show "sliceR b (int p) n = Inr (map (\<lambda>i. b ! ((p + i) mod 64)) [0..<n])"
    using assms by (simp add: sliceR_in)
next
  assume n: "64 < p + n"
  let ?b1 = "map (\<lambda>i. b ! (p + i)) [0..<64 - p]" and ?b2 = "map (\<lambda>i. b ! i) [0..<n - (64 - p)]"
  have "sliceR b (int p) (64 - p) = Inr ?b1" "sliceR b 0 (n - (64 - p)) = Inr ?b2"
    using assms n sliceR_in [of p "64 - p" b] sliceR_in [of 0 "n - (64 - p)" b] by auto
  moreover have "?b1 @ ?b2 = map (\<lambda>i. b ! ((p + i) mod 64)) [0..<n]"
    using assms n by (intro nth_equalityI) (auto simp: nth_append mod_if add.commute)
  ultimately show "\<exists>b1 b2. sliceR b (int p) (64 - p) = Inr b1 \<and>
      sliceR b 0 (n - (64 - p)) = Inr b2 \<and> b1 @ b2 = map (\<lambda>i. b ! ((p + i) mod 64)) [0..<n]"
    by blast
qed

lemma ser_fifo_only [simp]:
  "ser_queue (s\<lparr>ser_fifo_empty := v\<rparr>) = ser_queue s"
  "ser_inv (s\<lparr>ser_fifo_empty := v\<rparr>) = ser_inv s"
  by (simp_all add: ser_queue_def ser_inv_def)

lemma ser_consume:
  assumes inv: "ser_inv s" and n: "n \<le> length (ser_queue s)"
  shows "ser_inv (s\<lparr>ser_hdr := buf_read_commit (ser_hdr s) (of_nat n)\<rparr>)"
    and "ser_queue (s\<lparr>ser_hdr := buf_read_commit (ser_hdr s) (of_nat n)\<rparr>) = drop n (ser_queue s)"
    and "hdr_head (buf_read_commit (ser_hdr s) (of_nat n)) = hdr_head (ser_hdr s)"
proof -
  note I = ser_invD [OF inv]
  have "n \<le> unat (hdr_head (ser_hdr s)) - unat (hdr_tail (ser_hdr s))" using n I(4) by simp
  note R = rcommit_ok [OF I(1) this]
  then show "ser_inv (s\<lparr>ser_hdr := buf_read_commit (ser_hdr s) (of_nat n)\<rparr>)"
    and "hdr_head (buf_read_commit (ser_hdr s) (of_nat n)) = hdr_head (ser_hdr s)"
    using I(2,3,4) by (simp_all add: ser_inv_def word_unat_eq_iff)
  have "n \<le> unat (buf_elements (ser_hdr s) (2 ^ 6))" using n ser_ready_length [OF inv]
    by (simp add: ser_ready_def SERIAL_BUFSIZE_def)
  from ring.queue_consume [OF I(1) this]
  show "ser_queue (s\<lparr>ser_hdr := buf_read_commit (ser_hdr s) (of_nat n)\<rparr>) = drop n (ser_queue s)"
    by (simp add: ser_queue_ring)
qed

lemma ser_front:
  assumes inv: "ser_inv s" and n: "n \<le> length (ser_queue s)"
  shows "map (\<lambda>i. ser_buffer s ! ((unat (hdr_tail (ser_hdr s)) mod 64 + i) mod 64)) [0..<n] =
    take n (ser_queue s)"
  using ring.queue_front [OF ser_invD(1) [OF inv], of n "ser_buffer s"] n ser_ready_length [OF inv]
  by (simp add: ser_queue_ring ser_ready_def SERIAL_BUFSIZE_def mod_add_left_eq)

text \<open>The two ways \<open>ser_flush\<close> reads the array both give the front of the queue.\<close>

lemma ser_flush_io:
  assumes inv: "ser_inv s" and n: "n \<le> length (ser_queue s)" "n \<le> 16"
    and tail: "tail = hdr_tail (ser_hdr s) AND 63" and len: "buflen = of_nat n"
  shows "(if sint (tail + buflen) > sint SERIAL_BUFSIZE then
       bindR (sliceR (ser_buffer s) (sint tail) (unat (SERIAL_BUFSIZE - tail))) (\<lambda>b1.
       bindR (sliceR (ser_buffer s) 0 (unat (buflen - (SERIAL_BUFSIZE - tail)))) (\<lambda>b2.
       Inr (rep_outsb p b1 @ rep_outsb p b2)))
     else bindR (sliceR (ser_buffer s) (sint tail) (unat buflen)) (\<lambda>b. Inr (rep_outsb p b))) =
     Inr (rep_outsb p (take n (ser_queue s)))"
proof -
  define t where "t = unat (hdr_tail (ser_hdr s)) mod 64"
  note I = ser_invD [OF inv]
  have t: "unat tail = t" "t < 64"
    using and_pow2_mask [of "hdr_tail (ser_hdr s)" 6] by (simp_all add: t_def tail)
  have b: "unat buflen = n" using n(2) by (simp add: len unat_of_nat32)
  have st: "sint tail = int t" using t by (simp add: sint_small32)
  have sum: "unat (tail + buflen) = t + n" using t b n(2) by (subst unat_add_nowrap) auto
  then have ss: "sint (tail + buflen) = int (t + n)" using t n(2) by (simp add: sint_small32)
  have tl: "tail \<le> 64" using t by (simp add: word_le_nat_alt)
  then have sl: "unat (64 - tail) = 64 - t" using t by (simp add: unat_sub)
  show ?thesis
  proof (cases "t + n \<le> 64")
    case True
    then show ?thesis
      using wrapped_slices(1) [OF I(2) t(2) _ True] n(2) ser_front [OF inv n(1)]
      by (simp add: SERIAL_BUFSIZE_def ss st b t_def)
  next
    case False
    then obtain b1 b2 where B: "sliceR (ser_buffer s) (int t) (64 - t) = Inr b1"
      "sliceR (ser_buffer s) 0 (n - (64 - t)) = Inr b2" "b1 @ b2 = take n (ser_queue s)"
      using wrapped_slices(2) [OF I(2) t(2), of n] n(2) ser_front [OF inv n(1)] t_def by auto
    have "64 - tail \<le> buflen" using False sl b by (simp add: word_le_nat_alt)
    then have "unat (buflen - (64 - tail)) = n - (64 - t)" using sl b by (simp add: unat_sub)
    moreover have "rep_outsb p b1 @ rep_outsb p b2 = rep_outsb p (take n (ser_queue s))"
      using B(3) by (simp add: rep_outsb_def flip: B(3))
    ultimately show ?thesis
      using False B(1,2) by (simp add: SERIAL_BUFSIZE_def ss st sl)
  qed
qed

lemma ser_flush_ok:
  assumes inv: "ser_inv s"
  shows "\<exists>s'. ser_flush s = Inr (s', rep_outsb (ser_port s) (take 16 (ser_queue s))) \<and> ser_inv s' \<and>
    ser_queue s' = drop 16 (ser_queue s) \<and> ser_port s' = ser_port s \<and>
    hdr_head (ser_hdr s') = hdr_head (ser_hdr s)"
proof (cases "ser_queue s = []")
  case True
  then have "buf_elements (ser_hdr s) SERIAL_BUFSIZE = 0"
    using ser_ready_length [OF inv] by (simp add: ser_ready_def unat_eq_zero)
  then have "ser_flush s = Inr (s\<lparr>ser_fifo_empty := 1\<rparr>, [])" by (simp add: ser_flush_def)
  then show ?thesis using inv by (simp add: True rep_outsb_def)
next
  case False
  define e where "e = length (ser_queue s)"
  define n where "n = min e 16"
  let ?el = "buf_elements (ser_hdr s) SERIAL_BUFSIZE"
  note I = ser_invD [OF inv]
  have e: "0 < e" "e \<le> 63" "unat ?el = e"
    using False I(3) ser_ready_length [OF inv] by (auto simp: e_def ser_ready_def)
  then have el: "sint ?el = int e" by (simp add: sint_small32)
  have n: "n \<le> length (ser_queue s)" "n \<le> 16" by (simp_all add: n_def e_def)
  have blen: "(if sint ?el > sint SERIAL_FIFO then SERIAL_FIFO else ?el) = of_nat n"
    using e el by (auto simp: SERIAL_FIFO_def n_def word_unat_eq_iff unat_of_nat32 min_def)
  have tail: "buf_read (ser_hdr s) SERIAL_BUFSIZE (of_nat n) = hdr_tail (ser_hdr s) AND 63"
    using rslot_ok [OF I(1), of n] I(4) n by (simp add: SERIAL_BUFSIZE_def)
  let ?s = "s\<lparr>ser_fifo_empty := 0\<rparr>"
  have "ser_flush s = Inr (?s\<lparr>ser_hdr := buf_read_commit (ser_hdr s) (of_nat n)\<rparr>,
      rep_outsb (ser_port s) (take n (ser_queue s)))"
    unfolding ser_flush_def Let_def blen tail
    using ser_flush_io [of s n "hdr_tail (ser_hdr s) AND 63" "of_nat n" "ser_port s"] inv n e(1) el
    by (simp cong: if_cong split del: if_split)
  moreover have "take n (ser_queue s) = take 16 (ser_queue s)" "drop n (ser_queue s) = drop 16 (ser_queue s)"
    by (simp_all add: n_def e_def min_def)
  ultimately show ?thesis
    using ser_consume [of ?s n] inv n by simp
qed

text \<open>The slot \<open>i\<close> places after slot \<open>p\<close>, and how far after it a slot \<open>q\<close> is.\<close>

lemma back_if:
  fixes j p :: nat
  assumes "p < 64" "j < 64"
  shows "(j + 64 - p) mod 64 = (if p \<le> j then j - p else j + 64 - p)"
proof (cases "p \<le> j")
  case True
  then have "j + 64 - p = (j - p) + 64" by arith
  then show ?thesis using True assms(2) by (simp only: mod_add_self2 if_True mod_less)
next
  case False
  then show ?thesis using assms by (simp only: if_False mod_less)
qed

lemma add_mod_if: 
  fixes p i :: nat
  assumes "p < 64" "i < 64"
  shows "(p + i) mod 64 = (if p + i < 64 then p + i else p + i - 64)"
proof (cases "p + i < 64")
  case False
  then have "p + i = (p + i - 64) + 64" by arith
  then have "(p + i) mod 64 = (p + i - 64) mod 64" by (metis mod_add_self2)
  then show ?thesis using False assms by (simp only: if_False mod_less)
qed (simp only: if_True mod_less)

lemma slot_back: "i < 64 \<Longrightarrow> ((h + i) mod 64 + 64 - h mod 64) mod 64 = i" for h i :: nat
proof -
  assume i: "i < 64"
  define p where "p = h mod 64"
  have p: "p < 64" "h mod 64 = p" by (simp_all add: p_def)
  have "(h + i) mod 64 = (p + i) mod 64" unfolding p(2) [symmetric] by (simp only: mod_add_left_eq)
  then have j: "(h + i) mod 64 = (if p + i < 64 then p + i else p + i - 64)" (is "_ = ?j")
    by (simp only: add_mod_if [OF p(1) i])
  have "?j < 64" using p(1) i by auto
  from back_if [OF p(1) this] show ?thesis unfolding p(2) j using p(1) i by auto
qed

lemma slot_forth: "(h + (i mod 64 + 64 - h mod 64) mod 64) mod 64 = i mod 64" for h i :: nat
proof -
  define p q where "p = h mod 64" and "q = i mod 64"
  have p: "p < 64" "h mod 64 = p" and q: "q < 64" "i mod 64 = q" by (simp_all add: p_def q_def)
  define k where "k = (if p \<le> q then q - p else q + 64 - p)"
  have k: "k < 64" using p(1) q(1) by (auto simp: k_def)
  have "(h + k) mod 64 = (p + k) mod 64" unfolding p(2) [symmetric] by (simp only: mod_add_left_eq)
  also have "\<dots> = q" unfolding add_mod_if [OF p(1) k] using p(1) q(1) by (auto simp: k_def)
  finally show ?thesis unfolding p(2) q(2) back_if [OF p(1) q(1)] k_def .
qed

text \<open>Copying \<open>n\<close> bytes to the slots from \<open>p\<close> on, as \<open>ser_write\<close> does.\<close>

lemma ser_copy_ok:
  assumes b: "length b = 64" and p: "unat head = p" "p < 64" and n: "n \<le> 64" "n \<le> length data"
  shows "\<exists>b'. ser_copy b head data (of_nat n) = Inr b' \<and> length b' = 64 \<and>
    (\<forall>j<64. b' ! j = (if (j + 64 - p) mod 64 < n then data ! ((j + 64 - p) mod 64) else b ! j))"
proof -
  have w: "unat (of_nat n :: u32) = n" using n(1) by (simp add: unat_of_nat32)
  have "unat (head + of_nat n) = p + n" using p w n(1) by (subst unat_add_nowrap) auto
  then have ss: "sint (head + of_nat n) = int (p + n)" using p(2) n(1) by (simp add: sint_small32)
  have sh: "sint head = int p" using p by (simp add: sint_small32)
  have sl: "unat (64 - head) = 64 - p" using p by (subst unat_sub) (simp_all add: word_le_nat_alt)
  show ?thesis
  proof (cases "64 \<le> p + n")
    case False
    from memcpyR_in [of p n b data] obtain d where "memcpyR b (int p) data n = Inr d"
      "length d = 64" "\<forall>j<64. d ! j = (if p \<le> j \<and> j < p + n then data ! (j - p) else b ! j)"
      using b n False by auto
    then show ?thesis using False p(2)
      by (intro exI [of _ d]) (auto simp: ser_copy_def SERIAL_BUFSIZE_def ss sh w back_if)
  next
    case True
    then have "64 - head \<le> of_nat n" using sl w by (simp add: word_le_nat_alt)
    then have rest: "unat (of_nat n - (64 - head)) = n - (64 - p)" using sl w by (simp add: unat_sub)
    have "p + (64 - p) \<le> length b" "64 - p \<le> length data" using b p(2) n True by linarith+
    from memcpyR_in [OF this] obtain d where d: "memcpyR b (int p) data (64 - p) = Inr d"
      "length d = 64" "\<forall>j<64. d ! j = (if p \<le> j then data ! (j - p) else b ! j)"
      using b p(2) by auto
    have "0 + (n - (64 - p)) \<le> length d" "n - (64 - p) \<le> length (drop (64 - p) data)"
      using d(2) p(2) n True by auto
    from memcpyR_in [OF this] obtain d' where
      d': "memcpyR d 0 (drop (64 - p) data) (n - (64 - p)) = Inr d'" "length d' = 64"
      "\<forall>j<64. d' ! j = (if j < n - (64 - p) then data ! (64 - p + j) else d ! j)"
      using d(2) p(2) n by auto
    have "ser_copy b head data (of_nat n) = Inr d'"
      using True d(1) d'(1) by (simp add: ser_copy_def SERIAL_BUFSIZE_def ss sh sl rest)
    moreover have "d' ! j = (if (j + 64 - p) mod 64 < n then data ! ((j + 64 - p) mod 64) else b ! j)"
      if "j < 64" for j
      using that d(3) d'(3) True p(2) n by (auto simp: back_if add.commute)
    ultimately show ?thesis using d'(2) by blast
  qed
qed

text \<open>What a write puts in the ring, before it starts the transmitter.\<close>

lemma ser_produce:
  assumes inv: "ser_inv s" and len: "length (ser_queue s) + length data < 64"
    and cnt: "unat (hdr_head (ser_hdr s)) + length data < 32768"
    and copy: "ser_copy (ser_buffer s) (hdr_head (ser_hdr s) AND 63) data (of_nat (length data)) = Inr b'"
      "length b' = 64"
      "\<forall>j<64. b' ! j = (let k = (j + 64 - unat (hdr_head (ser_hdr s)) mod 64) mod 64
        in if k < length data then data ! k else ser_buffer s ! j)"
  defines "s' \<equiv> s\<lparr>ser_buffer := b', ser_hdr := buf_write_commit (ser_hdr s) (of_nat (length data))\<rparr>"
  shows "ser_inv s' \<and> ser_queue s' = ser_queue s @ data \<and>
    unat (hdr_head (ser_hdr s')) = unat (hdr_head (ser_hdr s)) + length data"
proof -
  let ?h = "unat (hdr_head (ser_hdr s))" and ?t = "unat (hdr_tail (ser_hdr s))"
  note I = ser_invD [OF inv]
  have room: "?h - ?t + length data \<le> 2 ^ 6" using len I(4) by simp
  note W = wcommit_ok [OF I(1) room cnt]
  have new: "b' ! ((?h + i) mod 2 ^ 6) = data ! i" if "i < length data" for i
    using copy(3) that len slot_back [of i ?h] by (simp add: Let_def)
  have kept: "b' ! (i mod 2 ^ 6) = ser_buffer s ! (i mod 2 ^ 6)" if i: "?t \<le> i" "i < ?h" for i
  proof -
    define k where "k = (i mod 64 + 64 - ?h mod 64) mod 64"
    have "(?h + k) mod 64 = i mod 64" unfolding k_def by (rule slot_forth)
    then have "\<not> k < length data" using ring.slots_apart [OF I(1) room _ i, of k] by auto
    then show ?thesis using copy(3) by (simp add: Let_def k_def)
  qed
  have "ring.queue 6 (ser_hdr s') b' = ser_queue s @ data"
    using ring.queue_produce [OF I(1) room cnt, of b' "ser_buffer s"] new kept
    by (simp add: s'_def ser_queue_ring)
  then show ?thesis using W len copy(2) I by (simp add: ser_inv_def ser_queue_ring s'_def)
qed

text \<open>How many bytes \<open>ser_write\<close> takes when there is room for all of them.\<close>

lemma ser_written:
  fixes buflen :: u32
  assumes len: "unat buflen + n < 64"
  shows "(if sint (of_nat n :: u32) \<le> sint (SERIAL_BUFSIZE - buflen) then of_nat n else SERIAL_BUFSIZE - buflen) =
    (of_nat n :: u32)"
proof -
  let ?n = "of_nat n :: u32"
  have "buflen \<le> 64" using len by (simp add: word_le_nat_alt)
  then have "unat (64 - buflen) = 64 - unat buflen" by (simp add: unat_sub)
  moreover have "unat (64 - buflen) < 2147483648" using calculation by simp
  ultimately have "sint (64 - buflen) = int (64 - unat buflen)" by (simp only: sint_small32)
  moreover have "sint ?n = int n" using len by (simp add: sint_small32 unat_of_nat32)
  moreover have "int n \<le> int (64 - unat buflen)" using len by (intro zle_int [THEN iffD2]) linarith
  ultimately have "sint ?n \<le> sint (64 - buflen)" by (simp only:)
  then show ?thesis by (simp only: SERIAL_BUFSIZE_def if_True)
qed

lemma ser_write_from_count:
  assumes "ser_write_from buflen s data (of_nat (length data)) = Inr (n, s', io)"
    and len: "unat buflen + length data < 64"
  shows "n = of_nat (length data)"
  using assms(1) unfolding ser_write_from_def Let_def ser_written [OF len]
  by (auto split: prod.splits if_splits elim!: bindR_InrE)

text \<open>
  A write of at most as many bytes as the ring had room for when \<open>ser_write\<close> looked,
  with any number of transmitter interrupts since.
\<close>

lemma ser_write_from_ok:
  assumes inv: "ser_inv s"
    and len: "length (ser_queue s) \<le> unat buflen" "unat buflen + length data < 64"
    and cnt: "unat (hdr_head (ser_hdr s)) + length data < 32768"
  shows "\<exists>s' io. ser_write_from buflen s data (of_nat (length data)) = Inr (of_nat (length data), s', io) \<and>
    ser_inv s' \<and> ser_port s' = ser_port s \<and>
    io = rep_outsb (ser_port s) (if ser_fifo_empty s \<noteq> 0 then take 16 (ser_queue s @ data) else []) \<and>
    ser_queue s' = (if ser_fifo_empty s \<noteq> 0 then drop 16 else id) (ser_queue s @ data) \<and>
    unat (hdr_head (ser_hdr s')) = unat (hdr_head (ser_hdr s)) + length data"
proof -
  let ?n = "of_nat (length data) :: u32" and ?h = "hdr_head (ser_hdr s) AND 63"
  note I = ser_invD [OF inv]
  have n: "length data \<le> 64" "length (ser_queue s) + length data < 64" using len by simp_all
  note w = ser_written [OF len(2)]
  have bw: "buf_write (ser_hdr s) SERIAL_BUFSIZE ?n = (?h, ser_hdr s)"
    using wslot_ok [OF I(1), of "length data"] I(4) n(2) by (simp add: SERIAL_BUFSIZE_def)
  have p: "unat ?h = unat (hdr_head (ser_hdr s)) mod 64" "unat (hdr_head (ser_hdr s)) mod 64 < 64"
    using and_pow2_mask [of "hdr_head (ser_hdr s)" 6] by simp_all
  from ser_copy_ok [OF I(2) p n(1) order_refl] obtain b' where b':
    "ser_copy (ser_buffer s) ?h data ?n = Inr b'" "length b' = 64"
    "\<forall>j<64. b' ! j = (let k = (j + 64 - unat (hdr_head (ser_hdr s)) mod 64) mod 64
      in if k < length data then data ! k else ser_buffer s ! j)"
    unfolding Let_def by blast
  define s1 where "s1 = s\<lparr>ser_buffer := b', ser_hdr := buf_write_commit (ser_hdr s) ?n\<rparr>"
  note P = ser_produce [OF inv n(2) cnt b', folded s1_def]
  have "ser_write_from buflen s data ?n = (if ser_fifo_empty s1 \<noteq> 0
      then bindR (ser_flush s1) (\<lambda>(s, io). Inr (?n, s, io)) else Inr (?n, s1, []))"
    unfolding ser_write_from_def Let_def w bw by (simp add: b'(1) s1_def cong: if_cong)
  moreover have "ser_port s1 = ser_port s" "ser_fifo_empty s1 = ser_fifo_empty s"
    by (simp_all add: s1_def)
  moreover obtain s2 where "ser_flush s1 = Inr (s2, rep_outsb (ser_port s1) (take 16 (ser_queue s1)))"
    "ser_inv s2" "ser_queue s2 = drop 16 (ser_queue s1)" "ser_port s2 = ser_port s1"
    "hdr_head (ser_hdr s2) = hdr_head (ser_hdr s1)"
    using ser_flush_ok [of s1] P by blast
  ultimately show ?thesis using P by (cases "ser_fifo_empty s = 0") (simp_all add: rep_outsb_def)
qed

section \<open>Writers and interrupts\<close>

text \<open>
  The driver as a transition system: the transmitter interrupt, or a write of data
  that \<open>ser_ready\<close> says there is room for, with \<open>k\<close> interrupts between the read of
  the element count and the critical section. The run records the I/O trace and the
  bytes the writers were told were accepted.
\<close>

fun com1_isrs :: "nat \<Rightarrow> serial \<Rightarrow> (serial \<times> io_event list) res" where
  "com1_isrs 0 s = Inr (s, [])"
| "com1_isrs (Suc k) s =
     bindR (com1_isr s) (\<lambda>(s, io1). bindR (com1_isrs k s) (\<lambda>(s, io2). Inr (s, io1 @ io2)))"

record ser_run =
  run_dev :: serial
  run_trace :: "io_event list"
  run_accepted :: "u8 list"

inductive ser_step :: "ser_run \<Rightarrow> ser_run \<Rightarrow> bool" where
  irq: "com1_isr (run_dev w) = Inr (d, io) \<Longrightarrow>
    ser_step w (w\<lparr>run_dev := d, run_trace := run_trace w @ io\<rparr>)"
| ser_write: "unat (ser_ready (run_dev w)) + length data < 64 \<Longrightarrow>
    com1_isrs k (run_dev w) = Inr (d, io1) \<Longrightarrow>
    ser_write_from (ser_ready (run_dev w)) d data (of_nat (length data)) = Inr (n, d', io2) \<Longrightarrow>
    ser_step w (w\<lparr>run_dev := d', run_trace := run_trace w @ io1 @ io2,
      run_accepted := run_accepted w @ take (unat n) data\<rparr>)"

lemma com1_isr_ok:
  assumes "ser_inv s"
  shows "\<exists>s'. com1_isr s = Inr (s', rep_outsb (ser_port s) (take 16 (ser_queue s)) @ [Outb PIC1_CMD PIC_EOI]) \<and>
    ser_inv s' \<and> ser_queue s' = drop 16 (ser_queue s) \<and> ser_port s' = ser_port s \<and>
    hdr_head (ser_hdr s') = hdr_head (ser_hdr s)"
  using ser_flush_ok [OF assms] by (auto simp: com1_isr_def pic_eoi_COM1)

lemma com1_isrs_ok:
  assumes "ser_inv s" "ser_port s \<noteq> 0x20"
  shows "\<exists>s' io. com1_isrs k s = Inr (s', io) \<and> ser_inv s' \<and> ser_port s' = ser_port s \<and>
    hdr_head (ser_hdr s') = hdr_head (ser_hdr s) \<and>
    sent_to (ser_port s) io = take (16 * k) (ser_queue s) \<and> ser_queue s' = drop (16 * k) (ser_queue s)"
  using assms
proof (induction k arbitrary: s)
  case 0
  then show ?case by simp
next
  case (Suc k)
  obtain s1 where s1: "com1_isr s = Inr (s1, rep_outsb (ser_port s) (take 16 (ser_queue s)) @
      [Outb PIC1_CMD PIC_EOI])" "ser_inv s1" "ser_queue s1 = drop 16 (ser_queue s)"
    "ser_port s1 = ser_port s" "hdr_head (ser_hdr s1) = hdr_head (ser_hdr s)"
    using com1_isr_ok [OF Suc.prems(1)] by blast
  from Suc.IH [OF s1(2)] s1 Suc.prems(2) obtain s2 io where "com1_isrs k s1 = Inr (s2, io)" "ser_inv s2"
    "ser_port s2 = ser_port s" "hdr_head (ser_hdr s2) = hdr_head (ser_hdr s)"
    "sent_to (ser_port s) io = take (16 * k) (drop 16 (ser_queue s))"
    "ser_queue s2 = drop (16 * k) (drop 16 (ser_queue s))" by auto
  then show ?case using s1 Suc.prems(2) by (auto simp: PIC1_CMD_def take_add add.commute)
qed

text \<open>What every run keeps, as long as fewer than 32768 bytes have been accepted.\<close>

definition run_ok :: "u16 \<Rightarrow> ser_run \<Rightarrow> bool" where
  "run_ok port w \<longleftrightarrow> length (run_accepted w) < 32768 \<longrightarrow>
     ser_inv (run_dev w) \<and> ser_port (run_dev w) = port \<and>
     unat (hdr_head (ser_hdr (run_dev w))) = length (run_accepted w) \<and>
     sent_to port (run_trace w) @ ser_queue (run_dev w) = run_accepted w"

lemma run_ok_step:
  assumes "ser_step w w'" "run_ok port w" "port \<noteq> 0x20"
  shows "run_ok port w'"
  using assms
proof (cases rule: ser_step.cases)
  case (irq d io)
  show ?thesis unfolding run_ok_def
  proof
    assume "length (run_accepted w') < 32768"
    then have w: "ser_inv (run_dev w)" "ser_port (run_dev w) = port"
      "unat (hdr_head (ser_hdr (run_dev w))) = length (run_accepted w)"
      "sent_to port (run_trace w) @ ser_queue (run_dev w) = run_accepted w"
      using assms(2) irq(1) by (simp_all add: run_ok_def)
    obtain d' where "com1_isr (run_dev w) = Inr (d', rep_outsb port (take 16 (ser_queue (run_dev w))) @
        [Outb PIC1_CMD PIC_EOI])" "ser_inv d'" "ser_queue d' = drop 16 (ser_queue (run_dev w))"
      "ser_port d' = port" "hdr_head (ser_hdr d') = hdr_head (ser_hdr (run_dev w))"
      using com1_isr_ok [OF w(1)] w(2) by auto
    then show "ser_inv (run_dev w') \<and> ser_port (run_dev w') = port \<and>
        unat (hdr_head (ser_hdr (run_dev w'))) = length (run_accepted w') \<and>
        sent_to port (run_trace w') @ ser_queue (run_dev w') = run_accepted w'"
      using w irq assms(3) by (simp add: PIC1_CMD_def)
  qed
next
  case (ser_write data k d io1 n d' io2)
  show ?thesis unfolding run_ok_def
  proof
    assume "length (run_accepted w') < 32768"
    moreover have n: "n = of_nat (length data)" "unat n = length data"
      using ser_write_from_count [OF ser_write(4,2)] ser_write(2) by (simp_all add: unat_of_nat32)
    ultimately have len: "length (run_accepted w) + length data < 32768" using ser_write(1) by simp
    then have w: "ser_inv (run_dev w)" "ser_port (run_dev w) = port"
      "unat (hdr_head (ser_hdr (run_dev w))) = length (run_accepted w)"
      "sent_to port (run_trace w) @ ser_queue (run_dev w) = run_accepted w"
      using assms(2) by (simp_all add: run_ok_def)
    from com1_isrs_ok [OF w(1), of k] w(2) assms(3) ser_write(3)
    have d: "ser_inv d" "ser_port d = port"
      "hdr_head (ser_hdr d) = hdr_head (ser_hdr (run_dev w))"
      "sent_to port io1 @ ser_queue d = ser_queue (run_dev w)" by auto
    have buf: "length (ser_queue d) \<le> unat (ser_ready (run_dev w))"
      by (simp add: ser_ready_length [OF w(1)] flip: d(4))
    have "unat (hdr_head (ser_hdr d)) + length data < 32768" using d(3) w(3) len by simp
    from ser_write_from_ok [OF d(1) buf ser_write(2) this] ser_write(4) d(2)
    have d': "ser_inv d'" "ser_port d' = port"
      "sent_to port io2 @ ser_queue d' = ser_queue d @ data"
      "unat (hdr_head (ser_hdr d')) = unat (hdr_head (ser_hdr d)) + length data"
      by (auto simp del: take_append drop_append)
    have "sent_to port (run_trace w') @ ser_queue (run_dev w') =
        sent_to port (run_trace w) @ sent_to port io1 @ ser_queue d @ data"
      using d'(3) ser_write(1) by simp
    also have "\<dots> = run_accepted w'" using d(4) w(4) ser_write(1) n(2)
      by (metis append.assoc ser_run.select_convs(3) ser_run.surjective ser_run.update_convs take_all order_refl)
    finally show "ser_inv (run_dev w') \<and> ser_port (run_dev w') = port \<and>
        unat (hdr_head (ser_hdr (run_dev w'))) = length (run_accepted w') \<and>
        sent_to port (run_trace w') @ ser_queue (run_dev w') = run_accepted w'"
      using d' d(3) w(3) ser_write(1) n(2) by simp
  qed
qed

lemma run_ok_steps:
  assumes "ser_step\<^sup>*\<^sup>* w w'" "run_ok port w" "port \<noteq> 0x20"
  shows "run_ok port w'"
  using assms by (induction rule: rtranclp_induct) (auto intro: run_ok_step)

lemma ser_init_run:
  assumes "ser_init s base speed echo = (b, d, io)" "length (ser_buffer s) = 64"
    "ucast base = port"
  shows "run_ok port \<lparr>run_dev = d, run_trace = [], run_accepted = []\<rparr>"
proof -
  have "ser_hdr d = 0" "ser_buffer d = ser_buffer s" "ser_port d = port"
    using assms by (auto simp: ser_init_def Let_def buf_init_def split: if_splits)
  then show ?thesis using assms(2)
    by (simp add: run_ok_def ser_inv_def ser_queue_def ring_ok_def hdr_head_def hdr_tail_def)
qed

text \<open>
  C7: from \<open>ser_init\<close> on, for every interleaving of writes that check \<open>ser_ready\<close> and of
  transmitter interrupts, the bytes sent to the UART's data register followed by the bytes
  still in the ring are exactly the bytes the writers were told were accepted, in order:
  none is lost, repeated, reordered or overwritten before it is sent. This holds for the
  first 32767 bytes.
\<close>

theorem serial_stream_in_order:
  assumes "length (ser_buffer s) = 64"
    and "ser_init s 0x3F8 speed echo = (b, d, io)"
    and "ser_step\<^sup>*\<^sup>* \<lparr>run_dev = d, run_trace = [], run_accepted = []\<rparr> w"
    and "length (run_accepted w) < 32768"
  shows "sent_to 0x3F8 (run_trace w) @ ser_queue (run_dev w) = run_accepted w \<and>
    length (ser_queue (run_dev w)) \<le> 63"
proof -
  have "run_ok 0x3F8 \<lparr>run_dev = d, run_trace = [], run_accepted = []\<rparr>"
    by (rule ser_init_run [OF assms(2,1)]) simp
  from run_ok_steps [OF assms(3) this] show ?thesis
    using assms(4) ser_invD(3) [of "run_dev w"] by (simp add: run_ok_def)
qed

text \<open>Two writes around an interrupt, on the real chip's base address.\<close>

definition ser_example :: serial where
  "ser_example = fst (snd (ser_init
     \<lparr>ser_port = 0, ser_speed = 0, ser_fifo_empty = 0, ser_hdr = 5, ser_buffer = replicate 64 0\<rparr>
     0x3F8 3 0xAE))"

lemma ser_example_init:
  "ser_init \<lparr>ser_port = 0, ser_speed = 0, ser_fifo_empty = 0, ser_hdr = 5, ser_buffer = replicate 64 0\<rparr>
     0x3F8 3 0xAE = (True, ser_example, snd (snd (ser_init \<lparr>ser_port = 0, ser_speed = 0,
       ser_fifo_empty = 0, ser_hdr = 5, ser_buffer = replicate 64 0\<rparr> 0x3F8 3 0xAE)))"
  by (simp add: ser_init_def ser_example_def Let_def)

lemma ser_example_value:
  "ser_example = \<lparr>ser_port = 0x3F8, ser_speed = 3, ser_fifo_empty = 0, ser_hdr = 0, ser_buffer = replicate 64 0\<rparr>"
  by (simp add: ser_init_def ser_example_def Let_def buf_init_def)

lemma ser_example_hdr: "ser_hdr ser_example = 0" "ser_fifo_empty ser_example = 0"
  by (simp_all add: ser_example_value)

lemma ser_example_inv: "ser_inv ser_example" "ser_queue ser_example = []"
  by (simp_all add: ser_example_value ser_inv_def ser_queue_def ring_ok_def hdr_head_def hdr_tail_def)

theorem serial_stream_in_order_witness:
  "\<exists>w :: ser_run. run_accepted w = [0x48, 0x69] \<and>
     sent_to 0x3F8 (run_trace w) @ ser_queue (run_dev w) = [0x48, 0x69] \<and>
     length (ser_queue (run_dev w)) \<le> 63"
proof -
  let ?w = "\<lparr>run_dev = ser_example, run_trace = [], run_accepted = []\<rparr>"
  have r: "ser_ready ser_example = 0"
    using ser_ready_length [OF ser_example_inv(1)] by (simp add: ser_example_inv unat_eq_zero)
  obtain d io where d: "ser_write_from 0 ser_example [0x48, 0x69] (of_nat (length [0x48, 0x69 :: u8])) = Inr (2, d, io)"
    using ser_write_from_ok [OF ser_example_inv(1), of 0 "[0x48, 0x69]"]
    by (auto simp: ser_example_inv ser_example_hdr hdr_head_def)
  have "ser_step ?w (?w\<lparr>run_dev := d, run_trace := run_trace ?w @ [] @ io,
      run_accepted := run_accepted ?w @ take (unat (2 :: u32)) [0x48, 0x69]\<rparr>)"
    by (rule ser_step.ser_write [where k = 0]) (use r d in auto)
  then have step: "ser_step\<^sup>*\<^sup>* ?w \<lparr>run_dev = d, run_trace = io, run_accepted = [0x48, 0x69]\<rparr>"
    by simp
  show ?thesis
    by (rule exI [of _ "\<lparr>run_dev = d, run_trace = io, run_accepted = [0x48, 0x69]\<rparr>"])
      (use serial_stream_in_order [OF _ ser_example_init step] in simp)
qed

text \<open>A write that fits.\<close>

lemma ser_write_fits:
  assumes "ser_inv s" "length (ser_queue s) + length data < 64"
    and "unat (hdr_head (ser_hdr s)) + length data < 32768"
  shows "\<exists>s' io. ser_write s data (of_nat (length data)) = Inr (of_nat (length data), s', io) \<and>
    ser_inv s' \<and> ser_port s' = ser_port s \<and>
    io = rep_outsb (ser_port s) (if ser_fifo_empty s \<noteq> 0 then take 16 (ser_queue s @ data) else []) \<and>
    ser_queue s' = (if ser_fifo_empty s \<noteq> 0 then drop 16 else id) (ser_queue s @ data) \<and>
    unat (hdr_head (ser_hdr s')) = unat (hdr_head (ser_hdr s)) + length data"
proof -
  have "unat (buf_elements (ser_hdr s) SERIAL_BUFSIZE) = length (ser_queue s)"
    using ser_ready_length [OF assms(1)] by (simp add: ser_ready_def)
  then show ?thesis
    using ser_write_from_ok [OF assms(1), of "buf_elements (ser_hdr s) SERIAL_BUFSIZE" data] assms(2,3)
    unfolding ser_write_def by auto
qed

text \<open>
  C32: a write that fits takes all its bytes and appends them to the queue, as long as the ring's
  write counter does not pass 32767; when the transmitter is idle it also
  starts it, with the first 16 queued bytes.
\<close>

theorem ser_write_appends:
  assumes "ser_inv s" "length (ser_queue s) + length data < 64"
    and "unat (hdr_head (ser_hdr s)) + length data < 32768"
  shows "\<exists>s' io. ser_write s data (of_nat (length data)) = Inr (of_nat (length data), s', io) \<and>
    ser_inv s' \<and>
    io = rep_outsb (ser_port s) (if ser_fifo_empty s \<noteq> 0 then take 16 (ser_queue s @ data) else []) \<and>
    ser_queue s' = (if ser_fifo_empty s \<noteq> 0 then drop 16 else id) (ser_queue s @ data)"
  using ser_write_fits [OF assms] by blast

theorem ser_write_appends_witness:
  "\<exists>s' io. ser_write ser_example [0x48, 0x69] 2 = Inr (2, s', io) \<and> ser_queue s' = [0x48, 0x69]"
  using ser_write_appends [OF ser_example_inv(1), of "[0x48, 0x69]"]
  by (auto simp: ser_example_inv ser_example_hdr hdr_head_def)



lemma ser_write_overrun:
  assumes "ser_inv s" "length (ser_queue s) \<le> 62" "64 - int (length (ser_queue s)) \<le> sint n"
  shows "ser_write s data n = Inl OutOfBounds"
proof -
  let ?q = "length (ser_queue s)" and ?el = "buf_elements (ser_hdr s) SERIAL_BUFSIZE"
  note I = ser_invD [OF assms(1)]
  have el: "unat ?el = ?q" using ser_ready_length [OF assms(1)] by (simp add: ser_ready_def)
  have "?el \<le> 64" using el assms(2) by (simp add: word_le_nat_alt)
  then have w: "unat (64 - ?el) = 64 - ?q" using el by (simp add: unat_sub)
  then have sw: "sint (64 - ?el) = int (64 - ?q)" by (simp add: sint_small32)
  have written: "(if sint n \<le> sint (SERIAL_BUFSIZE - ?el) then n else SERIAL_BUFSIZE - ?el) = SERIAL_BUFSIZE - ?el"
  proof (cases "sint n \<le> sint (64 - ?el)")
    case True
    then have "sint n = sint (64 - ?el)" using assms(2,3) sw by linarith
    then show ?thesis by (simp add: SERIAL_BUFSIZE_def signed_word_eqI)
  qed (simp add: SERIAL_BUFSIZE_def)
  let ?cap = "64 - ?el - 1"
  have "1 \<le> 64 - ?el" using w assms(2) by (simp add: word_le_nat_alt)
  then have "unat ?cap = unat (64 - ?el) - unat (1 :: u32)" by (rule unat_sub)
  then have cap: "unat ?cap = 63 - ?q" using w by (simp del: diff_diff_left)
  then have "?cap < 64 - ?el" using w assms(2) by (simp add: word_less_nat_alt)
  then have bw: "buf_write (ser_hdr s) SERIAL_BUFSIZE (SERIAL_BUFSIZE - ?el) = (- ?cap, ser_hdr s)"
    by (simp add: buf_write_def Let_def buf_elements_def SERIAL_BUFSIZE_def bit15_clear [OF I(1)])
  have sc: "sint ?cap = int (63 - ?q)" using cap by (simp add: sint_small32)
  have "sint (- ?cap) = signed_take_bit (LENGTH(32) - 1) (- sint ?cap)" by (rule sint_word_ariths)
  also have "\<dots> = - sint ?cap" unfolding sc by (rule signed_take_bit_int_eq_self) auto
  finally have neg: "sint (- ?cap) < 0" unfolding sc using assms(2) by simp
  have "- ?cap + (64 - ?el) = 1" by simp
  then have "ser_copy (ser_buffer s) (- ?cap) data (64 - ?el) = Inl OutOfBounds"
    using neg w assms(2) by (simp add: ser_copy_def SERIAL_BUFSIZE_def memcpyR_negative)
  then show ?thesis
    unfolding ser_write_def ser_write_from_def Let_def written bw by (simp add: SERIAL_BUFSIZE_def)
qed

text \<open>
  A write of as many bytes as the ring has free slots, or more, is not truncated: with
  two free slots or more \<open>buf_write\<close> returns a negative slot, which \<open>ser_write\<close> uses as
  an index, so that it copies to memory below the ring's array.
\<close>

theorem ser_write_full_faults:
  assumes "ser_inv s" "length (ser_queue s) \<le> 62" "64 - int (length (ser_queue s)) \<le> sint n"
  shows "ser_write s data n = Inl OutOfBounds"
  using assms by (rule ser_write_overrun)

theorem ser_write_full_faults_witness:
  "ser_write ser_example (replicate 64 0x2E) 64 = Inl OutOfBounds"
  by (rule ser_write_full_faults) (simp_all add: ser_example_inv)

text \<open>
  The timer interrupt writes its 24 bytes without looking at the room left: with 40 to
  62 bytes queued it faults.
\<close>

theorem timer_isr_faults:
  assumes "ser_inv s" "40 \<le> length (ser_queue s)" "length (ser_queue s) \<le> 62"
  shows "timer_isr s = Inl OutOfBounds"
  using ser_write_overrun [OF assms(1,3), of 24 timer_msg] assms(2) by (simp add: timer_isr_def)

theorem timer_isr_faults_witness:
  "timer_isr (ser_example\<lparr>ser_hdr := 40\<rparr>) = Inl OutOfBounds"
proof (rule timer_isr_faults)
  have h: "unat (hdr_head 40) = 40" "unat (hdr_tail 40) = 0" by (simp_all add: unat_hdr_head unat_hdr_tail)
  then show "ser_inv (ser_example\<lparr>ser_hdr := 40\<rparr>)"
    by (simp add: ser_inv_def ring_ok_def ser_example_value)
  show "40 \<le> length (ser_queue (ser_example\<lparr>ser_hdr := 40\<rparr>))"
    "length (ser_queue (ser_example\<lparr>ser_hdr := 40\<rparr>)) \<le> 62"
    using h by (simp_all add: ser_queue_def)
qed

text \<open>
  The divisor latch's high byte is always set to 0: \<open>speed\<close> is a \<open>uint8_t\<close>, so the
  rates whose divisor exceeds 255 (\<open>B50\<close> to \<open>B300\<close>) are not the rates programmed.
\<close>

lemma ser_init_divisor_high:
  "Outb (ucast base + DIVH) b \<in> set (drop 3 (take 4 (snd (snd (ser_init s base speed echo))))) \<Longrightarrow> b = 0"
proof -
  have "drop_bit 8 (x :: u8) = 0" for x
    by (intro bit_word_eqI) (simp add: bit_simps)
  then show "Outb (ucast base + DIVH) b \<in> set (drop 3 (take 4 (snd (snd (ser_init s base speed echo))))) \<Longrightarrow> b = 0"
    by (auto simp: ser_init_def Let_def split: if_splits)
qed

end
