(* ===== verification/C_Util.thy ===== *)
theory C_Util
  imports Boot_Prelude
begin

text \<open>
  The string and memory routines of both stages (\<open>stage2/util.c\<close>,
  \<open>stage3/crt/util.c\<close>, and the copies of two of them in \<open>stage3/kmain.cpp\<close>), on a flat
  memory of bytes. \<open>strlen\<close> scans whole words once its pointer is aligned; the lemmas
  show that the bit trick it tests a word with is right.
\<close>

section \<open>Model\<close>

type_synonym bytes = "u32 \<Rightarrow> u8"

definition kprint :: "bytes \<Rightarrow> u32 \<Rightarrow> u32 \<Rightarrow> u16 \<Rightarrow> bytes" where
  "kprint m src screen n =
     fold (\<lambda>i m. let m = m(screen + 2 * of_nat i := m (src + of_nat i))
                 in m(screen + 2 * of_nat i + 1 := 0x0F)) [0..<unat n] m"

definition hex_digits :: "u8 list" where
  "hex_digits = [48, 49, 50, 51, 52, 53, 54, 55, 56, 57, 65, 66, 67, 68, 69, 70]"

definition hextostr :: "bytes \<Rightarrow> u32 \<Rightarrow> u32 \<Rightarrow> bytes" where
  "hextostr m x out =
     fst (fold (\<lambda>i (m, x). (m(out + (7 - of_nat i) := hex_digits ! unat (x AND 0x0F)), drop_bit 4 x))
       [0..<8] (m, x))"

text \<open>\<open>HASLESS\<close> and \<open>MASK\<close>; \<open>~0UL/255\<close> is 0x01010101 where \<open>long\<close> has 32 bits.\<close>

definition HASLESS :: "u32 \<Rightarrow> u32 \<Rightarrow> u32" where
  "HASLESS x n = (x - 0x01010101 * n) AND NOT x AND (0x01010101 * 128)"

definition MASK :: "nat \<Rightarrow> u32" where
  "MASK x = push_bit x 1 - 1"

definition ld32 :: "bytes \<Rightarrow> u32 \<Rightarrow> u32" where
  "ld32 m w = ucast (m w) + 256 * ucast (m (w + 1)) + 65536 * ucast (m (w + 2)) + 16777216 * ucast (m (w + 3))"

text \<open>
  The three loops of \<open>strlen\<close>: byte by byte up to an aligned address (the flag says that
  the function has returned from there), word by word, byte by byte in the last word.
  \<open>sizeof(uintptr_t)\<close> is 4.
\<close>

definition align_guard :: "u32 \<times> bool \<Rightarrow> bool res" where
  "align_guard = (\<lambda>(s, ret). Inr (s AND MASK 4 \<noteq> 0 \<and> \<not> ret))"

definition align_body :: "bytes \<Rightarrow> u32 \<times> bool \<Rightarrow> (u32 \<times> bool) res" where
  "align_body m = (\<lambda>(s, ret). Inr (if m s = 0 then (s, True) else (s + 1, False)))"

definition strlen :: "bytes \<Rightarrow> u32 \<Rightarrow> u32 res" where
  "strlen m str =
     bindR (whileR 17 align_guard (align_body m) (str, False)) (\<lambda>(s, ret).
     if ret then Inr (s - str)
     else bindR (whileR 1073741826 (\<lambda>w. Inr (HASLESS (ld32 m w) 1 = 0)) (\<lambda>w. Inr (w + 4)) s) (\<lambda>w.
       bindR (whileR 5 (\<lambda>s. Inr (m s \<noteq> 0)) (\<lambda>s. Inr (s + 1)) w) (\<lambda>s.
       Inr (s - str))))"

fun memcmp_from :: "bytes \<Rightarrow> u32 \<Rightarrow> u32 \<Rightarrow> nat \<Rightarrow> int" where
  "memcmp_from m u1 u2 0 = 0"
| "memcmp_from m u1 u2 (Suc n) =
     (if m u1 \<noteq> m u2 then int (unat (m u1)) - int (unat (m u2))
      else memcmp_from m (u1 + 1) (u2 + 1) n)"

definition memcmp :: "bytes \<Rightarrow> u32 \<Rightarrow> u32 \<Rightarrow> u32 \<Rightarrow> int" where
  "memcmp m s1 s2 n = memcmp_from m s1 s2 (unat n)"

definition kputs :: "bytes \<Rightarrow> u32 \<Rightarrow> u32 \<Rightarrow> u16 \<Rightarrow> (u32 \<times> bytes) res" where
  "kputs m src screen pos =
     (let offset = pos mod 160 in
      bindR (strlen m src) (\<lambda>n.
      let len = ucast n :: u16;
          pos = if unat offset + unat len > 160 then (pos - offset) + 160 else pos in
      Inr (ucast pos + ucast len * 2, kprint m src (screen + ucast pos) len)))"

text \<open>
  \<open>__assert_fail\<close> of stage 2, up to the endless loop it ends in. \<open>lit\<close> gives the address
  of each string literal (of the local array for the line number).
\<close>

definition assert_fail_screen :: "(string \<Rightarrow> u32) \<Rightarrow> bytes \<Rightarrow> u32 \<Rightarrow> u32 \<Rightarrow> u32 \<Rightarrow> u32 \<Rightarrow> bytes res" where
  "assert_fail_screen lit m x file line fname =
     (let screen = 0xB8000; linestr = lit ''0x00000000'' in
      bindR (kputs (hextostr m line (linestr + 2)) (lit ''Panic: '') screen 0) (\<lambda>(pos, m).
      bindR (kputs m x screen (ucast pos)) (\<lambda>(pos, m).
      bindR (kputs m (lit '', File: '') screen (ucast pos)) (\<lambda>(pos, m).
      bindR (kputs m file screen (ucast pos)) (\<lambda>(pos, m).
      bindR (kputs m (lit '', Line: '') screen (ucast pos)) (\<lambda>(pos, m).
      bindR (kputs m linestr screen (ucast pos)) (\<lambda>(pos, m).
      bindR (kputs m (lit '', Func: '') screen (ucast pos)) (\<lambda>(pos, m).
      bindR (kputs m fname screen (ucast pos)) (\<lambda>(pos, m).
      Inr m)))))))))"

definition memset :: "bytes \<Rightarrow> u32 \<Rightarrow> u32 \<Rightarrow> u32 \<Rightarrow> bytes" where
  "memset m s c n = fold (\<lambda>i m. m(s + of_nat i := ucast c)) [0..<unat n] m"

text \<open>Stage 3 repeats these routines: \<open>stage3/crt/util.c\<close> and \<open>stage3/kmain.cpp\<close>.\<close>

definition stage3_strlen :: "bytes \<Rightarrow> u32 \<Rightarrow> u32 res" where
  "stage3_strlen = strlen"

definition stage3_memcmp :: "bytes \<Rightarrow> u32 \<Rightarrow> u32 \<Rightarrow> u32 \<Rightarrow> int" where
  "stage3_memcmp = memcmp"

definition printscreen :: "bytes \<Rightarrow> u32 \<Rightarrow> u32 \<Rightarrow> u16 \<Rightarrow> bytes" where
  "printscreen = kprint"

definition stage3_hextostr :: "bytes \<Rightarrow> u32 \<Rightarrow> u32 \<Rightarrow> bytes" where
  "stage3_hextostr = hextostr"

definition clear :: "bytes \<Rightarrow> u32 \<Rightarrow> bytes" where
  "clear m screen = fold (\<lambda>i m. m(screen + of_nat i := 0)) [0..<160 * 25] m"

section \<open>The word test of strlen\<close>

lemma byte_low: "a < 256 \<Longrightarrow> bit (a + 256 * y) 7 \<longleftrightarrow> a \<ge> 128" for a y :: nat
proof -
  assume a: "a < 256"
  have "(a + 256 * y) div 128 = (a + 128 * (2 * y)) div 128" by simp
  also have "\<dots> = a div 128 + 2 * y" by (simp only: div_mult_self2)
  finally have "bit (a + 256 * y) 7 \<longleftrightarrow> odd (a div 128)" by (simp add: bit_iff_odd)
  moreover have "a div 128 = (if a \<ge> 128 then 1 else 0)" using a by auto
  ultimately show ?thesis by simp
qed

lemma byte_high: "a < 256 \<Longrightarrow> bit (a + 256 * y) (n + 8) \<longleftrightarrow> bit y n" for a y :: nat
proof -
  assume a: "a < 256"
  have "(a + 256 * y) div 256 = y" using a by (simp add: div_mult_self2)
  then have "(a + 256 * y) div 2 ^ (n + 8) = y div 2 ^ n"
    by (simp add: power_add div_mult2_eq mult.commute [of "2 ^ n"])
  then show ?thesis by (simp add: bit_iff_odd)
qed

lemma word_bytes:
  fixes x :: u32
  assumes x: "unat x = a + 256 * (b + 256 * (c + 256 * d))" and "a < 256" "b < 256" "c < 256" "d < 256"
  shows "bit x 7 \<longleftrightarrow> a \<ge> 128" "bit x 15 \<longleftrightarrow> b \<ge> 128" "bit x 23 \<longleftrightarrow> c \<ge> 128" "bit x 31 \<longleftrightarrow> d \<ge> 128"
proof -
  have u: "bit x n \<longleftrightarrow> n < 32 \<and> bit (unat x) n" for n by (auto simp: bit_unsigned_iff dest: bit_imp_le_length)
  have low: "bit d 7 \<longleftrightarrow> d \<ge> 128" using byte_low [of d 0] assms by simp
  have n: "(15::nat) = 7 + 8" "(23::nat) = 15 + 8" "(31::nat) = 23 + 8" by simp_all
  have "bit (unat x) 7 \<longleftrightarrow> a \<ge> 128" "bit (unat x) 15 \<longleftrightarrow> b \<ge> 128" "bit (unat x) 23 \<longleftrightarrow> c \<ge> 128"
    "bit (unat x) 31 \<longleftrightarrow> d \<ge> 128"
    by (simp_all only: x n byte_low byte_high assms low)
  then show "bit x 7 \<longleftrightarrow> a \<ge> 128" "bit x 15 \<longleftrightarrow> b \<ge> 128" "bit x 23 \<longleftrightarrow> c \<ge> 128" "bit x 31 \<longleftrightarrow> d \<ge> 128"
    by (simp_all add: u)
qed

lemma mask_bits:
  fixes x :: u32
  shows "x AND 0x80808080 = 0 \<longleftrightarrow> \<not> bit x 7 \<and> \<not> bit x 15 \<and> \<not> bit x 23 \<and> \<not> bit x 31"
proof -
  have e: "(0x80808080 :: u32) = 2 ^ 31 OR (2 ^ 23 OR (2 ^ 15 OR 2 ^ 7))" by simp
  show ?thesis
    unfolding e bit.conj_disj_distrib or_eq_0_iff and_exp_eq_0_iff_not_bit by blast
qed

lemma bytes_below:
  fixes a b c d :: nat
  assumes "a < 256" "b < 256" "c < 256" "d < 256"
  shows "a + 256 * (b + 256 * (c + 256 * d)) < 4294967296"
proof -
  have "a + 256 * (b + 256 * (c + 256 * d)) \<le> 255 + 256 * (255 + 256 * (255 + 256 * 255))"
    using assms by (intro add_mono mult_le_mono2) simp_all
  also have "\<dots> < 4294967296" by simp
  finally show ?thesis .
qed

lemma borrow:
  fixes x :: u32
  assumes x: "unat x = a + 256 * (b + 256 * (c + 256 * d))" and l: "a < 256" "b < 256" "c < 256" "d < 256"
  obtains a' b' c' d' where "unat (x - 0x01010101) = a' + 256 * (b' + 256 * (c' + 256 * d'))"
    "a' < 256" "b' < 256" "c' < 256" "d' < 256"
    "a = 0 \<and> a' = 255 \<or> a \<noteq> 0 \<and> Suc a' = a \<and> (b = 0 \<and> b' = 255 \<or> b \<noteq> 0 \<and> Suc b' = b \<and>
      (c = 0 \<and> c' = 255 \<or> c \<noteq> 0 \<and> Suc c' = c \<and> (d = 0 \<and> d' = 255 \<or> d \<noteq> 0 \<and> Suc d' = d)))"
proof -
  define t where "t k y = (if y < (k::nat) then y + 256 - k else y - k)" for k y :: nat
  define o1 where "o1 = (if a < 1 then 2 else (1::nat))"
  define o2 where "o2 = (if b < o1 then 2 else (1::nat))"
  define o3 where "o3 = (if c < o2 then 2 else (1::nat))"
  let ?v = "t 1 a + 256 * (t o1 b + 256 * (t o2 c + 256 * t o3 d))"
  have lt: "t 1 a < 256" "t o1 b < 256" "t o2 c < 256" "t o3 d < 256"
    using l by (auto simp: t_def o1_def o2_def o3_def)
  have "?v + 16843009 = unat x \<or> ?v + 16843009 = unat x + 4294967296"
    unfolding x t_def o1_def o2_def o3_def using l by (auto split: if_splits)
  moreover have "of_nat (unat x + 4294967296) = x" "of_nat (unat x) = x" by simp_all
  ultimately have "of_nat (?v + 16843009) = x" by metis
  then have "x - 0x01010101 = of_nat ?v" by (auto simp: algebra_simps)
  moreover have "?v < 4294967296" using lt by (rule bytes_below)
  ultimately have "unat (x - 0x01010101) = ?v" by (simp only: unat_of_nat32)
  moreover have "a = 0 \<and> t 1 a = 255 \<or> a \<noteq> 0 \<and> Suc (t 1 a) = a \<and> (b = 0 \<and> t o1 b = 255 \<or> b \<noteq> 0 \<and> Suc (t o1 b) = b \<and>
      (c = 0 \<and> t o2 c = 255 \<or> c \<noteq> 0 \<and> Suc (t o2 c) = c \<and> (d = 0 \<and> t o3 d = 255 \<or> d \<noteq> 0 \<and> Suc (t o3 d) = d)))"
    by (auto simp: t_def o1_def o2_def o3_def)
  ultimately show ?thesis using that lt by blast
qed

lemma HASLESS_1:
  fixes x :: u32
  assumes x: "unat x = a + 256 * (b + 256 * (c + 256 * d))" and l: "a < 256" "b < 256" "c < 256" "d < 256"
  shows "HASLESS x 1 = 0 \<longleftrightarrow> a \<noteq> 0 \<and> b \<noteq> 0 \<and> c \<noteq> 0 \<and> d \<noteq> 0"
proof -
  obtain a' b' c' d' where y: "unat (x - 0x01010101) = a' + 256 * (b' + 256 * (c' + 256 * d'))"
    and l': "a' < 256" "b' < 256" "c' < 256" "d' < 256"
    and s: "a = 0 \<and> a' = 255 \<or> a \<noteq> 0 \<and> Suc a' = a \<and> (b = 0 \<and> b' = 255 \<or> b \<noteq> 0 \<and> Suc b' = b \<and>
      (c = 0 \<and> c' = 255 \<or> c \<noteq> 0 \<and> Suc c' = c \<and> (d = 0 \<and> d' = 255 \<or> d \<noteq> 0 \<and> Suc d' = d)))"
    using borrow [OF assms] by blast
  have "HASLESS x 1 = ((x - 0x01010101) AND NOT x) AND 0x80808080" proof -
    have "(0x01010101 :: u32) * 128 = 0x80808080" by simp
    then show ?thesis by (simp only: HASLESS_def and.assoc mult_1_right)
  qed
  then have "HASLESS x 1 = 0 \<longleftrightarrow> (a' \<ge> 128 \<longrightarrow> a \<ge> 128) \<and> (b' \<ge> 128 \<longrightarrow> b \<ge> 128) \<and> (c' \<ge> 128 \<longrightarrow> c \<ge> 128) \<and> (d' \<ge> 128 \<longrightarrow> d \<ge> 128)"
    using word_bytes [OF y l'] word_bytes [OF assms] by (simp add: mask_bits bit_and_iff bit_not_iff)
  moreover from s have "(a' \<ge> 128 \<longrightarrow> a \<ge> 128) \<and> (b' \<ge> 128 \<longrightarrow> b \<ge> 128) \<and> (c' \<ge> 128 \<longrightarrow> c \<ge> 128) \<and> (d' \<ge> 128 \<longrightarrow> d \<ge> 128)
    \<longleftrightarrow> a \<noteq> 0 \<and> b \<noteq> 0 \<and> c \<noteq> 0 \<and> d \<noteq> 0"
    by (elim disjE conjE) simp_all
  ultimately show ?thesis by simp
qed

lemma ld32_bytes:
  "unat (ld32 m w) = unat (m w) + 256 * (unat (m (w + 1)) + 256 * (unat (m (w + 2)) + 256 * unat (m (w + 3))))"
proof -
  let ?v = "unat (m w) + 256 * (unat (m (w + 1)) + 256 * (unat (m (w + 2)) + 256 * unat (m (w + 3))))"
  have b: "unat (m v) < 256" for v using unsigned_less [of "m v", where ?'a = nat] by simp
  have "ld32 m w = of_nat ?v" by (simp add: ld32_def algebra_simps)
  moreover have "?v < 4294967296" by (rule bytes_below) (rule b)+
  ultimately show ?thesis by (simp only: unat_of_nat32)
qed

lemma HASLESS_ld32:
  "HASLESS (ld32 m w) 1 = 0 \<longleftrightarrow> m w \<noteq> 0 \<and> m (w + 1) \<noteq> 0 \<and> m (w + 2) \<noteq> 0 \<and> m (w + 3) \<noteq> 0"
proof -
  have b: "unat (m v) < 256" for v using unsigned_less [of "m v", where ?'a = nat] by simp
  show ?thesis using HASLESS_1 [OF ld32_bytes [of m w] b b b b] by (simp add: unat_eq_zero)
qed

section \<open>strlen\<close>

text \<open>A string of length \<open>k\<close> at an address.\<close>

definition string_at :: "bytes \<Rightarrow> u32 \<Rightarrow> nat \<Rightarrow> bool" where
  "string_at m s k \<longleftrightarrow> k < 4294967296 \<and> m (s + of_nat k) = 0 \<and> (\<forall>j<k. m (s + of_nat j) \<noteq> 0)"

lemma offset_back: "j < 4294967296 \<Longrightarrow> unat ((s + of_nat j) - s :: u32) = j"
  by (simp add: unat_of_nat32)

lemma mask4: "unat (s AND MASK 4) = unat s mod 16"
proof -
  have "MASK 4 = 2 ^ 4 - 1" by (simp add: MASK_def push_bit_eq_mult)
  then show ?thesis using and_pow2_mask [of s 4] by simp
qed

lemma align_loop:
  assumes "string_at m str k"
  shows "\<exists>j ret. whileR 17 align_guard (align_body m) (str, False) = Inr (str + of_nat j, ret) \<and>
    j \<le> k \<and> (ret \<longrightarrow> j = k)"
proof -
  let ?I = "\<lambda>(s, ret). \<exists>j \<le> k. s = str + of_nat j \<and> (ret \<longrightarrow> j = k)"
  let ?m = "\<lambda>(s, ret). (16 - unat s mod 16) mod 16 + (if ret then 0 else 1 :: nat)"
  have "\<exists>t. whileR 17 align_guard (align_body m) (str, False) = Inr t \<and> ?I t \<and> align_guard t = Inr False"
  proof (rule whileR_total [where I = ?I and m = ?m])
    show "?I (str, False)" by (intro case_prodI exI [of _ 0]) simp
    show "?m (str, False) < 17" by simp
    show "\<exists>t. align_guard s = Inr t" for s by (cases s) (simp add: align_guard_def)
    fix st assume I: "?I st" and g: "align_guard st = Inr True"
    obtain s where st: "st = (s, False)" and r: "unat s mod 16 \<noteq> 0"
      using g by (cases st) (auto simp: align_guard_def unat_eq_zero simp flip: mask4)
    obtain j where j: "j \<le> k" "s = str + of_nat j" using I st by auto
    show "\<exists>st'. align_body m st = Inr st' \<and> ?I st' \<and> ?m st' < ?m st"
    proof (cases "m s = 0")
      case True
      then have "j = k" using assms j by (metis le_neq_implies_less string_at_def)
      then show ?thesis using True st j by (auto simp: align_body_def)
    next
      case False
      then have "Suc j \<le> k" using assms j by (metis le_neq_implies_less string_at_def Suc_leI)
      moreover have "unat (s + 1) mod 16 = (unat s + 1) mod 16"
        by (simp add: unat_word_ariths mod_mod_cancel)
      then have "(16 - unat (s + 1) mod 16) mod 16 < (16 - unat s mod 16) mod 16"
        using r by (auto simp: mod_Suc)
      ultimately show ?thesis using False st j by (auto simp: align_body_def intro!: exI [of _ "Suc j"])
    qed
  qed
  then show ?thesis by auto
qed

lemma word_loop:
  assumes s: "string_at m str k" and "j \<le> k"
  shows "\<exists>j'. whileR 1073741826 (\<lambda>w. Inr (HASLESS (ld32 m w) 1 = 0)) (\<lambda>w. Inr (w + 4)) (str + of_nat j) =
    Inr (str + of_nat j') \<and> j' \<le> k \<and> k \<le> j' + 3"
proof -
  let ?I = "\<lambda>w. \<exists>j \<le> k. w = str + of_nat j"
  let ?m = "\<lambda>w. (k - unat (w - str)) div 4"
  have lt: "i \<le> k \<Longrightarrow> i < 4294967296" for i using s by (simp add: string_at_def)
  have four: "\<exists>d<4. i + d = k" if "i \<le> k" "HASLESS (ld32 m (str + of_nat i)) 1 \<noteq> 0" for i
  proof -
    have "\<exists>d<4. m (str + of_nat (i + d)) = 0"
    proof -
      have "m (str + of_nat i) = 0 \<or> m (str + of_nat i + 1) = 0 \<or> m (str + of_nat i + 2) = 0 \<or> m (str + of_nat i + 3) = 0"
        using that(2) by (auto simp: HASLESS_ld32)
      then show ?thesis
      proof (elim disjE)
        assume "m (str + of_nat i) = 0" then show ?thesis by (intro exI [of _ 0]) simp
      next
        assume "m (str + of_nat i + 1) = 0" then show ?thesis by (intro exI [of _ 1]) (simp add: ac_simps)
      next
        assume "m (str + of_nat i + 2) = 0" then show ?thesis by (intro exI [of _ 2]) (simp add: ac_simps)
      next
        assume "m (str + of_nat i + 3) = 0" then show ?thesis by (intro exI [of _ 3]) (simp add: ac_simps)
      qed
    qed
    then obtain d where d: "d < 4" "m (str + of_nat (i + d)) = 0" by blast
    then have "k \<le> i + d" using s unfolding string_at_def by (meson leI)
    then show ?thesis using d(1) that(1) by (intro exI [of _ "k - i"]) simp
  qed
  have none: "i + 4 \<le> k" if "i \<le> k" "HASLESS (ld32 m (str + of_nat i)) 1 = 0" for i
  proof -
    have nz: "m (str + of_nat i) \<noteq> 0" "m (str + of_nat (i + 1)) \<noteq> 0" "m (str + of_nat (i + 2)) \<noteq> 0" "m (str + of_nat (i + 3)) \<noteq> 0"
      using that(2) by (auto simp: HASLESS_ld32 ac_simps)
    have z: "m (str + of_nat k) = 0" using s by (simp add: string_at_def)
    have "k \<noteq> i" "k \<noteq> i + 1" "k \<noteq> i + 2" "k \<noteq> i + 3" using nz z by auto
    then show ?thesis using that(1) by simp
  qed
  have "\<exists>w. whileR 1073741826 (\<lambda>w. Inr (HASLESS (ld32 m w) 1 = 0)) (\<lambda>w. Inr (w + 4)) (str + of_nat j) = Inr w
    \<and> ?I w \<and> Inr (HASLESS (ld32 m w) 1 = 0) = (Inr False :: bool res)"
  proof (rule whileR_total [where I = ?I and m = ?m])
    show "?I (str + of_nat j)" using assms(2) by blast
    have "(k - unat (str + of_nat j - str)) div 4 \<le> k div 4" by (intro div_le_mono) simp
    moreover have "k div 4 \<le> 4294967295 div 4" using lt [of k] by (intro div_le_mono) simp
    ultimately show "?m (str + of_nat j) < 1073741826" by simp
    show "\<exists>t. Inr (HASLESS (ld32 m s) 1 = 0) = (Inr t :: bool res)" for s by simp
    fix w assume I: "?I w" and g: "Inr (HASLESS (ld32 m w) 1 = 0) = (Inr True :: bool res)"
    then obtain i where i: "i \<le> k" "w = str + of_nat i" by blast
    with g none have 4: "i + 4 \<le> k" by simp
    moreover have "w + 4 = str + of_nat (i + 4)" using i by simp
    moreover have "(k - (i + 4)) div 4 < (k - i) div 4" using 4 by (simp add: div_less_iff_less_mult)
    moreover have "unat (str + of_nat i - str) = i" "unat (str + of_nat (i + 4) - str) = i + 4"
      using lt 4 i by (simp_all only: offset_back)
    ultimately show "\<exists>w'. Inr (w + 4) = (Inr w' :: u32 res) \<and> ?I w' \<and> ?m w' < ?m w" using i by auto
  qed
  then obtain i where "whileR 1073741826 (\<lambda>w. Inr (HASLESS (ld32 m w) 1 = 0)) (\<lambda>w. Inr (w + 4)) (str + of_nat j) = Inr (str + of_nat i)"
    "i \<le> k" "HASLESS (ld32 m (str + of_nat i)) 1 \<noteq> 0" by auto
  moreover from four [OF this(2,3)] have "k \<le> i + 3" by auto
  ultimately show ?thesis by blast
qed

lemma last_loop:
  assumes s: "string_at m str k" and "j \<le> k" "k \<le> j + 3"
  shows "whileR 5 (\<lambda>s. Inr (m s \<noteq> 0)) (\<lambda>s. Inr (s + 1)) (str + of_nat j) = Inr (str + of_nat k)"
proof -
  let ?I = "\<lambda>w. \<exists>j \<le> k. w = str + of_nat j"
  have lt: "i \<le> k \<Longrightarrow> i < 4294967296" for i using s by (simp add: string_at_def)
  have "\<exists>w. whileR 5 (\<lambda>s. Inr (m s \<noteq> 0)) (\<lambda>s. Inr (s + 1)) (str + of_nat j) = Inr w
    \<and> ?I w \<and> Inr (m w \<noteq> 0) = (Inr False :: bool res)"
  proof (rule whileR_total [where I = ?I and m = "\<lambda>w. k - unat (w - str)"])
    show "?I (str + of_nat j)" using assms(2) by blast
    have "unat (str + of_nat j - str) = j" using lt assms(2) by (simp only: offset_back)
    then show "k - unat (str + of_nat j - str) < 5" using assms(3) by simp
    show "\<exists>t. Inr (m s \<noteq> 0) = (Inr t :: bool res)" for s by simp
    fix w assume I: "?I w" and g: "Inr (m w \<noteq> 0) = (Inr True :: bool res)"
    then obtain i where i: "i \<le> k" "w = str + of_nat i" by blast
    have "i \<noteq> k" using g i s by (auto simp: string_at_def)
    then have "i + 1 \<le> k" using i by simp
    moreover have "w + 1 = str + of_nat (i + 1)" using i by simp
    moreover have "unat (w - str) = i" using lt [of i] i by (simp only: offset_back)
    moreover have "unat (w + 1 - str) = i + 1" using lt [OF \<open>i + 1 \<le> k\<close>] by (simp only: \<open>w + 1 = _\<close> offset_back)
    ultimately show "\<exists>w'. Inr (w + 1) = (Inr w' :: u32 res) \<and> ?I w' \<and> k - unat (w' - str) < k - unat (w - str)"
      by (intro exI [of _ "w + 1"] conjI exI [of _ "i + 1"]) simp_all
  qed
  then obtain i where "whileR 5 (\<lambda>s. Inr (m s \<noteq> 0)) (\<lambda>s. Inr (s + 1)) (str + of_nat j) = Inr (str + of_nat i)"
    "i \<le> k" "m (str + of_nat i) = 0" by auto
  moreover from this s have "i = k" unfolding string_at_def by (meson le_neq_implies_less)
  ultimately show ?thesis by simp
qed

lemma strlen_at:
  assumes "string_at m str k"
  shows "strlen m str = Inr (of_nat k)"
proof -
  obtain j ret where 1: "whileR 17 align_guard (align_body m) (str, False) = Inr (str + of_nat j, ret)"
    "j \<le> k" "ret \<longrightarrow> j = k" using align_loop [OF assms] by blast
  obtain j' where 2: "whileR 1073741826 (\<lambda>w. Inr (HASLESS (ld32 m w) 1 = 0)) (\<lambda>w. Inr (w + 4)) (str + of_nat j) = Inr (str + of_nat j')"
    "j' \<le> k" "k \<le> j' + 3" using word_loop [OF assms 1(2)] by blast
  show ?thesis using 1 2 last_loop [OF assms 2(2,3)] by (simp add: strlen_def)
qed

text \<open>
  C15: strlen returns the distance to the first zero byte, whatever the alignment of the
  string; the word test of its middle loop never skips one, and the loop ends.
\<close>

theorem strlen_counts:
  assumes "m (str + of_nat k) = 0" "\<forall>j<k. m (str + of_nat j) \<noteq> 0" "k < 4294967296"
  shows "strlen m str = Inr (of_nat k) \<and> stage3_strlen m str = Inr (of_nat k)"
  using assms by (simp add: strlen_at string_at_def stage3_strlen_def)

theorem strlen_counts_witness:
  "strlen (\<lambda>a. if a = 4100 then 0 else 65) 4097 = Inr (of_nat 3) \<and>
   stage3_strlen (\<lambda>a. if a = 4100 then 0 else 65) 4097 = Inr (of_nat 3)"
  by (rule strlen_counts) (simp_all add: numeral_3_eq_3 All_less_Suc2)

section \<open>Hexadecimal numbers, comparison and filling\<close>

definition hex_value :: "u8 \<Rightarrow> nat" where
  "hex_value c = (if unat c < 58 then unat c - 48 else unat c - 55)"

lemma hex_value_digit: "n < 16 \<Longrightarrow> hex_value (hex_digits ! n) = n"
proof -
  have "list_all (\<lambda>n. hex_value (hex_digits ! n) = n) [0..<16]"
    by (simp add: hex_value_def hex_digits_def upt_rec)
  then show "n < 16 \<Longrightarrow> ?thesis" by (simp add: list_all_iff)
qed

text \<open>The memory and the rest of the number after some digits.\<close>

lemma hex_loop:
  fixes x out :: u32
  assumes "n \<le> 8"
  shows "fold (\<lambda>i (m, x). (m(out + (7 - of_nat i) := hex_digits ! unat (x AND 0x0F)), drop_bit 4 x)) [0..<n] (m, x) =
    (\<lambda>a. if \<exists>i<n. a = out + (7 - of_nat i)
         then hex_digits ! (unat x div 16 ^ (7 - unat (a - out)) mod 16) else m a, drop_bit (4 * n) x)"
  using assms
proof (induction n)
  case (Suc n)
  have "unat (drop_bit (4 * n) x AND 0x0F) = unat x div 16 ^ n mod 16"
  proof -
    have "unat (drop_bit (4 * n) x) = drop_bit (4 * n) (unat x)" by (rule unat_drop_bit_eq)
    also have "\<dots> = unat x div 16 ^ n" by (simp add: drop_bit_eq_div power_mult)
    finally show ?thesis using and_pow2_mask [of "drop_bit (4 * n) x" 4] by simp
  qed
  moreover have "unat (7 - of_nat n :: u32) = 7 - n"
  proof -
    have "(7 - of_nat n :: u32) = of_nat (7 - n)" using Suc.prems by (simp add: of_nat_diff)
    then show ?thesis using unat_of_nat32 [of "7 - n"] by simp
  qed
  moreover have "7 - (7 - n) = n" using Suc.prems by simp
  ultimately show ?case using Suc by (auto simp: fun_eq_iff less_Suc_eq drop_bit_drop_bit)
qed auto

definition read_hex :: "bytes \<Rightarrow> u32 \<Rightarrow> nat" where
  "read_hex m a = foldl (\<lambda>acc k. 16 * acc + hex_value (m (a + of_nat k))) 0 [0..<8]"

lemma hextostr_digit:
  assumes "k < 8"
  shows "hex_value (hextostr m x out (out + of_nat k)) = unat x div 16 ^ (7 - k) mod 16"
proof -
  have e: "out + of_nat k = out + (7 - of_nat (7 - k))" using assms by (simp add: of_nat_diff)
  moreover have "unat (out + of_nat k - out) = k" using assms by (simp add: unat_of_nat32)
  moreover have "7 - k < 8" by simp
  ultimately have "hextostr m x out (out + of_nat k) = hex_digits ! (unat x div 16 ^ (7 - k) mod 16)"
    unfolding hextostr_def hex_loop [OF order_refl] by auto
  then show ?thesis by (simp add: hex_value_digit)
qed

text \<open>
  The eight characters hextostr writes are hexadecimal digits that read back as the
  number, for every number and every address.
\<close>

theorem hextostr_roundtrip: "read_hex (hextostr m x out) out = unat x"
proof -
  have step: "unat x div 16 ^ i = 16 * (unat x div 16 ^ Suc i) + unat x div 16 ^ i mod 16" for i
    by (simp add: div_mult2_eq mult.commute [of 16 "16 ^ i"] del: power_Suc add: power_Suc2)
  have "foldl (\<lambda>acc k. 16 * acc + hex_value (hextostr m x out (out + of_nat k))) 0 [0..<n] = unat x div 16 ^ (8 - n)"
    if "n \<le> 8" for n
    using that
  proof (induction n)
    case 0
    then show ?case using unsigned_less [of x, where ?'a = nat] by simp
  next
    case (Suc n)
    have "Suc (7 - n) = 8 - n" using Suc.prems by simp
    then have "unat x div 16 ^ (7 - n) = 16 * (unat x div 16 ^ (8 - n)) + unat x div 16 ^ (7 - n) mod 16"
      using step [of "7 - n"] by simp
    then show ?case using Suc hextostr_digit [of n m x out] by simp
  qed
  from this [of 8] show ?thesis by (simp add: read_hex_def)
qed

lemma hextostr_elsewhere: "unat (a - out) \<ge> 8 \<Longrightarrow> hextostr m x out a = m a"
proof -
  assume a: "unat (a - out) \<ge> 8"
  have "a \<noteq> out + (7 - of_nat i)" if "i < 8" for i
  proof
    assume "a = out + (7 - of_nat i)"
    then have "a - out = of_nat (7 - i)" using that by (simp add: of_nat_diff)
    then have "unat (a - out) = 7 - i" using unat_of_nat32 [of "7 - i"] by simp
    then show False using a by simp
  qed
  then show ?thesis unfolding hextostr_def hex_loop [OF order_refl] by auto
qed

lemma memcmp_eq_0: "memcmp m s1 s2 n = 0 \<longleftrightarrow> (\<forall>k < unat n. m (s1 + of_nat k) = m (s2 + of_nat k))"
proof -
  have "memcmp_from m a b k = 0 \<longleftrightarrow> (\<forall>i<k. m (a + of_nat i) = m (b + of_nat i))" for a b k
  proof (induction k arbitrary: a b)
    case (Suc k)
    show ?case by (auto simp: Suc.IH All_less_Suc2 add.assoc word_uint_eq_iff)
  qed simp
  then show ?thesis by (simp add: memcmp_def)
qed

lemma memset_fills:
  "memset m s c n a = (if unat (a - s) < unat n then ucast c else m a)"
proof -
  have "fold (\<lambda>i m. m(s + of_nat i := ucast c)) [0..<k] m a = (if unat (a - s) < k then ucast c else m a)"
    if "k < 4294967296" for k
    using that
  proof (induction k)
    case (Suc k)
    have "a = s + of_nat k \<longleftrightarrow> unat (a - s) = k"
    proof
      assume "unat (a - s) = k"
      then have "of_nat k = a - s" by auto
      then show "a = s + of_nat k" by simp
    qed (use Suc.prems in \<open>simp add: unat_of_nat32\<close>)
    then show ?case using Suc by auto
  qed simp
  then show ?thesis using unsigned_less [of n, where ?'a = nat] by (simp add: memset_def)
qed

section \<open>Text on the screen\<close>

lemma kprint_cell:
  assumes k: "k < unat n" and apart: "\<And>i j. i < unat n \<Longrightarrow> j < 2 * unat n \<Longrightarrow> src + of_nat i \<noteq> screen + of_nat j"
  shows "kprint m src screen n (screen + 2 * of_nat k) = m (src + of_nat k)"
    "kprint m src screen n (screen + 2 * of_nat k + 1) = 0x0F"
proof -
  define f :: "nat \<Rightarrow> bytes \<Rightarrow> bytes" where
    "f i m = m(screen + of_nat (2 * i) := m (src + of_nat i), screen + of_nat (2 * i + 1) := 0x0F)" for i m
  have n: "unat n < 65536" using unsigned_less [of n, where ?'a = nat] by simp
  have inj: "screen + of_nat i = screen + of_nat j \<longleftrightarrow> i = j" if "i < 131072" "j < 131072" for i j
  proof
    assume "screen + of_nat i = screen + of_nat j"
    then have "unat (of_nat i :: u32) = unat (of_nat j :: u32)" by simp
    then show "i = j" using that by (simp add: unat_of_nat32)
  qed simp
  have even: "screen + 2 * of_nat i = screen + of_nat (2 * i)" "screen + 2 * of_nat i + 1 = screen + of_nat (2 * i + 1)" for i
    by (simp_all add: algebra_simps)
  have kp: "kprint m src screen n = fold f [0..<unat n] m"
  proof -
    have "(\<lambda>i m. let m = m(screen + 2 * of_nat i := m (src + of_nat i)) in m(screen + 2 * of_nat i + 1 := 0x0F)) = f"
      by (simp add: fun_eq_iff f_def Let_def ac_simps)
    then show ?thesis by (simp add: kprint_def)
  qed
  have "(\<forall>i < unat n. fold f [0..<p] m (src + of_nat i) = m (src + of_nat i)) \<and>
    (\<forall>i<p. fold f [0..<p] m (screen + of_nat (2 * i)) = m (src + of_nat i) \<and> fold f [0..<p] m (screen + of_nat (2 * i + 1)) = 0x0F)"
    if "p \<le> unat n" for p
    using that
  proof (induction p)
    case (Suc p)
    have a: "src + of_nat i \<noteq> screen + of_nat (2 * p)" "src + of_nat i \<noteq> screen + of_nat (2 * p + 1)" if "i < unat n" for i
      using apart [OF that, of "2 * p"] apart [OF that, of "2 * p + 1"] Suc.prems by simp_all
    have b: "screen + of_nat (2 * i) \<noteq> screen + of_nat (2 * p + 1)" "screen + of_nat (2 * i + 1) \<noteq> screen + of_nat (2 * p)"
      "screen + of_nat (2 * i) = screen + of_nat (2 * p) \<longleftrightarrow> i = p" "screen + of_nat (2 * i + 1) = screen + of_nat (2 * p + 1) \<longleftrightarrow> i = p"
      if "i < Suc p" for i
      by (subst inj; use that Suc.prems n in presburger)+
    show ?case using Suc a b by (simp add: f_def less_Suc_eq del: of_nat_add of_nat_mult of_nat_Suc)
  qed simp
  from this [OF order_refl] k show "kprint m src screen n (screen + 2 * of_nat k) = m (src + of_nat k)"
    "kprint m src screen n (screen + 2 * of_nat k + 1) = 0x0F"
    unfolding kp even(2) unfolding even(1) by blast+
qed

text \<open>
  \<open>kputs\<close> moves to the next row only when the column plus the number of characters,
  not of bytes, passes 160: a text between the two bounds straddles two rows.
\<close>

lemma kputs_straddles:
  assumes "string_at m src k" "unat pos + 2 * k < 65536"
    and "unat pos mod 160 + k \<le> 160" "160 < unat pos mod 160 + 2 * k"
  shows "kputs m src screen pos = Inr (of_nat (unat pos + 2 * k), kprint m src (screen + ucast pos) (of_nat k)) \<and>
    (unat pos + 2 * k - 1) div 160 = unat pos div 160 + 1"
proof
  have k: "k < 65536" using assms(2) by simp
  then have u: "unat (of_nat k :: u16) = k" by (simp add: unat_of_nat)
  have c: "(ucast (of_nat k :: u32) :: u16) = of_nat k" using k by (simp add: word_unat_eq_iff unsigned_ucast_eq unat_of_nat take_bit_nat_eq_self)
  have o: "unat (pos mod 160) = unat pos mod 160" by (simp add: unat_mod_distrib)
  have r: "(ucast pos + ucast (of_nat k :: u16) * 2 :: u32) = of_nat (unat pos + 2 * k)"
  proof -
    have "(ucast pos :: u32) = of_nat (unat pos)" "(ucast (of_nat k :: u16) :: u32) = of_nat (unat (of_nat k :: u16))"
      by (simp_all add: word_unat_eq_iff unat_of_nat)
    then show ?thesis by (simp add: u)
  qed
  show "kputs m src screen pos = Inr (of_nat (unat pos + 2 * k), kprint m src (screen + ucast pos) (of_nat k))"
    using assms(3) by (simp only: kputs_def Let_def strlen_at [OF assms(1)] bindR_Inr c u o r split: if_split) simp
  have "unat pos + 2 * k - 1 = (unat pos mod 160 + 2 * k - 1) + 160 * (unat pos div 160)" using assms(4) by simp
  then have "(unat pos + 2 * k - 1) div 160 = (unat pos mod 160 + 2 * k - 1) div 160 + unat pos div 160"
    by (simp only: div_mult_self2)
  moreover have "(unat pos mod 160 + 2 * k - 1) div 160 = 1" using assms(3,4) by (simp add: div_nat_eqI)
  ultimately show "(unat pos + 2 * k - 1) div 160 = unat pos div 160 + 1" by simp
qed

end
