(* ===== verification/Panic_Print.thy ===== *)
theory Panic_Print
  imports Serial C_Util
begin

text \<open>
  Formatted output of a failed assertion in stage 3 (\<open>stage3/crt/print.c\<close>,
  \<open>stage3/crt/assert.c\<close>): the conversions of \<open>getfmt\<close> into a 16-byte buffer, and
  \<open>panic\<close>, which sends the text to the first serial port by polling.
\<close>

section \<open>Model\<close>

text \<open>
  The variable arguments: a word or a string (its bytes up to the NUL). Reading one
  that is missing or of the other kind is \<open>OutOfBounds\<close>. A result of \<open>getfmt\<close> points
  into its buffer, is an argument string, or is NULL.
\<close>

datatype vararg = VInt u32 | VStr "u8 list"

datatype fmt_ptr = InBuf nat | InStr "u8 list" | Null

definition va_int :: "vararg list \<Rightarrow> (u32 \<times> vararg list) res" where
  "va_int args = (case args of VInt x # rest \<Rightarrow> Inr (x, rest) | _ \<Rightarrow> Inl OutOfBounds)"

definition va_str :: "vararg list \<Rightarrow> (u8 list \<times> vararg list) res" where
  "va_str args = (case args of VStr s # rest \<Rightarrow> Inr (s, rest) | _ \<Rightarrow> Inl OutOfBounds)"

text \<open>The loop body of \<open>fmt_uint\<close>; the state is the buffer, the index in it and the number.\<close>

definition fmt_digit :: "u32 \<Rightarrow> u8 list \<times> nat \<times> u32 \<Rightarrow> (u8 list \<times> nat \<times> u32) res" where
  "fmt_digit base = (\<lambda>(buf, p, arg).
     if p = 0 then Inl OutOfBounds
     else bindR (setR buf (p - 1) (hex_digits ! unat (arg mod base))) (\<lambda>buf.
       Inr (buf, p - 1, arg div 10)))"

definition fmt_uint :: "u8 list \<Rightarrow> nat \<Rightarrow> u32 \<Rightarrow> u32 \<Rightarrow> (nat \<times> u8 list) res" where
  "fmt_uint buf k arg base =
     bindR (setR buf (k + 11) 0) (\<lambda>buf.
     bindR (fmt_digit base (buf, k + 11, arg)) (\<lambda>s.
     bindR (whileR 11 (\<lambda>(buf, p, arg). Inr (arg \<noteq> 0)) (fmt_digit base) s) (\<lambda>(buf, p, arg).
     Inr (p, buf))))"

definition getfmt :: "u8 \<Rightarrow> u8 list \<Rightarrow> vararg list \<Rightarrow> (fmt_ptr \<times> u8 list \<times> vararg list) res" where
  "getfmt fmt buf args =
     (if fmt = 37 then bindR (setR buf 0 37) (\<lambda>buf. bindR (setR buf 1 0) (\<lambda>buf. Inr (InBuf 0, buf, args)))
      else if fmt = 99 then bindR (va_int args) (\<lambda>(x, args).
        bindR (setR buf 0 (ucast x)) (\<lambda>buf. bindR (setR buf 1 0) (\<lambda>buf. Inr (InBuf 0, buf, args))))
      else if fmt = 115 then bindR (va_str args) (\<lambda>(s, args). Inr (InStr s, buf, args))
      else if fmt = 105 \<or> fmt = 100 then bindR (va_int args) (\<lambda>(x, args).
        bindR (fmt_uint buf 1 (if x <s 0 then - x else x) 10) (\<lambda>(p, buf).
        if x <s 0 then (if p = 0 then Inl OutOfBounds
                        else bindR (setR buf (p - 1) 45) (\<lambda>buf. Inr (InBuf (p - 1), buf, args)))
        else Inr (InBuf p, buf, args)))
      else if fmt = 117 then bindR (va_int args) (\<lambda>(x, args).
        bindR (fmt_uint buf 0 x 10) (\<lambda>(p, buf). Inr (InBuf p, buf, args)))
      else if fmt = 120 then bindR (va_int args) (\<lambda>(x, args).
        bindR (fmt_uint buf 0 x 16) (\<lambda>(p, buf). Inr (InBuf p, buf, args)))
      else Inr (Null, buf, args))"

text \<open>The characters that the inner loop of \<open>panic\<close> reads through a pointer.\<close>

definition chars_at :: "fmt_ptr \<Rightarrow> u8 list \<Rightarrow> u8 list res" where
  "chars_at p buf =
     (case p of InBuf i \<Rightarrow> (if 0 \<in> set (drop i buf) then Inr (takeWhile (\<lambda>c. c \<noteq> 0) (drop i buf)) else Inl OutOfBounds)
      | InStr s \<Rightarrow> Inr s | Null \<Rightarrow> Inl NullDeref)"

text \<open>The characters \<open>panic\<close> sends, for a format given up to its NUL.\<close>

function panic_chars :: "u8 list \<Rightarrow> vararg list \<Rightarrow> u8 list \<Rightarrow> u8 list res" where
  "panic_chars [] args buf = Inr []"
| "panic_chars (c # fmt) args buf =
     (if c = 37 then
        bindR (getfmt (case fmt of [] \<Rightarrow> 0 | f # _ \<Rightarrow> f) buf args) (\<lambda>(p, buf, args).
        bindR (chars_at p buf) (\<lambda>cs.
        bindR (panic_chars (tl fmt) args buf) (\<lambda>rest. Inr (cs @ rest))))
      else bindR (panic_chars fmt args buf) (\<lambda>rest. Inr (c # rest)))"
  by pat_completeness auto
termination by (relation "measure (\<lambda>(fmt, args, buf). length fmt)") auto

text \<open>Sending one character: \<open>answers\<close> are what the line status register answers.\<close>

fun assert_ser_write :: "u8 \<Rightarrow> u8 list \<Rightarrow> (io_event list \<times> u8 list) res" where
  "assert_ser_write c [] = Inl OutOfFuel"
| "assert_ser_write c (a # answers) =
     (if a AND 0x20 = 0x20 then Inr ([Inb (SERIAL_COM1 + 5) a, Outb SERIAL_COM1 c], answers)
      else bindR (assert_ser_write c answers) (\<lambda>(io, answers). Inr (Inb (SERIAL_COM1 + 5) a # io, answers)))"

fun send_chars :: "u8 list \<Rightarrow> u8 list \<Rightarrow> io_event list res" where
  "send_chars [] answers = Inr []"
| "send_chars (c # cs) answers =
     bindR (assert_ser_write c answers) (\<lambda>(io, answers).
     bindR (send_chars cs answers) (\<lambda>io'. Inr (io @ io')))"

text \<open>\<open>panic\<close> up to the endless loop it ends in; \<open>buf\<close> is the static \<open>tmp_buf\<close>.\<close>

definition panic :: "u8 list \<Rightarrow> vararg list \<Rightarrow> u8 list \<Rightarrow> u8 list \<Rightarrow> io_event list res" where
  "panic fmt args buf answers =
     bindR (panic_chars fmt args buf) (\<lambda>cs.
     bindR (send_chars cs answers) (\<lambda>io. Inr (ser_init_poll @ io)))"

definition bytes_of :: "string \<Rightarrow> u8 list" where
  "bytes_of s = map of_char s"

definition assert_fmt :: "u8 list" where
  "assert_fmt = bytes_of ''Assertion failed: %s, (%s: %s: %u)''"

definition assert_fail :: "u8 list \<Rightarrow> u8 list \<Rightarrow> u32 \<Rightarrow> u8 list \<Rightarrow> u8 list \<Rightarrow> u8 list \<Rightarrow> io_event list res" where
  "assert_fail x file line fname buf answers =
     panic assert_fmt [VStr x, VStr file, VStr fname, VInt line] buf answers"

section \<open>Numbers\<close>

text \<open>Decimal notation, most significant digit first.\<close>

fun decimal :: "nat \<Rightarrow> u8 list" where
  "decimal n = (if n < 10 then [] else decimal (n div 10)) @ [of_nat (48 + n mod 10)]"

declare decimal.simps [simp del]

lemma hex_digits_decimal: "n < 10 \<Longrightarrow> hex_digits ! n = of_nat (48 + n)"
proof -
  have "list_all (\<lambda>n. hex_digits ! n = of_nat (48 + n)) [0..<10]" by (simp add: hex_digits_def upt_rec)
  then show "n < 10 \<Longrightarrow> ?thesis" by (simp add: list_all_iff)
qed

lemma fmt_digit_10:
  assumes "0 < p" "p \<le> length buf"
  shows "fmt_digit 10 (buf, p, arg) =
    Inr (buf[p - 1 := of_nat (48 + unat arg mod 10)], p - 1, arg div 10)"
proof -
  have "p - 1 < length buf" using assms by simp
  moreover have "unat (arg mod 10) = unat arg mod 10" by (simp add: unat_mod_distrib)
  ultimately show ?thesis using assms(1) by (simp add: fmt_digit_def hex_digits_decimal)
qed

lemma drop_step: "0 < p \<Longrightarrow> p \<le> length xs \<Longrightarrow> drop (p - Suc 0) (xs[p - Suc 0 := v]) = v # drop p xs"
proof (cases p)
  case (Suc q)
  moreover assume "p \<le> length xs"
  ultimately have "drop q xs = xs ! q # drop (Suc q) xs" by (simp add: Cons_nth_drop_Suc)
  then show ?thesis using Suc by (simp add: drop_update_swap)
qed simp

lemma fmt_loop:
  assumes "unat arg < 10 ^ k" "k \<le> p" "p \<le> length buf" "k < n"
  shows "\<exists>buf' p'. whileR n (\<lambda>(buf, p, arg). Inr (arg \<noteq> 0)) (fmt_digit 10) (buf, p, arg) = Inr (buf', p', 0) \<and>
    length buf' = length buf \<and> p - k \<le> p' \<and> p' \<le> p \<and> drop p' buf' = (if arg = 0 then [] else decimal (unat arg)) @ drop p buf"
  using assms
proof (induction k arbitrary: n arg p buf)
  case 0
  then obtain n' where "n = Suc n'" by (cases n) auto
  moreover have "arg = 0" using 0 by (simp add: unat_eq_zero)
  ultimately show ?case by simp
next
  case (Suc k)
  obtain n' where n: "n = Suc n'" using Suc.prems by (cases n) auto
  show ?case
  proof (cases "arg = 0")
    case False
    let ?buf = "buf[p - 1 := of_nat (48 + unat arg mod 10)]"
    have ua: "unat (arg div 10) = unat arg div 10" by (simp add: unat_div_distrib)
    have "unat (arg div 10) < 10 ^ k" using Suc.prems(1) by (simp add: ua div_less_iff_less_mult mult.commute)
    moreover have "k \<le> p - 1" "p - 1 \<le> length ?buf" "k < n'" using Suc.prems n by auto
    ultimately obtain buf' p' where IH: "whileR n' (\<lambda>(buf, p, arg). Inr (arg \<noteq> 0)) (fmt_digit 10) (?buf, p - 1, arg div 10) = Inr (buf', p', 0)"
      "length buf' = length ?buf" "p - 1 - k \<le> p'" "p' \<le> p - 1"
      "drop p' buf' = (if arg div 10 = 0 then [] else decimal (unat (arg div 10))) @ drop (p - 1) ?buf"
      using Suc.IH by blast
    have 10: "arg div 10 = 0 \<longleftrightarrow> unat arg < 10"
      by (simp add: word_unat_eq_iff ua div_eq_0_iff)
    have "drop p' buf' = decimal (unat arg) @ drop p buf"
      unfolding IH(5) decimal.simps [of "unat arg"] 10 using Suc.prems by (simp add: drop_step ua)
    then show ?thesis using IH n False Suc.prems fmt_digit_10 [of p buf arg] by auto
  qed (use n Suc.prems in simp)
qed

lemma decimal_nonzero: "0 \<notin> set (decimal n)"
proof (induction n rule: decimal.induct)
  case (1 n)
  have "unat (of_nat (48 + n mod 10) :: u8) = 48 + n mod 10" by (simp only: unat_of_nat) simp
  then have "of_nat (48 + n mod 10) \<noteq> (0 :: u8)" by auto
  then show ?case using 1 by (subst decimal.simps) auto
qed

lemma fmt_uint_decimal:
  assumes "k + 12 \<le> length buf"
  shows "\<exists>p buf'. fmt_uint buf k arg 10 = Inr (p, buf') \<and> length buf' = length buf \<and> k < p \<and>
    chars_at (InBuf p) buf' = Inr (decimal (unat arg))"
proof -
  let ?buf = "buf[k + 11 := 0]"
  let ?buf1 = "?buf[k + 11 - 1 := of_nat (48 + unat arg mod 10)]"
  have d: "fmt_digit 10 (?buf, k + 11, arg) = Inr (?buf1, k + 11 - 1, arg div 10)"
    using assms by (intro fmt_digit_10) simp_all
  have ua: "unat (arg div 10) = unat arg div 10" by (simp add: unat_div_distrib)
  have "unat arg < 4294967296" using unsigned_less [of arg, where ?'a = nat] by simp
  then have "unat (arg div 10) < 10 ^ 9" by (simp add: ua div_less_iff_less_mult)
  moreover have "9 \<le> k + 11 - 1" "k + 11 - 1 \<le> length ?buf1" "(9::nat) < 11" using assms by simp_all
  ultimately obtain buf' p' where l: "whileR 11 (\<lambda>(buf, p, arg). Inr (arg \<noteq> 0)) (fmt_digit 10) (?buf1, k + 11 - 1, arg div 10) = Inr (buf', p', 0)"
    "length buf' = length ?buf1" "k + 11 - 1 - 9 \<le> p'" "p' \<le> k + 11 - 1"
    "drop p' buf' = (if arg div 10 = 0 then [] else decimal (unat (arg div 10))) @ drop (k + 11 - 1) ?buf1"
    using fmt_loop by blast
  have 10: "arg div 10 = 0 \<longleftrightarrow> unat arg < 10" by (simp add: word_unat_eq_iff ua div_eq_0_iff)
  have "drop (k + 11 - Suc 0) ?buf1 = of_nat (48 + unat arg mod 10) # drop (k + 11) ?buf"
    using drop_step [of "k + 11" ?buf] assms by simp
  moreover have "drop (k + 11) ?buf = 0 # drop (k + 12) buf"
    using assms drop_step [of "k + 12" buf 0] by (simp add: add.commute)
  ultimately have e: "drop p' buf' = decimal (unat arg) @ 0 # drop (k + 12) buf"
    unfolding l(5) decimal.simps [of "unat arg"] 10 by (simp add: ua)
  have "takeWhile (\<lambda>c. c \<noteq> 0) (xs @ 0 # ys) = xs" if "0 \<notin> set xs" for xs ys :: "u8 list"
    using that by (induction xs) auto
  then have "chars_at (InBuf p') buf' = Inr (decimal (unat arg))"
    by (simp add: chars_at_def e decimal_nonzero)
  moreover have "fmt_uint buf k arg 10 = Inr (p', buf')"
    using assms d l(1) by (simp add: fmt_uint_def)
  ultimately show ?thesis using l(2,3) by auto
qed

text \<open>Base 16 divides by 10 like base 10 does: 255 comes out as 29F.\<close>

lemma fmt_uint_hex_wrong:
  "bindR (fmt_uint (replicate 16 0) 0 255 16) (\<lambda>(p, buf). chars_at (InBuf p) buf) = Inr (bytes_of ''29F'')"
  by code_simp

section \<open>Failed assertions\<close>

lemma panic_chars_plain:
  "c \<noteq> 37 \<Longrightarrow> panic_chars (c # fmt) args buf = bindR (panic_chars fmt args buf) (\<lambda>rest. Inr (c # rest))"
  by simp

lemma panic_chars_string:
  "panic_chars (37 # 115 # fmt) (VStr s # args) buf = bindR (panic_chars fmt args buf) (\<lambda>rest. Inr (s @ rest))"
  by (simp add: getfmt_def va_str_def chars_at_def)

lemma panic_chars_unsigned:
  assumes "length buf = 16"
  shows "\<exists>buf'. panic_chars (37 # 117 # fmt) (VInt x # args) buf =
    bindR (panic_chars fmt args buf') (\<lambda>rest. Inr (decimal (unat x) @ rest))"
proof -
  obtain p buf' where "fmt_uint buf 0 x 10 = Inr (p, buf')" "chars_at (InBuf p) buf' = Inr (decimal (unat x))"
    using fmt_uint_decimal [of 0 buf x] assms by auto
  then show ?thesis by (auto simp: getfmt_def va_int_def)
qed

lemma assert_fail_chars:
  assumes "length buf = 16"
  shows "panic_chars assert_fmt [VStr x, VStr file, VStr fname, VInt line] buf =
    Inr (bytes_of ''Assertion failed: '' @ x @ bytes_of '', ('' @ file @ bytes_of '': '' @ fname @
      bytes_of '': '' @ decimal (unat line) @ bytes_of '')'')"
  using panic_chars_unsigned [OF assms, of "bytes_of '')''" line "[]"]
  by (auto simp: assert_fmt_def bytes_of_def panic_chars_string simp del: panic_chars.simps(2) simp add: panic_chars_plain)

lemma assert_ser_write_sends:
  assumes "\<exists>a\<in>set answers. a AND 0x20 = 0x20"
  shows "\<exists>io rest. assert_ser_write c answers = Inr (io, rest) \<and> sent_to SERIAL_COM1 io = [c] \<and>
    length (filter (\<lambda>a. a AND 0x20 = 0x20) answers) = Suc (length (filter (\<lambda>a. a AND 0x20 = 0x20) rest))"
  using assms
proof (induction answers)
  case (Cons a answers)
  show ?case
  proof (cases "a AND 0x20 = 0x20")
    case False
    with Cons obtain io rest where "assert_ser_write c answers = Inr (io, rest)" "sent_to SERIAL_COM1 io = [c]"
      "length (filter (\<lambda>a. a AND 0x20 = 0x20) answers) = Suc (length (filter (\<lambda>a. a AND 0x20 = 0x20) rest))" by auto
    then show ?thesis using False by simp
  qed simp
qed simp

lemma send_chars_sends:
  assumes "length cs \<le> length (filter (\<lambda>a. a AND 0x20 = 0x20) answers)"
  shows "\<exists>io. send_chars cs answers = Inr io \<and> sent_to SERIAL_COM1 io = cs"
  using assms
proof (induction cs arbitrary: answers)
  case (Cons c cs)
  then have "filter (\<lambda>a. a AND 0x20 = 0x20) answers \<noteq> []" by auto
  then have "\<exists>a\<in>set answers. a AND 0x20 = 0x20" by (auto simp: filter_empty_conv)
  from assert_ser_write_sends [OF this, of c] obtain io rest where
    1: "assert_ser_write c answers = Inr (io, rest)" "sent_to SERIAL_COM1 io = [c]"
    "length cs \<le> length (filter (\<lambda>a. a AND 0x20 = 0x20) rest)" using Cons.prems by auto
  from Cons.IH [OF 1(3)] 1 show ?case by auto
qed simp

text \<open>
  C20: a failed assertion initialises the first serial port and sends exactly the
  message with the expression, the file, the function and the line in decimal, as long
  as the transmitter reports itself ready often enough.
\<close>

theorem assert_fail_prints:
  assumes "length buf = 16"
    and msg: "message = bytes_of ''Assertion failed: '' @ x @ bytes_of '', ('' @ file @ bytes_of '': '' @ fname @
      bytes_of '': '' @ decimal (unat line) @ bytes_of '')''"
    and "length message \<le> length (filter (\<lambda>a. a AND 0x20 = 0x20) answers)"
  shows "\<exists>io. assert_fail x file line fname buf answers = Inr (ser_init_poll @ io) \<and> sent_to SERIAL_COM1 io = message"
  using send_chars_sends [OF assms(3)] assert_fail_chars [OF assms(1)]
  by (auto simp: assert_fail_def panic_def msg)

theorem assert_fail_prints_witness:
  "\<exists>io. assert_fail (bytes_of ''0'') (bytes_of ''a.c'') 67 (bytes_of ''f'') (replicate 16 0) (replicate 40 0x20) =
     Inr (ser_init_poll @ io) \<and> sent_to SERIAL_COM1 io = bytes_of ''Assertion failed: 0, (a.c: f: 67)''"
proof -
  have "bytes_of ''Assertion failed: 0, (a.c: f: 67)'' =
    bytes_of ''Assertion failed: '' @ bytes_of ''0'' @ bytes_of '', ('' @ bytes_of ''a.c'' @ bytes_of '': '' @
      bytes_of ''f'' @ bytes_of '': '' @ decimal (unat (67 :: u32)) @ bytes_of '')''"
    by (simp add: bytes_of_def decimal.simps)
  then show ?thesis by (rule assert_fail_prints [rotated]) (simp_all add: bytes_of_def)
qed

text \<open>A percent sign that ends the format, or precedes any other letter, makes \<open>panic\<close> read address 0.\<close>

lemma panic_unknown_conversion:
  assumes "f \<notin> {37, 99, 115, 105, 100, 117, 120}"
  shows "panic_chars (37 # f # fmt) args buf = Inl NullDeref" "panic_chars [37] args buf = Inl NullDeref"
  using assms by (simp_all add: getfmt_def chars_at_def)

end
