(* ===== verification/Gdt.thy ===== *)
theory Gdt
  imports Panic_Print
begin

text \<open>
  The descriptor tables of stage 3 (\<open>stage3/x86/gdt.cc\<close>, \<open>stage3/include/x86/gdt.h\<close>, the
  tables and \<open>loadGDT\<close> of \<open>stage3/crt/crt0.S\<close>): the task state descriptor, the interrupt
  gates and the handlers of the 32 exceptions. \<open>handlers\<close> is what the processor makes of
  the table: a function from vectors to entry points and kinds of gates.
\<close>

section \<open>Model\<close>

definition GDT_CS0 :: u16 where "GDT_CS0 = 0x08"
definition GDT_DS0 :: u16 where "GDT_DS0 = 0x10"
definition GDT_TSS :: u16 where "GDT_TSS = 0x28"
definition MAX_IRQ :: nat where "MAX_IRQ = 256"
definition IRQ_INT :: u8 where "IRQ_INT = 0x8E"
definition IRQ_TRAP :: u8 where "IRQ_TRAP = 0x8F"

record GDTEntry =
  low_limit :: u16
  low_base :: u16
  med_base :: u8
  access :: u8
  flags_limit :: u8
  high_base :: u8

definition SIZEOF_TSS :: nat where "SIZEOF_TSS = 4 + 4 + 2 + 2 + 24 * 4"

record IDTEntry =
  isr_low :: u16
  kernel_cs :: u16
  reserved :: u8
  attribs :: u8
  isr_high :: u16

record DTR =
  dtr_size :: u16
  dtr_offset :: u32

text \<open>The static objects, and the registers of the processor that they are loaded into.\<close>

record tables =
  gdtr :: DTR
  idtr :: DTR
  tss_entry :: GDTEntry
  idt :: "IDTEntry list"
  cpu_gdtr :: DTR
  cpu_idtr :: DTR
  cpu_cs :: u16
  cpu_ds :: u16
  cpu_tr :: u16

definition loadGDT :: "tables \<Rightarrow> u16 \<Rightarrow> u16 \<Rightarrow> tables" where
  "loadGDT t cs ds = t\<lparr>cpu_gdtr := gdtr t, cpu_cs := cs, cpu_ds := ds, cpu_tr := 0x28\<rparr>"

text \<open>\<open>gdt\<close> and \<open>tss\<close> are the addresses of \<open>GDT\<close> and of the task state segment.\<close>

definition GDT_init :: "u32 \<Rightarrow> u32 \<Rightarrow> tables \<Rightarrow> tables" where
  "GDT_init gdt tss t =
     (let t = t\<lparr>gdtr := \<lparr>dtr_size = GDT_TSS + 8, dtr_offset = gdt\<rparr>,
                tss_entry := (tss_entry t)\<lparr>low_limit := of_nat SIZEOF_TSS,
                  low_base := ucast (tss AND 0xFFFF),
                  med_base := ucast (drop_bit 16 tss AND 0xFF),
                  high_base := ucast (drop_bit 24 tss),
                  access := 0x89\<rparr>\<rparr>
      in loadGDT t GDT_CS0 GDT_DS0)"

definition IDT_setIRQ :: "tables \<Rightarrow> u8 \<Rightarrow> u32 \<Rightarrow> u8 \<Rightarrow> tables res" where
  "IDT_setIRQ t vector isr flags =
     bindR (setR (idt t) (unat vector)
       \<lparr>isr_low = ucast (isr AND 0xFFFF), kernel_cs = GDT_CS0, reserved = 0, attribs = flags,
         isr_high = ucast (drop_bit 16 isr)\<rparr>) (\<lambda>ds.
     Inr (t\<lparr>idt := ds\<rparr>))"

text \<open>\<open>stub v\<close> is the address of \<open>isr_stub\<close>\<open>v\<close>, \<open>table\<close> that of \<open>IDT\<close>.\<close>

definition IDT_init :: "(nat \<Rightarrow> u32) \<Rightarrow> u32 \<Rightarrow> tables \<Rightarrow> tables res" where
  "IDT_init stub table t =
     bindR (forR (\<lambda>v t. IDT_setIRQ t (of_nat v) (stub v) (if v = 2 then IRQ_INT else IRQ_TRAP)) [0..<32] t) (\<lambda>t.
     let t = t\<lparr>idtr := \<lparr>dtr_size = of_nat (8 * MAX_IRQ - 1), dtr_offset = table\<rparr>\<rparr> in
     Inr (t\<lparr>cpu_idtr := idtr t\<rparr>))"

text \<open>The messages of the exception handlers, and whether the processor pushes an error code.\<close>

definition isr_msgs :: "(bool \<times> string) list" where
  "isr_msgs =
     [(False, ''Division By 0''), (False, ''Debug Trap''), (False, ''NMI''), (False, ''Breakpoint''),
      (False, ''Overflow''), (False, ''Bound Range Exceeded''), (False, ''Invalid Opcode''),
      (False, ''Device Not Available''), (True, ''Double Fault''), (False, ''Coprocessor Segment Overrun''),
      (True, ''Invalid TSS''), (True, ''Segment Not Present''), (True, ''Stack Segment Fault''),
      (True, ''General Protection Fault''), (True, ''Page Fault''), (False, ''Reserved 0xF''),
      (False, ''x87 Exception''), (True, ''Alignment Check''), (False, ''Machine Check''),
      (False, ''SIMD Exception''), (False, ''Virtualization Exception''), (True, ''Control Protection Exception''),
      (False, ''Reserved 0x16''), (False, ''Reserved 0x17''), (False, ''Reserved 0x18''), (False, ''Reserved 0x19''),
      (False, ''Reserved 0x1A''), (False, ''Reserved 0x1B''), (False, ''Hypervisor Injection Exception''),
      (True, ''VMM Communication Exception''), (True, ''Security Exception''), (False, ''Reserved 0x1F'')]"

definition isr_stub :: "nat \<Rightarrow> u32 \<Rightarrow> u8 list \<Rightarrow> u8 list \<Rightarrow> io_event list res" where
  "isr_stub v error_code buf answers =
     (let (err, msg) = isr_msgs ! v in
      if err then panic (bytes_of (''Unexpected exception: '' @ msg @ '', error code 0x%x'')) [VInt error_code] buf answers
      else panic (bytes_of (''Unexpected exception: '' @ msg)) [] buf answers)"

section \<open>What the processor reads\<close>

definition gate_offset :: "IDTEntry \<Rightarrow> u32" where
  "gate_offset d = ucast (isr_low d) OR push_bit 16 (ucast (isr_high d))"

definition descriptor_base :: "GDTEntry \<Rightarrow> u32" where
  "descriptor_base d = ucast (low_base d) OR push_bit 16 (ucast (med_base d)) OR push_bit 24 (ucast (high_base d))"

definition handlers :: "tables \<Rightarrow> u8 \<Rightarrow> u32 \<times> u8" where
  "handlers t v = (gate_offset (idt t ! unat v), attribs (idt t ! unat v))"

text \<open>A gate that the processor accepts: present, in the kernel's code segment, of 32 bits.\<close>

definition gate_ok :: "IDTEntry \<Rightarrow> bool" where
  "gate_ok d \<longleftrightarrow> kernel_cs d = 8 \<and> reserved d = 0 \<and> (attribs d = 0x8E \<or> attribs d = 0x8F)"

lemma gate_of:
  "gate_offset \<lparr>isr_low = ucast (isr AND 0xFFFF), kernel_cs = c, reserved = r, attribs = f, isr_high = ucast (drop_bit 16 isr)\<rparr> = isr"
proof -
  have m: "(0xFFFF :: u32) = mask 16" by (simp add: mask_eq_exp_minus_1)
  show ?thesis unfolding gate_offset_def m
    by (simp, rule bit_word_eqI) (auto simp: bit_simps dest: bit_imp_le_length)
qed

lemma unat_u8_MAX: "unat (v :: u8) < 256"
  using unsigned_less [of v, where ?'a = nat] by simp

lemma IDT_setIRQ_eq:
  assumes "length (idt t) = 256"
  shows "\<exists>t'. IDT_setIRQ t v isr f = Inr t' \<and> length (idt t') = 256 \<and> handlers t' = (handlers t)(v := (isr, f)) \<and>
    (\<forall>k<256. k \<noteq> unat v \<longrightarrow> idt t' ! k = idt t ! k) \<and> (f = IRQ_INT \<or> f = IRQ_TRAP \<longrightarrow> gate_ok (idt t' ! unat v)) \<and>
    t' = t\<lparr>idt := idt t'\<rparr>"
  using unat_u8_MAX [of v] assms
  by (auto simp: IDT_setIRQ_def handlers_def fun_eq_iff gate_of gate_ok_def nth_list_update word_unat_eq_iff
      GDT_CS0_def IRQ_INT_def IRQ_TRAP_def)

text \<open>
  The table implements a function from vectors to handlers: after any sequence of
  \<open>IDT_setIRQ\<close> the processor finds for every vector the entry point and the kind of gate
  last set for it, and no other vector has changed.
\<close>

theorem idt_handlers:
  assumes "length (idt t) = 256"
  shows "\<exists>t'. forR (\<lambda>(v, isr, f) t. IDT_setIRQ t v isr f) ws t = Inr t' \<and> length (idt t') = 256 \<and>
    handlers t' = foldl (\<lambda>h (v, isr, f). h(v := (isr, f))) (handlers t) ws"
  using assms
proof (induction ws arbitrary: t)
  case (Cons w ws)
  obtain v isr f where w: "w = (v, isr, f)" by (cases w) auto
  obtain t1 where "IDT_setIRQ t v isr f = Inr t1" "length (idt t1) = 256" "handlers t1 = (handlers t)(v := (isr, f))"
    using IDT_setIRQ_eq [OF Cons.prems] by blast
  then show ?case using Cons.IH [of t1] by (simp add: w)
qed simp

text \<open>
  \<open>IDT_init\<close> installs for each of the 32 exceptions a gate the processor accepts, to
  the handler of that exception, an interrupt gate for the NMI and trap gates for the others;
  the other gates are untouched, and the register loaded covers exactly the 256 entries.
\<close>

lemma IDT_init_gates:
  assumes "length (idt t) = 256"
  shows "\<exists>t'. IDT_init stub table t = Inr t' \<and> length (idt t') = 256 \<and>
    (\<forall>v<32. gate_ok (idt t' ! v) \<and> handlers t' (of_nat v) = (stub v, if v = 2 then 0x8E else 0x8F)) \<and>
    (\<forall>v<256. 32 \<le> v \<longrightarrow> idt t' ! v = idt t ! v) \<and>
    dtr_offset (cpu_idtr t') = table \<and> unat (dtr_size (cpu_idtr t')) + 1 = 8 * length (idt t')"
proof -
  let ?I = "\<lambda>n t'. length (idt t') = 256 \<and> (\<forall>v<n. gate_ok (idt t' ! v) \<and>
      handlers t' (of_nat v) = (stub v, if v = 2 then IRQ_INT else IRQ_TRAP)) \<and> (\<forall>v<256. n \<le> v \<longrightarrow> idt t' ! v = idt t ! v)"
  have "\<exists>t'. forR (\<lambda>v t. IDT_setIRQ t (of_nat v) (stub v) (if v = 2 then IRQ_INT else IRQ_TRAP)) [0..<32] t = Inr t' \<and> ?I 32 t'"
  proof (rule forR_upt_total [where I = ?I])
    fix n t1 assume n: "n < 32" and I: "?I n t1"
    let ?f = "if n = 2 then IRQ_INT else IRQ_TRAP"
    have u: "unat (of_nat v :: u8) = v" if "v < 256" for v using that by (simp add: unat_of_nat)
    have "?f = IRQ_INT \<or> ?f = IRQ_TRAP" by simp
    then obtain t2 where t2: "IDT_setIRQ t1 (of_nat n) (stub n) ?f = Inr t2" "length (idt t2) = 256"
      "handlers t2 = (handlers t1)(of_nat n := (stub n, ?f))" "\<forall>k<256. k \<noteq> n \<longrightarrow> idt t2 ! k = idt t1 ! k" "gate_ok (idt t2 ! n)"
      using IDT_setIRQ_eq [of t1 "of_nat n" "stub n" ?f] I u [of n] n by force
    have "(of_nat v :: u8) \<noteq> of_nat n" if "v < n" for v
    proof
      assume "(of_nat v :: u8) = of_nat n"
      moreover have "v < 256" "n < 256" using that n by simp_all
      ultimately show False using u [of v] u [of n] that by simp
    qed
    then have "gate_ok (idt t2 ! v) \<and> handlers t2 (of_nat v) = (stub v, if v = 2 then IRQ_INT else IRQ_TRAP)" if "v < Suc n" for v
      using that I t2(3-5) n by (cases "v = n") (auto simp: less_Suc_eq)
    then show "\<exists>t'. IDT_setIRQ t1 (of_nat n) (stub n) ?f = Inr t' \<and> ?I (Suc n) t'"
      using t2 I by (intro exI [of _ t2]) auto
  qed (use assms in auto)
  then obtain t1 where t1: "forR (\<lambda>v t. IDT_setIRQ t (of_nat v) (stub v) (if v = 2 then IRQ_INT else IRQ_TRAP)) [0..<32] t = Inr t1" "?I 32 t1"
    by blast
  have "handlers (t1\<lparr>idtr := d, cpu_idtr := e\<rparr>) = handlers t1" for d e by (simp add: handlers_def fun_eq_iff)
  then show ?thesis unfolding IDT_init_def t1(1) Let_def using t1(2) by (auto simp: MAX_IRQ_def IRQ_INT_def IRQ_TRAP_def)
qed

definition example_tables :: tables where
  "example_tables =
     (let z = \<lparr>dtr_size = 0, dtr_offset = 0\<rparr>; e = \<lparr>isr_low = 0, kernel_cs = 0, reserved = 0, attribs = 0, isr_high = 0\<rparr> in
      \<lparr>gdtr = z, idtr = z, tss_entry = \<lparr>low_limit = 0, low_base = 0, med_base = 0, access = 0, flags_limit = 0, high_base = 0\<rparr>,
       idt = replicate 256 e, cpu_gdtr = z, cpu_idtr = z, cpu_cs = 0, cpu_ds = 0, cpu_tr = 0\<rparr>)"

lemma example_tables_length: "length (idt example_tables) = 256"
  by (simp add: example_tables_def Let_def)

theorem idt_handlers_witness:
  "\<exists>t'. forR (\<lambda>(v, isr, f) t. IDT_setIRQ t v isr f) [(0x24, 0xC0101000, 0x8E), (0x24, 0xC0102000, 0x8E)] example_tables = Inr t' \<and>
    handlers t' 0x24 = (0xC0102000, 0x8E)"
  using idt_handlers [OF example_tables_length, of "[(0x24, 0xC0101000, 0x8E), (0x24, 0xC0102000, 0x8E)]"] by auto

text \<open>
  C39: the task state descriptor that \<open>GDT_init\<close> splits the address over describes a present
  32-bit task state segment at exactly that address, and the segment registers and the task
  register are loaded with the kernel's selectors.
\<close>

theorem GDT_init_tss:
  "descriptor_base (tss_entry (GDT_init gdt tss t)) = tss \<and> access (tss_entry (GDT_init gdt tss t)) = 0x89 \<and>
   dtr_offset (cpu_gdtr (GDT_init gdt tss t)) = gdt \<and> cpu_cs (GDT_init gdt tss t) = 0x08 \<and>
   cpu_ds (GDT_init gdt tss t) = 0x10 \<and> cpu_tr (GDT_init gdt tss t) = GDT_TSS"
proof -
  have m: "(0xFFFF :: u32) = mask 16" "(0xFF :: u32) = mask 8" by (simp_all add: mask_eq_exp_minus_1)
  have "(ucast (ucast (tss AND 0xFFFF) :: u16) :: u32) OR push_bit 16 (ucast (ucast (drop_bit 16 tss AND 0xFF) :: u8)) OR
      push_bit 24 (ucast (ucast (drop_bit 24 tss) :: u8)) = tss"
    unfolding m
  proof (rule bit_word_eqI)
    fix n assume "n < LENGTH(32)"
    then consider "n < 16" | "16 \<le> n" "n < 24" | "24 \<le> n" "n < 32" by (simp, linarith)
    then show "bit ((ucast (ucast (tss AND mask 16) :: u16) :: u32) OR push_bit 16 (ucast (ucast (drop_bit 16 tss AND mask 8) :: u8)) OR
      push_bit 24 (ucast (ucast (drop_bit 24 tss) :: u8))) n = bit tss n" by cases (auto simp: bit_simps)
  qed
  then show ?thesis by (simp add: GDT_init_def loadGDT_def Let_def descriptor_base_def GDT_CS0_def GDT_DS0_def GDT_TSS_def)
qed

text \<open>Both limits are one too large: a limit is the offset of the last byte.\<close>

lemma GDT_init_limits:
  "unat (dtr_size (cpu_gdtr (GDT_init gdt tss t))) = 6 * 8" "unat (low_limit (tss_entry (GDT_init gdt tss t))) = SIZEOF_TSS"
  by (simp_all add: GDT_init_def loadGDT_def Let_def GDT_TSS_def SIZEOF_TSS_def)

section \<open>Exceptions\<close>

lemma panic_chars_literal:
  "37 \<notin> set cs \<Longrightarrow> panic_chars (cs @ fmt) args buf = bindR (panic_chars fmt args buf) (\<lambda>rest. Inr (cs @ rest))"
proof (induction cs)
  case Nil
  show ?case by (cases "panic_chars fmt args buf") simp_all
next
  case (Cons c cs)
  then show ?case by (simp add: panic_chars_plain bindR_assoc)
qed

lemma fmt_uint_small:
  assumes "x < 10"
  shows "fmt_uint buf k x 16 = fmt_uint buf k x 10"
proof -
  have "x mod 16 = x" "x mod 10 = x" "x div 10 = 0"
    using assms by (simp_all add: word_unat_eq_iff unat_mod_distrib unat_div_distrib word_less_nat_alt)
  then have d: "fmt_digit 16 (b, p, x) = fmt_digit 10 (b, p, x)" "fmt_digit 10 (b, p, x) = Inr (b', p', y) \<Longrightarrow> y = 0" for b b' p p' y
    by (auto simp: fmt_digit_def bindR_eq_Inr split: if_splits)
  obtain n where n: "11 = Suc n" using that [of 10] by simp
  have stop: "whileR 11 (\<lambda>(buf, p, arg). Inr (arg \<noteq> 0)) c (b, p, 0) = Inr (b, p, 0)" for c :: "u8 list \<times> nat \<times> u32 \<Rightarrow> _" and b p
    unfolding n by simp
  show ?thesis unfolding fmt_uint_def d(1)
  proof (intro bindR_cong refl)
    fix b s assume "setR buf (k + 11) 0 = Inr b" and "fmt_digit 10 (b, k + 11, x) = Inr s"
    then obtain b' p' where "s = (b', p', 0)" using d(2) by (cases s) auto
    then show "whileR 11 (\<lambda>(buf, p, arg). Inr (arg \<noteq> 0)) (fmt_digit 16) s = whileR 11 (\<lambda>(buf, p, arg). Inr (arg \<noteq> 0)) (fmt_digit 10) s"
      by (simp only: stop)
  qed
qed

lemma panic_chars_hex:
  assumes "length buf = 16" "x < 10"
  shows "panic_chars [37, 120] [VInt x] buf = Inr (decimal (unat x))"
proof -
  obtain p buf' where "fmt_uint buf 0 x 10 = Inr (p, buf')" "chars_at (InBuf p) buf' = Inr (decimal (unat x))"
    using fmt_uint_decimal [of 0 buf x] assms by auto
  then show ?thesis by (simp add: getfmt_def va_int_def fmt_uint_small [OF assms(2)])
qed

lemma isr_msgs_literal:
  assumes "v < 32"
  shows "37 \<notin> set (bytes_of (snd (isr_msgs ! v)))"
proof -
  have "list_all (\<lambda>(e, m). 37 \<notin> set (bytes_of m)) isr_msgs" by code_simp
  moreover have "length isr_msgs = 32" by (simp add: isr_msgs_def)
  ultimately show ?thesis using assms by (cases "isr_msgs ! v") (auto simp: list_all_length)
qed

text \<open>
  C36: an exception sends exactly its message to the first serial port; with an error code,
  when that has one digit.
\<close>

theorem isr_stub_reports:
  assumes "v < 32" "length buf = 16" "\<not> fst (isr_msgs ! v) \<or> code < 10"
    and msg: "message = bytes_of (''Unexpected exception: '' @ snd (isr_msgs ! v)) @
      (if fst (isr_msgs ! v) then bytes_of '', error code 0x'' @ decimal (unat code) else [])"
    and "length message \<le> length (filter (\<lambda>a. a AND 0x20 = 0x20) answers)"
  shows "\<exists>io. isr_stub v code buf answers = Inr (ser_init_poll @ io) \<and> sent_to SERIAL_COM1 io = message"
proof -
  obtain e m where em: "isr_msgs ! v = (e, m)" by fastforce
  have b: "bytes_of (xs @ ys) = bytes_of xs @ bytes_of ys" for xs ys by (simp add: bytes_of_def)
  have lit: "37 \<notin> set (bytes_of ''Unexpected exception: '')" "37 \<notin> set (bytes_of '', error code 0x'')" by code_simp+
  have litm: "37 \<notin> set (bytes_of m)" using isr_msgs_literal [OF assms(1)] by (simp add: em)
  have x: "bytes_of '', error code 0x%x'' = bytes_of '', error code 0x'' @ [37, 120]" by code_simp
  have "panic_chars (bytes_of (''Unexpected exception: '' @ m @ '', error code 0x%x'')) [VInt code] buf = Inr message" if e
    unfolding b x using assms(2,3) lit litm that unfolding msg em b
    by (simp add: panic_chars_literal panic_chars_hex del: panic_chars.simps(2))
  moreover have "panic_chars (bytes_of (''Unexpected exception: '' @ m)) [] buf = Inr message" if "\<not> e"
    using panic_chars_literal [of "bytes_of ''Unexpected exception: '' @ bytes_of m" "[]"] lit litm that unfolding msg em b by simp
  ultimately show ?thesis using send_chars_sends [OF assms(5)] by (cases e) (auto simp: isr_stub_def em panic_def)
qed

theorem isr_stub_reports_witness:
  "\<exists>io. isr_stub 14 2 (replicate 16 0) (replicate 60 0x20) = Inr (ser_init_poll @ io) \<and>
    sent_to SERIAL_COM1 io = bytes_of ''Unexpected exception: Page Fault, error code 0x2''"
proof -
  have m: "isr_msgs ! 14 = (True, ''Page Fault'')" by (simp add: isr_msgs_def)
  have "decimal (unat (2 :: u32)) = bytes_of ''2''" by (simp add: decimal.simps bytes_of_def)
  then have t: "bytes_of ''Unexpected exception: Page Fault, error code 0x2'' = bytes_of (''Unexpected exception: '' @ snd (isr_msgs ! 14)) @
      (if fst (isr_msgs ! 14) then bytes_of '', error code 0x'' @ decimal (unat (2 :: u32)) else [])"
    by (simp add: m bytes_of_def)
  show ?thesis by (rule isr_stub_reports [OF _ _ _ t]) (simp_all add: bytes_of_def)
qed

text \<open>Larger codes are garbled by \<open>fmt_uint\<close>: 11 is shown as 1B.\<close>

lemma isr_stub_code_wrong:
  "panic_chars (bytes_of ''0x%x'') [VInt 11] (replicate 16 0) = Inr (bytes_of ''0x1B'')"
  by code_simp

end
