(* ===== verification/Mtrr.thy ===== *)
theory Mtrr
  imports Boot_Prelude
begin

text \<open>
  Processor features and memory types in stage 3 (\<open>stage3/x86/cpuid.c\<close>, \<open>x86/mtrr.c\<close> and
  their headers). What CPUID and the model-specific registers answer are arguments.
\<close>

section \<open>Model: processor features\<close>

text \<open>\<open>enum cpuid_flags\<close> from 0 in order; these are the positions of the bits.\<close>

datatype cpuid_flag =
  CPUID_FPU | CPUID_VME | CPUID_DE | CPUID_PSE | CPUID_TSC | CPUID_MSR | CPUID_PAE | CPUID_MCE | CPUID_CX8 | CPUID_APIC |
  CPUID_RESERVED_1 | CPUID_SEP | CPUID_MTRR | CPUID_PGE | CPUID_MCA | CPUID_CMOV | CPUID_PAT | CPUID_PSE36 | CPUID_PSN |
  CPUID_CLFSH | CPUID_RESERVED_2 | CPUID_DS | CPUID_ACPI | CPUID_MMX | CPUID_FXSR | CPUID_SSE | CPUID_SSE2 | CPUID_SS |
  CPUID_HTT | CPUID_TM | CPUID_IA64 | CPUID_PBE

definition cpuid_enum :: "cpuid_flag list" where
  "cpuid_enum =
     [CPUID_FPU, CPUID_VME, CPUID_DE, CPUID_PSE, CPUID_TSC, CPUID_MSR, CPUID_PAE, CPUID_MCE, CPUID_CX8, CPUID_APIC,
      CPUID_RESERVED_1, CPUID_SEP, CPUID_MTRR, CPUID_PGE, CPUID_MCA, CPUID_CMOV, CPUID_PAT, CPUID_PSE36, CPUID_PSN,
      CPUID_CLFSH, CPUID_RESERVED_2, CPUID_DS, CPUID_ACPI, CPUID_MMX, CPUID_FXSR, CPUID_SSE, CPUID_SSE2, CPUID_SS,
      CPUID_HTT, CPUID_TM, CPUID_IA64, CPUID_PBE]"

text \<open>The value of an enumeration constant: its position.\<close>

definition cpuid_value :: "cpuid_flag \<Rightarrow> nat" where
  "cpuid_value f = length (takeWhile (\<lambda>g. g \<noteq> f) cpuid_enum)"

definition cpuid_flags :: string where
  "cpuid_flags = ''FPU VME DE  PSE TSC MSR PAE MCE CX8 APICRD1 SEP MTRRPGE MCA CMOVPAT PSE PSN CLFHRD2 DS  ACPIMMX FXSRSSE SSE2SS  HTT TM  IA64PBE ''"

text \<open>\<open>cpuid_init\<close> stores what CPUID answers in \<open>_cpuid\<close>, \<open>cpuid\<close> returns it.\<close>

definition cpuid_init :: "u32 \<Rightarrow> u32" where
  "cpuid_init edx = edx"

definition cpuid :: "u32 \<Rightarrow> u32" where
  "cpuid stored = stored"

text \<open>A pointer into the string: what can be read through it, up to the NUL.\<close>

definition cpuid_str :: "nat \<Rightarrow> string res" where
  "cpuid_str flag = (if 4 * flag \<le> length cpuid_flags then Inr (drop (4 * flag) cpuid_flags) else Inl OutOfBounds)"

section \<open>Model: memory type range registers\<close>

definition MTRR_NUM_FIXED :: nat where "MTRR_NUM_FIXED = 88"
definition MTRRCAP :: u32 where "MTRRCAP = 0xFE"
definition MTRR_FIXED_64K :: u32 where "MTRR_FIXED_64K = 0x250"
definition MTRR_FIXED_16K :: u32 where "MTRR_FIXED_16K = 0x258"
definition MTRR_FIXED_4K :: u32 where "MTRR_FIXED_4K = 0x268"
definition MTRR_BASE :: u32 where "MTRR_BASE = 0x200"
definition MTRR_NONE :: u8 where "MTRR_NONE = 0xFF"

record mtrr =
  mt_base :: u32
  mt_mask :: u32
  mt_type :: u8
  mt_enabled :: u8

record mtrrs =
  mtrrcap :: u32
  var_mtrrs :: "mtrr list"
  fix_mtrrs :: "u8 list"

definition mtrr_set :: "u8 list \<Rightarrow> nat \<Rightarrow> u64 \<Rightarrow> u8 list res" where
  "mtrr_set fixed idx msr =
     bindR (forR (\<lambda>i (fixed, msr). bindR (setR fixed (idx + i) (ucast (msr AND 0xFF))) (\<lambda>fixed. Inr (fixed, drop_bit 8 msr)))
       [0..<8] (fixed, msr)) (\<lambda>(fixed, msr). Inr fixed)"

text \<open>The eleven fixed-range registers with the index of their first range.\<close>

definition fixed_msrs :: "(nat \<times> u32) list" where
  "fixed_msrs =
     [(0x00, MTRR_FIXED_64K), (0x08, MTRR_FIXED_16K + 0), (0x10, MTRR_FIXED_16K + 1),
      (0x18, MTRR_FIXED_4K + 0), (0x20, MTRR_FIXED_4K + 1), (0x28, MTRR_FIXED_4K + 2), (0x30, MTRR_FIXED_4K + 3),
      (0x38, MTRR_FIXED_4K + 4), (0x40, MTRR_FIXED_4K + 5), (0x48, MTRR_FIXED_4K + 6), (0x50, MTRR_FIXED_4K + 7)]"

definition mtrr_size :: "mtrrs \<Rightarrow> u32" where
  "mtrr_size s = mtrrcap s AND 0xFF"

definition var_step :: "(u32 \<Rightarrow> u64) \<Rightarrow> nat \<Rightarrow> mtrr list \<Rightarrow> mtrr list res" where
  "var_step rdmsr i var =
     (let base = rdmsr (MTRR_BASE + 2 * of_nat i); mask = rdmsr (MTRR_BASE + 2 * of_nat i + 1) in
      setR var i \<lparr>mt_base = ucast (base AND 0xFFFFF000), mt_mask = ucast (mask AND 0xFFFFF000),
        mt_type = ucast (base AND 0xFF), mt_enabled = ucast (drop_bit 11 mask AND 1)\<rparr>)"

definition mtrr_init :: "(u32 \<Rightarrow> u64) \<Rightarrow> u32 \<Rightarrow> mtrrs \<Rightarrow> mtrrs res" where
  "mtrr_init rdmsr features s =
     (if cpuid features AND of_nat (cpuid_value CPUID_MTRR) \<noteq> 0 then
        let s = s\<lparr>mtrrcap := ucast (rdmsr MTRRCAP AND 0xFFFFFFFF)\<rparr> in
        bindR (forR (\<lambda>(idx, msr) fixed. mtrr_set fixed idx (rdmsr msr)) fixed_msrs (fix_mtrrs s)) (\<lambda>fixed.
        bindR (forR (var_step rdmsr) [0..<unat (mtrr_size s)] (var_mtrrs s)) (\<lambda>var.
        Inr (s\<lparr>fix_mtrrs := fixed, var_mtrrs := var\<rparr>)))
      else
        bindR (forR (\<lambda>i fixed. setR fixed i MTRR_NONE) [0..<MTRR_NUM_FIXED] (fix_mtrrs s)) (\<lambda>fixed.
        Inr (s\<lparr>mtrrcap := 0, fix_mtrrs := fixed\<rparr>)))"

definition mtrr_read :: "mtrrs \<Rightarrow> u32 \<Rightarrow> mtrr res" where
  "mtrr_read s idx = getR (var_mtrrs s) (unat idx)"

definition mtrr_fixed_type :: "mtrrs \<Rightarrow> u8 \<Rightarrow> u8 res" where
  "mtrr_fixed_type s m = getR (fix_mtrrs s) (unat m)"

definition mtrr_base :: "u8 \<Rightarrow> u32" where
  "mtrr_base m =
     (if m < 8 then 0x10000 * ucast m
      else if m < 24 then 0x80000 + (ucast m - 8) * 0x4000
      else 0xC0000 + (ucast m - 24) * 0x1000)"

section \<open>Features\<close>

lemma cpuid_enum_all: "f \<in> set cpuid_enum" "distinct cpuid_enum" "length cpuid_enum = 32"
proof -
  show "f \<in> set cpuid_enum" by (cases f) (simp_all add: cpuid_enum_def)
  show "distinct cpuid_enum" "length cpuid_enum = 32" by (simp_all add: cpuid_enum_def)
qed

lemma cpuid_value_less: "cpuid_value f < 32"
proof -
  have "takeWhile (\<lambda>g. g \<noteq> f) cpuid_enum \<noteq> cpuid_enum" using cpuid_enum_all(1) [of f] by (auto simp: takeWhile_eq_all_conv)
  then show ?thesis unfolding cpuid_value_def
    by (metis cpuid_enum_all(3) length_takeWhile_le nat_less_le takeWhile_eq_take take_all order_refl)
qed

text \<open>Every flag has four characters of the string.\<close>

lemma cpuid_str_in_bounds: "\<exists>s. cpuid_str (cpuid_value f) = Inr s \<and> 4 \<le> length s"
proof -
  have "length cpuid_flags = 128" by (simp add: cpuid_flags_def)
  then show ?thesis using cpuid_value_less [of f] by (simp add: cpuid_str_def)
qed

lemma cpuid_MTRR_value: "cpuid_value CPUID_MTRR = 12"
  by (simp add: cpuid_value_def cpuid_enum_def)

text \<open>
  The flag's position is used as a mask: bits 2 (DE) and 3 (PSE) are tested. A processor
  whose only feature is the MTRR bit is taken to have none, one with DE only to have them.
\<close>

lemma mtrr_wrong_bit:
  "cpuid (push_bit (cpuid_value CPUID_MTRR) 1) AND of_nat (cpuid_value CPUID_MTRR) = 0"
  "cpuid (push_bit (cpuid_value CPUID_DE) 1) AND of_nat (cpuid_value CPUID_MTRR) \<noteq> 0"
  by (simp_all add: cpuid_MTRR_value cpuid_def) (simp add: cpuid_value_def cpuid_enum_def)

section \<open>Ranges\<close>

text \<open>
  The 88 fixed ranges cover the first MiB without gap or overlap: each begins where
  the one before it ends, after 64 KiB for the first 8, 16 KiB for the next 16 and 4 KiB for
  the others.
\<close>

theorem mtrr_base_tiles:
  "mtrr_base 0 = 0 \<and> unat (mtrr_base 87) + 4096 = 0x100000 \<and>
   (\<forall>m. unat m < 87 \<longrightarrow> unat (mtrr_base (m + 1)) =
     unat (mtrr_base m) + (if unat m < 8 then 0x10000 else if unat m < 24 then 0x4000 else 0x1000))"
proof -
  have b: "unat (mtrr_base m) = (if unat m < 8 then 0x10000 * unat m else if unat m < 24 then 0x80000 + (unat m - 8) * 0x4000
      else 0xC0000 + (unat m - 24) * 0x1000)" if "unat m < 88" for m
  proof -
    have u: "unat (ucast m :: u32) = unat m" by simp
    consider "unat m < 8" | "8 \<le> unat m" "unat m < 24" | "24 \<le> unat m" by linarith
    then show ?thesis
    proof cases
      case 1
      have "mtrr_base m = of_nat (0x10000 * unat m)" using 1 by (simp add: mtrr_base_def word_less_nat_alt)
      then show ?thesis using 1 by (simp only:) (subst unat_of_nat32, simp_all)
    next
      case 2
      have "(ucast m :: u32) - 8 = of_nat (unat m - 8)" using 2 by (simp add: of_nat_diff)
      then have "mtrr_base m = of_nat (0x80000 + (unat m - 8) * 0x4000)" using 2 by (simp add: mtrr_base_def word_less_nat_alt)
      then show ?thesis using 2 by (simp only:) (subst unat_of_nat32, simp_all)
    next
      case 3
      have "(ucast m :: u32) - 24 = of_nat (unat m - 24)" using 3 by (simp add: of_nat_diff)
      then have "mtrr_base m = of_nat (0xC0000 + (unat m - 24) * 0x1000)" using 3 by (simp add: mtrr_base_def word_less_nat_alt)
      then show ?thesis using 3 that by (simp only:) (subst unat_of_nat32, simp_all)
    qed
  qed
  have "unat (m + 1) = unat m + 1" if "unat m < 87" for m :: u8 using that by (subst unat_add_nowrap) simp_all
  then show ?thesis using b by (auto simp: mtrr_base_def)
qed

theorem mtrr_base_tiles_witness: "mtrr_base 8 = 0x80000 \<and> unat (mtrr_base (23 + 1)) = unat (mtrr_base 23) + 0x4000"
proof -
  have "unat (mtrr_base (7 + 1)) = unat (mtrr_base 7) + 0x10000 \<and> unat (mtrr_base (23 + 1)) = unat (mtrr_base 23) + 0x4000"
    using conjunct2 [OF conjunct2 [OF mtrr_base_tiles], THEN spec, of 7] conjunct2 [OF conjunct2 [OF mtrr_base_tiles], THEN spec, of 23] by simp
  then show ?thesis by (simp add: mtrr_base_def)
qed

section \<open>Reading the registers\<close>

lemma mtrr_set_eq:
  assumes "idx + 8 \<le> length fixed"
  shows "\<exists>fixed'. mtrr_set fixed idx msr = Inr fixed' \<and> length fixed' = length fixed \<and>
    (\<forall>i<length fixed. fixed' ! i = (if idx \<le> i \<and> i < idx + 8 then ucast (drop_bit (8 * (i - idx)) msr) else fixed ! i))"
proof -
  let ?I = "\<lambda>n (fixed', m). length fixed' = length fixed \<and> m = drop_bit (8 * n) msr \<and>
    (\<forall>i<length fixed. fixed' ! i = (if idx \<le> i \<and> i < idx + n then ucast (drop_bit (8 * (i - idx)) msr) else fixed ! i))"
  have low: "ucast (m AND 0xFF) = (ucast m :: u8)" for m :: u64
  proof -
    have m: "(0xFF :: u64) = mask 8" by (simp add: mask_eq_exp_minus_1)
    show ?thesis unfolding m by (rule bit_word_eqI) (auto simp: bit_simps)
  qed
  have "\<exists>x. forR (\<lambda>i (fixed, msr). bindR (setR fixed (idx + i) (ucast (msr AND 0xFF))) (\<lambda>fixed. Inr (fixed, drop_bit 8 msr)))
      [0..<8] (fixed, msr) = Inr x \<and> ?I 8 x"
  proof (rule forR_upt_total [where I = ?I])
    fix n x assume n: "n < 8" and I: "?I n x"
    obtain f where x: "x = (f, drop_bit (8 * n) msr)" using I by (cases x) auto
    have "setR f (idx + n) (ucast (drop_bit (8 * n) msr AND 0xFF)) = Inr (f[idx + n := ucast (drop_bit (8 * n) msr)])"
      using I x n assms by (simp add: low)
    moreover have "?I (Suc n) (f[idx + n := ucast (drop_bit (8 * n) msr)], drop_bit 8 (drop_bit (8 * n) msr))"
      using I x n assms by (auto simp: nth_list_update less_Suc_eq add.commute)
    ultimately show "\<exists>x'. (\<lambda>(fixed, msr). bindR (setR fixed (idx + n) (ucast (msr AND 0xFF))) (\<lambda>fixed. Inr (fixed, drop_bit 8 msr))) x = Inr x' \<and>
        ?I (Suc n) x'" unfolding x by auto
  qed auto
  then show ?thesis unfolding mtrr_set_def by auto
qed

lemma fixed_msrs_nth: "j < 11 \<Longrightarrow> fst (fixed_msrs ! j) = 8 * j"
proof -
  have "list_all (\<lambda>j. fst (fixed_msrs ! j) = 8 * j) [0..<11]" by (simp add: fixed_msrs_def upt_rec)
  then show "j < 11 \<Longrightarrow> ?thesis" by (simp add: list_all_iff)
qed

lemma fixed_all:
  assumes "length fixed = 88"
  shows "\<exists>fixed'. forR (\<lambda>(idx, msr) fixed. mtrr_set fixed idx (rdmsr msr)) fixed_msrs fixed = Inr fixed' \<and> length fixed' = 88 \<and>
    (\<forall>j<11. \<forall>k<8. fixed' ! (8 * j + k) = ucast (drop_bit (8 * k) (rdmsr (snd (fixed_msrs ! j)))))"
proof -
  let ?I = "\<lambda>n f. length f = 88 \<and> (\<forall>j<n. \<forall>k<8. f ! (8 * j + k) = ucast (drop_bit (8 * k) (rdmsr (snd (fixed_msrs ! j)))))"
  have len: "length fixed_msrs = 11" by (simp add: fixed_msrs_def)
  have "\<exists>f. forR (\<lambda>(idx, msr) fixed. mtrr_set fixed idx (rdmsr msr)) (take n fixed_msrs) fixed = Inr f \<and> ?I n f" if "n \<le> 11" for n
    using that
  proof (induction n)
    case (Suc n)
    then obtain f where f: "forR (\<lambda>(idx, msr) fixed. mtrr_set fixed idx (rdmsr msr)) (take n fixed_msrs) fixed = Inr f" "?I n f" by auto
    obtain m where m: "fixed_msrs ! n = (8 * n, m)" using fixed_msrs_nth [of n] Suc.prems by (cases "fixed_msrs ! n") auto
    obtain f' where f': "mtrr_set f (8 * n) (rdmsr m) = Inr f'" "length f' = 88"
      "\<forall>i<88. f' ! i = (if 8 * n \<le> i \<and> i < 8 * n + 8 then ucast (drop_bit (8 * (i - 8 * n)) (rdmsr m)) else f ! i)"
      using mtrr_set_eq [of "8 * n" f "rdmsr m"] f(2) Suc.prems by auto
    have "f' ! (8 * j + k) = ucast (drop_bit (8 * k) (rdmsr (snd (fixed_msrs ! j))))" if "j < Suc n" "k < 8" for j k
      using that f(2) f'(3) m Suc.prems by (cases "j = n") auto
    moreover have "take (Suc n) fixed_msrs = take n fixed_msrs @ [fixed_msrs ! n]" using Suc.prems len by (simp add: take_Suc_conv_app_nth)
    ultimately show ?case using f(1) f'(1,2) by (simp add: forR_append m)
  qed (use assms in simp)
  from this [of 11] show ?thesis by (simp add: len)
qed

lemma var_all:
  assumes "n \<le> length var"
  shows "\<exists>var'. forR (var_step rdmsr) [0..<n] var = Inr var' \<and> length var' = length var \<and>
    (\<forall>i<n. var' ! i = \<lparr>mt_base = ucast (rdmsr (MTRR_BASE + 2 * of_nat i) AND 0xFFFFF000),
      mt_mask = ucast (rdmsr (MTRR_BASE + 2 * of_nat i + 1) AND 0xFFFFF000),
      mt_type = ucast (rdmsr (MTRR_BASE + 2 * of_nat i) AND 0xFF),
      mt_enabled = ucast (drop_bit 11 (rdmsr (MTRR_BASE + 2 * of_nat i + 1)) AND 1)\<rparr>)"
  by (rule forR_upt_total [where I = "\<lambda>n var'. length var' = length var \<and>
    (\<forall>i<n. var' ! i = \<lparr>mt_base = ucast (rdmsr (MTRR_BASE + 2 * of_nat i) AND 0xFFFFF000),
      mt_mask = ucast (rdmsr (MTRR_BASE + 2 * of_nat i + 1) AND 0xFFFFF000),
      mt_type = ucast (rdmsr (MTRR_BASE + 2 * of_nat i) AND 0xFF),
      mt_enabled = ucast (drop_bit 11 (rdmsr (MTRR_BASE + 2 * of_nat i + 1)) AND 1)\<rparr>)"])
    (use assms in \<open>auto simp: var_step_def Let_def nth_list_update less_Suc_eq\<close>)

lemma mtrr_init_total:
  assumes "length (fix_mtrrs s) = 88" "length (var_mtrrs s) = 8"
    and "unat (ucast (rdmsr MTRRCAP AND 0xFFFFFFFF) AND (0xFF :: u32)) \<le> 8"
  shows "\<exists>s'. mtrr_init rdmsr features s = Inr s'"
proof -
  let ?n = "unat (ucast (rdmsr MTRRCAP AND 0xFFFFFFFF) AND (0xFF :: u32))"
  obtain f where f: "forR (\<lambda>(idx, msr) fixed. mtrr_set fixed idx (rdmsr msr)) fixed_msrs (fix_mtrrs s) = Inr f"
    using fixed_all [OF assms(1), where rdmsr = rdmsr] by blast
  have "?n \<le> length (var_mtrrs s)" using assms(2,3) by simp
  from var_all [OF this, of rdmsr] obtain v where v: "forR (var_step rdmsr) [0..<?n] (var_mtrrs s) = Inr v" by blast
  have "\<exists>fixed. forR (\<lambda>i fixed. setR fixed i MTRR_NONE) [0..<MTRR_NUM_FIXED] (fix_mtrrs s) = Inr fixed \<and> length fixed = 88"
    by (rule forR_upt_total [where I = "\<lambda>i fixed. length fixed = 88"]) (auto simp: assms(1) MTRR_NUM_FIXED_def)
  then show ?thesis unfolding mtrr_init_def Let_def mtrr_size_def using f v by auto
qed

text \<open>
  With no more than 8 variable ranges \<open>mtrr_init\<close> stores for each of the 88 fixed ranges
  its byte of its register, and for each variable range what its two registers say, with
  the bits of the type and of the flags taken apart.
\<close>

theorem mtrr_init_reads:
  assumes "cpuid features AND of_nat (cpuid_value CPUID_MTRR) \<noteq> 0" "length (fix_mtrrs s) = 88" "length (var_mtrrs s) = 8"
    and "n = unat (ucast (rdmsr MTRRCAP AND 0xFFFFFFFF) AND (0xFF :: u32))" "n \<le> 8"
  shows "\<exists>s'. mtrr_init rdmsr features s = Inr s' \<and> unat (mtrr_size s') = n \<and>
    (\<forall>j<11. \<forall>k<8. mtrr_fixed_type s' (of_nat (8 * j + k)) = Inr (ucast (drop_bit (8 * k) (rdmsr (snd (fixed_msrs ! j)))))) \<and>
    (\<forall>i<n. mtrr_read s' (of_nat i) = Inr \<lparr>mt_base = ucast (rdmsr (0x200 + 2 * of_nat i) AND 0xFFFFF000),
      mt_mask = ucast (rdmsr (0x201 + 2 * of_nat i) AND 0xFFFFF000), mt_type = ucast (rdmsr (0x200 + 2 * of_nat i) AND 0xFF),
      mt_enabled = ucast (drop_bit 11 (rdmsr (0x201 + 2 * of_nat i)) AND 1)\<rparr>)"
proof -
  obtain f where f: "forR (\<lambda>(idx, msr) fixed. mtrr_set fixed idx (rdmsr msr)) fixed_msrs (fix_mtrrs s) = Inr f" "length f = 88"
    "\<forall>j<11. \<forall>k<8. f ! (8 * j + k) = ucast (drop_bit (8 * k) (rdmsr (snd (fixed_msrs ! j))))"
    using fixed_all [OF assms(2), where rdmsr = rdmsr] by blast
  have "n \<le> length (var_mtrrs s)" using assms(3,5) by simp
  from var_all [OF this, of rdmsr] obtain v where v: "forR (var_step rdmsr) [0..<n] (var_mtrrs s) = Inr v" "length v = length (var_mtrrs s)"
    "\<forall>i<n. v ! i = \<lparr>mt_base = ucast (rdmsr (MTRR_BASE + 2 * of_nat i) AND 0xFFFFF000),
      mt_mask = ucast (rdmsr (MTRR_BASE + 2 * of_nat i + 1) AND 0xFFFFF000),
      mt_type = ucast (rdmsr (MTRR_BASE + 2 * of_nat i) AND 0xFF),
      mt_enabled = ucast (drop_bit 11 (rdmsr (MTRR_BASE + 2 * of_nat i + 1)) AND 1)\<rparr>" by blast
  let ?s = "s\<lparr>mtrrcap := ucast (rdmsr MTRRCAP AND 0xFFFFFFFF), fix_mtrrs := f, var_mtrrs := v\<rparr>"
  have eq: "mtrr_init rdmsr features s = Inr ?s"
    unfolding mtrr_init_def Let_def mtrr_size_def using assms(1,4) f(1) v(1) by simp
  have u8: "unat (of_nat (8 * j + k) :: u8) = 8 * j + k" if "j < 11" "k < 8" for j k using that by (simp only: unat_of_nat) simp
  have u32: "unat (of_nat i :: u32) = i" if "i < n" for i using that assms(5) by (intro unat_of_nat32) simp
  show ?thesis
  proof (intro exI [of _ ?s] conjI eq allI impI)
    show "unat (mtrr_size ?s) = n" by (simp add: mtrr_size_def assms(4))
    show "mtrr_fixed_type ?s (of_nat (8 * j + k)) = Inr (ucast (drop_bit (8 * k) (rdmsr (snd (fixed_msrs ! j)))))"
      if "j < 11" "k < 8" for j k using that f(2,3) unfolding mtrr_fixed_type_def u8 [OF that] by simp
    show "mtrr_read ?s (of_nat i) = Inr \<lparr>mt_base = ucast (rdmsr (0x200 + 2 * of_nat i) AND 0xFFFFF000),
      mt_mask = ucast (rdmsr (0x201 + 2 * of_nat i) AND 0xFFFFF000), mt_type = ucast (rdmsr (0x200 + 2 * of_nat i) AND 0xFF),
      mt_enabled = ucast (drop_bit 11 (rdmsr (0x201 + 2 * of_nat i)) AND 1)\<rparr>" if "i < n" for i
      using that v(2,3) assms(3,5) unfolding mtrr_read_def u32 [OF that] by (simp add: MTRR_BASE_def add.commute add.left_commute)
  qed
qed

definition example_mtrrs :: mtrrs where
  "example_mtrrs = \<lparr>mtrrcap = 0, var_mtrrs = replicate 8 \<lparr>mt_base = 0, mt_mask = 0, mt_type = 0, mt_enabled = 0\<rparr>,
     fix_mtrrs = replicate 88 0\<rparr>"

text \<open>A register file: one variable range of write-back memory, write-combining at A0000.\<close>

definition example_msr :: "u32 \<Rightarrow> u64" where
  "example_msr r = (if r = 0xFE then 1 else if r = 0x259 then 0x0101010101010101 else if r = 0x200 then 0x06
     else if r = 0x201 then 0xF8000800 else 0x0606060606060606)"

theorem mtrr_init_reads_witness:
  "\<exists>s'. mtrr_init example_msr 0x3F example_mtrrs = Inr s' \<and> mtrr_fixed_type s' 17 = Inr 1 \<and>
    mtrr_read s' 0 = Inr \<lparr>mt_base = 0, mt_mask = 0xF8000000, mt_type = 6, mt_enabled = 1\<rparr>"
proof -
  have c: "cpuid 0x3F AND of_nat (cpuid_value CPUID_MTRR) \<noteq> 0" by (simp add: cpuid_MTRR_value cpuid_def)
  have n: "1 = unat (ucast (example_msr MTRRCAP AND 0xFFFFFFFF) AND (0xFF :: u32))" by (simp add: example_msr_def MTRRCAP_def)
  have l: "length (fix_mtrrs example_mtrrs) = 88" "length (var_mtrrs example_mtrrs) = 8" by (simp_all add: example_mtrrs_def)
  obtain s' where s': "mtrr_init example_msr 0x3F example_mtrrs = Inr s'"
    "\<forall>j<11. \<forall>k<8. mtrr_fixed_type s' (of_nat (8 * j + k)) = Inr (ucast (drop_bit (8 * k) (example_msr (snd (fixed_msrs ! j)))))"
    "\<forall>i<1. mtrr_read s' (of_nat i) = Inr \<lparr>mt_base = ucast (example_msr (0x200 + 2 * of_nat i) AND 0xFFFFF000),
      mt_mask = ucast (example_msr (0x201 + 2 * of_nat i) AND 0xFFFFF000), mt_type = ucast (example_msr (0x200 + 2 * of_nat i) AND 0xFF),
      mt_enabled = ucast (drop_bit 11 (example_msr (0x201 + 2 * of_nat i)) AND 1)\<rparr>"
    using mtrr_init_reads [where rdmsr = example_msr and s = example_mtrrs, OF c l n] by auto
  have "mtrr_fixed_type s' (of_nat (8 * 2 + 1)) = Inr (ucast (drop_bit (8 * 1) (example_msr (snd (fixed_msrs ! 2)))))"
    using s'(2) [rule_format, of 2 1] by simp
  then have "mtrr_fixed_type s' 17 = Inr 1" by (simp add: fixed_msrs_def example_msr_def MTRR_FIXED_16K_def)
  then show ?thesis using s'(1) spec [OF s'(3), of 0] by (simp add: example_msr_def)
qed

text \<open>
  A processor that reports more than 8 variable ranges makes \<open>mtrr_init\<close> write past the
  array of 8.
\<close>

theorem mtrr_init_overflows:
  assumes "cpuid features AND of_nat (cpuid_value CPUID_MTRR) \<noteq> 0" "length (fix_mtrrs s) = 88" "length (var_mtrrs s) = 8"
    and "8 < unat (ucast (rdmsr MTRRCAP AND 0xFFFFFFFF) AND (0xFF :: u32))"
  shows "mtrr_init rdmsr features s = Inl OutOfBounds"
proof -
  let ?n = "unat (ucast (rdmsr MTRRCAP AND 0xFFFFFFFF) AND (0xFF :: u32))"
  have "8 \<le> length (var_mtrrs s)" using assms(3) by simp
  from var_all [OF this, of rdmsr] obtain v where v: "forR (var_step rdmsr) [0..<8] (var_mtrrs s) = Inr v" "length v = 8"
    using assms(3) by auto
  obtain k where k: "?n = 8 + k" "0 < k" using assms(4) by (metis less_imp_add_positive)
  have "[0..<8 + k] = [0..<8] @ 8 # [9..<8 + k]"
    using upt_add_eq_append [of 0 8 k] upt_conv_Cons [of 8 "8 + k"] k(2) by simp
  then have "forR (var_step rdmsr) [0..<?n] (var_mtrrs s) = Inl OutOfBounds"
    unfolding k(1) using v by (simp add: forR_append var_step_def Let_def)
  moreover obtain f where "forR (\<lambda>(idx, msr) fixed. mtrr_set fixed idx (rdmsr msr)) fixed_msrs (fix_mtrrs s) = Inr f"
    using fixed_all [OF assms(2), where rdmsr = rdmsr] by blast
  ultimately show ?thesis unfolding mtrr_init_def Let_def mtrr_size_def using assms(1) by simp
qed

theorem mtrr_init_overflows_witness:
  "mtrr_init (\<lambda>r. if r = 0xFE then 10 else 0) 0x3F example_mtrrs = Inl OutOfBounds"
  by (rule mtrr_init_overflows) (simp_all add: cpuid_MTRR_value cpuid_def example_mtrrs_def MTRRCAP_def)

end
