(* ===== verification/Pmm.thy ===== *)
theory Pmm
  imports Vaddr E820 Pool_Spec
begin

text \<open>
  The physical page allocator of stage 3 (\<open>stage3/mem/pmm.cpp\<close>). Free pages are a
  stack of page addresses that is stored in free pages: one of them at a time, the
  window, is mapped at the static array \<open>curr_pages\<close>; the last word of a window is the
  address of the page that holds the next part of the stack, and a used-up window is
  itself handed out.
\<close>

section \<open>Model\<close>

text \<open>\<open>curr_pages\<close> is at a page-aligned virtual address \<open>cp\<close>, chosen by the linker.\<close>

record pmm =
  pmm_mem :: machine
  pmm_pcount :: u32
  pmm_pfree :: u32
  pmm_pidx :: u32

definition pmm_slot :: "u32 \<Rightarrow> u32 \<Rightarrow> u32" where
  "pmm_slot cp i = cp + (i AND 1023) * 4"

definition pmm_put :: "u32 \<Rightarrow> u32 \<Rightarrow> pmm \<Rightarrow> pmm res" where
  "pmm_put cp addr s =
     bindR (wr32 (pmm_mem s) (pmm_slot cp (pmm_pcount s)) addr) (\<lambda>m.
     bindR (if pmm_pcount s AND 1023 = 1023
            then bindR (pt_map m addr cp (PRESENT OR RW)) (\<lambda>(r, m). Inr m) else Inr m) (\<lambda>m.
     Inr (s\<lparr>pmm_mem := m, pmm_pcount := pmm_pcount s + 1\<rparr>)))"

text \<open>One region; a region that reaches the end of the address space never ends the loop.\<close>

definition pmm_region :: "u32 \<Rightarrow> SMAP32 \<Rightarrow> pmm \<Rightarrow> pmm res" where
  "pmm_region cp e s =
     bindR (whileR 1048577 (\<lambda>(addr, s). Inr (addr < sm32_base e + sm32_length e))
       (\<lambda>(addr, s). bindR (pmm_put cp addr s) (\<lambda>s. Inr (addr + 0x1000, s)))
       (sm32_base e, s)) (\<lambda>(addr, s). Inr s)"

definition pmm_init :: "u32 \<Rightarrow> pmm \<Rightarrow> SMAP32 list \<Rightarrow> nat \<Rightarrow> pmm res" where
  "pmm_init cp s e820 e820_size =
     bindR (get_paddr (pmm_mem s) cp) (\<lambda>initial_paddr.
     bindR (whileR 65537
       (\<lambda>(i, s). if i < e820_size then bindR (getR e820 i) (\<lambda>e. Inr (sm32_type e = 1)) else Inr False)
       (\<lambda>(i, s). bindR (getR e820 i) (\<lambda>e. bindR (pmm_region cp e s) (\<lambda>s. Inr (i + 1, s))))
       (0, s\<lparr>pmm_pcount := 0, pmm_pidx := 0\<rparr>)) (\<lambda>(i, s).
     bindR (pt_map (pmm_mem s) initial_paddr cp (PRESENT OR RW)) (\<lambda>(r, m).
     Inr (s\<lparr>pmm_mem := m, pmm_pcount := pmm_pcount s + 1, pmm_pfree := pmm_pcount s + 1\<rparr>))))"

definition pmm_alloc_ppage :: "u32 \<Rightarrow> pmm \<Rightarrow> (u32 \<times> pmm) res" where
  "pmm_alloc_ppage cp s =
     (if pmm_pfree s \<noteq> 0 then
        bindR (if pmm_pidx s AND 1023 = 1023 then
             bindR (rd32 (pmm_mem s) (pmm_slot cp 1023)) (\<lambda>e.
             bindR (pt_map (pmm_mem s) e cp (PRESENT OR RW)) (\<lambda>(old, m). Inr (old AND PT_PAGE_MASK, m)))
           else bindR (rd32 (pmm_mem s) (pmm_slot cp (pmm_pidx s))) (\<lambda>p. Inr (p, pmm_mem s)))
        (\<lambda>(paddr, m). Inr (paddr, s\<lparr>pmm_mem := m, pmm_pidx := pmm_pidx s + 1, pmm_pfree := pmm_pfree s - 1\<rparr>))
      else Inr (0xFFFFFFFF, s))"

definition pmm_free_ppage :: "u32 \<Rightarrow> pmm \<Rightarrow> u32 \<Rightarrow> pmm res" where
  "pmm_free_ppage cp s paddr =
     (let s = s\<lparr>pmm_pidx := pmm_pidx s - 1\<rparr> in
      bindR (if pmm_pidx s AND 1023 = 1023 then
           bindR (pt_map (pmm_mem s) paddr cp (PRESENT OR RW)) (\<lambda>(old, m).
           wr32 m (pmm_slot cp 1023) (old AND PT_PAGE_MASK))
         else wr32 (pmm_mem s) (pmm_slot cp (pmm_pidx s)) paddr)
      (\<lambda>m. Inr (s\<lparr>pmm_mem := m, pmm_pfree := pmm_pfree s + 1\<rparr>)))"

definition pmm_free_pages :: "pmm \<Rightarrow> u32" where
  "pmm_free_pages s = pmm_pfree s"

section \<open>The window\<close>

text \<open>
  The memory the allocator runs in: directory \<open>D\<close>, page table \<open>T\<close> for the window's
  address, and \<open>W\<close> the frame mapped there.
\<close>

definition pmm_env :: "u32 \<Rightarrow> frame \<Rightarrow> frame \<Rightarrow> frame \<Rightarrow> machine \<Rightarrow> bool" where
  "pmm_env cp D T W m \<longleftrightarrow> wf_tables m \<and> cr3 m = D \<and> has_table m cp \<and> table_of m cp = T \<and>
     unat cp mod 4096 = 0 \<and> present (pte_of m cp) \<and> frame_of (pte_of m cp) = W"

lemma pmm_envD:
  assumes "pmm_env cp D T W m"
  shows "wf_tables m" "recursive m" "cr3 m = D" "has_table m cp" "table_of m cp = T" "D \<noteq> T"
    "present (pmem m (cr3 m) (pdi_of cp))" "frame_of (pte_of m cp) = W" "present (pte_of m cp)"
  using assms table_not_directory [of m cp] wf_recursive
  by (auto simp: pmm_env_def has_table_def)

lemma slot_parts:
  assumes "unat cp mod 4096 = 0"
  shows "same_page cp (pmm_slot cp i)" "woff_of (pmm_slot cp i) = of_nat (unat i mod 1024)"
proof -
  define q r where "q = unat cp div 4096" and "r = unat i mod 1024"
  have q: "unat cp = q * 4096" "q < 1048576"
    using assms unsigned_less [of cp, where ?'a = nat] by (auto simp: q_def)
  have r: "r < 1024" by (simp add: r_def)
  have "unat (i AND 1023) = r" using and_pow2_mask [of i 10] by (simp add: r_def)
  then have "unat ((i AND 1023) * 4) = r * 4" using r by (simp add: unat_word_ariths)
  then have u: "unat (pmm_slot cp i) = q * 4096 + r * 4"
    using q r by (simp add: pmm_slot_def unat_word_ariths)
  have page: "unat (pmm_slot cp i) div 4096 = q" using u r by simp
  have "unat (pmm_slot cp i) div 4096 div 1024 = unat cp div 4096 div 1024" using page q(1) by simp
  then have "unat (pmm_slot cp i) div 4194304 = unat cp div 4194304" by (simp add: div_mult2_eq [symmetric])
  then show "same_page cp (pmm_slot cp i)"
    using page q(1) by (simp add: same_page_def word_unat_eq_iff unat_pdi unat_pti)
  have "unat (pmm_slot cp i) div 4 = r + 1024 * q" using u by simp
  then have "unat (pmm_slot cp i) div 4 mod 1024 = r" using r by (simp only: mod_mult_self2 mod_less)
  then show "woff_of (pmm_slot cp i) = of_nat (unat i mod 1024)"
    by (simp add: word_unat_eq_iff unat_woff unat_of_nat r_def)
qed

lemma translate_slot:
  assumes "pmm_env cp D T W m"
  shows "translate m (pmm_slot cp i) = Some (W, of_nat (unat i mod 1024))"
proof -
  have al: "unat cp mod 4096 = 0" using assms by (simp add: pmm_env_def)
  note E = pmm_envD [OF assms]
  have "pdi_of (pmm_slot cp i) = pdi_of cp" "pti_of (pmm_slot cp i) = pti_of cp"
    using slot_parts(1) [OF al, of i] by (simp_all add: same_page_def)
  then show ?thesis using E slot_parts(2) [OF al, of i]
    by (simp add: translate_def Let_def has_table_def pte_of_def table_of_def)
qed

lemma rd_slot:
  assumes "pmm_env cp D T W m"
  shows "rd32 m (pmm_slot cp i) = Inr (pmem m W (of_nat (unat i mod 1024)))"
  by (simp add: rd32_def translate_slot [OF assms])

text \<open>Storing a word of a frame, as the machine does.\<close>

definition put_word :: "machine \<Rightarrow> frame \<Rightarrow> idx \<Rightarrow> u32 \<Rightarrow> machine" where
  "put_word m f i v = m\<lparr>pmem := (pmem m)(f := (pmem m f)(i := v))\<rparr>"

lemma wr_slot:
  assumes "pmm_env cp D T W m"
  shows "wr32 m (pmm_slot cp i) v = Inr (put_word m W (of_nat (unat i mod 1024)) v)"
  by (simp add: wr32_def translate_slot [OF assms] put_word_def)

lemma put_word_env:
  assumes "pmm_env cp D T W m" "f \<noteq> D" "f \<noteq> T"
  shows "pmm_env cp D T W (put_word m f i v)"
  using assms by (auto simp: pmm_env_def wf_tables_def recursive_def has_table_def table_of_def
      pte_of_def put_word_def Let_def)

lemma pt_map_env:
  fixes paddr :: u32
  assumes "pmm_env cp D T W m"
  defines "e \<equiv> paddr OR ((PRESENT OR RW) AND PT_FLAGS_MASK) OR PRESENT"
  shows "pt_map m paddr cp (PRESENT OR RW) = Inr (pte_of m cp, put_word m T (pti_of cp) e)"
    and "pmm_env cp D T (frame_of paddr) (put_word m T (pti_of cp) e)"
proof -
  note E = pmm_envD [OF assms(1)]
  have s: "set_pte m cp e = put_word m T (pti_of cp) e" using E by (simp add: set_pte_def put_word_def)
  show "pt_map m paddr cp (PRESENT OR RW) = Inr (pte_of m cp, put_word m T (pti_of cp) e)"
    unfolding s [symmetric] using pt_map_eq [OF E(2)] E by (simp add: e_def)
  have "pte_of (set_pte m cp e) cp = e"
    using set_pte_wf(3) [OF E(1,4), of e cp] by (simp add: pte_of_def) (simp add: set_pte_def)
  then show "pmm_env cp D T (frame_of paddr) (put_word m T (pti_of cp) e)"
    using assms(1) set_pte_wf [OF E(1,4), of e] set_pte_directory [OF E(1,4), of e]
      entry_present [of paddr "PRESENT OR RW"] entry_frame [of paddr "PRESENT OR RW"]
    unfolding s [symmetric] by (simp add: pmm_env_def e_def)
qed

lemma old_window: "pmm_env cp D T W m \<Longrightarrow> pte_of m cp AND PT_PAGE_MASK = frame_addr W"
  by (simp add: page_mask_frame pmm_envD)

section \<open>The stack of free pages\<close>

text \<open>
  \<open>free_list M W r xs B\<close>: from index \<open>r\<close> of window \<open>W\<close> on, the pages handed out are \<open>xs\<close>,
  in order, after which the window is \<open>B\<close>.
\<close>

fun free_list :: "(frame \<Rightarrow> idx \<Rightarrow> u32) \<Rightarrow> frame \<Rightarrow> nat \<Rightarrow> u32 list \<Rightarrow> frame \<Rightarrow> bool" where
  "free_list M W r [] B \<longleftrightarrow> W = B"
| "free_list M W r (x # xs) B \<longleftrightarrow>
     (if r = 1023 then x = frame_addr W \<and> free_list M (frame_of (M W 1023)) 0 xs B
      else x = M W (of_nat r) \<and> free_list M W (Suc r) xs B)"

lemma window_in: "free_list M W r xs B \<Longrightarrow> W = B \<or> frame_addr W \<in> set xs"
  by (induction M W r xs B rule: free_list.induct) (auto split: if_splits)

lemma free_list_other:
  "free_list M W r xs B \<Longrightarrow> f \<noteq> B \<Longrightarrow> frame_addr f \<notin> set xs \<Longrightarrow> free_list (M(f := g)) W r xs B"
proof (induction M W r xs B rule: free_list.induct)
  case (2 M W r x xs B)
  have "W \<noteq> f" using window_in [OF 2(3)] 2(4,5) by auto
  then show ?case using 2 by (auto split: if_splits)
qed simp

lemma of_nat_idx_eq:
  assumes r: "r < 1024" "r' < 1024"
  shows "(of_nat r :: idx) = of_nat r' \<longleftrightarrow> r = r'"
proof
  assume e: "(of_nat r :: idx) = of_nat r'"
  from arg_cong [OF e, of unat] show "r = r'" using r by (simp add: unat_of_nat)
qed simp

text \<open>Words of the window below \<open>r\<close> are not read again.\<close>

lemma free_list_below:
  "free_list M W r xs B \<Longrightarrow> r' < r \<Longrightarrow> r < 1024 \<Longrightarrow> distinct xs \<Longrightarrow> frame_addr B \<notin> set xs \<Longrightarrow>
   free_list (M(W := (M W)(of_nat r' := v))) W r xs B"
proof (induction xs arbitrary: r)
  case (Cons x xs)
  show ?case
  proof (cases "r = 1023")
    case True
    then have x: "x = frame_addr W" "free_list M (frame_of (M W 1023)) 0 xs B" using Cons.prems(1) by auto
    then have "W \<noteq> B" "frame_addr W \<notin> set xs" using Cons.prems(4,5) by auto
    note L = free_list_other [OF x(2) this]
    have "(1023 :: idx) \<noteq> of_nat r'" using True Cons.prems(2) of_nat_idx_eq [of 1023 r'] by simp
    then show ?thesis unfolding True using x(1) L [of "(M W)(of_nat r' := v)"]
      by (simp only: free_list.simps if_True fun_upd_same fun_upd_other simp_thms)
  next
    case False
    then show ?thesis using Cons.prems Cons.IH [of "Suc r"] of_nat_idx_eq [of r' r] by auto
  qed
qed simp

text \<open>
  Pages that clients may hold: not the directory, the window's page table, or the window
  that is left when the stack is empty.
\<close>

definition pool_page :: "frame \<Rightarrow> frame \<Rightarrow> frame \<Rightarrow> u32 \<Rightarrow> bool" where
  "pool_page D T B p \<longleftrightarrow> p = frame_addr (frame_of p) \<and> frame_of p \<notin> {D, T, B}"

text \<open>\<open>extra\<close> is by how much \<open>pfree\<close> exceeds the number of pages on the stack.\<close>

definition pmm_rep :: "u32 \<Rightarrow> frame \<Rightarrow> frame \<Rightarrow> frame \<Rightarrow> nat \<Rightarrow> pmm \<Rightarrow> u32 list \<Rightarrow> bool" where
  "pmm_rep cp D T B extra s xs \<longleftrightarrow> (\<exists>W. pmm_env cp D T W (pmm_mem s) \<and>
     free_list (pmem (pmm_mem s)) W (unat (pmm_pidx s) mod 1024) xs B \<and>
     distinct xs \<and> list_all (pool_page D T B) xs \<and> B \<notin> {D, T} \<and> extra \<le> 1 \<and>
     unat (pmm_pfree s) = length xs + extra)"

definition pmm_avail :: "nat \<Rightarrow> pmm \<Rightarrow> bool" where
  "pmm_avail extra s \<longleftrightarrow> unat (pmm_free_pages s) > extra"

text \<open>A client writing word \<open>i\<close> of a page it holds.\<close>

definition page_store :: "pmm \<Rightarrow> u32 \<Rightarrow> nat \<Rightarrow> u32 \<Rightarrow> pmm res" where
  "page_store s x i v = Inr (s\<lparr>pmm_mem := put_word (pmm_mem s) (frame_of x) (of_nat i) v\<rparr>)"

lemma pool_pageD:
  assumes "pool_page D T B p"
  shows "frame_addr (frame_of p) = p" "frame_of p \<noteq> D" "frame_of p \<noteq> T" "frame_of p \<noteq> B"
  using assms by (auto simp: pool_page_def)

lemma not_pool:
  assumes "list_all (pool_page D T B) xs" "f \<in> {D, T, B}"
  shows "frame_addr f \<notin> set xs"
  using assms by (auto simp: list_all_iff pool_page_def)

lemma index_Suc: "unat (p + 1 :: u32) mod 1024 = (if unat p mod 1024 = 1023 then 0 else Suc (unat p mod 1024))"
proof -
  have "unat (p + 1) mod 1024 = (unat p + 1) mod 1024"
    using mod_mod_cancel [of 1024 4294967296 "unat p + 1"] by (simp add: unat_word_ariths)
  then show ?thesis by (simp add: mod_Suc)
qed

lemma index_pred: "unat (p - 1 :: u32) mod 1024 = (if unat p mod 1024 = 0 then 1023 else unat p mod 1024 - 1)"
  using index_Suc [of "p - 1"] by (simp split: if_splits)

lemma and_1023: "p AND 1023 = 1023 \<longleftrightarrow> unat p mod 1024 = 1023" for p :: u32
  using and_pow2_mask [of p 10] by (simp add: word_unat_eq_iff)

lemma pmem_put_word: "pmem (put_word m f i v) = (pmem m)(f := (pmem m f)(i := v))"
  by (simp add: put_word_def)

lemma pmm_alloc_rep:
  assumes rep: "pmm_rep cp D T B extra s (x # xs)"
  shows "\<exists>s'. pmm_alloc_ppage cp s = Inr (x, s') \<and> pmm_rep cp D T B extra s' xs"
proof -
  obtain W where W: "pmm_env cp D T W (pmm_mem s)"
    "free_list (pmem (pmm_mem s)) W (unat (pmm_pidx s) mod 1024) (x # xs) B" "distinct (x # xs)"
    "list_all (pool_page D T B) (x # xs)" "B \<notin> {D, T}" "extra \<le> 1"
    "unat (pmm_pfree s) = length (x # xs) + extra"
    using rep by (auto simp: pmm_rep_def)
  have pf: "pmm_pfree s \<noteq> 0" using W(7) by auto
  then have pf': "unat (pmm_pfree s - 1) = length xs + extra"
    using W(7) by (simp add: unat_minus_one)
  show ?thesis
  proof (cases "unat (pmm_pidx s) mod 1024 = 1023")
    case False
    then show ?thesis using W pf pf' rd_slot [OF W(1), of "pmm_pidx s"]
      by (auto simp: pmm_alloc_ppage_def and_1023 pmm_rep_def index_Suc)
  next
    case True
    let ?e = "pmem (pmm_mem s) W 1023"
    have x: "x = frame_addr W" "free_list (pmem (pmm_mem s)) (frame_of ?e) 0 xs B" using W(2) True by auto
    note P = pt_map_env [OF W(1), of ?e]
    have "frame_addr T \<notin> set xs" using not_pool [OF W(4), of T] by simp
    then have "free_list (pmem (put_word (pmm_mem s) T (pti_of cp)
        (?e OR ((PRESENT OR RW) AND PT_FLAGS_MASK) OR PRESENT))) (frame_of ?e) 0 xs B"
      unfolding pmem_put_word by (intro free_list_other [OF x(2)]) (use W(5) in auto)
    then show ?thesis
      using W pf pf' P old_window [OF W(1)] rd_slot [OF W(1), of 1023] True x(1)
      by (auto simp: pmm_alloc_ppage_def and_1023 pmm_rep_def index_Suc)
  qed
qed

lemma pool_size:
  assumes "distinct xs" "list_all (pool_page D T B) xs"
  shows "length xs \<le> 1048576"
proof -
  have "length xs = card (set xs)" using assms(1) by (simp add: distinct_card)
  also have "set xs \<subseteq> range frame_addr" using assms(2) by (auto simp: list_all_iff pool_page_def)
  then have "card (set xs) \<le> card (range frame_addr)" by (intro card_mono) auto
  also have "\<dots> \<le> card (UNIV :: frame set)" by (rule card_image_le) simp
  also have "\<dots> = 1048576" by (simp add: card_word)
  finally show ?thesis .
qed

lemma pmm_release_rep:
  assumes rep: "pmm_rep cp D T B extra s xs" and x: "pool_page D T B x" "x \<notin> set xs"
  shows "\<exists>s'. pmm_free_ppage cp s x = Inr s' \<and> pmm_rep cp D T B extra s' (x # xs)"
proof -
  obtain W where W: "pmm_env cp D T W (pmm_mem s)"
    "free_list (pmem (pmm_mem s)) W (unat (pmm_pidx s) mod 1024) xs B" "distinct xs"
    "list_all (pool_page D T B) xs" "B \<notin> {D, T}" "extra \<le> 1" "unat (pmm_pfree s) = length xs + extra"
    using rep by (auto simp: pmm_rep_def)
  note X = pool_pageD [OF x(1)]
  have "length xs \<le> 1048576" by (rule pool_size [OF W(3,4)])
  then have pf: "unat (pmm_pfree s + 1) = Suc (length xs) + extra"
    using W(6,7) by (simp add: unat_word_ariths)
  have Wok: "W \<noteq> D" "W \<noteq> T"
    using window_in [OF W(2)] W(4,5) not_pool [OF W(4)] by auto
  show ?thesis
  proof (cases "unat (pmm_pidx s) mod 1024 = 0")
    case False
    let ?r = "unat (pmm_pidx s) mod 1024"
    let ?m = "put_word (pmm_mem s) W (of_nat (?r - 1)) x"
    have idx: "unat (pmm_pidx s - 1) mod 1024 = ?r - 1" "?r - 1 \<noteq> 1023" using False by (simp_all add: index_pred)
    have "free_list (pmem ?m) W ?r xs B"
      unfolding pmem_put_word
      by (rule free_list_below [OF W(2)]) (use False W(3) not_pool [OF W(4), of B] in auto)
    then have "free_list (pmem ?m) W (?r - 1) (x # xs) B"
      using False idx(2) by (simp add: pmem_put_word)
    moreover have "pmm_env cp D T W ?m" by (rule put_word_env [OF W(1) Wok])
    ultimately show ?thesis
      using W x pf idx wr_slot [OF W(1), of "pmm_pidx s - 1" x]
      by (auto simp: pmm_free_ppage_def Let_def and_1023 pmm_rep_def)
  next
    case True
    let ?e = "x OR ((PRESENT OR RW) AND PT_FLAGS_MASK) OR PRESENT"
    let ?m1 = "put_word (pmm_mem s) T (pti_of cp) ?e"
    let ?m = "put_word ?m1 (frame_of x) 1023 (frame_addr W)"
    have idx: "unat (pmm_pidx s - 1) mod 1024 = 1023" using True by (simp add: index_pred)
    note P = pt_map_env [OF W(1), of x]
    have "free_list (pmem ?m1) W 0 xs B"
      unfolding pmem_put_word
      by (rule free_list_other) (use W(2,5) True not_pool [OF W(4), of T] in auto)
    then have "free_list (pmem ?m) W 0 xs B"
      unfolding pmem_put_word [of ?m1] by (rule free_list_other) (use X x(2) in auto)
    then have "free_list (pmem ?m) (frame_of x) 1023 (x # xs) B"
      using X by (simp add: pmem_put_word)
    moreover have "pmm_env cp D T (frame_of x) ?m" by (rule put_word_env [OF P(2) X(2,3)])
    ultimately show ?thesis
      using W x pf idx P old_window [OF W(1)] wr_slot [OF P(2), of 1023 "frame_addr W"]
      by (auto simp: pmm_free_ppage_def Let_def and_1023 pmm_rep_def)
  qed
qed

lemma pmm_store_rep:
  assumes rep: "pmm_rep cp D T B extra s xs" and x: "pool_page D T B x" "x \<notin> set xs"
  shows "\<exists>s'. page_store s x i v = Inr s' \<and> pmm_rep cp D T B extra s' xs"
proof -
  obtain W where W: "pmm_env cp D T W (pmm_mem s)"
    "free_list (pmem (pmm_mem s)) W (unat (pmm_pidx s) mod 1024) xs B" "distinct xs"
    "list_all (pool_page D T B) xs" "B \<notin> {D, T}" "extra \<le> 1" "unat (pmm_pfree s) = length xs + extra"
    using rep by (auto simp: pmm_rep_def)
  note X = pool_pageD [OF x(1)]
  let ?m = "put_word (pmm_mem s) (frame_of x) (of_nat i) v"
  have "free_list (pmem ?m) W (unat (pmm_pidx s) mod 1024) xs B"
    unfolding pmem_put_word by (rule free_list_other [OF W(2)]) (use X x(2) in auto)
  moreover have "pmm_env cp D T W ?m" by (rule put_word_env [OF W(1) X(2,3)])
  ultimately show ?thesis using W by (auto simp: page_store_def pmm_rep_def)
qed

lemma pmm_avail_rep: "pmm_rep cp D T B extra s xs \<Longrightarrow> pmm_avail extra s \<longleftrightarrow> xs \<noteq> []"
  by (auto simp: pmm_rep_def pmm_avail_def pmm_free_pages_def)

interpretation pages: lifo_pool "pmm_rep cp D T B extra" "pool_page D T B" "pmm_avail extra"
    "pmm_alloc_ppage cp" "pmm_free_ppage cp" page_store "\<lambda>x. 1024" for cp D T B extra
  by unfold_locales
    (auto simp: pmm_avail_rep pmm_alloc_rep pmm_release_rep pmm_store_rep,
     auto simp: pmm_rep_def list_all_iff)

section \<open>Initialisation\<close>

text \<open>The page addresses \<open>pmm_init\<close> lists: of the leading usable regions, page by page.\<close>

definition region_pages :: "SMAP32 \<Rightarrow> u32 list" where
  "region_pages e = map (\<lambda>k. sm32_base e + of_nat k * 4096) [0..<(unat (sm32_length e) + 4095) div 4096]"

definition usable_pages :: "SMAP32 list \<Rightarrow> u32 list" where
  "usable_pages es = concat (map region_pages (takeWhile (\<lambda>e. sm32_type e = 1) es))"

text \<open>Regions that end before the last page of the address space.\<close>

definition region_ok :: "SMAP32 \<Rightarrow> bool" where
  "region_ok e \<longleftrightarrow> unat (sm32_base e) + unat (sm32_length e) \<le> 4294963200"

text \<open>The last page of a region that is not a whole number of pages reaches past the region.\<close>

lemma region_partial_page:
  assumes "unat (sm32_length e) mod 4096 \<noteq> 0"
  shows "last (region_pages e) = sm32_base e + of_nat (unat (sm32_length e) div 4096) * 4096"
    and "unat (sm32_length e) < (unat (sm32_length e) div 4096 + 1) * 4096"
proof -
  define q r where "q = unat (sm32_length e) div 4096" and "r = unat (sm32_length e) mod 4096"
  have l: "unat (sm32_length e) = 4096 * q + r" by (simp add: q_def r_def)
  have r: "0 < r" "r < 4096" using assms by (simp_all add: r_def)
  have "unat (sm32_length e) + 4095 = (r - 1) + 4096 * Suc q" using l r(1) by simp
  then have "(unat (sm32_length e) + 4095) div 4096 = (r - 1) div 4096 + Suc q" by (simp only: div_mult_self2)
  then have "(unat (sm32_length e) + 4095) div 4096 = Suc (unat (sm32_length e) div 4096)"
    using r by (simp add: q_def)
  then show "last (region_pages e) = sm32_base e + of_nat (unat (sm32_length e) div 4096) * 4096"
    by (simp add: region_pages_def last_map)
  show "unat (sm32_length e) < (unat (sm32_length e) div 4096 + 1) * 4096"
    using l r(2) by (simp flip: q_def)
qed

lemma while_region:
  fixes a b l :: u32
  assumes "unat b + unat l \<le> 4294963200" "unat a = unat b + k * 4096" "n = (unat l + 4095) div 4096"
    and "k \<le> n" "n - k < fuel"
  shows "whileR fuel (\<lambda>(addr, s). Inr (addr < b + l))
      (\<lambda>(addr, s). bindR (put addr s) (\<lambda>s. Inr (addr + 0x1000, s))) (a, s) =
    bindR (forR put (map (\<lambda>k. b + of_nat k * 4096) [k..<n]) s) (\<lambda>s. Inr (b + of_nat n * 4096, s))"
  using assms
proof (induction fuel arbitrary: k a s)
  case (Suc fuel)
  have bl: "unat (b + l) = unat b + unat l" using Suc.prems(1) by (simp add: unat_add_nowrap)
  have a: "a = b + of_nat k * 4096"
    using arg_cong [OF Suc.prems(2), of "of_nat :: nat \<Rightarrow> u32"] by simp
  have lt: "a < b + l \<longleftrightarrow> k < n"
    using Suc.prems(2,3) bl by (simp add: word_less_nat_alt less_eq_div_iff_mult_less_eq) linarith
  show ?case
  proof (cases "k < n")
    case False
    then show ?thesis using Suc.prems(4) lt a by simp
  next
    case True
    then have "k * 4096 < unat l" using Suc.prems(3) by linarith
    then have "unat (a + 0x1000) = unat b + Suc k * 4096"
      using Suc.prems(1,2) by (simp add: unat_word_ariths)
    from Suc.IH [OF Suc.prems(1) this Suc.prems(3)] True Suc.prems(5)
    have "\<And>s. whileR fuel (\<lambda>(addr, s). Inr (addr < b + l))
        (\<lambda>(addr, s). bindR (put addr s) (\<lambda>s. Inr (addr + 0x1000, s))) (a + 0x1000, s) =
      bindR (forR put (map (\<lambda>k. b + of_nat k * 4096) [Suc k..<n]) s) (\<lambda>s. Inr (b + of_nat n * 4096, s))"
      by simp
    then show ?thesis using True lt a by (simp add: upt_conv_Cons [of k n] bindR_assoc)
  qed
qed simp

lemma pmm_region_eq:
  assumes "region_ok e"
  shows "pmm_region cp e s = forR (pmm_put cp) (region_pages e) s"
proof -
  have "unat (sm32_length e) div 4096 < 1048576"
    using unsigned_less [of "sm32_length e", where ?'a = nat] by simp
  then have "(unat (sm32_length e) + 4095) div 4096 < 1048577" by linarith
  with while_region [of "sm32_base e" "sm32_length e" "sm32_base e" 0 _ 1048577 "pmm_put cp" s] assms
  show ?thesis
    by (simp add: pmm_region_def region_pages_def region_ok_def bindR_assoc)
      (cases "forR (pmm_put cp) (region_pages e) s"; simp add: region_pages_def)
qed

lemma forR_concat: "forR (\<lambda>e. forR f (g e)) es s = forR f (concat (map g es)) s"
  by (induction es arbitrary: s) (auto simp: forR_append intro: bindR_cong)

lemma while_regions:
  assumes "n \<le> length es" "\<forall>e\<in>set (take n es). sm32_type e = 1 \<longrightarrow> region_ok e" "i \<le> n" "n - i < fuel"
  shows "\<exists>j. whileR fuel
      (\<lambda>(i, s). if i < n then bindR (getR es i) (\<lambda>e. Inr (sm32_type e = 1)) else Inr False)
      (\<lambda>(i, s). bindR (getR es i) (\<lambda>e. bindR (pmm_region cp e s) (\<lambda>s. Inr (i + 1, s)))) (i, s) =
    bindR (forR (pmm_put cp) (usable_pages (drop i (take n es))) s) (\<lambda>s. Inr (j, s))"
  using assms(3,4)
proof (induction fuel arbitrary: i s)
  case (Suc fuel)
  show ?case
  proof (cases "i < n \<and> sm32_type (es ! i) = 1")
    case False
    then have "usable_pages (drop i (take n es)) = []"
      using assms(1) by (cases "i < n") (auto simp: usable_pages_def simp flip: Cons_nth_drop_Suc)
    moreover have "(if i < n then bindR (getR es i) (\<lambda>e. Inr (sm32_type e = 1)) else Inr False) = Inr False"
      using False assms(1) by auto
    ultimately show ?thesis by (intro exI [of _ i]) simp
  next
    case True
    have u: "usable_pages (drop i (take n es)) = region_pages (es ! i) @ usable_pages (drop (Suc i) (take n es))"
      using True assms(1) by (simp add: usable_pages_def flip: Cons_nth_drop_Suc)
    have "es ! i \<in> set (take n es)" using True assms(1) by (metis in_set_conv_nth length_take min.absorb2 nth_take)
    then have "region_ok (es ! i)" using True assms(2) by blast
    note R = pmm_region_eq [OF this, of cp]
    show ?thesis
    proof (cases "forR (pmm_put cp) (region_pages (es ! i)) s")
      case (Inl e)
      then show ?thesis using True assms(1) by (simp add: u R forR_append)
    next
      case (Inr s1)
      have "Suc i \<le> n" "n - Suc i < fuel" using Suc.prems True by linarith+
      from Suc.IH [OF this, of s1] obtain j where "whileR fuel
          (\<lambda>(i, s). if i < n then bindR (getR es i) (\<lambda>e. Inr (sm32_type e = 1)) else Inr False)
          (\<lambda>(i, s). bindR (getR es i) (\<lambda>e. bindR (pmm_region cp e s) (\<lambda>s. Inr (i + 1, s)))) (Suc i, s1) =
        bindR (forR (pmm_put cp) (usable_pages (drop (Suc i) (take n es))) s1) (\<lambda>s. Inr (j, s))" by auto
      then show ?thesis using True assms(1) Inr by (intro exI [of _ j]) (simp add: u R forR_append)
    qed
  qed
qed simp

text \<open>The windows in the order \<open>pmm_init\<close> fills them: the static array's own page first.\<close>

definition window_frame :: "u32 list \<Rightarrow> frame \<Rightarrow> nat \<Rightarrow> frame" where
  "window_frame a F k = (if k = 0 then F else frame_of (a ! (1024 * k - 1)))"

text \<open>
  The listed pages are different, aligned, and none of those used as windows is the initial
  one, the directory or the page table.
\<close>

definition fill_ok :: "u32 list \<Rightarrow> frame \<Rightarrow> frame \<Rightarrow> frame \<Rightarrow> bool" where
  "fill_ok a F D T \<longleftrightarrow> distinct a \<and> (\<forall>x\<in>set a. frame_addr (frame_of x) = x) \<and> F \<notin> {D, T} \<and>
     (\<forall>k. 0 < k \<longrightarrow> 1024 * k \<le> length a \<longrightarrow> window_frame a F k \<notin> {F, D, T})"

lemma window_frame_inj:
  assumes "fill_ok a F D T" "1024 * k \<le> length a" "1024 * k' \<le> length a"
    and "window_frame a F k = window_frame a F k'"
  shows "k = k'"
proof (cases "k = 0 \<or> k' = 0")
  case True
  then show ?thesis using assms by (auto simp: fill_ok_def window_frame_def split: if_splits)
next
  case False
  then have i: "1024 * k - 1 < length a" "1024 * k' - 1 < length a" using assms(2,3) by auto
  then have "a ! (1024 * k - 1) = a ! (1024 * k' - 1)"
    using assms(1,4) False by (metis fill_ok_def nth_mem window_frame_def)
  then have "1024 * k - 1 = 1024 * k' - 1"
    using assms(1) i by (simp add: fill_ok_def nth_eq_iff_index_eq)
  then show ?thesis using False by simp
qed

definition filled :: "u32 \<Rightarrow> frame \<Rightarrow> frame \<Rightarrow> frame \<Rightarrow> u32 list \<Rightarrow> nat \<Rightarrow> pmm \<Rightarrow> bool" where
  "filled cp D T F a n s \<longleftrightarrow> pmm_pcount s = of_nat n \<and> pmm_pidx s = 0 \<and>
     pmm_env cp D T (window_frame a F (n div 1024)) (pmm_mem s) \<and>
     (\<forall>i<n. pmem (pmm_mem s) (window_frame a F (i div 1024)) (of_nat (i mod 1024)) = a ! i)"

lemma div_bound: "i < n \<Longrightarrow> n \<le> N \<Longrightarrow> 1024 * (i div 1024) \<le> N" for i n N :: nat
  by (meson div_times_less_eq_dividend dual_order.trans less_or_eq_imp_le mult.commute times_div_less_eq_dividend)

lemma filled_put:
  assumes ok: "fill_ok a F D T" and n: "n < length a" "length a < 4294967295" and f: "filled cp D T F a n s"
  shows "\<exists>s'. pmm_put cp (a ! n) s = Inr s' \<and> filled cp D T F a (Suc n) s'"
proof -
  let ?W = "window_frame a F (n div 1024)" and ?r = "n mod 1024"
  have I: "pmm_pcount s = of_nat n" "pmm_pidx s = 0" "pmm_env cp D T ?W (pmm_mem s)"
    "\<And>i. i < n \<Longrightarrow> pmem (pmm_mem s) (window_frame a F (i div 1024)) (of_nat (i mod 1024)) = a ! i"
    using f by (auto simp: filled_def)
  have b: "1024 * (n div 1024) \<le> length a" using n(1) by simp
  have Wok: "?W \<noteq> D" "?W \<noteq> T" using ok b by (cases "n div 1024 = 0"; auto simp: fill_ok_def window_frame_def)+
  have un: "unat (of_nat n :: u32) = n" using n by (simp add: unat_of_nat32)
  let ?m = "put_word (pmm_mem s) ?W (of_nat ?r) (a ! n)"
  have wr: "wr32 (pmm_mem s) (pmm_slot cp (pmm_pcount s)) (a ! n) = Inr ?m"
    using wr_slot [OF I(3)] by (simp add: I(1) un)
  have env: "pmm_env cp D T ?W ?m" by (rule put_word_env [OF I(3) Wok])
  have mem: "pmem ?m (window_frame a F (i div 1024)) (of_nat (i mod 1024)) = a ! i" if "i < Suc n" for i
  proof (cases "i = n")
    case False
    then have i: "i < n" using that by simp
    have "window_frame a F (i div 1024) \<noteq> ?W \<or> (of_nat (i mod 1024) :: idx) \<noteq> of_nat ?r"
    proof (rule ccontr)
      assume "\<not> ?thesis"
      then have "i div 1024 = n div 1024" "i mod 1024 = ?r"
        using window_frame_inj [OF ok _ b] div_bound [OF i, of "length a"] n(1) of_nat_idx_eq [of "i mod 1024" ?r]
        by auto
      then show False using False by (metis div_mult_mod_eq)
    qed
    then show ?thesis using I(4) [OF i] by (auto simp: pmem_put_word)
  qed (simp add: pmem_put_word)
  have cnt: "pmm_pcount s + 1 = of_nat (Suc n)" by (simp add: I(1) add.commute)
  show ?thesis
  proof (cases "?r = 1023")
    case False
    then have "pmm_put cp (a ! n) s = Inr (s\<lparr>pmm_mem := ?m, pmm_pcount := pmm_pcount s + 1\<rparr>)"
      using wr by (simp add: pmm_put_def and_1023 I(1) un)
    moreover have "Suc n div 1024 = n div 1024" using False by (simp add: div_Suc mod_Suc)
    ultimately show ?thesis using env mem cnt I(2) by (simp add: filled_def)
  next
    case True
    let ?e = "(a ! n) OR ((PRESENT OR RW) AND PT_FLAGS_MASK) OR PRESENT"
    let ?m' = "put_word ?m T (pti_of cp) ?e"
    have q: "Suc n div 1024 = Suc (n div 1024)" using True by (simp add: div_Suc mod_Suc)
    have "Suc n = 1024 * Suc (n div 1024)" using True mult_div_mod_eq [of 1024 n] by simp
    then have win: "window_frame a F (Suc n div 1024) = frame_of (a ! n)"
      unfolding q by (simp add: window_frame_def)
    note P = pt_map_env [OF env, of "a ! n"]
    have "pmm_put cp (a ! n) s = Inr (s\<lparr>pmm_mem := ?m', pmm_pcount := pmm_pcount s + 1\<rparr>)"
      using wr True P(1) by (simp add: pmm_put_def and_1023 I(1) un)
    moreover have "pmem ?m' (window_frame a F (i div 1024)) (of_nat (i mod 1024)) = a ! i" if i: "i < Suc n" for i
    proof -
      have "1024 * (i div 1024) \<le> length a" using div_bound [OF i, of "length a"] n(1) by simp
      then have "window_frame a F (i div 1024) \<noteq> T"
        using ok by (cases "i div 1024 = 0") (auto simp: fill_ok_def window_frame_def)
      then show ?thesis using mem [OF i] by (simp add: pmem_put_word [of ?m])
    qed
    ultimately show ?thesis using P(2) cnt I(2) win by (simp add: filled_def)
  qed
qed

text \<open>The pages in the order they will be handed out: a used-up window takes its last word's place.\<close>

definition page_order :: "u32 list \<Rightarrow> frame \<Rightarrow> nat \<Rightarrow> u32" where
  "page_order a F i = (if i mod 1024 = 1023 then frame_addr (window_frame a F (i div 1024)) else a ! i)"

lemma window_next: "n mod 1024 = 1023 \<Longrightarrow> window_frame a F (Suc n div 1024) = frame_of (a ! n)"
proof -
  assume r: "n mod 1024 = 1023"
  have "Suc n = 1024 * Suc (n div 1024)" using r mult_div_mod_eq [of 1024 n] by simp
  moreover have "Suc n div 1024 = Suc (n div 1024)" using r by (simp add: div_Suc mod_Suc)
  ultimately show ?thesis by (simp add: window_frame_def)
qed

lemma filled_free_list:
  assumes "\<forall>i<N. M (window_frame a F (i div 1024)) (of_nat (i mod 1024)) = a ! i" "n \<le> N"
  shows "free_list M (window_frame a F (n div 1024)) (n mod 1024) (map (page_order a F) [n..<N])
    (window_frame a F (N div 1024))"
  using assms(2)
proof (induction n rule: inc_induct)
  case base
  then show ?case by simp
next
  case (step n)
  have m: "M (window_frame a F (n div 1024)) (of_nat (n mod 1024)) = a ! n" using assms(1) step.hyps by simp
  show ?case
  proof (cases "n mod 1024 = 1023")
    case True
    then have "Suc n mod 1024 = 0" by (simp add: mod_Suc)
    then show ?thesis using step.IH step.hyps True m window_next [OF True, of a F]
      by (simp add: upt_conv_Cons page_order_def)
  next
    case False
    then have "Suc n mod 1024 = Suc (n mod 1024)" "Suc n div 1024 = n div 1024"
      by (simp_all add: mod_Suc div_Suc)
    then show ?thesis using step.IH step.hyps False m by (simp add: upt_conv_Cons page_order_def)
  qed
qed

lemma page_order_mset:
  assumes "\<forall>x\<in>set a. frame_addr (frame_of x) = x" "n \<le> length a"
  shows "add_mset (frame_addr (window_frame a F (n div 1024))) (mset (map (page_order a F) [0..<n])) =
    add_mset (frame_addr F) (mset (take n a))"
  using assms(2)
proof (induction n)
  case 0
  then show ?case by (simp add: window_frame_def)
next
  case (Suc n)
  have al: "frame_addr (frame_of (a ! n)) = a ! n" using assms(1) Suc.prems by simp
  show ?case
  proof (cases "n mod 1024 = 1023")
    case True
    show ?thesis using Suc window_next [OF True, of a F] True al
      by (simp add: page_order_def take_Suc_conv_app_nth)
  next
    case False
    then have "Suc n div 1024 = n div 1024" by (simp add: div_Suc mod_Suc)
    then show ?thesis using Suc False by (simp add: page_order_def take_Suc_conv_app_nth add_mset_commute)
  qed
qed

lemma pmm_init_fill:
  assumes env: "pmm_env cp D T F (pmm_mem s)"
    and es: "n \<le> length es" "n \<le> 65535" "\<forall>e\<in>set (take n es). sm32_type e = 1 \<longrightarrow> region_ok e"
    and a: "a = usable_pages (take n es)" "fill_ok a F D T" "length a < 4294967295"
  shows "\<exists>s'. pmm_init cp s es n = Inr s' \<and> pmm_env cp D T F (pmm_mem s') \<and>
    pmm_pidx s' = 0 \<and> unat (pmm_pfree s') = length a + 1 \<and>
    free_list (pmem (pmm_mem s')) F 0 (map (page_order a F) [0..<length a]) (window_frame a F (length a div 1024))"
proof -
  let ?s0 = "s\<lparr>pmm_pcount := 0, pmm_pidx := 0\<rparr>" and ?N = "length a"
  have addr: "get_paddr (pmm_mem s) cp = Inr (frame_addr F)"
  proof -
    note E = pmm_envD [OF env]
    have "(cp AND 0xFFF) = 0"
      using env and_pow2_mask [of cp 12] by (simp add: pmm_env_def word_unat_eq_iff)
    then show ?thesis using get_paddr_eq [OF E(2), of cp, unfolded not_mask_frame] E by simp
  qed
  have "\<exists>s1. forR (pmm_put cp) (map (\<lambda>i. a ! i) [0..<?N]) ?s0 = Inr s1 \<and> filled cp D T F a ?N s1"
  proof -
    have "forR (pmm_put cp) (map (\<lambda>i. a ! i) js) t = forR (\<lambda>i. pmm_put cp (a ! i)) js t" for js t
      by (induction js arbitrary: t) (auto intro: bindR_cong)
    moreover have "\<exists>s1. forR (\<lambda>i. pmm_put cp (a ! i)) [0..<?N] ?s0 = Inr s1 \<and> filled cp D T F a ?N s1"
    proof (rule forR_upt_total [where I = "filled cp D T F a"])
      show "filled cp D T F a 0 ?s0" using env by (simp add: filled_def window_frame_def)
    qed (use filled_put [OF a(2)] a(3) in auto)
    ultimately show ?thesis by simp
  qed
  then obtain s1 where s1: "forR (pmm_put cp) a ?s0 = Inr s1" "filled cp D T F a ?N s1"
    by (auto simp: map_nth)
  obtain j where loop: "whileR 65537
      (\<lambda>(i, s). if i < n then bindR (getR es i) (\<lambda>e. Inr (sm32_type e = 1)) else Inr False)
      (\<lambda>(i, s). bindR (getR es i) (\<lambda>e. bindR (pmm_region cp e s) (\<lambda>s. Inr (i + 1, s)))) (0, ?s0) =
    Inr (j, s1)"
    using while_regions [OF es(1,3), of 0 65537 cp ?s0] es(2) s1(1) a(1) by auto
  have I: "pmm_pcount s1 = of_nat ?N" "pmm_pidx s1 = 0"
    "pmm_env cp D T (window_frame a F (?N div 1024)) (pmm_mem s1)"
    "\<forall>i<?N. pmem (pmm_mem s1) (window_frame a F (i div 1024)) (of_nat (i mod 1024)) = a ! i"
    using s1(2) by (auto simp: filled_def)
  note P = pt_map_env [OF I(3), of "frame_addr F"]
  let ?e = "frame_addr F OR ((PRESENT OR RW) AND PT_FLAGS_MASK) OR PRESENT"
  let ?m = "put_word (pmm_mem s1) T (pti_of cp) ?e"
  have "pmm_init cp s es n = Inr (s1\<lparr>pmm_mem := ?m, pmm_pcount := of_nat ?N + 1, pmm_pfree := of_nat ?N + 1\<rparr>)"
    unfolding pmm_init_def addr bindR_Inr loop by (simp add: P(1) I(1))
  moreover have "unat (of_nat ?N + 1 :: u32) = ?N + 1"
    using a(3) by (simp add: unat_word_ariths unat_of_nat32)
  moreover have "\<forall>i<?N. pmem ?m (window_frame a F (i div 1024)) (of_nat (i mod 1024)) = a ! i"
  proof (intro allI impI)
    fix i assume i: "i < ?N"
    have "1024 * (i div 1024) \<le> ?N" using div_bound [OF i order_refl] .
    then have "window_frame a F (i div 1024) \<noteq> T"
      using a(2) by (cases "i div 1024 = 0") (auto simp: fill_ok_def window_frame_def)
    then show "pmem ?m (window_frame a F (i div 1024)) (of_nat (i mod 1024)) = a ! i"
      using I(4) i by (simp add: pmem_put_word)
  qed
  from filled_free_list [OF this, of 0]
  have "free_list (pmem ?m) F 0 (map (page_order a F) [0..<?N]) (window_frame a F (?N div 1024))"
    by (simp add: window_frame_def)
  ultimately show ?thesis using P(2) I(2) by auto
qed

lemma fill_ok_length:
  assumes "fill_ok a F D T"
  shows "length a \<le> 1048576"
proof -
  have a: "distinct a" "\<forall>x\<in>set a. frame_addr (frame_of x) = x" using assms by (simp_all add: fill_ok_def)
  have "length a = card (set a)" using a(1) by (simp add: distinct_card)
  also have "\<dots> \<le> card (range frame_addr)" using a(2) by (intro card_mono) (auto intro: range_eqI [OF sym])
  also have "\<dots> \<le> card (UNIV :: frame set)" by (rule card_image_le) simp
  finally show ?thesis by (simp add: card_word)
qed

text \<open>
  The stack of free pages as \<open>pmm_init\<close> leaves it for the usable pages \<open>a\<close>: the pages listed
  and the initial window page, in their order, except the last window's, and a counter that
  says one more.
\<close>

definition pmm_listed :: "u32 \<Rightarrow> frame \<Rightarrow> frame \<Rightarrow> frame \<Rightarrow> u32 list \<Rightarrow> pmm \<Rightarrow> bool" where
  "pmm_listed cp D T F a s \<longleftrightarrow> (let xs = map (page_order a F) [0..<length a]; B = window_frame a F (length a div 1024) in
     pmm_env cp D T F (pmm_mem s) \<and> pmm_pidx s = 0 \<and> unat (pmm_free_pages s) = length a + 1 \<and>
     free_list (pmem (pmm_mem s)) F 0 xs B \<and>
     add_mset (frame_addr B) (mset xs) = add_mset (frame_addr F) (mset a))"

lemma pmm_init_listed:
  assumes "pmm_env cp D T F (pmm_mem s)"
    and "n \<le> length es" "n \<le> 65535" "\<forall>e\<in>set (take n es). sm32_type e = 1 \<longrightarrow> region_ok e"
    and "a = usable_pages (take n es)" "fill_ok a F D T"
  shows "\<exists>s'. pmm_init cp s es n = Inr s' \<and> pmm_listed cp D T F a s'"
proof -
  have "length a < 4294967295" using fill_ok_length [OF assms(6)] by simp
  moreover have "\<forall>x\<in>set a. frame_addr (frame_of x) = x" using assms(6) by (simp add: fill_ok_def)
  from page_order_mset [OF this order_refl] have "add_mset (frame_addr (window_frame a F (length a div 1024)))
      (mset (map (page_order a F) [0..<length a])) = add_mset (frame_addr F) (mset a)" by simp
  ultimately show ?thesis using pmm_init_fill [OF assms] by (auto simp: pmm_listed_def Let_def pmm_free_pages_def)
qed

lemma pmm_init_rep:
  assumes env: "pmm_env cp D T F (pmm_mem s)"
    and es: "n \<le> length es" "n \<le> 65535" "\<forall>e\<in>set (take n es). sm32_type e = 1 \<longrightarrow> region_ok e"
    and a: "a = usable_pages (take n es)" "distinct a" "\<forall>x\<in>set a. frame_addr (frame_of x) = x"
    and apart: "F \<notin> {D, T}" "frame_addr F \<notin> set a" "frame_addr D \<notin> set a" "frame_addr T \<notin> set a"
  defines "xs \<equiv> map (page_order a F) [0..<length a]" and "B \<equiv> window_frame a F (length a div 1024)"
  shows "\<exists>s'. pmm_init cp s es n = Inr s' \<and> pmm_rep cp D T B 1 s' xs"
    and "add_mset (frame_addr B) (mset xs) = add_mset (frame_addr F) (mset a)"
proof -
  have win: "frame_addr (window_frame a F k) \<in> set a" if "0 < k" "1024 * k \<le> length a" for k
    using that a(3) by (auto simp: window_frame_def)
  have ok: "fill_ok a F D T" unfolding fill_ok_def using a(2,3) apart win by (metis insert_iff empty_iff)
  have len: "length a < 4294967295" using fill_ok_length [OF ok] by simp
  show ms: "add_mset (frame_addr B) (mset xs) = add_mset (frame_addr F) (mset a)"
    using page_order_mset [OF a(3) order_refl, of F] by (simp add: xs_def B_def)
  have "mset (frame_addr B # xs) = mset (frame_addr F # a)" using ms by simp
  then have dist: "distinct (frame_addr B # xs)" and st: "set (frame_addr B # xs) = set (frame_addr F # a)"
    using a(2) apart(2) by (metis distinct.simps(2) mset_eq_imp_distinct_iff, metis mset_eq_setD)
  have outside: "frame_addr D \<notin> set (frame_addr F # a)" "frame_addr T \<notin> set (frame_addr F # a)"
    using apart by (auto simp: frame_addr_inj)
  have "pool_page D T B x" if "x \<in> set xs" for x
  proof -
    have "x \<in> set (frame_addr F # a)" using that st by auto
    then have "frame_addr (frame_of x) = x" using a(3) by auto
    moreover have "x \<noteq> frame_addr B" using that dist by auto
    ultimately show ?thesis using \<open>x \<in> set (frame_addr F # a)\<close> outside
      by (metis pool_page_def insertE singletonD)
  qed
  moreover have "B \<notin> {D, T}" using st outside by (metis insertE list.set_intros(1) singletonD)
  ultimately show "\<exists>s'. pmm_init cp s es n = Inr s' \<and> pmm_rep cp D T B 1 s' xs"
    using pmm_init_fill [OF env es a(1) ok len] dist
    by (auto simp: pmm_rep_def xs_def B_def list_all_iff)
qed

section \<open>What clients get\<close>

text \<open>Three pages of memory, with the array at \<open>0xC0005000\<close> of the example machine.\<close>

definition example_regions :: "SMAP32 list" where
  "example_regions =
     [\<lparr>sm32_base = 0x100000, sm32_length = 0x3000, sm32_type = 1, sm32_acpi = 1\<rparr>,
      \<lparr>sm32_base = 0xF0000, sm32_length = 0x10000, sm32_type = 2, sm32_acpi = 1\<rparr>]"

definition example_pmm :: pmm where
  "example_pmm = \<lparr>pmm_mem = example_machine, pmm_pcount = 7, pmm_pfree = 7, pmm_pidx = 7\<rparr>"

lemma example_env: "pmm_env 0xC0005000 1 2 3 (pmm_mem example_pmm)"
  using example_wf example_table
  by (simp add: pmm_env_def example_pmm_def)
    (simp add: example_machine_def table_of_def pdi_of_def frame_of_def present_def)

lemma example_usable: "usable_pages (take 2 example_regions) = [0x100000, 0x101000, 0x102000]"
  by (simp add: usable_pages_def example_regions_def region_pages_def upt_rec)

lemma example_setup:
  "2 \<le> length example_regions" "\<forall>e\<in>set (take 2 example_regions). sm32_type e = 1 \<longrightarrow> region_ok e"
  "distinct (usable_pages (take 2 example_regions))"
  "\<forall>x\<in>set (usable_pages (take 2 example_regions)). frame_addr (frame_of x) = x"
  "{frame_addr 3, frame_addr 1, frame_addr 2} \<inter> set (usable_pages (take 2 example_regions)) = {}"
  unfolding example_usable
  by (simp_all add: example_regions_def region_ok_def frame_addr_def frame_of_def)

lemma example_fill: "fill_ok (usable_pages (take 2 example_regions)) 3 1 2"
  using example_setup(3,4) by (simp add: fill_ok_def example_usable)

text \<open>
  C4: after \<open>pmm_init\<close>, however clients allocate pages while \<open>pmm_free_pages\<close> exceeds 1 (the last
  page it counts does not exist), free pages they hold and write into pages they hold, no page
  is held twice, held pages are among those listed and the initial window page, and no page is
  lost: those free, those held and the last window are together the listed pages and the
  initial page. The listed pages are different and aligned, and none is the page directory's,
  the window's page table's or the initial window's.
\<close>

theorem pmm_pages_never_shared:
  assumes "pmm_env cp D T F (pmm_mem s)"
    and "n \<le> length es" "n \<le> 65535" "\<forall>e\<in>set (take n es). sm32_type e = 1 \<longrightarrow> region_ok e"
    and "distinct (usable_pages (take n es))" "\<forall>x\<in>set (usable_pages (take n es)). frame_addr (frame_of x) = x"
    and "F \<notin> {D, T}" "{frame_addr F, frame_addr D, frame_addr T} \<inter> set (usable_pages (take n es)) = {}"
    and "pmm_init cp s es n = Inr s0"
    and "(pool_step (pmm_avail 1) (pmm_alloc_ppage cp) (pmm_free_ppage cp) page_store (\<lambda>x. 1024))\<^sup>*\<^sup>* (s0, []) (s1, held)"
  shows "distinct held \<and> (\<exists>free B. pmm_rep cp D T B 1 s1 free \<and>
    add_mset (frame_addr B) (mset free + mset held) = add_mset (frame_addr F) (mset (usable_pages (take n es))))"
proof -
  let ?a = "usable_pages (take n es)"
  let ?B = "window_frame ?a F (length ?a div 1024)"
  note R = pmm_init_rep [OF assms(1-4) refl assms(5-7)]
  from R(1) assms(8,9) have "pmm_rep cp D T ?B 1 s0 (map (page_order ?a F) [0..<length ?a])" by auto
  from pages.steps_conserve [OF this assms(10)] obtain free where
    free: "pmm_rep cp D T ?B 1 s1 free" "distinct (free @ held)"
    "mset free + mset held = mset (map (page_order ?a F) [0..<length ?a])" by blast
  then show ?thesis using R(2) assms(8) by (intro conjI exI [of _ free] exI [of _ ?B]) auto
qed

theorem pmm_pages_never_shared_witness:
  "\<exists>s0 s1 free B. pmm_init 0xC0005000 example_pmm example_regions 2 = Inr s0 \<and>
     pmm_alloc_ppage 0xC0005000 s0 = Inr (0x100000, s1) \<and>
     add_mset (frame_addr B) (mset free + {#0x100000#}) = {#0x3000, 0x100000, 0x101000, 0x102000#}"
proof -
  from pmm_init_rep(1) [OF example_env example_setup(1) _ example_setup(2) refl example_setup(3,4)]
    example_setup(5) obtain s0 where
    s0: "pmm_init 0xC0005000 example_pmm example_regions 2 = Inr s0"
    "pmm_rep 0xC0005000 1 2 3 1 s0 [0x100000, 0x101000, 0x102000]"
    by (auto simp: example_usable page_order_def window_frame_def upt_rec)
  from pages.alloc_rep [OF s0(2)] pages.avail_rep [OF s0(2)] obtain s1 where
    s1: "pmm_alloc_ppage 0xC0005000 s0 = Inr (0x100000, s1)" "pmm_avail 1 s0" by auto
  have "(pool_step (pmm_avail 1) (pmm_alloc_ppage 0xC0005000) (pmm_free_ppage 0xC0005000) page_store
      (\<lambda>x. 1024))\<^sup>*\<^sup>* (s0, []) (s1, [0x100000])"
    by (intro r_into_rtranclp pool_step.take s1)
  from pmm_pages_never_shared [OF example_env example_setup(1) _ example_setup(2-4) _ example_setup(5) s0(1) this]
  obtain free B where "add_mset (frame_addr B) (mset free + {#0x100000#}) = {#0x3000, 0x100000, 0x101000, 0x102000#}"
    by (auto simp: example_usable frame_addr_def add_mset_commute)
  then show ?thesis using s0(1) s1(1) by blast
qed

text \<open>
  After \<open>pmm_init\<close> has listed \<open>N\<close> pages, \<open>N\<close> allocations return \<open>N\<close> different pages; the
  counter then says that one page is left.
\<close>

theorem pmm_alloc_all:
  assumes "pmm_env cp D T F (pmm_mem s)"
    and "n \<le> length es" "n \<le> 65535" "\<forall>e\<in>set (take n es). sm32_type e = 1 \<longrightarrow> region_ok e"
    and "distinct (usable_pages (take n es))" "\<forall>x\<in>set (usable_pages (take n es)). frame_addr (frame_of x) = x"
    and "F \<notin> {D, T}" "{frame_addr F, frame_addr D, frame_addr T} \<inter> set (usable_pages (take n es)) = {}"
  shows "\<exists>s0 s1. pmm_init cp s es n = Inr s0 \<and>
    alloc_many (pmm_alloc_ppage cp) (length (usable_pages (take n es))) s0 =
      Inr (map (page_order (usable_pages (take n es)) F) [0..<length (usable_pages (take n es))], s1) \<and>
    distinct (map (page_order (usable_pages (take n es)) F) [0..<length (usable_pages (take n es))]) \<and>
    pmm_free_pages s1 = 1"
proof -
  let ?a = "usable_pages (take n es)"
  let ?xs = "map (page_order ?a F) [0..<length ?a]" and ?B = "window_frame ?a F (length ?a div 1024)"
  obtain s0 where s0: "pmm_init cp s es n = Inr s0" "pmm_rep cp D T ?B 1 s0 ?xs"
    using pmm_init_rep(1) [OF assms(1-4) refl assms(5-7)] assms(8) by auto
  from pages.many_rep [OF s0(2), of "length ?a"] obtain s1 where
    s1: "alloc_many (pmm_alloc_ppage cp) (length ?a) s0 = Inr (?xs, s1)" "pmm_rep cp D T ?B 1 s1 []" by auto
  from s1(2) have "unat (pmm_pfree s1) = 1" by (simp add: pmm_rep_def)
  then have "pmm_free_pages s1 = 1" by (simp add: pmm_free_pages_def word_unat_eq_iff)
  then show ?thesis using s0(1) s1(1) pages.distinct_rep [OF s0(2)] by blast
qed

theorem pmm_alloc_all_witness:
  "\<exists>s0 s1. pmm_init 0xC0005000 example_pmm example_regions 2 = Inr s0 \<and>
     alloc_many (pmm_alloc_ppage 0xC0005000) 3 s0 = Inr ([0x100000, 0x101000, 0x102000], s1) \<and>
     pmm_free_pages s1 = 1"
  using pmm_alloc_all [OF example_env example_setup(1) _ example_setup(2-4) _ example_setup(5)]
  by (auto simp: example_usable page_order_def upt_rec numeral_3_eq_3)

lemma example_rep:
  "\<exists>s0. pmm_init 0xC0005000 example_pmm example_regions 2 = Inr s0 \<and>
     pmm_rep 0xC0005000 1 2 3 1 s0 [0x100000, 0x101000, 0x102000]"
  using pmm_init_rep(1) [OF example_env example_setup(1) _ example_setup(2) refl example_setup(3,4)]
    example_setup(5)
  by (auto simp: example_usable page_order_def window_frame_def upt_rec)

text \<open>
  C37: freeing the page just allocated restores the stack of free pages.
\<close>

theorem pmm_alloc_free_id:
  assumes "pmm_rep cp D T B extra s (x # xs)"
  shows "\<exists>s' s''. pmm_alloc_ppage cp s = Inr (x, s') \<and> pmm_free_ppage cp s' x = Inr s'' \<and>
    pmm_rep cp D T B extra s'' (x # xs) \<and> pmm_free_pages s'' = pmm_free_pages s"
proof -
  from pages.alloc_release_rep [OF assms] obtain s' s'' where
    "pmm_alloc_ppage cp s = Inr (x, s')" "pmm_free_ppage cp s' x = Inr s''" "pmm_rep cp D T B extra s'' (x # xs)"
    by blast
  moreover from this(3) assms have "unat (pmm_pfree s'') = unat (pmm_pfree s)" by (auto simp: pmm_rep_def)
  ultimately show ?thesis by (auto simp: pmm_free_pages_def word_unat_eq_iff)
qed

theorem pmm_alloc_free_id_witness:
  "\<exists>s s' s''. pmm_alloc_ppage 0xC0005000 s = Inr (0x100000, s') \<and>
     pmm_free_ppage 0xC0005000 s' 0x100000 = Inr s'' \<and> pmm_free_pages s'' = pmm_free_pages s"
  using example_rep pmm_alloc_free_id by blast

text \<open>
  The page the counter still announces when the stack is empty does not exist: the
  allocation returns whatever the word of the last window after the list's end holds.
\<close>

theorem pmm_last_page_bogus:
  assumes "pmm_rep cp D T B 1 s []" "unat (pmm_pidx s) mod 1024 \<noteq> 1023"
  shows "pmm_free_pages s = 1 \<and> (\<exists>s'. pmm_alloc_ppage cp s =
    Inr (pmem (pmm_mem s) B (of_nat (unat (pmm_pidx s) mod 1024)), s'))"
proof -
  have W: "pmm_env cp D T B (pmm_mem s)" "unat (pmm_pfree s) = 1"
    using assms(1) by (auto simp: pmm_rep_def)
  then have "pmm_pfree s = 1" by (simp add: word_unat_eq_iff)
  then show ?thesis using assms(2) rd_slot [OF W(1), of "pmm_pidx s"]
    by (auto simp: pmm_alloc_ppage_def pmm_free_pages_def and_1023)
qed

theorem pmm_last_page_bogus_witness:
  "\<exists>s s'. pmm_free_pages s = 1 \<and> pmm_alloc_ppage 0xC0005000 s = Inr (pmem (pmm_mem s) 3 3, s')"
proof -
  let ?s = "example_pmm\<lparr>pmm_pidx := 3, pmm_pfree := 1\<rparr>"
  have "pmm_rep 0xC0005000 1 2 3 1 ?s []"
    using example_env by (simp add: pmm_rep_def)
  from pmm_last_page_bogus [OF this] have "pmm_free_pages ?s = 1 \<and>
      (\<exists>s'. pmm_alloc_ppage 0xC0005000 ?s = Inr (pmem (pmm_mem ?s) 3 3, s'))" by simp
  then show ?thesis by blast
qed

lemma alloc_first_window:
  assumes "pmm_env cp D T W (pmm_mem s)" "unat (pmm_pidx s) + k \<le> 1023" "k \<le> unat (pmm_pfree s)"
  shows "\<exists>s'. alloc_many (pmm_alloc_ppage cp) k s =
    Inr (map (\<lambda>i. pmem (pmm_mem s) W (of_nat (unat (pmm_pidx s) + i))) [0..<k], s')"
  using assms
proof (induction k arbitrary: s)
  case (Suc k)
  let ?s = "s\<lparr>pmm_pidx := pmm_pidx s + 1, pmm_pfree := pmm_pfree s - 1\<rparr>" and ?r = "unat (pmm_pidx s)"
  have r: "?r mod 1024 = ?r" "?r \<noteq> 1023" using Suc.prems(2) by auto
  have pf: "pmm_pfree s \<noteq> 0" using Suc.prems(3) by auto
  have one: "pmm_alloc_ppage cp s = Inr (pmem (pmm_mem s) W (of_nat ?r), ?s)"
    using rd_slot [OF Suc.prems(1), of "pmm_pidx s"] pf r by (simp add: pmm_alloc_ppage_def and_1023)
  have "unat (pmm_pidx s + 1) = Suc ?r" using Suc.prems(2) by (simp add: unat_word_ariths)
  moreover have "unat (pmm_pfree s - 1) = unat (pmm_pfree s) - 1" using pf by (simp add: unat_minus_one)
  moreover have "Suc ?r + k \<le> 1023" "k \<le> unat (pmm_pfree s) - 1" using Suc.prems by linarith+
  ultimately obtain s' where "alloc_many (pmm_alloc_ppage cp) k ?s =
      Inr (map (\<lambda>i. pmem (pmm_mem s) W (of_nat (Suc ?r + i))) [0..<k], s')"
    using Suc.IH [of ?s] Suc.prems(1) by (auto simp del: of_nat_Suc of_nat_add)
  then show ?case using one by (simp add: upt_conv_Cons map_Suc_upt [symmetric] ac_simps del: upt_Suc)
qed simp

text \<open>
  Nothing keeps memory in use out of the list. When the page directory's own page is among
  the first 1023 listed (stage 2 has it in low memory, which the firmware's map calls usable),
  clients get it like any other page.
\<close>

theorem pmm_hands_out_directory:
  assumes "pmm_env cp D T F (pmm_mem s)"
    and "n \<le> length es" "n \<le> 65535" "\<forall>e\<in>set (take n es). sm32_type e = 1 \<longrightarrow> region_ok e"
    and "fill_ok (usable_pages (take n es)) F D T" "length (usable_pages (take n es)) < 4294967295"
    and "p < 1023" "p < length (usable_pages (take n es))" "usable_pages (take n es) ! p = frame_addr D"
  shows "\<exists>s0 ps s1. pmm_init cp s es n = Inr s0 \<and> alloc_many (pmm_alloc_ppage cp) (Suc p) s0 = Inr (ps, s1) \<and>
    last ps = frame_addr (cr3 (pmm_mem s0))"
proof -
  let ?a = "usable_pages (take n es)"
  obtain s0 where s0: "pmm_init cp s es n = Inr s0" "pmm_env cp D T F (pmm_mem s0)" "pmm_pidx s0 = 0"
    "unat (pmm_pfree s0) = length ?a + 1"
    "free_list (pmem (pmm_mem s0)) F 0 (map (page_order ?a F) [0..<length ?a]) (window_frame ?a F (length ?a div 1024))"
    using pmm_init_fill [OF assms(1-4) refl assms(5,6)] by blast
  have nth: "pmem M W (of_nat (r + i)) = xs ! i" if "free_list (pmem M) W r xs B" "i < length xs" "r + i < 1023"
    for M :: machine and W r xs B i
    using that
  proof (induction xs arbitrary: r i)
    case (Cons x xs)
    then show ?case using Cons.IH [of "Suc r" "i - 1"] by (cases i) (auto split: if_splits simp: ac_simps)
  qed simp
  have "pmem (pmm_mem s0) F (of_nat p) = frame_addr D"
    using nth [OF s0(5), of p] assms(7-9) by (simp add: page_order_def)
  moreover obtain s1 where "alloc_many (pmm_alloc_ppage cp) (Suc p) s0 =
      Inr (map (\<lambda>i. pmem (pmm_mem s0) F (of_nat i)) [0..<Suc p], s1)"
    using alloc_first_window [OF s0(2), of "Suc p"] s0(3,4) assms(7,8) by auto
  moreover have "cr3 (pmm_mem s0) = D" using s0(2) by (simp add: pmm_env_def)
  ultimately show ?thesis using s0(1) by (intro exI conjI) (assumption | simp)+
qed

theorem pmm_hands_out_directory_witness:
  "\<exists>s0 ps s1. pmm_init 0xC0005000 example_pmm
       [\<lparr>sm32_base = 0, sm32_length = 0x2000, sm32_type = 1, sm32_acpi = 1\<rparr>] 1 = Inr s0 \<and>
     alloc_many (pmm_alloc_ppage 0xC0005000) (Suc 1) s0 = Inr (ps, s1) \<and> last ps = frame_addr (cr3 (pmm_mem s0))"
proof -
  let ?es = "[\<lparr>sm32_base = 0, sm32_length = 0x2000, sm32_type = 1, sm32_acpi = 1\<rparr>]"
  have a: "usable_pages (take 1 ?es) = [0, 0x1000]"
    by (simp add: usable_pages_def region_pages_def upt_rec)
  have ok: "fill_ok (usable_pages (take 1 ?es)) 3 1 2"
    unfolding a by (auto simp: fill_ok_def frame_addr_def frame_of_def)
  show ?thesis
    using pmm_hands_out_directory [OF example_env _ _ _ ok, of 1]
    unfolding a by (simp add: region_ok_def frame_addr_def del: alloc_many.simps)
qed

end
