(* ===== verification/Shell_Sort.thy ===== *)
theory Shell_Sort
  imports Boot_Prelude
begin

text \<open>
  The sorting template of stage 3 (\<open>stage3/include/crt/sort.h\<close>): a shell sort over a
  fixed gap sequence. The element type's \<open>operator <\<close> is the parameter \<open>lt\<close>;
  \<open>compare\<close> and \<open>weak_order\<close> state what the template needs of it. Indices are natural
  numbers: \<open>i\<close> and \<open>j\<close> stay below \<open>N\<close>, which is a \<open>uint32_t\<close>, and \<open>j - gap\<close> is taken
  only under its guard.
\<close>

section \<open>Model\<close>

text \<open>The shift loop: a position \<open>j\<close> and the array; it stops at the place of \<open>tmp\<close>.\<close>

definition gap_shift_guard :: "('a \<Rightarrow> 'a \<Rightarrow> bool) \<Rightarrow> nat \<Rightarrow> 'a \<Rightarrow> nat \<times> 'a list \<Rightarrow> bool res" where
  "gap_shift_guard lt gap tmp = (\<lambda>(j, xs).
     if j \<ge> gap then bindR (getR xs (j - gap)) (\<lambda>y. Inr (lt tmp y)) else Inr False)"

definition gap_shift_body :: "nat \<Rightarrow> nat \<times> 'a list \<Rightarrow> (nat \<times> 'a list) res" where
  "gap_shift_body gap = (\<lambda>(j, xs).
     bindR (getR xs (j - gap)) (\<lambda>y. bindR (setR xs j y) (\<lambda>xs. Inr (j - gap, xs))))"

definition gap_insert :: "('a \<Rightarrow> 'a \<Rightarrow> bool) \<Rightarrow> nat \<Rightarrow> nat \<Rightarrow> 'a list \<Rightarrow> 'a list res" where
  "gap_insert lt gap i xs =
     bindR (getR xs i) (\<lambda>tmp.
     bindR (whileR (i + 1) (gap_shift_guard lt gap tmp) (gap_shift_body gap) (i, xs)) (\<lambda>(j, xs).
     setR xs j tmp))"

definition gap_sort :: "('a \<Rightarrow> 'a \<Rightarrow> bool) \<Rightarrow> 'a list \<Rightarrow> nat \<Rightarrow> nat \<Rightarrow> 'a list res" where
  "gap_sort lt xs N gap =
     forR (\<lambda>offset. forR (gap_insert lt gap) [offset..<N]) [0..<gap] xs"

definition gaps :: "nat list" where
  "gaps = [3444003501, 1530668223, 680296988, 302354217, 134379652, 59724290, 26544129, 11797391,
     5243285, 2330349, 1035711, 460316, 204585, 90927, 40412, 17961, 7983, 3548,
     1577, 701, 301, 132, 57, 23, 10, 4, 1]"

definition gap_pick :: "nat \<Rightarrow> nat res" where
  "gap_pick n = whileR 28 (\<lambda>idx. bindR (getR gaps idx) (\<lambda>g. Inr (g > n))) (\<lambda>idx. Inr (idx + 1)) 0"

definition shell_sort :: "('a \<Rightarrow> 'a \<Rightarrow> bool) \<Rightarrow> 'a list \<Rightarrow> 'a list res" where
  "shell_sort lt xs =
     (let n = length xs in
      bindR (gap_pick n) (\<lambda>idx.
      bindR (whileR 28 (\<lambda>(idx, xs). bindR (getR gaps idx) (\<lambda>g. Inr (g \<noteq> 1)))
                       (\<lambda>(idx, xs). bindR (getR gaps idx) (\<lambda>g.
                          bindR (gap_sort lt xs n g) (\<lambda>xs. Inr (idx + 1, xs)))) (idx, xs)) (\<lambda>(idx, xs).
      gap_sort lt xs n 1)))"

section \<open>Gapped insertion\<close>

text \<open>Adjacent elements of every chain \<open>k, k - gap, \<dots>\<close> up to \<open>m\<close> are in order, except at \<open>j\<close>.\<close>

definition gap_sorted :: "('a \<Rightarrow> 'a \<Rightarrow> bool) \<Rightarrow> nat \<Rightarrow> 'a list \<Rightarrow> nat \<Rightarrow> bool" where
  "gap_sorted lt gap xs m \<longleftrightarrow> (\<forall>k<m. gap \<le> k \<longrightarrow> \<not> lt (xs ! k) (xs ! (k - gap)))"

lemma gap_shift_guard_eq:
  "j < length xs \<Longrightarrow> gap_shift_guard lt gap tmp (j, xs) = Inr (gap \<le> j \<and> lt tmp (xs ! (j - gap)))"
  by (simp add: gap_shift_guard_def)

lemma gap_shift_body_eq:
  "j < length xs \<Longrightarrow> gap_shift_body gap (j, xs) = Inr (j - gap, xs[j := xs ! (j - gap)])"
  by (simp add: gap_shift_body_def)

locale compare =
  fixes lt :: "'a \<Rightarrow> 'a \<Rightarrow> bool"
  assumes asym: "lt x y \<Longrightarrow> \<not> lt y x"
begin

text \<open>
  The shift loop's invariant, on the array \<open>ys\<close> with \<open>tmp\<close> put at \<open>j\<close>: only the pair
  ending at \<open>j\<close> can be out of order, and the elements on both sides of \<open>j\<close> are in order.
\<close>

definition shifting :: "nat \<Rightarrow> 'a list \<Rightarrow> nat \<Rightarrow> 'a \<Rightarrow> nat \<times> 'a list \<Rightarrow> bool" where
  "shifting gap xs i tmp = (\<lambda>(j, zs). let ys = zs[j := tmp] in
     j \<le> i \<and> length zs = length xs \<and> mset ys = mset xs \<and>
     (\<forall>k\<le>i. gap \<le> k \<longrightarrow> k \<noteq> j \<longrightarrow> \<not> lt (ys ! k) (ys ! (k - gap))) \<and>
     (j + gap \<le> i \<longrightarrow> gap \<le> j \<longrightarrow> \<not> lt (ys ! (j + gap)) (ys ! (j - gap))))"

lemma mset_shift:
  assumes "j < length zs" "j' < length zs" "j \<noteq> j'"
  shows "mset (zs[j := zs ! j', j' := tmp]) = mset (zs[j := tmp])"
proof -
  have "zs[j := zs ! j', j' := tmp] =
      (zs[j := tmp])[j := zs[j := tmp] ! j', j' := zs[j := tmp] ! j]"
    using assms by simp
  then show ?thesis using mset_swap [of j' "zs[j := tmp]" j] assms by simp
qed

lemma shifting_body:
  assumes "shifting gap xs i tmp (j, zs)" "i < length xs" "0 < gap" "gap \<le> j" "lt tmp (zs ! (j - gap))"
  shows "shifting gap xs i tmp (j - gap, zs[j := zs ! (j - gap)])"
proof -
  let ?y = "zs ! (j - gap)" and ?ys = "zs[j := tmp]"
  have I: "j \<le> i" "length zs = length xs" "mset ?ys = mset xs"
    "\<And>k. k \<le> i \<Longrightarrow> gap \<le> k \<Longrightarrow> k \<noteq> j \<Longrightarrow> \<not> lt (?ys ! k) (?ys ! (k - gap))"
    "j + gap \<le> i \<Longrightarrow> \<not> lt (?ys ! (j + gap)) (?ys ! (j - gap))"
    using assms(1,4) by (simp_all add: shifting_def Let_def)
  have pairs: "\<not> lt (zs[j := ?y, j - gap := tmp] ! k) (zs[j := ?y, j - gap := tmp] ! (k - gap))"
    if k: "k \<le> i" "gap \<le> k" "k \<noteq> j - gap" for k
  proof -
    consider "k = j" | "k = j + gap" | "k \<noteq> j" "k \<noteq> j + gap" by blast
    then show ?thesis
    proof cases
      case 1
      then show ?thesis using assms I(1,2) asym by simp
    next
      case 2
      then show ?thesis using assms I(1,2) I(5) k by simp
    next
      case 3
      have "k - gap \<noteq> j" "k - gap \<noteq> j - gap" using k 3 assms(4) by auto
      then show ?thesis using 3 k I(4) [OF k(1,2) 3(1)] by simp
    qed
  qed
  have beside: "\<not> lt (zs[j := ?y, j - gap := tmp] ! (j - gap + gap)) (zs[j := ?y, j - gap := tmp] ! (j - gap - gap))"
    if "gap \<le> j - gap"
    using that assms I(1,2) I(4) [of "j - gap"] by simp
  have "mset (zs[j := ?y, j - gap := tmp]) = mset xs"
    using mset_shift [of j zs "j - gap" tmp] I assms(2,3,4) by simp
  then show ?thesis using I(1,2) pairs beside by (simp add: shifting_def Let_def)
qed

lemma gap_insert_ok:
  assumes "i < length xs" "0 < gap" "gap_sorted lt gap xs i"
  shows "\<exists>ys. gap_insert lt gap i xs = Inr ys \<and> mset ys = mset xs \<and> gap_sorted lt gap ys (Suc i)"
proof -
  let ?b = "gap_shift_guard lt gap (xs ! i)" and ?c = "gap_shift_body gap"
  let ?I = "shifting gap xs i (xs ! i)"
  have "\<exists>t. whileR (i + 1) ?b ?c (i, xs) = Inr t \<and> ?I t \<and> ?b t = Inr False"
  proof (rule whileR_total [where m = fst])
    show "?I (i, xs)" using assms(2,3)
      by (auto simp: shifting_def gap_sorted_def Let_def)
  next
    fix s assume "?I s"
    then show "\<exists>t. ?b s = Inr t" using assms(1)
      by (cases s) (simp add: shifting_def Let_def gap_shift_guard_eq)
  next
    fix s assume "?I s" and "?b s = Inr True"
    moreover obtain j zs where "s = (j, zs)" by (cases s)
    moreover have "j < length zs" using calculation assms(1) by (simp add: shifting_def Let_def)
    ultimately show "\<exists>s'. ?c s = Inr s' \<and> ?I s' \<and> fst s' < fst s"
      using shifting_body assms(1,2) by (auto simp: gap_shift_guard_eq gap_shift_body_eq)
  qed simp
  then obtain j zs where W: "whileR (i + 1) ?b ?c (i, xs) = Inr (j, zs)" "?I (j, zs)" "?b (j, zs) = Inr False"
    by auto
  have j: "j < length zs" using W(2) assms(1) by (simp add: shifting_def Let_def)
  have "\<not> lt (zs[j := xs ! i] ! k) (zs[j := xs ! i] ! (k - gap))" if "k < Suc i" "gap \<le> k" for k
  proof (cases "k = j")
    case True
    then show ?thesis using W(3) j assms(2) that by (simp add: gap_shift_guard_eq)
  next
    case False
    then show ?thesis using W(2) that by (simp add: shifting_def Let_def)
  qed
  then have "gap_sorted lt gap (zs[j := xs ! i]) (Suc i)" by (simp add: gap_sorted_def)
  moreover have "mset (zs[j := xs ! i]) = mset xs" using W(2) by (simp add: shifting_def Let_def)
  ultimately show ?thesis using W(1) j assms(1) by (simp add: gap_insert_def)
qed

lemma gap_pass_ok:
  assumes "N = length xs" "0 < gap" "offset \<le> N" "gap_sorted lt gap xs offset"
  shows "\<exists>ys. forR (gap_insert lt gap) [offset..<N] xs = Inr ys \<and> mset ys = mset xs \<and> gap_sorted lt gap ys N"
proof -
  have "\<exists>ys. forR (gap_insert lt gap) [offset..<N] xs = Inr ys \<and> (mset ys = mset xs \<and> gap_sorted lt gap ys N)"
  proof (rule forR_upt_total [where I = "\<lambda>i ys. mset ys = mset xs \<and> gap_sorted lt gap ys i"])
    fix i s assume "i < N" "mset s = mset xs \<and> gap_sorted lt gap s i"
    then show "\<exists>s'. gap_insert lt gap i s = Inr s' \<and> mset s' = mset xs \<and> gap_sorted lt gap s' (Suc i)"
      using gap_insert_ok [of i s gap] assms(1,2) mset_eq_length [of s xs] by auto
  qed (use assms in auto)
  then show ?thesis by blast
qed

lemma gap_sort_ok:
  assumes "N = length xs" "0 < gap"
  shows "\<exists>ys. gap_sort lt xs N gap = Inr ys \<and> mset ys = mset xs \<and> gap_sorted lt gap ys N"
proof -
  have "\<exists>ys. gap_sort lt xs N gap = Inr ys \<and> (mset ys = mset xs \<and> (0 < gap \<longrightarrow> gap_sorted lt gap ys N))"
    unfolding gap_sort_def
  proof (rule forR_upt_total [where I = "\<lambda>k ys. mset ys = mset xs \<and> (0 < k \<longrightarrow> gap_sorted lt gap ys N)"])
    fix offset :: nat and s assume o: "mset s = mset xs \<and> (0 < offset \<longrightarrow> gap_sorted lt gap s N)"
    show "\<exists>s'. forR (gap_insert lt gap) [offset..<N] s = Inr s' \<and>
        mset s' = mset xs \<and> (0 < Suc offset \<longrightarrow> gap_sorted lt gap s' N)"
    proof (cases "offset \<le> N")
      case True
      have "gap_sorted lt gap s offset" using o True by (auto simp: gap_sorted_def)
      then show ?thesis using gap_pass_ok [of N s gap offset] o True assms mset_eq_length [of s xs] by auto
    next
      case False
      then show ?thesis using o by simp
    qed
  qed auto
  then show ?thesis using assms(2) by blast
qed

end

locale weak_order = compare lt for lt :: "'a \<Rightarrow> 'a \<Rightarrow> bool" +
  assumes negtrans: "\<not> lt x y \<Longrightarrow> \<not> lt y z \<Longrightarrow> \<not> lt x z"
begin

lemma gap1_sorted:
  assumes "gap_sorted lt 1 xs (length xs)"
  shows "sorted_wrt (\<lambda>x y. \<not> lt y x) xs"
proof -
  have "\<not> lt (xs ! Suc k) (xs ! k)" if "Suc k < length xs" for k
    using assms that by (auto simp: gap_sorted_def dest: spec [of _ "Suc k"])
  moreover have "transp (\<lambda>x y. \<not> lt y x)" using negtrans by (auto simp: transp_def)
  ultimately show ?thesis by (simp add: sorted_wrt_iff_nth_Suc_transp)
qed

end

section \<open>The gap sequence and the whole sort\<close>

lemma gaps_facts:
  "length gaps = 27" "gaps ! 26 = 1" "i < 27 \<Longrightarrow> 0 < gaps ! i"
proof -
  show "length gaps = 27" "gaps ! 26 = 1" by (simp_all add: gaps_def)
  have "\<forall>g\<in>set gaps. 0 < g" by (simp add: gaps_def)
  then show "i < 27 \<Longrightarrow> 0 < gaps ! i" using \<open>length gaps = 27\<close> nth_mem by metis
qed

lemma gap_pick_ok:
  assumes "0 < n"
  shows "\<exists>idx<27. gap_pick n = Inr idx"
proof -
  let ?b = "\<lambda>idx. bindR (getR gaps idx) (\<lambda>g. Inr (g > n))" and ?c = "\<lambda>idx. Inr (idx + 1)"
  have "\<exists>t. whileR 28 ?b ?c 0 = Inr t \<and> t < 27 \<and> ?b t = Inr False"
  proof (rule whileR_total [where m = "\<lambda>i. 27 - i"])
    fix s assume s: "s < 27" and "?b s = Inr True"
    then have "gaps ! s > n" using gaps_facts(1) by simp
    then have "s \<noteq> 26" using assms gaps_facts(2) by auto
    then show "\<exists>s'. ?c s = Inr s' \<and> s' < 27 \<and> 27 - s' < 27 - s" using s by auto
  qed (simp_all add: gaps_facts(1))
  then show ?thesis unfolding gap_pick_def by blast
qed

text \<open>Of an empty range the first loop runs off the end of \<open>gaps\<close>.\<close>

lemma gap_pick_0: "gap_pick 0 = Inl OutOfBounds"
proof -
  let ?w = "\<lambda>n. whileR n (\<lambda>idx. bindR (getR gaps idx) (\<lambda>g. Inr (g > 0))) (\<lambda>idx. Inr (idx + 1))"
  have "?w (Suc n) (27 - n) = Inl OutOfBounds" if "n \<le> 27" for n
    using that
  proof (induction n)
    case 0
    then show ?case by (simp add: gaps_facts(1))
  next
    case (Suc n)
    have "getR gaps (27 - Suc n) = Inr (gaps ! (27 - Suc n))" by (simp add: gaps_facts(1))
    moreover have "gaps ! (27 - Suc n) > 0" by (rule gaps_facts(3)) simp
    moreover have "27 - Suc n + 1 = 27 - n" using Suc.prems by simp
    ultimately show ?case using Suc by (simp only: whileR.simps(2) [of "Suc n"] bindR_Inr) simp
  qed
  from this [of 27] show ?thesis by (simp only: gap_pick_def) simp
qed

context weak_order
begin

lemma shell_sort_ok:
  assumes "xs \<noteq> []"
  shows "\<exists>ys. shell_sort lt xs = Inr ys \<and> mset ys = mset xs \<and> sorted_wrt (\<lambda>x y. \<not> lt y x) ys"
proof -
  let ?n = "length xs"
  let ?b = "\<lambda>(idx, xs). bindR (getR gaps idx) (\<lambda>g. Inr (g \<noteq> 1))"
  let ?c = "\<lambda>(idx, xs). bindR (getR gaps idx) (\<lambda>g. bindR (gap_sort lt xs ?n g) (\<lambda>xs. Inr (idx + 1, xs)))"
  obtain idx where idx: "idx < 27" "gap_pick ?n = Inr idx" using gap_pick_ok [of ?n] assms by auto
  have "\<exists>t. whileR 28 ?b ?c (idx, xs) = Inr t \<and> (fst t < 27 \<and> mset (snd t) = mset xs) \<and> ?b t = Inr False"
  proof (rule whileR_total [where m = "\<lambda>t. 27 - fst t"])
    fix t :: "nat \<times> 'a list"
    assume t: "fst t < 27 \<and> mset (snd t) = mset xs"
    then show "\<exists>g. ?b t = Inr g" by (cases t) (simp add: gaps_facts(1))
    assume b: "?b t = Inr True"
    obtain i zs where tz: "t = (i, zs)" by (cases t)
    have "gaps ! i \<noteq> 1" using t b tz by (simp add: gaps_facts(1))
    then have i: "Suc i < 27" using t tz gaps_facts(2) by (cases "i = 26") auto
    have "?n = length zs" using t tz mset_eq_length [of zs xs] by simp
    with gap_sort_ok [of ?n zs "gaps ! i"] gaps_facts(3) [of i] i obtain ys where
      "gap_sort lt zs ?n (gaps ! i) = Inr ys" "mset ys = mset zs" by auto
    then show "\<exists>t'. ?c t = Inr t' \<and> (fst t' < 27 \<and> mset (snd t') = mset xs) \<and> 27 - fst t' < 27 - fst t"
      using t tz i by (simp add: gaps_facts(1))
  qed (use idx in auto)
  then obtain j zs where W: "whileR 28 ?b ?c (idx, xs) = Inr (j, zs)" "mset zs = mset xs" by auto
  then have len: "?n = length zs" using mset_eq_length [of zs xs] by simp
  obtain ys where ys: "gap_sort lt zs ?n 1 = Inr ys" "mset ys = mset zs" "gap_sorted lt 1 ys ?n"
    using gap_sort_ok [OF len, of 1] by auto
  have "sorted_wrt (\<lambda>x y. \<not> lt y x) ys"
    by (rule gap1_sorted) (use ys len mset_eq_length [of ys zs] in auto)
  then show ?thesis using idx(2) W ys by (simp add: shell_sort_def Let_def)
qed

end

lemma shell_sort_empty: "shell_sort lt [] = Inl OutOfBounds"
  by (simp add: shell_sort_def gap_pick_0)

end
