(* ===== verification/Vmalloc.thy ===== *)
theory Vmalloc
  imports Pmm Shell_Sort
begin

text \<open>
  The virtual page allocator of stage 3 (\<open>stage3/mem/kmalloc.cpp\<close>): for each page
  table of the upper quarter of the address space a record of its free entries, sorted
  by their number, from which \<open>valloc\<close> takes the first table that has one.
\<close>

section \<open>Model\<close>

record ptinfo =
  pi_free :: u16
  pi_pdi :: u16
  pi_first_free :: u16

definition ptinfo_less :: "ptinfo \<Rightarrow> ptinfo \<Rightarrow> bool" where
  "ptinfo_less a b \<longleftrightarrow> pi_free a < pi_free b"

text \<open>\<open>vm_cp\<close> is the linker's address of the page allocator's array.\<close>

record vmem =
  vm_cp :: u32
  vm_pmm :: pmm
  vm_first :: u16
  vm_meta :: "ptinfo list"

definition SIZE_BIT :: u32 where "SIZE_BIT = 128"

definition kpd_ptr :: "u16 \<Rightarrow> u32" where
  "kpd_ptr i = 0xFFFFFC00 + ucast i * 4"

definition kpt_ptr :: "u32 \<Rightarrow> u32 \<Rightarrow> u32" where
  "kpt_ptr i k = 0xFFF00000 + (0x400 * i) * 4 + k * 4"

text \<open>The first loop of \<open>set_ptinfo\<close>: the counter, the record and whether it has broken off.\<close>

definition scan_guard :: "nat \<times> ptinfo \<times> bool \<Rightarrow> bool res" where
  "scan_guard = (\<lambda>(counter, pin, brk). Inr (counter < 1024 \<and> \<not> brk))"

definition scan_body :: "machine \<Rightarrow> u16 \<Rightarrow> nat \<times> ptinfo \<times> bool \<Rightarrow> (nat \<times> ptinfo \<times> bool) res" where
  "scan_body m i = (\<lambda>(counter, pin, brk).
     bindR (rd32 m (kpt_ptr (ucast i) (of_nat counter))) (\<lambda>e.
     if e AND PRESENT = 0
     then Inr (counter, pin\<lparr>pi_free := pi_free pin + 1, pi_first_free := of_nat counter\<rparr>, True)
     else Inr (counter + 1, pin, False)))"

definition count_absent :: "machine \<Rightarrow> u16 \<Rightarrow> nat \<Rightarrow> ptinfo \<Rightarrow> ptinfo res" where
  "count_absent m i counter pin =
     bindR (rd32 m (kpt_ptr (ucast i) (of_nat counter))) (\<lambda>e.
     Inr (pin\<lparr>pi_free := pi_free pin + (if e AND PRESENT = 0 then 1 else 0)\<rparr>))"

definition set_ptinfo :: "machine \<Rightarrow> u16 \<Rightarrow> ptinfo \<Rightarrow> ptinfo res" where
  "set_ptinfo m i pin =
     (if i = 255 \<or> kpt_ptr (ucast i) 0 AND SIZE_BIT \<noteq> 0 then Inr (pin\<lparr>pi_free := 0\<rparr>)
      else bindR (rd32 m (kpd_ptr i)) (\<lambda>pde.
        if pde AND PRESENT \<noteq> 0 then
          bindR (whileR 1025 scan_guard (scan_body m i) (0, pin\<lparr>pi_free := 0\<rparr>, False)) (\<lambda>(counter, pin, brk).
          forR (count_absent m i) [counter..<1024] pin)
        else Inr (pin\<lparr>pi_free := 1024\<rparr>)))"

definition vinit_entry :: "machine \<Rightarrow> nat \<Rightarrow> ptinfo list \<Rightarrow> ptinfo list res" where
  "vinit_entry m i meta =
     bindR (getR meta i) (\<lambda>pin.
     bindR (set_ptinfo m (of_nat i) (pin\<lparr>pi_pdi := of_nat i, pi_first_free := 0\<rparr>)) (\<lambda>pin.
     bindR (assertR (pi_first_free pin < 1024)) (\<lambda>_.
     bindR (assertR (pi_free pin \<le> 1024)) (\<lambda>_.
     setR meta i pin))))"

text \<open>The last loop reads \<open>ptmeta[i]\<close> before it compares \<open>i\<close> with 256.\<close>

definition vinit :: "vmem \<Rightarrow> vmem res" where
  "vinit s =
     bindR (forR (vinit_entry (pmm_mem (vm_pmm s))) [0..<256] (vm_meta s)) (\<lambda>meta.
     bindR (shell_sort ptinfo_less meta) (\<lambda>meta.
     bindR (whileR 258 (\<lambda>i. bindR (getR meta i) (\<lambda>pin. Inr (pi_free pin = 0 \<and> i < 256)))
       (\<lambda>i. Inr (i + 1)) 0) (\<lambda>i.
     Inr (s\<lparr>vm_meta := meta, vm_first := of_nat i\<rparr>))))"

fun get_idx_from :: "ptinfo list \<Rightarrow> u32 \<Rightarrow> nat list \<Rightarrow> u16 res" where
  "get_idx_from meta pdi [] = Inl Panic"
| "get_idx_from meta pdi (i # is) =
     bindR (getR meta i) (\<lambda>pin. if ucast (pi_pdi pin) = pdi then Inr (of_nat i) else get_idx_from meta pdi is)"

definition get_idx :: "ptinfo list \<Rightarrow> u32 \<Rightarrow> u16 res" where
  "get_idx meta pdi = get_idx_from meta pdi [0..<256]"

text \<open>\<open>pt_map\<close> with a page fresh from the page allocator.\<close>

definition map_new_page :: "vmem \<Rightarrow> u32 \<Rightarrow> vmem res" where
  "map_new_page s v =
     bindR (pmm_alloc_ppage (vm_cp s) (vm_pmm s)) (\<lambda>(page, p).
     bindR (pt_map (pmm_mem p) page v 2) (\<lambda>(old, m). Inr (s\<lparr>vm_pmm := p\<lparr>pmm_mem := m\<rparr>\<rparr>)))"

definition next_absent :: "machine \<Rightarrow> u16 \<Rightarrow> nat res" where
  "next_absent m pdi =
     whileR 1024 (\<lambda>pti. if pti < 1024 then bindR (rd32 m (kpt_ptr (ucast pdi) (of_nat pti)))
         (\<lambda>e. Inr (e AND PRESENT \<noteq> 0)) else Inr False)
       (\<lambda>pti. Inr (pti + 1)) 1"

definition update_first_free :: "vmem \<Rightarrow> u16 \<Rightarrow> u16 \<Rightarrow> vmem res" where
  "update_first_free s i pdi =
     bindR (rd32 (pmm_mem (vm_pmm s)) (kpd_ptr pdi)) (\<lambda>pde.
     bindR (if pde AND PRESENT = 0 then map_new_page s (kpt_ptr (ucast pdi) 0) else Inr s) (\<lambda>s.
     bindR (next_absent (pmm_mem (vm_pmm s)) pdi) (\<lambda>pti.
     bindR (getR (vm_meta s) (unat i)) (\<lambda>pin.
     bindR (setR (vm_meta s) (unat i) (pin\<lparr>pi_first_free := of_nat pti\<rparr>)) (\<lambda>meta.
     Inr (s\<lparr>vm_meta := meta\<rparr>))))))"

definition valloc_addr :: "u16 \<Rightarrow> u16 \<Rightarrow> u32" where
  "valloc_addr pdi pti = push_bit 22 (ucast pdi + 768) + push_bit 12 (ucast pti)"

definition valloc :: "vmem \<Rightarrow> (u32 \<times> vmem) res" where
  "valloc s =
     (if vm_first s > 255 then Inr (0xFFFFFFFF, s)
      else let i = vm_first s in
        bindR (getR (vm_meta s) (unat i)) (\<lambda>pin.
        bindR (assertR (pi_free pin \<noteq> 0)) (\<lambda>_.
        let pdi = pi_pdi pin; pti = pi_first_free pin in
        bindR (assertR (pti < 1024)) (\<lambda>_.
        bindR (setR (vm_meta s) (unat i) (pin\<lparr>pi_free := pi_free pin - 1\<rparr>)) (\<lambda>meta.
        let s = s\<lparr>vm_meta := meta\<rparr> in
        bindR (if pi_free pin - 1 \<noteq> 0 then update_first_free s i pdi
               else Inr (s\<lparr>vm_first := vm_first s + 1\<rparr>)) (\<lambda>s.
        bindR (map_new_page s (valloc_addr pdi pti)) (\<lambda>s.
        Inr (valloc_addr pdi pti, s))))))))"

text \<open>The loop that moves a record up to its place; \<open>i\<close> is its index.\<close>

definition bubble_guard :: "nat \<times> ptinfo list \<Rightarrow> bool res" where
  "bubble_guard = (\<lambda>(i, meta).
     if i + 1 < 256 then
       bindR (getR meta (i + 1)) (\<lambda>b. bindR (getR meta i) (\<lambda>a. Inr (ptinfo_less b a)))
     else Inr False)"

definition bubble_body :: "nat \<times> ptinfo list \<Rightarrow> (nat \<times> ptinfo list) res" where
  "bubble_body = (\<lambda>(i, meta).
     bindR (getR meta (i + 1)) (\<lambda>b. bindR (getR meta i) (\<lambda>a.
     bindR (setR meta (i + 1) a) (\<lambda>meta. bindR (setR meta i b) (\<lambda>meta. Inr (i + 1, meta))))))"

definition free_mapped :: "vmem \<Rightarrow> u32 \<Rightarrow> vmem res" where
  "free_mapped s v =
     bindR (pt_unmap (pmm_mem (vm_pmm s)) v) (\<lambda>(page, m).
     bindR (pmm_free_ppage (vm_cp s) ((vm_pmm s)\<lparr>pmm_mem := m\<rparr>) page) (\<lambda>p.
     Inr (s\<lparr>vm_pmm := p\<rparr>)))"

text \<open>What \<open>vfree\<close> does to the record of its table and to the index of the first usable one.\<close>

definition vfree_hint :: "u16 \<Rightarrow> u32 \<Rightarrow> u32 \<Rightarrow> u16 \<Rightarrow> ptinfo \<Rightarrow> u16 \<times> ptinfo" where
  "vfree_hint i pdi pti first pin =
     (if pi_free pin = 0 \<and> i < first then ucast pdi else first,
      if pi_free pin = 0 \<or> pti < ucast (pi_first_free pin) then pin\<lparr>pi_first_free := ucast pti\<rparr> else pin)"

definition vfree :: "vmem \<Rightarrow> u32 \<Rightarrow> vmem res" where
  "vfree s vaddr =
     (let pdi = drop_bit 22 vaddr - 768; pti = drop_bit 12 vaddr AND 0x3FF; pt = kpt_ptr pdi 0 in
      bindR (get_idx (vm_meta s) pdi) (\<lambda>i.
      bindR (getR (vm_meta s) (unat i)) (\<lambda>pin.
      let (first, pin) = vfree_hint i pdi pti (vm_first s) pin in
      bindR (free_mapped (s\<lparr>vm_first := first\<rparr>) vaddr) (\<lambda>s.
      let pin = pin\<lparr>pi_free := pi_free pin + 1\<rparr> in
      bindR (if pi_free pin = 1024
             then bindR (free_mapped s pt) (\<lambda>s. Inr (s, pin\<lparr>pi_first_free := 0\<rparr>))
             else bindR (assertR (\<not> pi_free pin > 1024)) (\<lambda>_. Inr (s, pin))) (\<lambda>(s, pin).
      bindR (setR (vm_meta s) (unat i) pin) (\<lambda>meta.
      bindR (whileR 257 bubble_guard bubble_body (unat i, meta)) (\<lambda>(i, meta).
      Inr (s\<lparr>vm_meta := meta\<rparr>))))))))"

text \<open>
  \<open>memcpy\<close> at virtual addresses. In \<open>vmap\<close> the pointers are \<open>uint32_t*\<close>, so
  adding a byte offset to one adds four times as many bytes.
\<close>

definition memcpy_virt :: "machine \<Rightarrow> u32 \<Rightarrow> u32 \<Rightarrow> u32 \<Rightarrow> machine res" where
  "memcpy_virt m dst src n =
     forR (\<lambda>k m. bindR (rd8 m (src + of_nat k)) (wr8 m (dst + of_nat k))) [0..<unat n] m"

definition vmap :: "vmem \<Rightarrow> u32 \<Rightarrow> u32 \<Rightarrow> (u32 \<times> vmem) res" where
  "vmap s paddr len =
     bindR (assertR (len \<le> 4096)) (\<lambda>_.
     bindR (valloc s) (\<lambda>(tmp, s).
     bindR (valloc s) (\<lambda>(mapped, s).
     let offset = paddr AND PT_FLAGS_MASK in
     bindR (pt_map (pmm_mem (vm_pmm s)) (paddr AND PT_PAGE_MASK) tmp (PRESENT OR RAM_PRESENT)) (\<lambda>(oldpage, m).
     bindR (if offset + len \<le> 4096 then memcpy_virt m mapped (tmp + offset * 4) len
            else bindR (memcpy_virt m mapped (tmp + offset * 4) (4096 - offset)) (\<lambda>m.
              bindR (pt_map m ((paddr AND PT_PAGE_MASK) + 4096) tmp (PRESENT OR RAM_PRESENT)) (\<lambda>(r, m).
              memcpy_virt m (mapped + (4096 - offset) * 4) tmp ((offset + len) - 4096)))) (\<lambda>m.
     bindR (pt_map m (oldpage AND PT_PAGE_MASK) tmp (oldpage AND PT_FLAGS_MASK)) (\<lambda>(r, m).
     bindR (vfree (s\<lparr>vm_pmm := (vm_pmm s)\<lparr>pmm_mem := m\<rparr>\<rparr>) tmp) (\<lambda>s.
     Inr (mapped, s))))))))"

definition vunmap :: "vmem \<Rightarrow> u32 \<Rightarrow> u32 \<Rightarrow> vmem res" where
  "vunmap s vaddr len = bindR (assertR (len \<le> 4096)) (\<lambda>_. free_mapped s vaddr)"

section \<open>The order of the records\<close>

interpretation ptinfo: weak_order ptinfo_less
  by unfold_locales (auto simp: ptinfo_less_def)

text \<open>Index ranges of 1024 entries are not to be written out.\<close>

declare upt_rec_numeral [simp del]

lemma upt_split: "k \<le> n \<Longrightarrow> [0..<n] = [0..<k] @ [k..<n]"
  by (metis le0 le_add_diff_inverse upt_add_eq_append)

text \<open>Directory entry and table entries of the \<open>i\<close>-th table of the upper quarter.\<close>

definition kpde :: "machine \<Rightarrow> nat \<Rightarrow> u32" where
  "kpde m i = pmem m (cr3 m) (of_nat (768 + i))"

definition kpte :: "machine \<Rightarrow> nat \<Rightarrow> nat \<Rightarrow> u32" where
  "kpte m i k = pmem m (frame_of (kpde m i)) (of_nat k)"

definition absent_entries :: "machine \<Rightarrow> nat \<Rightarrow> nat list" where
  "absent_entries m i = filter (\<lambda>k. \<not> present (kpte m i k)) [0..<1024]"

lemma kpd_window: "kpd_ptr i = window 1023 (768 + unat i)"
  by (simp add: kpd_ptr_def window_def)

lemma kpt_window: "kpt_ptr (ucast i) (of_nat k) = window (768 + unat i) k" for i :: u16
  by (simp add: kpt_ptr_def window_def)

lemma rd_kpd:
  fixes i :: u16
  assumes "recursive m" "unat i < 256"
  shows "rd32 m (kpd_ptr i) = Inr (kpde m (unat i))"
  using translate_directory [OF assms(1), of "768 + unat i"] assms(2)
  by (simp add: rd32_def kpd_window kpde_def)

lemma rd_kpt:
  fixes i :: u16
  assumes "recursive m" "unat i < 256" "k < 1024" "present (kpde m (unat i))"
  shows "rd32 m (kpt_ptr (ucast i) (of_nat k)) = Inr (kpte m (unat i) k)"
  using translate_window [OF assms(1), of "768 + unat i" k] assms(2-4)
  by (simp add: rd32_def kpt_window kpde_def kpte_def)

lemma kpt_not_big: "unat i < 256 \<Longrightarrow> kpt_ptr (ucast i) 0 AND SIZE_BIT = 0" for i :: u16
proof -
  assume i: "unat i < 256"
  have "unat (kpt_ptr (ucast i) 0) = 4290772992 + (768 + unat i) * 4096 + 0 * 4"
    using kpt_window [of i 0] unat_window [of "768 + unat i" 0] i by simp
  also have "\<dots> = 4096 * (1048320 + unat i)" by simp
  finally have "unat (kpt_ptr (ucast i) 0) div 128 = 32 * (1048320 + unat i)" by simp
  then have "\<not> bit (unat (kpt_ptr (ucast i) 0)) 7" by (simp add: bit_iff_odd)
  then have "\<not> bit (kpt_ptr (ucast i) 0) 7" by (simp add: bit_unsigned_iff)
  then show ?thesis using and_exp_eq_0_iff_not_bit [of "kpt_ptr (ucast i) 0" 7] by (simp add: SIZE_BIT_def)
qed

lemma scan_ok:
  fixes i :: u16
  assumes m: "recursive m" "unat i < 256" "present (kpde m (unat i))"
    and c: "c \<le> 1024" "1024 - c < fuel" "\<forall>k<c. present (kpte m (unat i) k)"
  shows "whileR fuel scan_guard (scan_body m i) (c, pin, False) =
    Inr (case absent_entries m (unat i) of [] \<Rightarrow> (1024, pin, False)
      | k # ks \<Rightarrow> (k, pin\<lparr>pi_free := pi_free pin + 1, pi_first_free := of_nat k\<rparr>, True))"
  using c
proof (induction fuel arbitrary: c)
  case (Suc fuel)
  show ?case
  proof (cases "c = 1024")
    case True
    then have "absent_entries m (unat i) = []" using Suc.prems(3) by (simp add: absent_entries_def filter_empty_conv)
    then show ?thesis using True by (simp add: scan_guard_def)
  next
    case False
    then have lt: "c < 1024" using Suc.prems(1) by simp
    note R = rd_kpt [OF m(1,2) lt m(3)]
    show ?thesis
    proof (cases "present (kpte m (unat i) c)")
      case True
      have "\<forall>k<Suc c. present (kpte m (unat i) k)" using True Suc.prems(3) by (simp add: less_Suc_eq)
      then have "whileR fuel scan_guard (scan_body m i) (Suc c, pin, False) =
          Inr (case absent_entries m (unat i) of [] \<Rightarrow> (1024, pin, False)
            | k # ks \<Rightarrow> (k, pin\<lparr>pi_free := pi_free pin + 1, pi_first_free := of_nat k\<rparr>, True))"
        using Suc.IH [of "Suc c"] Suc.prems(2) lt by simp
      then show ?thesis using lt True R by (simp add: scan_guard_def scan_body_def present_PRESENT)
    next
      case False
      have "[0..<1024] = [0..<c] @ c # [Suc c..<1024]"
        using lt upt_split [of c 1024] by (simp add: upt_conv_Cons [of c])
      then have "absent_entries m (unat i) = c # filter (\<lambda>k. \<not> present (kpte m (unat i) k)) [Suc c..<1024]"
        using False Suc.prems(3) by (simp add: absent_entries_def filter_empty_conv)
      moreover obtain f where "fuel = Suc f" using Suc.prems(2) lt by (cases fuel) auto
      ultimately show ?thesis using lt False R by (simp add: scan_guard_def scan_body_def present_PRESENT)
    qed
  qed
qed simp

lemma count_ok:
  fixes i :: u16
  assumes m: "recursive m" "unat i < 256" "present (kpde m (unat i))" and c: "c \<le> 1024"
  shows "forR (count_absent m i) [c..<1024] pin =
    Inr (pin\<lparr>pi_free := pi_free pin + of_nat (length (filter (\<lambda>k. \<not> present (kpte m (unat i) k)) [c..<1024]))\<rparr>)"
  using c
proof (induction c arbitrary: pin rule: inc_induct)
  case base
  then show ?case by simp
next
  case (step c)
  then show ?case using rd_kpt [OF m(1,2) step.hyps(2) m(3)]
    by (simp add: upt_conv_Cons count_absent_def present_PRESENT)
qed

lemma set_ptinfo_present:
  fixes i :: u16
  assumes "recursive m" "unat i < 255" "present (kpde m (unat i))"
  shows "set_ptinfo m i pin = Inr (case absent_entries m (unat i) of
      [] \<Rightarrow> pin\<lparr>pi_free := 0\<rparr>
    | k # ks \<Rightarrow> pin\<lparr>pi_free := of_nat (length (absent_entries m (unat i)) + 1), pi_first_free := of_nat k\<rparr>)"
proof -
  let ?a = "absent_entries m (unat i)"
  have i: "unat i < 256" "i \<noteq> 255" using assms(2) by auto
  have scan: "whileR 1025 scan_guard (scan_body m i) (0, pin\<lparr>pi_free := 0\<rparr>, False) =
      Inr (case ?a of [] \<Rightarrow> (1024, pin\<lparr>pi_free := 0\<rparr>, False)
        | k # ks \<Rightarrow> (k, pin\<lparr>pi_free := 1, pi_first_free := of_nat k\<rparr>, True))"
    using scan_ok [OF assms(1) i(1) assms(3), of 0 1025 "pin\<lparr>pi_free := 0\<rparr>"] by (simp cong: list.case_cong)
  show ?thesis
  proof (cases ?a)
    case Nil
    then show ?thesis using scan rd_kpd [OF assms(1) i(1)] kpt_not_big [OF i(1)] i(2) assms(3)
      by (simp add: set_ptinfo_def present_PRESENT)
  next
    case (Cons k ks)
    have "k \<in> set ?a" by (simp add: Cons)
    then have kk: "k < 1024" by (simp add: absent_entries_def)
    have "sorted ?a" by (simp add: absent_entries_def sorted_wrt_filter)
    then have le: "k \<le> j" if "j \<in> set ?a" for j using that Cons by auto
    have "present (kpte m (unat i) j)" if "j < k" for j
    proof (rule ccontr)
      assume "\<not> present (kpte m (unat i) j)"
      then have "j \<in> set ?a" using that kk by (simp add: absent_entries_def)
      then show False using le that by fastforce
    qed
    then have k: "k < 1024" "filter (\<lambda>k. \<not> present (kpte m (unat i) k)) [0..<k] = []"
      using kk by (simp_all add: filter_empty_conv)
    have "[0..<1024] = [0..<k] @ [k..<1024]" using k(1) by (intro upt_split) simp
    then have "filter (\<lambda>k. \<not> present (kpte m (unat i) k)) [k..<1024] = ?a"
      using k(2) by (simp add: absent_entries_def)
    then show ?thesis using Cons scan rd_kpd [OF assms(1) i(1)] kpt_not_big [OF i(1)] i(2) assms(3)
        count_ok [OF assms(1) i(1) assms(3), of k] k(1)
      by (simp add: set_ptinfo_def present_PRESENT)
  qed
qed

text \<open>
  For a table that is present \<open>set_ptinfo\<close> records one more than its free entries (the
  first free entry is counted by both loops), and the index of the first.
\<close>

theorem set_ptinfo_overcounts:
  fixes i :: u16
  assumes "recursive m" "unat i < 255" "present (kpde m (unat i))"
  shows "set_ptinfo m i pin = Inr (case absent_entries m (unat i) of
      [] \<Rightarrow> pin\<lparr>pi_free := 0\<rparr>
    | k # ks \<Rightarrow> pin\<lparr>pi_free := of_nat (length (absent_entries m (unat i)) + 1), pi_first_free := of_nat k\<rparr>)"
  using assms by (rule set_ptinfo_present)

lemma example_absent: "absent_entries example_machine 0 = filter (\<lambda>k. k \<noteq> 5) [0..<1024]"
proof -
  have d: "kpde example_machine 0 = 0x2003" by (simp add: kpde_def example_machine_def)
  have "present (kpte example_machine 0 k) \<longleftrightarrow> k = 5" if "k < 1024" for k
  proof -
    have "(of_nat k :: idx) = 5 \<longleftrightarrow> k = 5" using of_nat_idx_eq [of k 5] that by simp
    then show ?thesis
      by (simp add: kpte_def d frame_of_def) (simp add: example_machine_def present_def)
  qed
  then show ?thesis unfolding absent_entries_def by (intro filter_cong) auto
qed

lemma example_absent_length: "length (absent_entries example_machine 0) = 1023"
proof -
  have "{k. k \<noteq> 5} \<inter> set [0..<1024] = {0..<1024} - {5 :: nat}" by auto
  then have "length (filter (\<lambda>k. k \<noteq> 5) [0..<1024]) = card ({0..<1024} - {5 :: nat})"
    by (subst distinct_length_filter) simp_all
  then show ?thesis unfolding example_absent by (simp add: card_Diff_singleton)
qed

lemma example_kpde: "present (kpde example_machine 0)" "\<not> big_page (kpde example_machine 0)"
  "i < 255 \<Longrightarrow> 0 < i \<Longrightarrow> \<not> present (kpde example_machine i)"
proof -
  show "present (kpde example_machine 0)" "\<not> big_page (kpde example_machine 0)"
    by (simp_all add: kpde_def example_machine_def present_def big_page_def)
  assume i: "i < 255" "0 < i"
  have "(of_nat (768 + i) :: idx) \<noteq> of_nat 768" "(of_nat (768 + i) :: idx) \<noteq> of_nat 1023"
    "(of_nat (768 + i) :: idx) \<noteq> of_nat 0"
    using i of_nat_idx_eq [of "768 + i" 768] of_nat_idx_eq [of "768 + i" 1023] of_nat_idx_eq [of "768 + i" 0]
    by (simp_all del: of_nat_add)
  then have "kpde example_machine i = 0" unfolding kpde_def by (simp add: example_machine_def del: of_nat_add)
  then show "\<not> present (kpde example_machine i)" by (simp add: present_def)
qed

theorem set_ptinfo_overcounts_witness:
  "length (absent_entries example_machine 0) = 1023 \<and>
   set_ptinfo example_machine 0 \<lparr>pi_free = 0, pi_pdi = 0, pi_first_free = 0\<rparr> =
     Inr \<lparr>pi_free = 1024, pi_pdi = 0, pi_first_free = 0\<rparr>"
proof -
  obtain ks where "absent_entries example_machine 0 = 0 # ks"
    unfolding example_absent by (simp add: upt_conv_Cons [of 0])
  then show ?thesis
    using set_ptinfo_overcounts [OF wf_recursive [OF example_wf], of 0] example_kpde(1) example_absent_length
    by simp
qed

text \<open>The number of free entries \<open>vinit\<close> records for a table.\<close>

definition recorded_free :: "machine \<Rightarrow> nat \<Rightarrow> nat" where
  "recorded_free m i =
     (if i = 255 then 0 else if \<not> present (kpde m i) then 1024
      else if absent_entries m i = [] then 0 else length (absent_entries m i) + 1)"

lemma set_ptinfo_ok:
  fixes i :: u16
  assumes "recursive m" "unat i < 256" "pi_first_free pin = 0"
  shows "\<exists>pin'. set_ptinfo m i pin = Inr pin' \<and> pi_pdi pin' = pi_pdi pin \<and>
    pi_free pin' = of_nat (recorded_free m (unat i)) \<and> pi_first_free pin' < 1024"
proof -
  consider "i = 255" | "i \<noteq> 255" "\<not> present (kpde m (unat i))" | "i \<noteq> 255" "present (kpde m (unat i))" by blast
  then show ?thesis
  proof cases
    case 1
    then show ?thesis using assms(3) by (simp add: set_ptinfo_def recorded_free_def)
  next
    case 2
    then have "unat i \<noteq> 255" by (simp add: word_unat_eq_iff)
    then show ?thesis using 2 rd_kpd [OF assms(1,2)] kpt_not_big [OF assms(2)] assms(3)
      by (simp add: set_ptinfo_def present_PRESENT recorded_free_def)
  next
    case 3
    then have "unat i \<noteq> 255" by (simp add: word_unat_eq_iff)
    with assms(2) have i: "unat i < 255" by simp
    have "(of_nat k :: u16) < 1024" if "absent_entries m (unat i) = k # ks" for k ks
    proof -
      have "k \<in> set (absent_entries m (unat i))" using that by simp
      then have "k < 1024" by (simp add: absent_entries_def)
      then show ?thesis by (simp add: word_less_nat_alt unat_of_nat)
    qed
    then show ?thesis using set_ptinfo_present [OF assms(1) i 3(2), of pin] 3(2) i assms(3)
      by (auto simp: recorded_free_def split: list.splits)
  qed
qed

definition tables_usable :: "machine \<Rightarrow> bool" where
  "tables_usable m \<longleftrightarrow> (\<forall>i<255. present (kpde m i) \<longrightarrow> length (absent_entries m i) \<le> 1023) \<and>
     (\<exists>i<255. recorded_free m i \<noteq> 0)"

lemma recorded_bound: "tables_usable m \<Longrightarrow> i < 256 \<Longrightarrow> recorded_free m i \<le> 1024"
  by (auto simp: tables_usable_def recorded_free_def)

lemma vinit_fill:
  assumes "recursive m" "length meta = 256" "tables_usable m"
  shows "\<exists>meta'. forR (vinit_entry m) [0..<256] meta = Inr meta' \<and> length meta' = 256 \<and>
    (\<forall>i<256. pi_pdi (meta' ! i) = of_nat i \<and> pi_free (meta' ! i) = of_nat (recorded_free m i))"
proof -
  let ?I = "\<lambda>n (ms :: ptinfo list). length ms = 256 \<and> (\<forall>i<n. pi_pdi (ms ! i) = of_nat i \<and> pi_free (ms ! i) = of_nat (recorded_free m i))"
  have "\<exists>meta'. forR (vinit_entry m) [0..<256] meta = Inr meta' \<and> ?I 256 meta'"
  proof (rule forR_upt_total [where I = ?I])
    fix i and ms :: "ptinfo list" assume i: "i < 256" and I: "?I i ms"
    let ?pin = "(ms ! i)\<lparr>pi_pdi := of_nat i, pi_first_free := 0\<rparr>"
    have u: "unat (of_nat i :: u16) = i" using i by (simp add: unat_of_nat)
    obtain pin' where p: "set_ptinfo m (of_nat i) ?pin = Inr pin'" "pi_pdi pin' = of_nat i"
      "pi_free pin' = of_nat (recorded_free m i)" "pi_first_free pin' < 1024"
      using set_ptinfo_ok [OF assms(1), of "of_nat i" ?pin] i by (auto simp: u)
    have "pi_free pin' \<le> 1024"
      using recorded_bound [OF assms(3) i] p(3) by (simp add: word_le_nat_alt unat_of_nat)
    then have "vinit_entry m i ms = Inr (ms[i := pin'])"
      using p(1,4) I i by (simp add: vinit_entry_def)
    then show "\<exists>ms'. vinit_entry m i ms = Inr ms' \<and> ?I (Suc i) ms'"
      using I i p by (auto simp: nth_list_update less_Suc_eq)
  qed (use assms(2) in auto)
  then show ?thesis by blast
qed

text \<open>
  C27: when no present table is entirely empty and some table has room, \<open>vinit\<close> ends with one
  record for each of the 256 tables, in order of their free entries, and with the index of the
  first record that has any.
\<close>

theorem vinit_sorts:
  assumes "recursive (pmm_mem (vm_pmm s))" "length (vm_meta s) = 256" "tables_usable (pmm_mem (vm_pmm s))"
  shows "\<exists>s'. vinit s = Inr s' \<and> sorted (map pi_free (vm_meta s')) \<and>
    mset (map pi_pdi (vm_meta s')) = mset (map of_nat [0..<256]) \<and>
    unat (vm_first s') < 256 \<and> pi_free (vm_meta s' ! unat (vm_first s')) \<noteq> 0 \<and>
    (\<forall>k<unat (vm_first s'). pi_free (vm_meta s' ! k) = 0)"
proof -
  let ?m = "pmm_mem (vm_pmm s)"
  obtain ms where ms: "forR (vinit_entry ?m) [0..<256] (vm_meta s) = Inr ms" "length ms = 256"
    "\<forall>i<256. pi_pdi (ms ! i) = of_nat i \<and> pi_free (ms ! i) = of_nat (recorded_free ?m i)"
    using vinit_fill [OF assms] by blast
  have "ms \<noteq> []" using ms(2) by auto
  from ptinfo.shell_sort_ok [OF this] obtain meta where meta: "shell_sort ptinfo_less ms = Inr meta" "mset meta = mset ms"
    "sorted_wrt (\<lambda>x y. \<not> ptinfo_less y x) meta"
    by blast
  have len: "length meta = 256" using meta(2) ms(2) mset_eq_length by metis
  obtain i where i: "i < 255" "recorded_free ?m i \<noteq> 0" using assms(3) by (auto simp: tables_usable_def)
  have "pi_free (ms ! i) \<noteq> 0"
    using ms(3) i recorded_bound [OF assms(3), of i] by (simp add: word_unat_eq_iff unat_of_nat)
  moreover have "ms ! i \<in> set meta" using i(1) ms(2) mset_eq_setD [OF meta(2)] by simp
  ultimately obtain j where j: "j < 256" "pi_free (meta ! j) \<noteq> 0"
    using len by (auto simp: in_set_conv_nth)
  let ?b = "\<lambda>i. bindR (getR meta i) (\<lambda>pin. Inr (pi_free pin = 0 \<and> i < 256))"
  have "\<exists>n. whileR 258 ?b (\<lambda>i. Inr (i + 1)) 0 = Inr n \<and> (n \<le> j \<and> (\<forall>k<n. pi_free (meta ! k) = 0)) \<and> ?b n = Inr False"
  proof (rule whileR_total [where m = "\<lambda>i. 256 - i"])
    fix n assume n: "n \<le> j \<and> (\<forall>k<n. pi_free (meta ! k) = 0)" "?b n = Inr True"
    then have "pi_free (meta ! n) = 0" "n \<noteq> j" using j len by auto
    then show "\<exists>n'. Inr (n + 1) = Inr n' \<and> (n' \<le> j \<and> (\<forall>k<n'. pi_free (meta ! k) = 0)) \<and> 256 - n' < 256 - n"
      using n j(1) by (auto simp: less_Suc_eq)
  qed (use j len in auto)
  then obtain n where n: "whileR 258 ?b (\<lambda>i. Inr (i + 1)) 0 = Inr n" "n \<le> j"
    "\<forall>k<n. pi_free (meta ! k) = 0" "?b n = Inr False" by auto
  have un: "unat (of_nat n :: u16) = n" using n(2) j(1) by (simp add: unat_of_nat)
  have "vinit s = Inr (s\<lparr>vm_meta := meta, vm_first := of_nat n\<rparr>)"
    unfolding vinit_def ms(1) meta(1) bindR_Inr n(1) by simp
  moreover have "sorted (map pi_free meta)"
    using meta(3) by (simp add: ptinfo_less_def sorted_wrt_map not_less)
  moreover have "mset (map pi_pdi meta) = mset (map of_nat [0..<256])"
  proof -
    have "map pi_pdi ms = map of_nat [0..<256]" using ms(2,3) by (intro nth_equalityI) auto
    moreover have "mset (map pi_pdi meta) = mset (map pi_pdi ms)" using meta(2) by simp
    ultimately show ?thesis by simp
  qed
  ultimately show ?thesis using n j len un by auto
qed

lemma example_usable_tables: "tables_usable example_machine"
proof -
  have "length (absent_entries example_machine i) \<le> 1023" if "i < 255" "present (kpde example_machine i)" for i
    using that example_kpde(3) [of i] example_absent_length by (cases "i = 0") auto
  moreover have "absent_entries example_machine 0 \<noteq> []" using example_absent_length by auto
  then have "recorded_free example_machine 0 \<noteq> 0" by (simp add: recorded_free_def)
  ultimately show ?thesis unfolding tables_usable_def by (intro conjI exI [of _ 0]) auto
qed

theorem vinit_sorts_witness:
  "\<exists>s'. vinit \<lparr>vm_cp = 0xC0005000, vm_pmm = example_pmm, vm_first = 0,
       vm_meta = replicate 256 \<lparr>pi_free = 0, pi_pdi = 0, pi_first_free = 0\<rparr>\<rparr> = Inr s' \<and>
     sorted (map pi_free (vm_meta s')) \<and> unat (vm_first s') < 256"
  using vinit_sorts [of "\<lparr>vm_cp = 0xC0005000, vm_pmm = example_pmm, vm_first = 0,
      vm_meta = replicate 256 \<lparr>pi_free = 0, pi_pdi = 0, pi_first_free = 0\<rparr>\<rparr>"]
    example_usable_tables wf_recursive [OF example_wf] by (auto simp: example_pmm_def)

section \<open>Keeping the records in order\<close>

lemma bubble_ok:
  assumes len: "length meta = 256" "i < 256"
    and rest: "\<And>a b. a < b \<Longrightarrow> b < 256 \<Longrightarrow> a \<noteq> i \<Longrightarrow> b \<noteq> i \<Longrightarrow> pi_free (meta ! a) \<le> pi_free (meta ! b)"
    and below: "\<And>a. a < i \<Longrightarrow> pi_free (meta ! a) \<le> pi_free (meta ! i)"
  shows "\<exists>j meta'. whileR 257 bubble_guard bubble_body (i, meta) = Inr (j, meta') \<and>
    mset meta' = mset meta \<and> sorted (map pi_free meta')"
proof -
  let ?I = "\<lambda>(i, ms). length ms = 256 \<and> i < 256 \<and> mset ms = mset meta \<and>
    (\<forall>a b. a < b \<longrightarrow> b < 256 \<longrightarrow> a \<noteq> i \<longrightarrow> b \<noteq> i \<longrightarrow> pi_free (ms ! a) \<le> pi_free (ms ! b)) \<and>
    (\<forall>a<i. pi_free (ms ! a) \<le> pi_free (ms ! i))"
  have "\<exists>t. whileR 257 bubble_guard bubble_body (i, meta) = Inr t \<and> ?I t \<and> bubble_guard t = Inr False"
  proof (rule whileR_total [where m = "\<lambda>(i, ms). 256 - i"])
    show "?I (i, meta)" using assms by auto
  next
    fix s assume "?I s"
    then show "\<exists>t. bubble_guard s = Inr t" by (auto simp: bubble_guard_def)
  next
    fix s assume I: "?I s" and g: "bubble_guard s = Inr True"
    obtain p ms where s: "s = (p, ms)" by (cases s)
    have p: "p + 1 < 256" "pi_free (ms ! (p + 1)) < pi_free (ms ! p)"
      using I g by (auto simp: s bubble_guard_def ptinfo_less_def split: if_splits)
    let ?ms = "ms[p + 1 := ms ! p, p := ms ! (p + 1)]"
    have "bubble_body s = Inr (p + 1, ?ms)" using I p(1) by (simp add: s bubble_body_def)
    moreover have "mset ?ms = mset ms" using I p(1) mset_swap [of p ms "p + 1"] by (simp add: s)
    moreover have "pi_free (?ms ! a) \<le> pi_free (?ms ! b)" if "a < b" "b < 256" "a \<noteq> p + 1" "b \<noteq> p + 1" for a b
      using that I p by (auto simp: s nth_list_update)
    moreover have "pi_free (?ms ! a) \<le> pi_free (?ms ! (p + 1))" if "a < p + 1" for a
      using that I p by (auto simp: s nth_list_update less_Suc_eq)
    ultimately show "\<exists>s'. bubble_body s = Inr s' \<and> ?I s' \<and>
        (case s' of (i, ms) \<Rightarrow> 256 - i) < (case s of (i, ms) \<Rightarrow> 256 - i)"
      using I p(1) by (intro exI [of _ "(p + 1, ?ms)"]) (auto simp: s)
  qed auto
  then obtain j ms where W: "whileR 257 bubble_guard bubble_body (i, meta) = Inr (j, ms)" "?I (j, ms)"
    "bubble_guard (j, ms) = Inr False" by auto
  have above: "pi_free (ms ! j) \<le> pi_free (ms ! b)" if b: "j < b" "b < 256" for b
  proof -
    have "pi_free (ms ! j) \<le> pi_free (ms ! (j + 1))"
      using W(2,3) b by (auto simp: bubble_guard_def ptinfo_less_def split: if_splits)
    also have "\<dots> \<le> pi_free (ms ! b)" using W(2) b by (cases "b = j + 1") auto
    finally show ?thesis .
  qed
  have "pi_free (ms ! a) \<le> pi_free (ms ! b)" if "a < b" "b < 256" for a b
    using that W(2) above by (cases "a = j"; cases "b = j") auto
  then have "sorted (map pi_free ms)"
    using W(2) by (auto simp: sorted_iff_nth_mono_less)
  then show ?thesis using W(1,2) by auto
qed

definition records_ok :: "ptinfo list \<Rightarrow> bool" where
  "records_ok meta \<longleftrightarrow> length meta = 256 \<and> sorted (map pi_free meta) \<and>
     (\<forall>p\<in>set meta. pi_free p \<le> 1024) \<and> mset (map pi_pdi meta) = mset (map of_nat [0..<256])"

text \<open>
  C26: whatever page \<open>vfree\<close> frees, when it returns the records are still one per table, in
  order of their free entries, none with more than 1024.
\<close>

theorem vfree_keeps_order:
  assumes "records_ok (vm_meta s)" "vfree s v = Inr s'"
  shows "records_ok (vm_meta s')"
proof -
  let ?pdi = "drop_bit 22 v - 768" and ?pti = "drop_bit 12 v AND 0x3FF"
  have fm: "vm_meta t' = vm_meta t" if "free_mapped t w = Inr t'" for t w t'
    using that by (auto simp: free_mapped_def elim!: bindR_InrE split: prod.splits)
  obtain i where i: "get_idx (vm_meta s) ?pdi = Inr i" and i': "getR (vm_meta s) (unat i) = Inr (vm_meta s ! unat i)"
    "unat i < 256"
    using assms by (auto simp: vfree_def Let_def records_ok_def getR_eq_Inr elim!: bindR_InrE)
  let ?pin0 = "vm_meta s ! unat i"
  let ?pin1 = "snd (vfree_hint i ?pdi ?pti (vm_first s) ?pin0)"
  have hint: "pi_free ?pin1 = pi_free ?pin0" "pi_pdi ?pin1 = pi_pdi ?pin0" by (simp_all add: vfree_hint_def)
  have le: "pi_free ?pin0 \<le> 1024" using assms(1) i'(2) by (simp add: records_ok_def)
  then have up: "pi_free ?pin0 \<le> pi_free ?pin0 + 1"
    by (simp add: word_le_nat_alt unat_word_ariths)
  let ?k = "\<lambda>(s, pin). bindR (setR (vm_meta s) (unat i) pin) (\<lambda>meta.
    bindR (whileR 257 bubble_guard bubble_body (unat i, meta)) (\<lambda>(i, meta). Inr (s\<lparr>vm_meta := meta\<rparr>)))"
  let ?pin2 = "?pin1\<lparr>pi_free := pi_free ?pin1 + 1\<rparr>"
  have "bindR (free_mapped (s\<lparr>vm_first := fst (vfree_hint i ?pdi ?pti (vm_first s) ?pin0)\<rparr>) v) (\<lambda>s.
      bindR (if pi_free ?pin2 = 1024
             then bindR (free_mapped s (kpt_ptr ?pdi 0)) (\<lambda>s. Inr (s, ?pin2\<lparr>pi_first_free := 0\<rparr>))
             else bindR (assertR (\<not> pi_free ?pin2 > 1024)) (\<lambda>_. Inr (s, ?pin2))) ?k) = Inr s'"
    using assms(2) unfolding vfree_def Let_def i bindR_Inr i'(1) by (simp add: case_prod_beta)
  then obtain s1 where s1: "free_mapped (s\<lparr>vm_first := fst (vfree_hint i ?pdi ?pti (vm_first s) ?pin0)\<rparr>) v = Inr s1"
    and r1: "bindR (if pi_free ?pin2 = 1024
             then bindR (free_mapped s1 (kpt_ptr ?pdi 0)) (\<lambda>s. Inr (s, ?pin2\<lparr>pi_first_free := 0\<rparr>))
             else bindR (assertR (\<not> pi_free ?pin2 > 1024)) (\<lambda>_. Inr (s1, ?pin2))) ?k = Inr s'"
    by (rule bindR_InrE)
  from r1 obtain x where x: "?k x = Inr s'" "(if pi_free ?pin2 = 1024
             then bindR (free_mapped s1 (kpt_ptr ?pdi 0)) (\<lambda>s. Inr (s, ?pin2\<lparr>pi_first_free := 0\<rparr>))
             else bindR (assertR (\<not> pi_free ?pin2 > 1024)) (\<lambda>_. Inr (s1, ?pin2))) = Inr x"
    by (rule bindR_InrE)
  obtain s2 pin where sp: "x = (s2, pin)" by (cases x)
  note r2 = x(1) [unfolded sp] and c = x(2) [unfolded sp]
  have m1: "vm_meta s1 = vm_meta s" using fm [OF s1] by simp
  have pin: "pi_free pin = pi_free ?pin0 + 1" "pi_pdi pin = pi_pdi ?pin0" "pi_free pin \<le> 1024"
    and m2: "vm_meta s2 = vm_meta s"
    using c hint m1 by (auto split: if_splits elim!: bindR_InrE dest!: fm simp: assertR_def not_less)
  have w: "\<exists>j. whileR 257 bubble_guard bubble_body (unat i, (vm_meta s)[unat i := pin]) = Inr (j, vm_meta s')"
    using r2 i'(2) assms(1) by (auto simp: m2 records_ok_def elim!: bindR_InrE split: prod.splits)
  let ?ms = "(vm_meta s)[unat i := pin]"
  have ord: "pi_free (vm_meta s ! a) \<le> pi_free (vm_meta s ! b)" if "a < b" "b < 256" for a b
    using assms(1) that by (simp add: records_ok_def sorted_iff_nth_mono)
  have "\<exists>j meta'. whileR 257 bubble_guard bubble_body (unat i, ?ms) = Inr (j, meta') \<and>
      mset meta' = mset ?ms \<and> sorted (map pi_free meta')"
  proof (rule bubble_ok)
    fix a assume "a < unat i"
    then show "pi_free (?ms ! a) \<le> pi_free (?ms ! unat i)"
      using ord [of a "unat i"] i'(2) pin(1) up assms(1) by (auto simp: records_ok_def intro: order_trans)
  qed (use assms(1) i'(2) ord in \<open>auto simp: records_ok_def\<close>)
  then have M: "mset (vm_meta s') = mset ?ms" "sorted (map pi_free (vm_meta s'))" using w by auto
  have l: "length (vm_meta s') = 256" using M(1) assms(1) mset_eq_length by (fastforce simp: records_ok_def)
  have "set (vm_meta s') \<subseteq> insert pin (set (vm_meta s))"
    using mset_eq_setD [OF M(1)] set_update_subset_insert by metis
  then have "\<forall>p\<in>set (vm_meta s'). pi_free p \<le> 1024" using assms(1) pin(3) by (auto simp: records_ok_def)
  moreover have "map pi_pdi ?ms = map pi_pdi (vm_meta s)"
    using pin(2) by (simp add: map_update list_update_same_conv)
      (metis list_update_id map_update)
  then have "mset (map pi_pdi (vm_meta s')) = mset (map pi_pdi (vm_meta s))" using M(1) by (metis mset_map)
  ultimately show ?thesis using M(2) l assms(1) by (simp add: records_ok_def)
qed

section \<open>Allocation\<close>

lemma valloc_addr_parts:
  assumes "d < 256" "k < 1024"
  shows "pdi_of (valloc_addr (of_nat d) (of_nat k)) = of_nat (768 + d)"
    "pti_of (valloc_addr (of_nat d) (of_nat k)) = of_nat k"
proof -
  let ?v = "valloc_addr (of_nat d) (of_nat k)"
  have up: "unat (ucast (of_nat d :: u16) :: u32) = d" "unat (ucast (of_nat k :: u16) :: u32) = k"
    using assms by (simp_all add: unat_of_nat)
  have shift: "unat (push_bit 22 x) = e * 4194304" if "unat x = e" "e < 1024" for x :: u32 and e
    using that by (simp add: push_bit_eq_mult unat_word_ariths)
  have "unat (ucast (of_nat d :: u16) + 768 :: u32) = d + 768"
    using up(1) assms(1) by (subst unat_add_nowrap) simp_all
  then have "unat (push_bit 22 (ucast (of_nat d :: u16) + 768 :: u32)) = (d + 768) * 4194304"
    by (rule shift) (use assms(1) in simp)
  moreover have "unat (push_bit 12 (ucast (of_nat k :: u16) :: u32)) = k * 4096"
    using assms(2) up(2) by (simp add: push_bit_eq_mult unat_word_ariths)
  ultimately have u: "unat ?v = (d + 768) * 4194304 + k * 4096"
    using assms unfolding valloc_addr_def by (subst unat_add_nowrap) simp_all
  have "unat ?v = k * 4096 + 4194304 * (768 + d)" unfolding u by simp
  then have "unat ?v div 4194304 = k * 4096 div 4194304 + (768 + d)" by (simp only: div_mult_self2)
  moreover have "k * 4096 div 4194304 = 0" using assms(2) by (intro div_less) linarith
  ultimately have "unat ?v div 4194304 = 768 + d" by (simp only: add_0)
  moreover have "unat (of_nat (768 + d) :: idx) = 768 + d" using assms(1) by (simp only: unat_of_nat) simp
  ultimately show "pdi_of ?v = of_nat (768 + d)" by (simp only: word_unat_eq_iff unat_pdi)
  have "unat ?v = 4096 * (k + 1024 * (768 + d))" unfolding u by simp
  then have "unat ?v div 4096 = k + 1024 * (768 + d)" by (simp only: nonzero_mult_div_cancel_left)
  then have "unat ?v div 4096 mod 1024 = k" using assms(2) by (simp only: mod_mult_self2 mod_less)
  moreover have "unat (of_nat k :: idx) = k" using assms(2) by (simp only: unat_of_nat) simp
  ultimately show "pti_of ?v = of_nat k" by (simp only: word_unat_eq_iff unat_pti)
qed

text \<open>Mapping a page other than the window's leaves the page allocator's memory as it was.\<close>

lemma pmm_env_set_pte:
  assumes "pmm_env cp D T W m" "has_table m v" "\<not> same_page v cp"
  shows "pmm_env cp D T W (set_pte m v e)"
proof -
  note E = pmm_envD [OF assms(1)]
  note W = set_pte_wf [OF E(1) assms(2)]
  have "pte_of (set_pte m v e) cp = pte_of m cp"
  proof (cases "table_of m v = table_of m cp")
    case True
    have "pdi_of v = pdi_of cp"
      using wf_tables_inj [OF E(1)] assms(2) E(4) True by (auto simp: has_table_def table_of_def)
    then have "pti_of v \<noteq> pti_of cp" using assms(3) by (simp add: same_page_def)
    then show ?thesis by (simp add: pte_of_def W(3)) (simp add: set_pte_def)
  next
    case False
    then show ?thesis by (simp add: pte_of_def W(3)) (auto simp: set_pte_def)
  qed
  then show ?thesis using assms(1) W set_pte_directory [OF E(1) assms(2)] by (simp add: pmm_env_def)
qed

lemma next_absent_ok:
  fixes pdi :: u16
  assumes "recursive m" "unat pdi < 256" "present (kpde m (unat pdi))"
    and "1 \<le> k" "k \<le> 1024" "\<forall>j. 1 \<le> j \<longrightarrow> j < k \<longrightarrow> present (kpte m (unat pdi) j)"
    and "k < 1024 \<longrightarrow> \<not> present (kpte m (unat pdi) k)"
  shows "next_absent m pdi = Inr k"
proof -
  let ?b = "\<lambda>pti. if pti < 1024 then bindR (rd32 m (kpt_ptr (ucast pdi) (of_nat pti)))
         (\<lambda>e. Inr (e AND PRESENT \<noteq> 0)) else Inr False"
  have g: "?b j = Inr (present (kpte m (unat pdi) j))" if "j < 1024" for j
    using rd_kpt [OF assms(1,2) that assms(3)] that by (simp add: present_PRESENT)
  have "whileR (1025 - j) ?b (\<lambda>pti. Inr (pti + 1)) j = Inr k" if "1 \<le> j" "j \<le> k" for j
    using that(2,1)
  proof (induction j rule: inc_induct)
    case base
    have "1025 - k = Suc (1024 - k)" using assms(5) by simp
    then show ?case using g [of k] assms(7) by (cases "k < 1024") simp_all
  next
    case (step j)
    then have "1025 - j = Suc (1025 - Suc j)" using assms(5) by simp
    then show ?case using g [of j] step assms(5,6) by simp
  qed
  from this [of 1] show ?thesis using assms(4) by (simp add: next_absent_def)
qed

text \<open>
  An allocator whose first usable record is for the present table \<open>d\<close>, with \<open>n\<close> free entries
  recorded of which \<open>k\<close> is the first, in a memory where the page allocator can run.
\<close>

definition valloc_ready :: "vmem \<Rightarrow> nat \<Rightarrow> nat \<Rightarrow> nat \<Rightarrow> frame \<Rightarrow> frame \<Rightarrow> frame \<Rightarrow> bool" where
  "valloc_ready s d k n D T W \<longleftrightarrow>
     (let i = unat (vm_first s); pin = vm_meta s ! i; m = pmm_mem (vm_pmm s) in
      i < 256 \<and> length (vm_meta s) = 256 \<and> pi_pdi pin = of_nat d \<and> pi_first_free pin = of_nat k \<and>
      pi_free pin = of_nat n \<and> d < 255 \<and> k < 1024 \<and> n \<le> 1024 \<and>
      pmm_env (vm_cp s) D T W m \<and> present (kpde m d) \<and> \<not> big_page (kpde m d))"

lemma valloc_step:
  assumes R: "valloc_ready s d k n D T W" and n: "2 \<le> n"
    and p: "pmm_pfree (vm_pmm s) \<noteq> 0" "unat (pmm_pidx (vm_pmm s)) mod 1024 \<noteq> 1023"
    and k': "1 \<le> k'" "k' \<le> 1024" "\<forall>j. 1 \<le> j \<longrightarrow> j < k' \<longrightarrow> present (kpte (pmm_mem (vm_pmm s)) d j)"
    "k' < 1024 \<longrightarrow> \<not> present (kpte (pmm_mem (vm_pmm s)) d k')"
  defines "m \<equiv> pmm_mem (vm_pmm s)" and "v \<equiv> valloc_addr (of_nat d) (of_nat k)" and "i \<equiv> unat (vm_first s)"
  defines "page \<equiv> pmem m W (of_nat (unat (pmm_pidx (vm_pmm s)) mod 1024))"
  shows "has_table m v \<and> valloc s = Inr (v, s\<lparr>vm_pmm := (vm_pmm s)\<lparr>
      pmm_mem := set_pte m v (page OR (2 AND PT_FLAGS_MASK) OR PRESENT),
      pmm_pidx := pmm_pidx (vm_pmm s) + 1, pmm_pfree := pmm_pfree (vm_pmm s) - 1\<rparr>,
    vm_meta := (vm_meta s)[i := (vm_meta s ! i)\<lparr>pi_free := of_nat (n - 1), pi_first_free := of_nat k'\<rparr>]\<rparr>)"
proof -
  let ?pin = "vm_meta s ! i" and ?p = "vm_pmm s"
  have S: "i < 256" "length (vm_meta s) = 256" "pi_pdi ?pin = of_nat d" "pi_first_free ?pin = of_nat k"
    "pi_free ?pin = of_nat n" "d < 255" "k < 1024" "n \<le> 1024" "pmm_env (vm_cp s) D T W m"
    "present (kpde m d)" "\<not> big_page (kpde m d)"
    using R by (simp_all add: valloc_ready_def Let_def m_def i_def)
  note E = pmm_envD [OF S(9)]
  have ud: "unat (of_nat d :: u16) = d" "unat (of_nat k :: u16) = k" "unat (of_nat n :: u16) = n"
    using S(6,7,8) by (simp_all add: unat_of_nat)
  have parts: "pdi_of v = of_nat (768 + d)" "pti_of v = of_nat k"
    using valloc_addr_parts [of d k] S(6,7) by (simp_all add: v_def)
  have ht: "has_table m v"
  proof -
    have "(of_nat (768 + d) :: idx) \<noteq> 1023" using S(6) of_nat_idx_eq [of "768 + d" 1023] by simp
    then show ?thesis using S(10,11) parts by (simp add: has_table_def kpde_def)
  qed
  have alloc: "pmm_alloc_ppage (vm_cp s) ?p =
      Inr (page, ?p\<lparr>pmm_pidx := pmm_pidx ?p + 1, pmm_pfree := pmm_pfree ?p - 1\<rparr>)"
    using rd_slot [OF S(9), of "pmm_pidx ?p"] p by (simp add: pmm_alloc_ppage_def and_1023 page_def m_def)
  have map: "pt_map m page v 2 = Inr (pte_of m v, set_pte m v (page OR (2 AND PT_FLAGS_MASK) OR PRESENT))"
    using pt_map_eq [OF E(2)] ht by (simp add: has_table_def)
  have nxt: "next_absent m (of_nat d) = Inr k'"
    using next_absent_ok [OF E(2), of "of_nat d" k'] S(6,10) k' by (simp add: ud m_def)
  have pde: "rd32 m (kpd_ptr (of_nat d)) = Inr (kpde m d)"
    using rd_kpd [OF E(2), of "of_nat d"] S(6) by (simp add: ud)
  have n1: "pi_free ?pin - 1 = of_nat (n - 1)" "(of_nat (n - 1) :: u16) \<noteq> 0" "pi_free ?pin \<noteq> 0" "pi_free ?pin \<noteq> 1"
  proof -
    show "pi_free ?pin - 1 = of_nat (n - 1)" using n S(5) by (simp add: of_nat_diff)
    have "unat (of_nat (n - 1) :: u16) = n - 1" using S(8) by (simp add: unat_of_nat)
    then show "(of_nat (n - 1) :: u16) \<noteq> 0" using n by auto
    show "pi_free ?pin \<noteq> 0" "pi_free ?pin \<noteq> 1" using n S(5) ud(3) by auto
  qed
  have first: "\<not> vm_first s > 255" using S(1) by (simp add: i_def word_less_nat_alt)
  have lt: "pi_first_free ?pin < 1024" using S(4,7) ud(2) by (simp add: word_less_nat_alt)
  let ?meta = "(vm_meta s)[i := ?pin\<lparr>pi_free := of_nat (n - 1)\<rparr>]"
  have upd: "update_first_free (s\<lparr>vm_meta := ?meta\<rparr>) (vm_first s) (of_nat d) =
      Inr (s\<lparr>vm_meta := (vm_meta s)[i := ?pin\<lparr>pi_free := of_nat (n - 1), pi_first_free := of_nat k'\<rparr>]\<rparr>)"
    using S(1,2,10) pde nxt by (simp add: update_first_free_def present_PRESENT i_def [symmetric] m_def [symmetric])
  have "valloc s = Inr (v, s\<lparr>vm_pmm := ?p\<lparr>
      pmm_mem := set_pte m v (page OR (2 AND PT_FLAGS_MASK) OR PRESENT),
      pmm_pidx := pmm_pidx ?p + 1, pmm_pfree := pmm_pfree ?p - 1\<rparr>,
    vm_meta := (vm_meta s)[i := ?pin\<lparr>pi_free := of_nat (n - 1), pi_first_free := of_nat k'\<rparr>]\<rparr>)"
    using first S(1,2) n1 lt upd alloc map
    by (simp add: valloc_def Let_def i_def [symmetric] S(3,4) v_def [symmetric] map_new_page_def m_def [symmetric])
  then show ?thesis using ht by simp
qed


definition example_vmem :: vmem where
  "example_vmem = \<lparr>vm_cp = 0xC0005000, vm_pmm = example_pmm, vm_first = 0,
     vm_meta = replicate 256 \<lparr>pi_free = 1000, pi_pdi = 0, pi_first_free = 1\<rparr>\<rparr>"

lemma example_valloc_ready: "valloc_ready example_vmem 0 1 1000 1 2 3"
  using example_env example_kpde(1,2) unfolding valloc_ready_def Let_def
  by (simp add: example_vmem_def example_pmm_def)

lemma example_entry1: "\<not> present (kpte example_machine 0 1)"
  by (simp add: kpte_def kpde_def example_machine_def frame_of_def present_def)




text \<open>Freeing a page of a table with five free entries, all others having seven.\<close>

definition example_records :: "ptinfo list" where
  "example_records = map (\<lambda>i. \<lparr>pi_free = (if i = 0 then 5 else 7), pi_pdi = of_nat i, pi_first_free = 1\<rparr>) [0..<256]"

definition example_vmem2 :: vmem where
  "example_vmem2 = \<lparr>vm_cp = 0xC0005000,
     vm_pmm = example_pmm\<lparr>pmm_mem := set_pte example_machine 0xC0006000 0x9003\<rparr>,
     vm_first = 0, vm_meta = example_records\<rparr>"

lemma example_records_ok: "records_ok example_records"
proof -
  have "sorted (map pi_free example_records)"
    by (simp add: example_records_def sorted_iff_nth_mono)
  moreover have "map pi_pdi example_records = map of_nat [0..<256]" by (simp add: example_records_def)
  moreover have "length example_records = 256" "\<forall>p\<in>set example_records. pi_free p \<le> 1024"
    by (auto simp: example_records_def)
  ultimately show ?thesis unfolding records_ok_def by metis
qed

lemma example_vfree: "\<exists>s'. vfree example_vmem2 0xC0006000 = Inr s'"
proof -
  let ?v = "0xC0006000 :: u32" and ?m = "set_pte example_machine 0xC0006000 0x9003"
  have ht: "has_table example_machine ?v"
    by (simp add: has_table_def example_machine_def present_def big_page_def pdi_of_def)
  have env: "pmm_env 0xC0005000 1 2 3 example_machine" using example_env by (simp add: example_pmm_def)
  have apart: "\<not> same_page ?v 0xC0005000" by (simp add: same_page_def pti_of_def)
  have env1: "pmm_env 0xC0005000 1 2 3 ?m" by (rule pmm_env_set_pte [OF env ht apart])
  note W = set_pte_wf [OF example_wf ht, of "0x9003"]
  have ht1: "has_table ?m ?v" using W(2) ht by simp
  obtain m3 page where un: "pt_unmap ?m ?v = Inr (page, m3)" and env3: "pmm_env 0xC0005000 1 2 3 m3"
    using pt_unmap_eq [OF wf_recursive [OF W(1)], of ?v] ht1 pmm_env_set_pte [OF env1 ht1 apart]
    by (auto simp: has_table_def)
  have free: "free_mapped example_vmem2 ?v = Inr (example_vmem2\<lparr>vm_pmm := example_pmm\<lparr>pmm_pidx := 6,
      pmm_mem := put_word m3 3 6 page, pmm_pfree := 8\<rparr>\<rparr>)"
    using un wr_slot [OF env3, of 6 page]
    by (simp add: free_mapped_def example_vmem2_def pmm_free_ppage_def example_pmm_def Let_def)
  have recs: "example_records ! 0 = \<lparr>pi_free = 5, pi_pdi = 0, pi_first_free = 1\<rparr>"
    "example_records ! 1 = \<lparr>pi_free = 7, pi_pdi = 1, pi_first_free = 1\<rparr>" "length example_records = 256"
    by (simp_all add: example_records_def)
  have idx: "get_idx example_records 0 = Inr 0"
    using recs by (simp add: get_idx_def upt_conv_Cons [of 0])
  let ?ms = "example_records[0 := \<lparr>pi_free = 6, pi_pdi = 0, pi_first_free = 1\<rparr>]"
  have "bubble_guard (0, ?ms) = Inr False" using recs by (simp add: bubble_guard_def ptinfo_less_def)
  then have "whileR (Suc 256) bubble_guard bubble_body (0, ?ms) = Inr (0, ?ms)"
    by (simp only: whileR.simps bindR_Inr if_False)
  then have bub: "whileR 257 bubble_guard bubble_body (0, ?ms) = Inr (0, ?ms)" by simp
  have hint: "vfree_hint 0 0 6 0 \<lparr>pi_free = 5, pi_pdi = 0, pi_first_free = 1\<rparr> =
      (0, \<lparr>pi_free = 5, pi_pdi = 0, pi_first_free = 1\<rparr>)" by (simp add: vfree_hint_def)
  have sel: "vm_meta example_vmem2 = example_records" "vm_first example_vmem2 = 0"
    "example_vmem2\<lparr>vm_first := 0\<rparr> = example_vmem2" by (simp_all add: example_vmem2_def)
  show ?thesis
    unfolding vfree_def Let_def using recs bub
    by (simp add: sel idx hint free)
qed

theorem vfree_keeps_order_witness:
  "\<exists>s'. vfree example_vmem2 0xC0006000 = Inr s' \<and> records_ok (vm_meta s')"
proof -
  obtain s' where "vfree example_vmem2 0xC0006000 = Inr s'" using example_vfree by blast
  moreover have "records_ok (vm_meta example_vmem2)" using example_records_ok by (simp add: example_vmem2_def)
  ultimately show ?thesis using vfree_keeps_order by blast
qed

end
