(* ===== verification/Acpi.thy ===== *)
theory Acpi
  imports C_Util Vmalloc
begin

text \<open>
  The search for the ACPI root pointer in stage 3 (\<open>stage3/x86/acpi.c\<close>). The low memory
  the BIOS leaves its tables in is mapped one to one and read as bytes; \<open>sig\<close> is the address
  of the string \<open>rsdp_sig\<close>.
\<close>

section \<open>Model\<close>

definition EBDA_START :: u32 where "EBDA_START = 0x80000"
definition EBDA_END :: u32 where "EBDA_END = 0xA0000"
definition BIOS_START :: u32 where "BIOS_START = 0xE0000"
definition BIOS_END :: u32 where "BIOS_END = 0x100000"
definition ACPI_VERSION_1 :: u8 where "ACPI_VERSION_1 = 0"

text \<open>The offsets of \<open>Revision\<close> and \<open>RsdtAddress\<close> in \<open>struct RSDP\<close>, and its size: it is packed.\<close>

definition RSDP_Revision :: u32 where "RSDP_Revision = 8 + 1 + 6"
definition RSDP_RsdtAddress :: u32 where "RSDP_RsdtAddress = 8 + 1 + 6 + 1"
definition SIZEOF_RSDP :: u32 where "SIZEOF_RSDP = 8 + 1 + 6 + 1 + 4"

text \<open>One of the two loops; the state is the pointer and whether the function has returned it.\<close>

definition scan_rsdp :: "bytes \<Rightarrow> u32 \<Rightarrow> u32 \<Rightarrow> u32 \<Rightarrow> (u32 \<times> bool) res" where
  "scan_rsdp m sig start stop =
     whileR 8194 (\<lambda>(i, found). Inr (\<not> found \<and> i < stop))
       (\<lambda>(i, found). Inr (if stage3_memcmp m i sig 8 = 0 then (i, True) else (i + 0x10, False))) (start, False)"

definition find_rsdp :: "bytes \<Rightarrow> u32 \<Rightarrow> u32 res" where
  "find_rsdp m sig =
     bindR (scan_rsdp m sig EBDA_START EBDA_END) (\<lambda>(i, found).
     if found then Inr i
     else bindR (scan_rsdp m sig BIOS_START BIOS_END) (\<lambda>(i, found).
       Inr (if found then i else 0)))"

definition checksum :: "bytes \<Rightarrow> u32 \<Rightarrow> u32 \<Rightarrow> u8" where
  "checksum m block n = fold (\<lambda>i csum. csum + m (block + of_nat i)) [0..<unat n] 0"

definition acpi_init_fixed :: "bytes \<Rightarrow> u32 \<Rightarrow> vmem \<Rightarrow> (u32 \<times> vmem) res" where
  "acpi_init_fixed m sig s =
     bindR (find_rsdp m sig) (\<lambda>rsdp.
     bindR (assertR (rsdp \<noteq> 0)) (\<lambda>_.
     bindR (assertR (m (rsdp + RSDP_Revision) = ACPI_VERSION_1)) (\<lambda>_.
     bindR (assertR (checksum m rsdp SIZEOF_RSDP = 0)) (\<lambda>_.
     bindR (vmap s (ld32 m (rsdp + RSDP_RsdtAddress)) 4096) (\<lambda>(rsdt, s).
     Inr (1, s))))))"

section \<open>The search\<close>

text \<open>A signature at an address, and the addresses where one may be, in order.\<close>

definition sig_at :: "bytes \<Rightarrow> u32 \<Rightarrow> u32 \<Rightarrow> bool" where
  "sig_at m sig p \<longleftrightarrow> list_all (\<lambda>k. m (p + of_nat k) = m (sig + of_nat k)) [0..<8]"

definition rsdp_places :: "u32 list" where
  "rsdp_places = map (\<lambda>k. 0x80000 + 16 * of_nat k) [0..<8192] @ map (\<lambda>k. 0xE0000 + 16 * of_nat k) [0..<8192]"

lemma memcmp_sig: "stage3_memcmp m p sig 8 = 0 \<longleftrightarrow> sig_at m sig p"
  by (auto simp: stage3_memcmp_def memcmp_eq_0 sig_at_def list_all_iff)

lemma scan_rsdp_find:
  assumes start: "unat start + 16 * 8192 = unat stop" "unat stop < 4294967296"
  shows "\<exists>i. scan_rsdp m sig start stop =
    Inr (case find (sig_at m sig) (map (\<lambda>k. start + 16 * of_nat k) [0..<8192]) of None \<Rightarrow> (i, False) | Some p \<Rightarrow> (p, True))"
proof -
  let ?a = "\<lambda>k. start + 16 * of_nat k :: u32"
  let ?I = "\<lambda>(i, found). \<exists>k\<le>8192. i = ?a k \<and> (\<forall>j<k. \<not> sig_at m sig (?a j)) \<and> (found \<longrightarrow> k < 8192 \<and> sig_at m sig (?a k))"
  let ?m = "\<lambda>(i, found). (unat stop - unat i) div 16 + (if found then 0 else 1 :: nat)"
  have u: "unat (?a k) = unat start + 16 * k" if "k \<le> 8192" for k
  proof -
    have "unat (of_nat (16 * k) :: u32) = 16 * k" using that by (intro unat_of_nat32) simp
    moreover have "unat start + 16 * k < 2 ^ LENGTH(32)" using that start by simp
    ultimately have "unat (start + of_nat (16 * k)) = unat start + 16 * k" by (metis unat_add_nowrap)
    then show ?thesis by simp
  qed
  have lt: "?a k < stop \<longleftrightarrow> k < 8192" if "k \<le> 8192" for k using u [OF that] start by (simp add: word_less_nat_alt) linarith
  have "\<exists>t. scan_rsdp m sig start stop = Inr t \<and> ?I t \<and> (\<lambda>(i, found). Inr (\<not> found \<and> i < stop)) t = (Inr False :: bool res)"
    unfolding scan_rsdp_def
  proof (rule whileR_total [where I = ?I and m = ?m])
    show "?I (start, False)" by (intro case_prodI exI [of _ 0]) simp
    show "?m (start, False) < 8194" using start by simp
  next
    fix s :: "u32 \<times> bool" assume I: "?I s" and g: "(\<lambda>(i, found). Inr (\<not> found \<and> i < stop)) s = (Inr True :: bool res)"
    obtain i where s: "s = (i, False)" "i < stop" using g by (cases s) auto
    obtain k where k: "k \<le> 8192" "i = ?a k" "\<forall>j<k. \<not> sig_at m sig (?a j)" using I s(1) by auto
    then have k': "k < 8192" using lt [OF k(1)] s(2) by simp
    show "\<exists>s'. (\<lambda>(i, found). Inr (if stage3_memcmp m i sig 8 = 0 then (i, True) else (i + 0x10, False))) s = Inr s' \<and> ?I s' \<and> ?m s' < ?m s"
    proof (cases "sig_at m sig i")
      case True
      then have "?I (i, True)" using k k' by blast
      then show ?thesis using True unfolding s(1) by (intro exI [of _ "(i, True)"]) (simp add: memcmp_sig)
    next
      case False
      have n: "i + 16 = ?a (Suc k)" using k(2) by (simp add: algebra_simps)
      have "?I (i + 16, False)" unfolding n using k k' False by (auto simp: less_Suc_eq intro!: exI [of _ "Suc k"])
      moreover have "?m (i + 16, False) < ?m s" unfolding s(1) n using u [of "Suc k"] u [of k] k k' start by (simp add: k(2))
      ultimately show ?thesis using False unfolding s(1) by (intro exI [of _ "(i + 16, False)"]) (simp add: memcmp_sig)
    qed
  qed (auto split: prod.splits)
  then obtain i found where r: "scan_rsdp m sig start stop = Inr (i, found)" "?I (i, found)" "found \<or> \<not> i < stop" by auto
  then obtain k where k: "k \<le> 8192" "i = ?a k" "\<forall>j<k. \<not> sig_at m sig (?a j)" "found \<longrightarrow> k < 8192 \<and> sig_at m sig (?a k)" by auto
  show ?thesis
  proof (cases found)
    case True
    have "find (sig_at m sig) (map ?a [0..<8192]) = Some (?a k)"
      unfolding find_Some_iff using True k by (intro exI [of _ k]) simp
    then show ?thesis using r(1) True k(2) by simp
  next
    case False
    then have "k = 8192" using r(3) k lt [OF k(1)] by auto
    then have "find (sig_at m sig) (map ?a [0..<8192]) = None" unfolding find_None_iff using k(3) by auto
    then show ?thesis using r(1) False by auto
  qed
qed

text \<open>
  \<open>find_rsdp\<close> returns the first of the 16384 addresses, on 16-byte boundaries of the two
  BIOS areas, where the eight bytes of the signature are, and NULL when they are nowhere.
\<close>

lemma find_rsdp_first:
  "find_rsdp m sig = Inr (case find (sig_at m sig) rsdp_places of None \<Rightarrow> 0 | Some p \<Rightarrow> p)"
proof -
  have f: "find P (xs @ ys) = (case find P xs of None \<Rightarrow> find P ys | Some p \<Rightarrow> Some p)" for P and xs ys :: "u32 list"
    by (induction xs) auto
  obtain i j where
    "scan_rsdp m sig EBDA_START EBDA_END =
      Inr (case find (sig_at m sig) (map (\<lambda>k. 0x80000 + 16 * of_nat k) [0..<8192]) of None \<Rightarrow> (i, False) | Some p \<Rightarrow> (p, True))"
    "scan_rsdp m sig BIOS_START BIOS_END =
      Inr (case find (sig_at m sig) (map (\<lambda>k. 0xE0000 + 16 * of_nat k) [0..<8192]) of None \<Rightarrow> (j, False) | Some p \<Rightarrow> (p, True))"
    using scan_rsdp_find [of EBDA_START EBDA_END m sig] scan_rsdp_find [of BIOS_START BIOS_END m sig]
    unfolding EBDA_START_def EBDA_END_def BIOS_START_def BIOS_END_def by auto
  then show ?thesis unfolding find_rsdp_def rsdp_places_def f by (simp split: option.split)
qed

lemma checksum_sum: "unat (checksum m block n) = (\<Sum>i<unat n. unat (m (block + of_nat i))) mod 256"
proof -
  have "checksum m block n = of_nat (\<Sum>i<unat n. unat (m (block + of_nat i)))"
  proof -
    have "fold (\<lambda>i csum. csum + m (block + of_nat i)) [0..<k] 0 = of_nat (\<Sum>i<k. unat (m (block + of_nat i)))" for k
      by (induction k) simp_all
    then show ?thesis by (simp only: checksum_def)
  qed
  then show ?thesis by (simp only: unat_of_nat) simp
qed

text \<open>
  C35: \<open>acpi_init_fixed\<close> stops the kernel unless the first structure with the signature is of
  ACPI 1.0 and its 20 bytes add up to 0 modulo 256; then it maps the page of the root table.
\<close>

theorem acpi_init_checks:
  "acpi_init_fixed m sig s =
    (case find (sig_at m sig) rsdp_places of None \<Rightarrow> Inl Panic
     | Some p \<Rightarrow> if m (p + 15) = 0 \<and> (\<Sum>i<20. unat (m (p + of_nat i))) mod 256 = 0
         then bindR (vmap s (ld32 m (p + 16)) 4096) (\<lambda>(rsdt, s). Inr (1, s)) else Inl Panic)"
proof -
  have nz: "p \<noteq> 0" if "find (sig_at m sig) rsdp_places = Some p" for p
  proof -
    have "p \<in> set rsdp_places" using that by (auto simp: find_Some_iff)
    then obtain k where k: "k < 8192" "p = 0x80000 + 16 * of_nat k \<or> p = 0xE0000 + 16 * of_nat k" by (auto simp: rsdp_places_def)
    have "unat (of_nat (0x80000 + 16 * k) :: u32) = 0x80000 + 16 * k" "unat (of_nat (0xE0000 + 16 * k) :: u32) = 0xE0000 + 16 * k"
      using k(1) by (intro unat_of_nat32; simp)+
    then show ?thesis using k(2) by auto
  qed
  have c: "checksum m p SIZEOF_RSDP = 0 \<longleftrightarrow> (\<Sum>i<20. unat (m (p + of_nat i))) mod 256 = 0" for p
  proof -
    have "unat SIZEOF_RSDP = 20" by (simp add: SIZEOF_RSDP_def)
    then show ?thesis unfolding word_unat_eq_iff checksum_sum by simp
  qed
  have o: "p + RSDP_Revision = p + 15" "p + RSDP_RsdtAddress = p + 16" for p
    by (simp_all add: RSDP_Revision_def RSDP_RsdtAddress_def)
  show ?thesis unfolding acpi_init_fixed_def find_rsdp_first bindR_Inr o
    by (auto simp: c nz ACPI_VERSION_1_def assertR_def split: option.split)
qed

text \<open>A stray signature in front of the real structure is not passed over: \<open>find_rsdp\<close> checks no sum.\<close>

lemma acpi_stray_signature:
  assumes "find (sig_at m sig) rsdp_places = Some p" "m (p + 15) \<noteq> 0"
  shows "acpi_init_fixed m sig s = Inl Panic"
  using assms by (simp add: acpi_init_fixed_def find_rsdp_first RSDP_Revision_def ACPI_VERSION_1_def assertR_def)

end
