(* ===== verification/Kernel_Main.thy ===== *)
theory Kernel_Main
  imports Gdt Mtrr Acpi E820
begin

text \<open>
  The test kernel (\<open>stage3/kmain.cpp\<close>): printing over the serial port, the set-up of the
  interrupts, the report of the memory map, and \<open>kmain\<close> itself, which drives every
  other component of stage 3.
\<close>

section \<open>Model: printing\<close>

text \<open>
  A round of the loop of \<open>kprint\<close>: the rest of the text, its length, the port and the trace.
  \<open>halt\<close> waits for an interrupt, and only that of the first serial port is enabled.
\<close>

type_synonym kprint_state = "u8 list \<times> u16 \<times> serial \<times> io_event list"

definition ser_kprint_body :: "kprint_state \<Rightarrow> kprint_state res" where
  "ser_kprint_body = (\<lambda>(str, n, s, io).
     bindR (ser_write s str (ucast n)) (\<lambda>(sent, s, io1).
     bindR (if sent = 0 then com1_isr s else Inr (s, [])) (\<lambda>(s, io2).
     Inr (drop (unat sent) str, n - ucast sent, s, io @ io1 @ io2))))"

definition ser_kprint :: "serial \<Rightarrow> u8 list \<Rightarrow> u16 \<Rightarrow> (serial \<times> io_event list) res" where
  "ser_kprint s str n =
     bindR (whileR 65537 (\<lambda>(str, n, s, io). Inr (n > 0)) ser_kprint_body (str, n, s, [])) (\<lambda>(str, n, s, io). Inr (s, io))"

text \<open>\<open>kprint(str, strlen(str))\<close> for a string in memory.\<close>

definition kprint_str :: "bytes \<Rightarrow> u32 \<Rightarrow> serial \<Rightarrow> (serial \<times> io_event list) res" where
  "kprint_str m str s =
     bindR (stage3_strlen m str) (\<lambda>n.
     let n = ucast n :: u16 in ser_kprint s (map (\<lambda>k. m (str + of_nat k)) [0..<unat n]) n)"

section \<open>Model: the memory map report\<close>

text \<open>The line in the buffer \<open>str\<close>, which holds that of the entry before it.\<close>

definition report_line :: "bytes \<Rightarrow> u32 \<Rightarrow> SMAP32 \<Rightarrow> bytes" where
  "report_line m str e =
     (let m = stage3_hextostr m (sm32_base e) (str + 3);
          m = stage3_hextostr m (sm32_length e) (str + 16)
      in m(str + 27 := 48 + ucast (sm32_type e)))"

text \<open>\<open>irqs i\<close> is the number of interrupts of the serial port taken before line \<open>i\<close>.\<close>

definition report_step :: "(nat \<Rightarrow> nat) \<Rightarrow> u32 \<Rightarrow> SMAP32 list \<Rightarrow> nat \<Rightarrow> bytes \<times> serial \<times> io_event list \<Rightarrow>
    (bytes \<times> serial \<times> io_event list) res" where
  "report_step irqs str e820 i = (\<lambda>(m, s, io).
     bindR (com1_isrs (irqs i) s) (\<lambda>(s, io1).
     bindR (getR e820 i) (\<lambda>e.
     let m = report_line m str e in
     bindR (kprint_str m str s) (\<lambda>(s, io2). Inr (m, s, io @ io1 @ io2)))))"

definition kmain_report :: "(nat \<Rightarrow> nat) \<Rightarrow> bytes \<Rightarrow> u32 \<Rightarrow> u32 \<Rightarrow> SMAP32 list \<Rightarrow> nat \<Rightarrow> serial \<Rightarrow>
    (bytes \<times> serial \<times> io_event list) res" where
  "kmain_report irqs m header str e820 e820_size s =
     bindR (kprint_str m header s) (\<lambda>(s, io). forR (report_step irqs str e820) [0..<e820_size] (m, s, io))"

section \<open>Model: interrupts\<close>

definition kmain_interrupts :: "(nat \<Rightarrow> u32) \<Rightarrow> u32 \<Rightarrow> u32 \<Rightarrow> u32 \<Rightarrow> u32 \<Rightarrow> tables \<Rightarrow> (tables \<times> io_event list) res" where
  "kmain_interrupts stub table com1 irq7 irq15 t =
     bindR (IDT_init stub table t) (\<lambda>t.
     let io = pic_init 0x20 @ pic_irqmask (0xFFFF AND NOT (push_bit (unat PIC_COM1) 1)) in
     bindR (IDT_setIRQ t 0x24 com1 IRQ_INT) (\<lambda>t.
     bindR (IDT_setIRQ t 0x27 irq7 IRQ_INT) (\<lambda>t.
     bindR (IDT_setIRQ t 0x2F irq15 IRQ_INT) (\<lambda>t.
     Inr (t, io)))))"

section \<open>Printing\<close>

lemma ser_kprint_fits:
  assumes "ser_inv s" "length (ser_queue s) + length data < 64" "unat (hdr_head (ser_hdr s)) + length data < 32768" "data \<noteq> []"
  shows "\<exists>s'. ser_kprint s data (of_nat (length data)) =
      Inr (s', rep_outsb (ser_port s) (if ser_fifo_empty s \<noteq> 0 then take 16 (ser_queue s @ data) else [])) \<and>
    ser_inv s' \<and> ser_port s' = ser_port s \<and>
    ser_queue s' = (if ser_fifo_empty s \<noteq> 0 then drop 16 else id) (ser_queue s @ data) \<and>
    unat (hdr_head (ser_hdr s')) = unat (hdr_head (ser_hdr s)) + length data"
proof -
  let ?n = "of_nat (length data) :: u16"
  obtain s' where w: "ser_write s data (of_nat (length data)) = Inr (of_nat (length data), s',
      rep_outsb (ser_port s) (if ser_fifo_empty s \<noteq> 0 then take 16 (ser_queue s @ data) else []))"
    "ser_inv s'" "ser_port s' = ser_port s"
    "ser_queue s' = (if ser_fifo_empty s \<noteq> 0 then drop 16 else id) (ser_queue s @ data)"
    "unat (hdr_head (ser_hdr s')) = unat (hdr_head (ser_hdr s)) + length data"
    using ser_write_fits [OF assms(1-3)] by blast
  have l: "0 < length data" "length data < 64" using assms(2,4) by simp_all
  have un: "unat ?n = length data" using l by (simp only: unat_of_nat) simp
  have u: "(ucast ?n :: u32) = of_nat (length data)" "ucast (of_nat (length data) :: u32) = ?n"
    "unat (of_nat (length data) :: u32) = length data" "(of_nat (length data) :: u32) \<noteq> 0" "0 < ?n"
  proof -
    show "unat (of_nat (length data) :: u32) = length data" using l by (intro unat_of_nat32) simp
    then show "(of_nat (length data) :: u32) \<noteq> 0" using l by auto
    show "(ucast ?n :: u32) = of_nat (length data)" "ucast (of_nat (length data) :: u32) = ?n"
      using un \<open>unat (of_nat (length data) :: u32) = length data\<close> l
      by (simp_all add: word_unat_eq_iff unsigned_ucast_eq take_bit_eq_mod del: unsigned_of_nat)
    show "0 < ?n" using un l by (simp add: word_less_nat_alt)
  qed
  obtain k where k: "65537 = Suc (Suc k)" using that [of 65535] by simp
  show ?thesis unfolding ser_kprint_def k using w l by (simp add: ser_kprint_body_def u)
qed

lemma ser_kprint_overrun:
  assumes "ser_inv s" "length (ser_queue s) \<le> 62" "64 \<le> length (ser_queue s) + unat n"
  shows "ser_kprint s data n = Inl OutOfBounds"
proof -
  have un: "unat n < 65536" using unsigned_less [of n, where ?'a = nat] by simp
  have u: "unat (ucast n :: u32) = unat n" by simp
  then have "sint (ucast n :: u32) = int (unat n)" using un by (subst sint_small32) simp_all
  then have "64 - int (length (ser_queue s)) \<le> sint (ucast n :: u32)" using assms(3) by linarith
  then have "ser_write s data (ucast n) = Inl OutOfBounds" using assms(1,2) ser_write_overrun by blast
  moreover have "0 < n" using assms(2,3) by (simp add: word_less_nat_alt)
  moreover obtain k where k: "65537 = Suc k" using that [of 65536] by simp
  ultimately show ?thesis unfolding ser_kprint_def k by (simp add: ser_kprint_body_def)
qed

text \<open>
  C31: with at most 62 bytes queued, and as long as the ring's write counter does not pass 32767,
  \<open>kprint\<close> either queues the whole text in one write, starting an idle transmitter, or, when
  the ring has no room for all of it, runs out of the ring's array: it never gets to the
  second round of its loop.
\<close>

theorem kprint_all_or_fault:
  assumes "ser_inv s" "length (ser_queue s) \<le> 62" "0 < length data" "length data < 65536"
    and "unat (hdr_head (ser_hdr s)) + length data < 32768"
  shows "if length (ser_queue s) + length data < 64
    then \<exists>s'. ser_kprint s data (of_nat (length data)) =
        Inr (s', rep_outsb (ser_port s) (if ser_fifo_empty s \<noteq> 0 then take 16 (ser_queue s @ data) else [])) \<and> ser_inv s' \<and>
      ser_queue s' = (if ser_fifo_empty s \<noteq> 0 then drop 16 else id) (ser_queue s @ data)
    else ser_kprint s data (of_nat (length data)) = Inl OutOfBounds"
proof -
  have "unat (of_nat (length data) :: u16) = length data" using assms(4) by (simp only: unat_of_nat) simp
  then show ?thesis using ser_kprint_fits [OF assms(1) _ assms(5)] ser_kprint_overrun [OF assms(1,2), of "of_nat (length data)" data] assms(3)
    by (auto simp: not_less)
qed

theorem kprint_all_or_fault_witness:
  "ser_kprint ser_example (replicate 64 0x2E) 64 = Inl OutOfBounds \<and>
   (\<exists>s'. ser_kprint ser_example [0x48, 0x69] 2 = Inr (s', []) \<and> ser_queue s' = [0x48, 0x69])"
  using kprint_all_or_fault [of ser_example "replicate 64 0x2E"] kprint_all_or_fault [of ser_example "[0x48, 0x69]"]
  by (auto simp: ser_example_inv ser_example_hdr hdr_head_def rep_outsb_def)

section \<open>The memory map report\<close>

text \<open>The initial value of \<open>str\<close>, and a line: its fields filled in.\<close>

definition line_template :: "u8 list" where
  "line_template = bytes_of '' 0x00000000 | 0x0009FC00 | 1'' @ [13, 10]"

definition hex_char :: "u32 \<Rightarrow> nat \<Rightarrow> u8" where
  "hex_char x k = hex_digits ! (unat x div 16 ^ (7 - k) mod 16)"

definition line_char :: "SMAP32 \<Rightarrow> nat \<Rightarrow> u8" where
  "line_char e k =
     (if 3 \<le> k \<and> k < 11 then hex_char (sm32_base e) (k - 3)
      else if 16 \<le> k \<and> k < 24 then hex_char (sm32_length e) (k - 16)
      else if k = 27 then 48 + ucast (sm32_type e) else line_template ! k)"

definition line_text :: "SMAP32 \<Rightarrow> u8 list" where
  "line_text e = map (line_char e) [0..<30]"

text \<open>The buffer holds the fixed characters of the line and its NUL.\<close>

definition line_buffer :: "bytes \<Rightarrow> u32 \<Rightarrow> bool" where
  "line_buffer m str \<longleftrightarrow> m (str + 30) = 0 \<and>
     (\<forall>k<30. (k < 3 \<or> 11 \<le> k \<and> k < 16 \<or> 24 \<le> k \<and> k \<noteq> 27) \<longrightarrow> m (str + of_nat k) = line_template ! k)"

lemma offset_diff: "i < 4294967296 \<Longrightarrow> j \<le> i \<Longrightarrow> unat (str + of_nat i - (str + of_nat j) :: u32) = i - j"
proof -
  assume "i < 4294967296" "j \<le> i"
  moreover from this have "(str + of_nat i - (str + of_nat j) :: u32) = of_nat (i - j)" by (simp add: of_nat_diff)
  ultimately show ?thesis by (simp only: unat_of_nat32)
qed

lemma hextostr_char:
  assumes "k < 8"
  shows "hextostr m x out (out + of_nat k) = hex_char x k"
proof -
  have e: "out + of_nat k = out + (7 - of_nat (7 - k))" using assms by (simp add: of_nat_diff)
  moreover have "unat (out + of_nat k - out) = k" using assms by (simp add: unat_of_nat32)
  moreover have "7 - k < 8" by simp
  ultimately show ?thesis unfolding hextostr_def hex_loop [OF order_refl] hex_char_def by auto
qed

lemma hextostr_at:
  assumes "i < 64" "j < 32"
  shows "hextostr m x (str + of_nat j) (str + of_nat i) = (if j \<le> i \<and> i < j + 8 then hex_char x (i - j) else m (str + of_nat i))"
proof (cases "j \<le> i \<and> i < j + 8")
  case True
  then have "str + of_nat j + of_nat (i - j) = str + of_nat i" "i - j < 8" by (simp_all add: of_nat_diff less_diff_conv2)
  then show ?thesis using hextostr_char [of "i - j" m x "str + of_nat j"] True by metis
next
  case False
  have "8 \<le> unat (str + of_nat i - (str + of_nat j) :: u32)"
  proof (cases "j \<le> i")
    case True
    then show ?thesis using offset_diff [of i j str] False assms by simp
  next
    case False
    have "unat (str + of_nat i - (str + of_nat j) :: u32) = 4294967296 - (j - i)"
    proof -
      have "(str + of_nat i - (str + of_nat j) :: u32) = of_nat (4294967296 - (j - i))"
        using False assms by (simp add: of_nat_diff)
      moreover have "4294967296 - (j - i) < (4294967296 :: nat)" using False by simp
      ultimately show ?thesis by (simp only: unat_of_nat32)
    qed
    then show ?thesis using assms by simp
  qed
  then show ?thesis using hextostr_elsewhere False by auto
qed

lemma report_line_at:
  assumes "line_buffer m str" "i < 31"
  shows "report_line m str e (str + of_nat i) = (if i = 30 then 0 else line_char e i)"
proof -
  have "27 = i" if "(27 :: u32) = of_nat i"
  proof -
    have "unat (27 :: u32) = unat (of_nat i :: u32)" using that by (rule arg_cong)
    moreover have "unat (of_nat i :: u32) = i" using assms(2) by (intro unat_of_nat32) simp
    ultimately show ?thesis by (simp del: unsigned_of_nat)
  qed
  then have c: "(str + 27 = str + of_nat i) = (i = 27)" by auto
  have s: "str + 3 = str + of_nat 3" "str + 16 = str + of_nat 16" by simp_all
  have "report_line m str e (str + of_nat i) = (if i = 27 then 48 + ucast (sm32_type e)
      else if 16 \<le> i \<and> i < 24 then hex_char (sm32_length e) (i - 16)
      else if 3 \<le> i \<and> i < 11 then hex_char (sm32_base e) (i - 3) else m (str + of_nat i))"
  proof -
    have "i < 64" "(3 :: nat) < 32" "(16 :: nat) < 32" using assms(2) by simp_all
    note at = hextostr_at [OF \<open>i < 64\<close> \<open>16 < 32\<close>] hextostr_at [OF \<open>i < 64\<close> \<open>3 < 32\<close>]
    show ?thesis unfolding report_line_def stage3_hextostr_def Let_def s fun_upd_apply at
      using c by (auto simp: eq_commute [of _ "str + 27"])
  qed
  then show ?thesis using assms by (auto simp: line_char_def line_buffer_def)
qed

lemma line_char_nonzero:
  assumes "i < 30" "unat (sm32_type e) < 10"
  shows "line_char e i \<noteq> 0"
proof -
  have "0 \<notin> set hex_digits" by (simp add: hex_digits_def)
  moreover have "length hex_digits = 16" by (simp add: hex_digits_def)
  ultimately have "hex_char x k \<noteq> 0" for x k unfolding hex_char_def by (metis mod_less_divisor nth_mem zero_less_numeral)
  moreover have "(48 + ucast (sm32_type e) :: u8) \<noteq> 0"
  proof -
    have "unat (ucast (sm32_type e) :: u8) = unat (sm32_type e)"
      using assms(2) by (simp add: unsigned_ucast_eq take_bit_eq_mod)
    then have "unat (48 + ucast (sm32_type e) :: u8) = 48 + unat (sm32_type e)" using assms(2) by (subst unat_add_nowrap) simp_all
    then show ?thesis by auto
  qed
  moreover have "length line_template = 30" "0 \<notin> set line_template" by (simp_all add: line_template_def bytes_of_def)
  then have "line_template ! i \<noteq> 0" using assms(1) by (metis nth_mem)
  ultimately show ?thesis by (simp add: line_char_def)
qed

lemma report_line_ok:
  assumes "line_buffer m str" "unat (sm32_type e) < 10"
  shows "line_buffer (report_line m str e) str" "string_at (report_line m str e) str 30"
    "map (\<lambda>k. report_line m str e (str + of_nat k)) [0..<30] = line_text e"
proof -
  note at = report_line_at [OF assms(1)]
  show "line_buffer (report_line m str e) str"
    unfolding line_buffer_def using at [of 30] at by (auto simp: line_char_def)
  show "string_at (report_line m str e) str 30"
    unfolding string_at_def using at [of 30] at line_char_nonzero [OF _ assms(2)] by simp
  show "map (\<lambda>k. report_line m str e (str + of_nat k)) [0..<30] = line_text e"
    unfolding line_text_def using at by simp
qed

lemma kprint_str_eq:
  assumes "string_at m str k" "k < 65536"
  shows "kprint_str m str s = ser_kprint s (map (\<lambda>j. m (str + of_nat j)) [0..<k]) (of_nat k)"
proof -
  have "(ucast (of_nat k :: u32) :: u16) = of_nat k"
    using assms(2) by (simp add: word_unat_eq_iff unsigned_ucast_eq take_bit_eq_mod unat_of_nat32 unat_of_nat del: unsigned_of_nat)
  moreover have "unat (of_nat k :: u16) = k" using assms(2) by (simp only: unat_of_nat) simp
  ultimately show ?thesis by (simp add: kprint_str_def stage3_strlen_def strlen_at [OF assms(1)])
qed

text \<open>What is sent during a print, followed by what is left, is what was queued and the text.\<close>

lemma ser_kprint_ok:
  assumes "ser_inv s" "data \<noteq> []" "length (ser_queue s) + length data < 64"
    and "unat (hdr_head (ser_hdr s)) + length data < 32768"
  shows "\<exists>s' io. ser_kprint s data (of_nat (length data)) = Inr (s', io) \<and> ser_inv s' \<and> ser_port s' = ser_port s \<and>
    length (ser_queue s') < 64 \<and> unat (hdr_head (ser_hdr s')) = unat (hdr_head (ser_hdr s)) + length data \<and>
    sent_to (ser_port s) io @ ser_queue s' = ser_queue s @ data"
proof -
  from ser_kprint_fits [OF assms(1,3,4,2)]
  obtain s' where "ser_kprint s data (of_nat (length data)) =
      Inr (s', rep_outsb (ser_port s) (if ser_fifo_empty s \<noteq> 0 then take 16 (ser_queue s @ data) else []))"
    "ser_inv s'" "ser_port s' = ser_port s"
    "ser_queue s' = (if ser_fifo_empty s \<noteq> 0 then drop 16 else id) (ser_queue s @ data)"
    "unat (hdr_head (ser_hdr s')) = unat (hdr_head (ser_hdr s)) + length data" by auto
  moreover have "take 16 q @ drop 16 q = q" for q :: "u8 list" by simp
  ultimately show ?thesis using assms(3) by (auto simp del: take_append drop_append)
qed

lemma kprint_str_ok:
  assumes "ser_inv s" "string_at m str k" "0 < k" "length (ser_queue s) + k < 64" "unat (hdr_head (ser_hdr s)) + k < 32768"
  shows "\<exists>s' io. kprint_str m str s = Inr (s', io) \<and> ser_inv s' \<and> ser_port s' = ser_port s \<and>
    length (ser_queue s') < 64 \<and> unat (hdr_head (ser_hdr s')) = unat (hdr_head (ser_hdr s)) + k \<and>
    sent_to (ser_port s) io @ ser_queue s' = ser_queue s @ map (\<lambda>j. m (str + of_nat j)) [0..<k]"
  using ser_kprint_ok [of s "map (\<lambda>j. m (str + of_nat j)) [0..<k]"] kprint_str_eq [OF assms(2), of s] assms by simp

definition report_ok :: "u16 \<Rightarrow> u32 \<Rightarrow> u8 list \<Rightarrow> nat \<Rightarrow> bytes \<times> serial \<times> io_event list \<Rightarrow> bool" where
  "report_ok port str printed head = (\<lambda>(m, s, io). ser_inv s \<and> ser_port s = port \<and> line_buffer m str \<and>
     length (ser_queue s) < 64 \<and> unat (hdr_head (ser_hdr s)) = head \<and> sent_to port io @ ser_queue s = printed)"

lemma report_step_ok:
  assumes "report_ok port str printed head w" "port \<noteq> 0x20" "2 \<le> irqs i" "i < length e820"
    and "unat (sm32_type (e820 ! i)) < 10" "head + 30 < 32768"
  shows "\<exists>w'. report_step irqs str e820 i w = Inr w' \<and>
    report_ok port str (printed @ line_text (e820 ! i)) (head + 30) w'"
proof -
  obtain m s io where w: "w = (m, s, io)" by (cases w)
  then have s: "ser_inv s" "ser_port s = port" "line_buffer m str" "length (ser_queue s) < 64"
    "unat (hdr_head (ser_hdr s)) = head" "sent_to port io @ ser_queue s = printed"
    using assms(1) by (simp_all add: report_ok_def)
  obtain s1 io1 where s1: "com1_isrs (irqs i) s = Inr (s1, io1)" "ser_inv s1" "ser_port s1 = port"
    "hdr_head (ser_hdr s1) = hdr_head (ser_hdr s)" "sent_to port io1 = take (16 * irqs i) (ser_queue s)"
    "ser_queue s1 = drop (16 * irqs i) (ser_queue s)"
    using com1_isrs_ok [OF s(1), of "irqs i"] s(2) assms(2) by auto
  note L = report_line_ok [OF s(3) assms(5)]
  have "length (ser_queue s1) + 30 < 64" using s1(6) s(4) assms(3) by simp
  then obtain s2 io2 where s2: "kprint_str (report_line m str (e820 ! i)) str s1 = Inr (s2, io2)" "ser_inv s2"
    "ser_port s2 = port" "length (ser_queue s2) < 64" "unat (hdr_head (ser_hdr s2)) = head + 30"
    "sent_to port io2 @ ser_queue s2 = ser_queue s1 @ line_text (e820 ! i)"
    using kprint_str_ok [OF s1(2) L(2)] L(3) s1(3,4) s(5) assms(6) by auto
  have "sent_to port io1 @ ser_queue s1 = ser_queue s" using s1(5,6) by simp
  then have "sent_to port (io @ io1 @ io2) @ ser_queue s2 = printed @ line_text (e820 ! i)"
    using s2(6) unfolding s(6) [symmetric] sent_to_simps by (metis append_assoc)
  then show ?thesis using s1(1) s2 L(1) assms(4) by (simp add: w report_step_def report_ok_def Let_def)
qed

text \<open>
  On an initialised port, with a NUL-terminated header and a line buffer holding the fixed
  characters, \<open>kmain\<close> prints the header and one line per entry of the memory map, with
  the entry's base, length and type, in order and nothing lost, as long as at least two
  transmitter interrupts are taken before each line.
\<close>

lemma kmain_report_in_order:
  assumes "ser_inv s" "ser_port s = port" "port \<noteq> 0x20" "string_at m header h" "0 < h" "length (ser_queue s) + h < 64"
    and "line_buffer m str" "n \<le> length e820" "\<And>i. i < n \<Longrightarrow> 2 \<le> irqs i" "\<And>i. i < n \<Longrightarrow> unat (sm32_type (e820 ! i)) < 10"
    and "unat (hdr_head (ser_hdr s)) + h + 30 * n < 32768"
  shows "\<exists>m' s' io. kmain_report irqs m header str e820 n s = Inr (m', s', io) \<and> ser_inv s' \<and> ser_port s' = port \<and>
    sent_to port io @ ser_queue s' =
      ser_queue s @ map (\<lambda>j. m (header + of_nat j)) [0..<h] @ concat (map line_text (take n e820))"
proof -
  let ?p = "ser_queue s @ map (\<lambda>j. m (header + of_nat j)) [0..<h]" and ?h = "unat (hdr_head (ser_hdr s)) + h"
  obtain s1 io1 where s1: "kprint_str m header s = Inr (s1, io1)" "ser_inv s1" "ser_port s1 = port"
    "length (ser_queue s1) < 64" "unat (hdr_head (ser_hdr s1)) = ?h" "sent_to port io1 @ ser_queue s1 = ?p"
    using kprint_str_ok [OF assms(1,4,5,6)] assms(2,11) by auto
  let ?I = "\<lambda>i. report_ok port str (?p @ concat (map line_text (take i e820))) (?h + 30 * i)"
  have "?I 0 (m, s1, io1)" using s1 assms(7) by (simp add: report_ok_def)
  then have "\<exists>w'. forR (report_step irqs str e820) [0..<n] (m, s1, io1) = Inr w' \<and> ?I n w'"
  proof (rule forR_upt_total)
    fix i w assume i: "i < n" "?I i w"
    have "i < length e820" "?h + 30 * i + 30 < 32768" using i(1) assms(8,11) by simp_all
    then show "\<exists>w'. report_step irqs str e820 i w = Inr w' \<and> ?I (Suc i) w'"
      using report_step_ok [where i = i and ?e820.0 = e820 and irqs = irqs, OF i(2) assms(3) assms(9) [OF i(1)] _ assms(10) [OF i(1)]]
      by (simp add: take_Suc_conv_app_nth algebra_simps)
  qed simp
  then show ?thesis using s1(1) by (auto simp: kmain_report_def report_ok_def)
qed

definition example_strings :: "u8 list" where
  "example_strings = bytes_of '' Base       | Length     | Type'' @ [13, 10, 0] @ line_template @ [0]"

definition example_memory :: bytes where
  "example_memory a = (if unat a < length example_strings then example_strings ! unat a else 0)"

lemma example_memory_at:
  "k < 65 \<Longrightarrow> example_memory (of_nat k) = example_strings ! k"
proof -
  assume k: "k < 65"
  then have "unat (of_nat k :: u32) = k" by (intro unat_of_nat32) simp
  moreover have "length example_strings = 65" by (simp add: example_strings_def line_template_def bytes_of_def)
  ultimately show ?thesis using k unfolding example_memory_def by presburger
qed

lemma example_strings_nth:
  "length line_template = 30" "example_strings ! 33 = 0" "k < 33 \<Longrightarrow> example_strings ! k \<noteq> 0"
  "example_strings ! (34 + k) = (line_template @ [0]) ! k"
proof -
  define h where "h = bytes_of '' Base       | Length     | Type'' @ [13, 10]"
  have l: "length h = 33" "0 \<notin> set h" by (simp_all add: h_def bytes_of_def)
  have s: "example_strings = h @ 0 # line_template @ [0]" by (simp add: example_strings_def h_def)
  show "length line_template = 30" by (simp add: line_template_def bytes_of_def)
  show "example_strings ! 33 = 0" "example_strings ! (34 + k) = (line_template @ [0]) ! k"
    using l by (simp_all add: s nth_append)
  show "k < 33 \<Longrightarrow> example_strings ! k \<noteq> 0" using l unfolding s by (metis nth_append nth_mem)
qed

lemma example_report:
  "string_at example_memory 0 33" "line_buffer example_memory 34"
proof -
  have "example_memory (of_nat 33) = 0" using example_memory_at [of 33] example_strings_nth(2) by simp
  moreover have "example_memory (of_nat k) \<noteq> 0" if "k < 33" for k
    using that example_memory_at [of k] example_strings_nth(3) [of k] by simp
  ultimately show "string_at example_memory 0 33" by (simp add: string_at_def)
  have m: "example_memory (34 + of_nat k) = (line_template @ [0]) ! k" if "k < 31" for k
  proof -
    have "34 + of_nat k = (of_nat (34 + k) :: u32)" by simp
    moreover have "34 + k < 65" using that by simp
    ultimately show ?thesis using example_memory_at [of "34 + k"] example_strings_nth(4) [of k] by metis
  qed
  have "example_memory (34 + 30) = 0" using m [of 30] example_strings_nth(1) by (simp add: nth_append)
  moreover have "example_memory (34 + of_nat k) = line_template ! k" if "k < 30" for k
    using m [of k] that example_strings_nth(1) by (simp add: nth_append)
  ultimately show "line_buffer example_memory 34" unfolding line_buffer_def by blast
qed

section \<open>Interrupts\<close>

text \<open>
  What the controllers make of the bytes sent to them: the first byte sent to a data port is
  the vector of its line 0, the last one the mask of its lines.
\<close>

definition irq_port :: "nat \<Rightarrow> u16" where
  "irq_port irq = (if irq < 8 then PIC1_DATA else PIC2_DATA)"

definition irq_vector :: "io_event list \<Rightarrow> nat \<Rightarrow> u8" where
  "irq_vector io irq = hd (sent_to (irq_port irq) io) + of_nat (irq mod 8)"

definition irq_enabled :: "io_event list \<Rightarrow> nat \<Rightarrow> bool" where
  "irq_enabled io irq \<longleftrightarrow> \<not> bit (last (sent_to (irq_port irq) io)) (irq mod 8)"

lemma kmain_pic:
  fixes io
  defines "io \<equiv> pic_init 0x20 @ pic_irqmask (0xFFFF AND NOT (push_bit (unat PIC_COM1) 1))"
  shows "sent_to PIC1_DATA io = [0x20, 4, 1, 0xEF]" "sent_to PIC2_DATA io = [0x28, 2, 1, 0xFF]"
  unfolding io_def by (simp_all add: pic_init_def pic_irqmask_def pic_ports io_wait_def PIC_COM1_def)

lemma bits_EF: "n < 8 \<Longrightarrow> bit (0xEF :: u8) n = (n \<noteq> 4)" and bits_FF: "n < 8 \<Longrightarrow> bit (0xFF :: u8) n"
proof -
  assume "n < 8"
  then have "n \<in> {0, 1, 2, 3, 4, 5, 6, 7}" by auto
  then show "bit (0xEF :: u8) n = (n \<noteq> 4)" and "bit (0xFF :: u8) n" by auto
qed

text \<open>
  C22: after the set-up of the interrupts every gate of an exception and of the lines 4, 7 and
  15 is one the processor accepts; exceptions reach their stubs, the interrupt of the serial
  port reaches \<open>com1_isr\<close>, and the two lines that controllers raise spuriously reach their
  handlers, by interrupt gates at the vectors the controllers were programmed with; and the
  line of the serial port is the only one of the sixteen that is not masked.
\<close>

theorem kmain_interrupts_set:
  assumes "length (idt t) = 256"
  shows "\<exists>t' io. kmain_interrupts stub table com1 irq7 irq15 t = Inr (t', io) \<and>
    (\<forall>v<32. gate_ok (idt t' ! v) \<and> handlers t' (of_nat v) = (stub v, if v = 2 then 0x8E else 0x8F)) \<and>
    (\<forall>(irq, isr)\<in>{(4, com1), (7, irq7), (15, irq15)}.
      gate_ok (idt t' ! unat (irq_vector io irq)) \<and> handlers t' (irq_vector io irq) = (isr, 0x8E)) \<and>
    (\<forall>irq<16. irq_enabled io irq \<longleftrightarrow> irq = 4)"
proof -
  obtain t0 where t0: "IDT_init stub table t = Inr t0" "length (idt t0) = 256"
    "\<And>v. v < 32 \<Longrightarrow> gate_ok (idt t0 ! v) \<and> handlers t0 (of_nat v) = (stub v, if v = 2 then 0x8E else 0x8F)"
    using IDT_init_gates [OF assms, where stub = stub and table = table] by blast
  obtain t1 where t1: "IDT_setIRQ t0 0x24 com1 IRQ_INT = Inr t1" "length (idt t1) = 256"
    "handlers t1 = (handlers t0)(0x24 := (com1, IRQ_INT))" "\<And>k. k < 256 \<Longrightarrow> k \<noteq> 0x24 \<Longrightarrow> idt t1 ! k = idt t0 ! k"
    "gate_ok (idt t1 ! 0x24)"
    using IDT_setIRQ_eq [OF t0(2), of "0x24" com1 IRQ_INT] by auto
  obtain t2 where t2: "IDT_setIRQ t1 0x27 irq7 IRQ_INT = Inr t2" "length (idt t2) = 256"
    "handlers t2 = (handlers t1)(0x27 := (irq7, IRQ_INT))" "\<And>k. k < 256 \<Longrightarrow> k \<noteq> 0x27 \<Longrightarrow> idt t2 ! k = idt t1 ! k"
    "gate_ok (idt t2 ! 0x27)"
    using IDT_setIRQ_eq [OF t1(2), of "0x27" irq7 IRQ_INT] by auto
  obtain t3 where t3: "IDT_setIRQ t2 0x2F irq15 IRQ_INT = Inr t3"
    "handlers t3 = (handlers t2)(0x2F := (irq15, IRQ_INT))" "\<And>k. k < 256 \<Longrightarrow> k \<noteq> 0x2F \<Longrightarrow> idt t3 ! k = idt t2 ! k"
    "gate_ok (idt t3 ! 0x2F)"
    using IDT_setIRQ_eq [OF t2(2), of "0x2F" irq15 IRQ_INT] by auto
  define io where "io = pic_init 0x20 @ pic_irqmask (0xFFFF AND NOT (push_bit (unat PIC_COM1) 1))"
  note pic = kmain_pic [folded io_def]
  have "kmain_interrupts stub table com1 irq7 irq15 t = Inr (t3, io)"
    using t0(1) t1(1) t2(1) t3(1) by (simp add: kmain_interrupts_def io_def)
  moreover have "gate_ok (idt t3 ! v) \<and> handlers t3 (of_nat v) = (stub v, if v = 2 then 0x8E else 0x8F)" if "v < 32" for v
  proof -
    have "unat (of_nat v :: u8) = v" using that by (simp only: unat_of_nat) simp
    then have "(of_nat v :: u8) \<noteq> 0x24" "(of_nat v :: u8) \<noteq> 0x27" "(of_nat v :: u8) \<noteq> 0x2F" using that by auto
    then show ?thesis using t0(3) [OF that] t1(3,4) t2(3,4) t3(2,3) that by simp
  qed
  moreover have "irq_vector io 4 = 0x24" "irq_vector io 7 = 0x27" "irq_vector io 15 = 0x2F"
    using pic by (simp_all add: irq_vector_def irq_port_def)
  moreover have "irq_enabled io irq \<longleftrightarrow> irq = 4" if "irq < 16" for irq
    using pic that bits_EF [of irq] bits_FF [of "irq mod 8"] by (simp add: irq_enabled_def irq_port_def)
  ultimately show ?thesis using t1(3-5) t2(3-5) t3(2-4) IRQ_INT_def
    by (intro exI [of _ t3] exI [of _ io]) simp
qed

lemma kmain_interrupts_total:
  assumes "length (idt t) = 256"
  shows "\<exists>t' io. kmain_interrupts stub table com1 irq7 irq15 t = Inr (t', io)"
proof -
  obtain t0 where t0: "IDT_init stub table t = Inr t0" "length (idt t0) = 256"
    using IDT_init_gates [OF assms, where stub = stub and table = table] by blast
  obtain t1 where t1: "IDT_setIRQ t0 0x24 com1 IRQ_INT = Inr t1" "length (idt t1) = 256"
    using IDT_setIRQ_eq [OF t0(2), of "0x24" com1 IRQ_INT] by blast
  obtain t2 where t2: "IDT_setIRQ t1 0x27 irq7 IRQ_INT = Inr t2" "length (idt t2) = 256"
    using IDT_setIRQ_eq [OF t1(2), of "0x27" irq7 IRQ_INT] by blast
  obtain t3 where "IDT_setIRQ t2 0x2F irq15 IRQ_INT = Inr t3"
    using IDT_setIRQ_eq [OF t2(2), of "0x2F" irq15 IRQ_INT] by blast
  then show ?thesis using t0 t1 t2 by (simp add: kmain_interrupts_def)
qed

theorem kmain_interrupts_set_witness:
  "\<exists>t' io. kmain_interrupts (\<lambda>v. 0xC0100000) 0xC0200000 0xC0101000 0xC0102000 0xC0103000 example_tables = Inr (t', io) \<and>
    handlers t' (irq_vector io 4) = (0xC0101000, 0x8E) \<and> irq_enabled io 4"
  using kmain_interrupts_set [OF example_tables_length, where stub = "\<lambda>v. 0xC0100000" and table = "0xC0200000"
      and ?com1.0 = "0xC0101000" and ?irq7.0 = "0xC0102000" and ?irq15.0 = "0xC0103000"] by fastforce

end
