(* ===== verification/Kernel.thy ===== *)
theory Kernel
  imports Kernel_Main Devices
begin

text \<open>
  \<open>kmain\<close> of \<open>stage3/kmain.cpp\<close> as a whole: the state of the kernel is that of its
  components, and \<open>kmain\<close> runs their operations in the order of the code, up to the assertion
  that stops the kernel at its end.
\<close>

section \<open>Model\<close>

text \<open>
  \<open>k_bytes\<close> holds the strings, the screen and the firmware's tables; \<open>k_prints\<close> counts
  the calls of \<open>kprint\<close>.
\<close>

record kernel =
  k_tables :: tables
  k_vm :: vmem
  k_serial :: serial
  k_mtrrs :: mtrrs
  k_cpuid :: u32
  k_eflags :: u32
  k_bytes :: bytes
  k_vaddrs :: "u32 list"
  k_io :: "io_event list"
  k_prints :: nat

text \<open>
  What the linker and the hardware decide: the addresses of tables, handlers and strings, the
  answers of the processor and of the serial chip, and the number of transmitter interrupts
  taken before each print.
\<close>

record setting =
  e_gdt :: u32
  e_tss :: u32
  e_idt :: u32
  e_stub :: "nat \<Rightarrow> u32"
  e_com1 :: u32
  e_irq7 :: u32
  e_irq15 :: u32
  e_cpuid :: u32
  e_rdmsr :: "u32 \<Rightarrow> u64"
  e_echo :: u8
  e_irqs :: "nat \<Rightarrow> nat"
  e_sErr :: u32
  e_header :: u32
  e_str :: u32
  e_freestr :: u32
  e_errorstr :: u32
  e_cpuidstr :: u32
  e_cpuidftr :: u32
  e_sig :: u32

definition B115200 :: u32 where "B115200 = 0"

definition km_printn :: "setting \<Rightarrow> u32 \<Rightarrow> u16 \<Rightarrow> kernel \<Rightarrow> kernel res" where
  "km_printn e str n k =
     bindR (com1_isrs (e_irqs e (k_prints k)) (k_serial k)) (\<lambda>(s, io1).
     bindR (ser_kprint s (map (\<lambda>j. k_bytes k (str + of_nat j)) [0..<unat n]) n) (\<lambda>(s, io2).
     Inr (k\<lparr>k_serial := s, k_io := k_io k @ io1 @ io2, k_prints := k_prints k + 1\<rparr>)))"

definition km_print :: "setting \<Rightarrow> u32 \<Rightarrow> kernel \<Rightarrow> kernel res" where
  "km_print e str k = bindR (stage3_strlen (k_bytes k) str) (\<lambda>n. km_printn e str (ucast n) k)"

definition km_hex :: "u32 \<Rightarrow> u32 \<Rightarrow> kernel \<Rightarrow> kernel" where
  "km_hex x out k = k\<lparr>k_bytes := stage3_hextostr (k_bytes k) x out\<rparr>"

definition km_report :: "setting \<Rightarrow> SMAP32 list \<Rightarrow> nat \<Rightarrow> kernel \<Rightarrow> kernel res" where
  "km_report e e820 e820_size k =
     bindR (kmain_report (\<lambda>i. e_irqs e (k_prints k + 1 + i)) (k_bytes k) (e_header e) (e_str e) e820 e820_size (k_serial k))
       (\<lambda>(m, s, io). Inr (k\<lparr>k_bytes := m, k_serial := s, k_io := k_io k @ io, k_prints := k_prints k + 1 + e820_size\<rparr>))"

definition km_free_pages :: "kernel \<Rightarrow> u32" where
  "km_free_pages k = pmm_free_pages (vm_pmm (k_vm k))"

definition km_vtest :: "kernel \<Rightarrow> (u32 \<times> kernel) res" where
  "km_vtest k =
     bindR (vinit (k_vm k)) (\<lambda>vm.
     let k = k\<lparr>k_vm := vm\<rparr>; free_pages = km_free_pages k in
     bindR (forR (\<lambda>i k.
       bindR (valloc (k_vm k)) (\<lambda>(v, vm).
       bindR (setR (k_vaddrs k) i v) (\<lambda>vs.
       Inr (k\<lparr>k_vm := vm, k_vaddrs := vs\<rparr>)))) [0..<8192] k) (\<lambda>k.
     bindR (forR (\<lambda>i k.
       bindR (getR (k_vaddrs k) i) (\<lambda>v.
       bindR (vfree (k_vm k) v) (\<lambda>vm.
       Inr (k\<lparr>k_vm := vm\<rparr>)))) [0..<8192] k) (\<lambda>k.
     bindR (assertR (free_pages = km_free_pages k)) (\<lambda>_.
     Inr (free_pages, k)))))"

definition km_print_free :: "setting \<Rightarrow> u32 \<Rightarrow> kernel \<Rightarrow> kernel res" where
  "km_print_free e free_pages k = km_print e (e_freestr e) (km_hex free_pages (e_freestr e + 14) k)"

definition km_alloc :: "kernel \<Rightarrow> (u32 \<times> kernel) res" where
  "km_alloc k =
     bindR (pmm_alloc_ppage (vm_cp (k_vm k)) (vm_pmm (k_vm k))) (\<lambda>(page, p).
     Inr (page, k\<lparr>k_vm := (k_vm k)\<lparr>vm_pmm := p\<rparr>\<rparr>))"

definition km_free :: "u32 \<Rightarrow> kernel \<Rightarrow> kernel res" where
  "km_free page k =
     bindR (pmm_free_ppage (vm_cp (k_vm k)) (vm_pmm (k_vm k)) page) (\<lambda>p.
     Inr (k\<lparr>k_vm := (k_vm k)\<lparr>vm_pmm := p\<rparr>\<rparr>))"

definition km_check :: "setting \<Rightarrow> u32 \<Rightarrow> kernel \<Rightarrow> kernel res" where
  "km_check e temp_page k =
     (if temp_page AND 1023 \<noteq> 0 then km_print e (e_errorstr e) (km_hex temp_page (e_errorstr e + 22) k) else Inr k)"

text \<open>The first test of the pages takes and gives back the same page over and over.\<close>

definition km_churn_step :: "setting \<Rightarrow> u32 \<times> kernel \<Rightarrow> (u32 \<times> kernel) res" where
  "km_churn_step e = (\<lambda>(temp_page, k).
     bindR (km_check e temp_page k) (\<lambda>k.
     bindR (km_alloc k) (\<lambda>(temp_page, k).
     bindR (km_free temp_page k) (\<lambda>k. Inr (temp_page, k)))))"

definition km_churn :: "setting \<Rightarrow> u32 \<Rightarrow> kernel \<Rightarrow> (u32 \<times> kernel) res" where
  "km_churn e free_pages k = bindR (km_alloc k) (forR (\<lambda>i. km_churn_step e) [0..<unat free_pages])"

text \<open>The second takes every page.\<close>

definition km_drain :: "setting \<Rightarrow> u32 \<Rightarrow> kernel \<Rightarrow> kernel res" where
  "km_drain e free_pages k =
     forR (\<lambda>i k. bindR (km_alloc k) (\<lambda>(temp_page, k). km_check e temp_page k)) [0..<unat free_pages] k"

definition km_feature :: "setting \<Rightarrow> u32 \<Rightarrow> nat \<Rightarrow> kernel \<Rightarrow> kernel res" where
  "km_feature e cpu_id i k =
     (if cpu_id AND push_bit i 1 \<noteq> 0 then
        bindR (cpuid_str i) (\<lambda>s.
        bindR (sliceR (bytes_of s) 0 4) (\<lambda>bs.
        km_printn e (e_cpuidftr e) 6
          (k\<lparr>k_bytes := fold (\<lambda>j m. m(e_cpuidftr e + of_nat j := bs ! j)) [0..<4] (k_bytes k)\<rparr>)))
      else Inr k)"

definition km_features :: "setting \<Rightarrow> kernel \<Rightarrow> kernel res" where
  "km_features e k = forR (km_feature e (cpuid (k_cpuid k))) [cpuid_value CPUID_FPU..<32] k"

text \<open>From the start to the serial port, and from there to the last assertion.\<close>

definition km_setup :: "setting \<Rightarrow> SMAP32 list \<Rightarrow> nat \<Rightarrow> kernel \<Rightarrow> kernel res" where
  "km_setup e e820 e820_size k =
     (let k = k\<lparr>k_tables := GDT_init (e_gdt e) (e_tss e) (k_tables k)\<rparr>; vm = k_vm k in
      bindR (PageTable_new (pmm_mem (vm_pmm vm)) 0xFFFFF000) (\<lambda>pt.
      bindR (PageTable_activate (pmm_mem (vm_pmm vm)) pt) (\<lambda>(m, pt).
      bindR (pmm_init (vm_cp vm) ((vm_pmm vm)\<lparr>pmm_mem := m\<rparr>) e820 e820_size) (\<lambda>p.
      let k = k\<lparr>k_vm := vm\<lparr>vm_pmm := p\<rparr>, k_bytes := clear (k_bytes k) 0xB8000\<rparr> in
      bindR (kmain_interrupts (e_stub e) (e_idt e) (e_com1 e) (e_irq7 e) (e_irq15 e) (k_tables k)) (\<lambda>(t, io).
      let k = k\<lparr>k_tables := t, k_io := k_io k @ io, k_eflags := sti (k_eflags k), k_cpuid := cpuid_init (e_cpuid e)\<rparr> in
      bindR (mtrr_init (e_rdmsr e) (k_cpuid k) (k_mtrrs k)) (\<lambda>mt.
      let k = k\<lparr>k_mtrrs := mt\<rparr>; (ok, s, io) = ser_init (k_serial k) (ucast SERIAL_COM1) B115200 (e_echo e) in
      if ok then Inr (k\<lparr>k_serial := s, k_io := k_io k @ io\<rparr>)
      else
        bindR (stage3_strlen (k_bytes k) (e_sErr e)) (\<lambda>n.
        let k = k\<lparr>k_bytes := printscreen (k_bytes k) (e_sErr e) 0xB8000 (ucast n)\<rparr> in
        Inl Panic)))))))"

definition kmain :: "setting \<Rightarrow> SMAP32 list \<Rightarrow> nat \<Rightarrow> kernel \<Rightarrow> (u32 \<times> kernel) res" where
  "kmain e e820 e820_size k =
     bindR (km_setup e e820 e820_size k) (\<lambda>k.
     bindR (km_report e e820 e820_size k) (\<lambda>k.
     bindR (km_vtest k) (\<lambda>(free_pages, k).
     bindR (km_print_free e free_pages k) (\<lambda>k.
     bindR (km_churn e free_pages k) (\<lambda>(temp_page, k).
     let free_pages = km_free_pages k in
     bindR (km_print_free e free_pages k) (\<lambda>k.
     bindR (km_drain e free_pages k) (\<lambda>k.
     let free_pages = km_free_pages k in
     bindR (km_print_free e free_pages k) (\<lambda>k.
     bindR (km_print e (e_cpuidstr e) k) (\<lambda>k.
     bindR (km_features e k) (\<lambda>k.
     bindR (acpi_init_fixed (k_bytes k) (e_sig e) (k_vm k)) (\<lambda>(r, vm).
     Inr (r, k\<lparr>k_vm := vm\<rparr>))))))))))))"


section \<open>The start\<close>

lemma directory_mapped:
  assumes "wf_tables m"
  shows "get_paddr m 0xFFFFF000 = Inr (frame_addr (cr3 m))" "rd32 m (0xFFFFF000 + 1023 * 4) = Inr (pmem m (cr3 m) 1023)"
proof -
  note r = wf_recursive [OF assms]
  have p: "pdi_of 0xFFFFF000 = 1023" "pti_of 0xFFFFF000 = 1023" by (simp_all add: pdi_of_def pti_of_def)
  then have "pte_of m 0xFFFFF000 = pmem m (cr3 m) 1023" using r by (simp add: pte_of_def table_of_def recursive_def)
  moreover have "pmem m (cr3 m) 1023 AND NOT 0xFFF = frame_addr (cr3 m)"
    using r unfolding not_mask_frame by (simp add: recursive_def)
  ultimately show "get_paddr m 0xFFFFF000 = Inr (frame_addr (cr3 m))"
    using r p by (simp add: get_paddr_eq [OF r] recursive_def)
  have "translate m (window 1023 1023) = Some (cr3 m, 1023)" using translate_directory [OF r, of 1023] by simp
  then show "rd32 m (0xFFFFF000 + 1023 * 4) = Inr (pmem m (cr3 m) 1023)" by (simp add: rd32_def window_def)
qed

lemma activate_current:
  assumes "wf_tables m"
  shows "\<exists>pt pt'. PageTable_new m 0xFFFFF000 = Inr pt \<and> PageTable_activate m pt = Inr (m, pt')"
proof -
  have "frame_of (pmem m (cr3 m) 1023 AND 0xFFFFF000) = cr3 m"
    using wf_recursive [OF assms] page_mask_frame [of "pmem m (cr3 m) 1023"] by (simp add: PT_PAGE_MASK_def recursive_def)
  then show ?thesis using directory_mapped [OF assms] by (simp add: PageTable_new_def PageTable_activate_def)
qed

lemma ser_init_echo:
  assumes "length (ser_buffer d) = 64"
  shows "\<exists>s io. ser_init d (ucast SERIAL_COM1) speed 0xAE = (True, s, io) \<and> ser_inv s \<and> ser_queue s = [] \<and>
    ser_port s = 0x3F8 \<and> hdr_head (ser_hdr s) = 0"
proof -
  obtain b s io where i: "ser_init d (ucast SERIAL_COM1) speed 0xAE = (b, s, io)" by (metis surj_pair)
  then have "b" "ser_hdr s = 0" "ser_buffer s = ser_buffer d" "ser_port s = 0x3F8"
    by (auto simp: ser_init_def Let_def buf_init_def SERIAL_COM1_def)
  then show ?thesis using i assms
    by (auto simp: ser_inv_def ser_queue_def ring_ok_def hdr_head_def hdr_tail_def)
qed

text \<open>
  The conditions on what the boot loader hands over, for the memory map and the pages in use.
  Of the pages in use only those that \<open>pmm_init\<close> makes windows are to be others than the
  directory, the window's page table and its first page: that a page in use is listed, as the
  directory's is where the firmware calls low memory usable, does not disturb the set-up.
\<close>

definition boot_state :: "u32 \<Rightarrow> frame \<Rightarrow> frame \<Rightarrow> frame \<Rightarrow> SMAP32 list \<Rightarrow> nat \<Rightarrow> kernel \<Rightarrow> bool" where
  "boot_state cp D T F es n k \<longleftrightarrow> cp = vm_cp (k_vm k) \<and> pmm_env cp D T F (pmm_mem (vm_pmm (k_vm k))) \<and>
     n \<le> length es \<and> n \<le> 65535 \<and> (\<forall>e\<in>set (take n es). sm32_type e = 1 \<longrightarrow> region_ok e) \<and>
     fill_ok (usable_pages (take n es)) F D T \<and>
     length (idt (k_tables k)) = 256 \<and> length (fix_mtrrs (k_mtrrs k)) = 88 \<and> length (var_mtrrs (k_mtrrs k)) = 8 \<and>
     length (ser_buffer (k_serial k)) = 64"

lemma km_setup_ok:
  assumes b: "boot_state cp D T F es n k" and c: "unat (ucast (e_rdmsr e MTRRCAP AND 0xFFFFFFFF) AND (0xFF :: u32)) \<le> 8"
    and echo: "e_echo e = 0xAE"
  shows "\<exists>k'. km_setup e es n k = Inr k' \<and> pmm_listed cp D T F (usable_pages (take n es)) (vm_pmm (k_vm k')) \<and>
    vm_cp (k_vm k') = cp \<and> ser_inv (k_serial k') \<and> ser_queue (k_serial k') = [] \<and> ser_port (k_serial k') = 0x3F8 \<and>
    hdr_head (ser_hdr (k_serial k')) = 0 \<and> k_bytes k' = clear (k_bytes k) 0xB8000 \<and> k_prints k' = k_prints k \<and>
    k_eflags k' AND EFLAGS_IF \<noteq> 0"
proof -
  let ?a = "usable_pages (take n es)" and ?vm = "k_vm k"
  have env: "pmm_env cp D T F (pmm_mem (vm_pmm ?vm))" and wf: "wf_tables (pmm_mem (vm_pmm ?vm))" and cp: "cp = vm_cp ?vm"
    using b by (auto simp: boot_state_def pmm_env_def)
  obtain pt pt' where pt: "PageTable_new (pmm_mem (vm_pmm ?vm)) 0xFFFFF000 = Inr pt"
    "PageTable_activate (pmm_mem (vm_pmm ?vm)) pt = Inr (pmm_mem (vm_pmm ?vm), pt')"
    using activate_current [OF wf] by blast
  obtain p where p: "pmm_init cp (vm_pmm ?vm) es n = Inr p" "pmm_listed cp D T F ?a p"
    using pmm_init_listed [OF env, of n es] b by (auto simp: boot_state_def)
  let ?t = "GDT_init (e_gdt e) (e_tss e) (k_tables k)"
  have "length (idt ?t) = 256" using b by (simp add: boot_state_def GDT_init_def loadGDT_def Let_def)
  then obtain t io where t: "kmain_interrupts (e_stub e) (e_idt e) (e_com1 e) (e_irq7 e) (e_irq15 e) ?t = Inr (t, io)"
    using kmain_interrupts_total by blast
  have l: "length (fix_mtrrs (k_mtrrs k)) = 88" "length (var_mtrrs (k_mtrrs k)) = 8" "length (ser_buffer (k_serial k)) = 64"
    using b by (simp_all add: boot_state_def)
  obtain mt where mt: "mtrr_init (e_rdmsr e) (cpuid_init (e_cpuid e)) (k_mtrrs k) = Inr mt"
    using mtrr_init_total [where rdmsr = "e_rdmsr e", OF l(1,2) c] by blast
  obtain s io2 where s: "ser_init (k_serial k) (ucast SERIAL_COM1) B115200 (e_echo e) = (True, s, io2)"
    "ser_inv s" "ser_queue s = []" "ser_port s = 0x3F8" "hdr_head (ser_hdr s) = 0"
    using ser_init_echo [OF l(3), of B115200] unfolding echo by blast
  have "sti f AND EFLAGS_IF \<noteq> 0" for f
  proof -
    have "(f OR EFLAGS_IF) AND EFLAGS_IF = EFLAGS_IF" by (simp add: bit.conj_disj_distrib2)
    then show ?thesis by (simp add: sti_def EFLAGS_IF_def)
  qed
  moreover have "km_setup e es n k = Inr (k\<lparr>k_tables := t, k_vm := ?vm\<lparr>vm_pmm := p\<rparr>, k_bytes := clear (k_bytes k) 0xB8000,
      k_io := (k_io k @ io) @ io2, k_eflags := sti (k_eflags k), k_cpuid := cpuid_init (e_cpuid e), k_mtrrs := mt, k_serial := s\<rparr>)"
    unfolding km_setup_def Let_def using pt p(1) t mt s(1) by (simp add: cp)
  ultimately show ?thesis using p(2) s(2-5) by (intro exI conjI) (assumption, simp_all add: cp)
qed


text \<open>How \<open>kmain\<close> runs up to the report of the memory map.\<close>

lemma kmain_reports:
  assumes "boot_state cp D T F es n k" "unat (ucast (e_rdmsr e MTRRCAP AND 0xFFFFFFFF) AND (0xFF :: u32)) \<le> 8" "e_echo e = 0xAE"
    and "string_at (clear (k_bytes k) 0xB8000) (e_header e) h" "0 < h" "h < 64" "line_buffer (clear (k_bytes k) 0xB8000) (e_str e)"
    and "\<And>i. 2 \<le> e_irqs e i" "\<And>i. i < n \<Longrightarrow> unat (sm32_type (es ! i)) < 10" "n \<le> 1000"
  shows "\<exists>k1 k2 io. km_setup e es n k = Inr k1 \<and> km_report e es n k1 = Inr k2 \<and>
    pmm_listed cp D T F (usable_pages (take n es)) (vm_pmm (k_vm k2)) \<and>
    k_eflags k2 AND EFLAGS_IF \<noteq> 0 \<and> ser_inv (k_serial k2) \<and> k_io k2 = k_io k1 @ io \<and>
    sent_to 0x3F8 io @ ser_queue (k_serial k2) =
      map (\<lambda>j. clear (k_bytes k) 0xB8000 (e_header e + of_nat j)) [0..<h] @ concat (map line_text (take n es))"
proof -
  obtain k1 where k1: "km_setup e es n k = Inr k1" "pmm_listed cp D T F (usable_pages (take n es)) (vm_pmm (k_vm k1))"
    "ser_inv (k_serial k1)" "ser_queue (k_serial k1) = []" "ser_port (k_serial k1) = 0x3F8" "hdr_head (ser_hdr (k_serial k1)) = 0"
    "k_bytes k1 = clear (k_bytes k) 0xB8000" "k_eflags k1 AND EFLAGS_IF \<noteq> 0"
    using km_setup_ok [OF assms(1-3)] by blast
  have "n \<le> length es" using assms(1) by (simp add: boot_state_def)
  moreover have "(0x3F8 :: u16) \<noteq> 0x20" "length (ser_queue (k_serial k1)) + h < 64"
    "unat (hdr_head (ser_hdr (k_serial k1))) + h + 30 * n < 32768" using k1(4,6) assms(6,10) by simp_all
  ultimately obtain m s io where "kmain_report (\<lambda>i. e_irqs e (k_prints k1 + 1 + i)) (clear (k_bytes k) 0xB8000) (e_header e) (e_str e) es n
      (k_serial k1) = Inr (m, s, io)" "ser_inv s"
    "sent_to 0x3F8 io @ ser_queue s =
      map (\<lambda>j. clear (k_bytes k) 0xB8000 (e_header e + of_nat j)) [0..<h] @ concat (map line_text (take n es))"
    using kmain_report_in_order [where irqs = "\<lambda>i. e_irqs e (k_prints k1 + 1 + i)" and ?e820.0 = es and n = n, OF k1(3,5) _ assms(4,5) _ assms(7)]
      assms(8,9) k1(4) by auto
  then show ?thesis using k1 by (intro exI [of _ k1] exI) (auto simp: km_report_def)
qed

text \<open>
  C8: from the state the boot loader leaves, \<open>kmain\<close> gets through its set-up (descriptor
  tables, page directory, physical pages, screen, interrupts, memory types, serial port) and
  then prints the memory map: the page allocator's stack holds the usable pages (and the
  window's first page in exchange for its last), interrupts are on, and what has gone out of
  the serial port, followed by what is queued, is the header and one line per entry of the
  map, in order. At least two transmitter interrupts are taken before each print; the
  processor announces at most 8 variable memory type ranges, the serial chip echoes its test
  byte, and the map has at most 1000 entries.
\<close>

theorem kmain_boots:
  assumes "boot_state cp D T F es n k" "unat (ucast (e_rdmsr e MTRRCAP AND 0xFFFFFFFF) AND (0xFF :: u32)) \<le> 8" "e_echo e = 0xAE"
    and "string_at (clear (k_bytes k) 0xB8000) (e_header e) h" "0 < h" "h < 64" "line_buffer (clear (k_bytes k) 0xB8000) (e_str e)"
    and "\<And>i. 2 \<le> e_irqs e i" "\<And>i. i < n \<Longrightarrow> unat (sm32_type (es ! i)) < 10" "n \<le> 1000"
  shows "\<exists>k1 k2 io. km_setup e es n k = Inr k1 \<and> km_report e es n k1 = Inr k2 \<and>
    pmm_listed cp D T F (usable_pages (take n es)) (vm_pmm (k_vm k2)) \<and>
    k_eflags k2 AND EFLAGS_IF \<noteq> 0 \<and> ser_inv (k_serial k2) \<and> k_io k2 = k_io k1 @ io \<and>
    sent_to 0x3F8 io @ ser_queue (k_serial k2) =
      map (\<lambda>j. clear (k_bytes k) 0xB8000 (e_header e + of_nat j)) [0..<h] @ concat (map line_text (take n es))"
  by (rule kmain_reports [OF assms])

section \<open>The tests of the pages\<close>

lemma frame_addr_aligned: "frame_addr f AND 1023 = 0"
proof -
  have m: "(1023 :: u32) = mask 10" by (simp add: mask_eq_exp_minus_1)
  show ?thesis unfolding m by (rule bit_word_eqI) (simp add: frame_addr_def bit_simps)
qed

lemma km_check_page: "pool_page D T B p \<Longrightarrow> km_check e p k = Inr k"
  using frame_addr_aligned [of "frame_of p"] by (simp add: km_check_def pool_page_def)

lemma km_alloc_ok:
  assumes "pmm_rep cp D T B extra (vm_pmm (k_vm k)) (x # xs)" "vm_cp (k_vm k) = cp"
  shows "\<exists>p. km_alloc k = Inr (x, k\<lparr>k_vm := (k_vm k)\<lparr>vm_pmm := p\<rparr>\<rparr>) \<and> pmm_rep cp D T B extra p xs"
  using pages.alloc_rep [OF assms(1)] assms(2) by (auto simp: km_alloc_def)

text \<open>A state that differs only in the page pool.\<close>

definition pool_only :: "u32 \<Rightarrow> frame \<Rightarrow> frame \<Rightarrow> frame \<Rightarrow> nat \<Rightarrow> u32 list \<Rightarrow> kernel \<Rightarrow> kernel \<Rightarrow> bool" where
  "pool_only cp D T B extra xs k k' \<longleftrightarrow> (\<exists>p. k' = k\<lparr>k_vm := (k_vm k)\<lparr>vm_pmm := p\<rparr>\<rparr> \<and> pmm_rep cp D T B extra p xs)"

lemma pool_only_alloc:
  assumes "pool_only cp D T B extra (x # xs) k k'" "vm_cp (k_vm k) = cp"
  shows "\<exists>k''. km_alloc k' = Inr (x, k'') \<and> pool_only cp D T B extra xs k k''"
proof -
  obtain p where p: "k' = k\<lparr>k_vm := (k_vm k)\<lparr>vm_pmm := p\<rparr>\<rparr>" "pmm_rep cp D T B extra p (x # xs)"
    using assms(1) by (auto simp: pool_only_def)
  then obtain p' where "km_alloc k' = Inr (x, k\<lparr>k_vm := (k_vm k)\<lparr>vm_pmm := p'\<rparr>\<rparr>)" "pmm_rep cp D T B extra p' xs"
    using km_alloc_ok [of cp D T B extra k' x xs] assms(2) by auto
  then show ?thesis unfolding pool_only_def by blast
qed

lemma pool_only_page: "pool_only cp D T B extra xs k k' \<Longrightarrow> x \<in> set xs \<Longrightarrow> pool_page D T B x"
  using pages.valid_rep by (auto simp: pool_only_def)

lemma pool_only_free_pages: "pool_only cp D T B extra xs k k' \<Longrightarrow> unat (km_free_pages k') = length xs + extra"
  by (auto simp: pool_only_def km_free_pages_def pmm_free_pages_def pmm_rep_def)

lemma pool_only_refl:
  assumes "pmm_rep cp D T B extra (vm_pmm (k_vm k)) xs"
  shows "pool_only cp D T B extra xs k k"
  unfolding pool_only_def by (rule exI [of _ "vm_pmm (k_vm k)"]) (simp add: assms)

lemma churn_step_ok:
  assumes "pool_page D T B t" "pool_only cp D T B extra (y # xs) k k'" "vm_cp (k_vm k) = cp"
  shows "\<exists>k''. km_churn_step e (t, k') = Inr (y, k'') \<and> pool_only cp D T B extra (y # xs) k k''"
proof -
  obtain p where p: "k' = k\<lparr>k_vm := (k_vm k)\<lparr>vm_pmm := p\<rparr>\<rparr>" "pmm_rep cp D T B extra p (y # xs)"
    using assms(2) by (auto simp: pool_only_def)
  from pages.alloc_release_rep [OF p(2)] obtain p1 p2 where "pmm_alloc_ppage cp p = Inr (y, p1)"
    "pmm_free_ppage cp p1 y = Inr p2" "pmm_rep cp D T B extra p2 (y # xs)" by blast
  then show ?thesis using assms(3) km_check_page [OF assms(1)] p(1)
    by (auto simp: km_churn_step_def km_alloc_def km_free_def pool_only_def)
qed

text \<open>
  The page handed out when the stack is empty but the counter says 1: the word after the end
  of the stack, or the last window itself.
\<close>

definition left_over :: "frame \<Rightarrow> kernel \<Rightarrow> u32" where
  "left_over B k = (let p = vm_pmm (k_vm k); i = unat (pmm_pidx p) mod 1024 in
     if i = 1023 then frame_addr B else pmem (pmm_mem p) B (of_nat i))"

lemma km_alloc_left_over:
  assumes "pool_only cp D T B 1 [] k k'" "vm_cp (k_vm k) = cp"
  shows "\<exists>k''. km_alloc k' = Inr (left_over B k', k'') \<and> km_free_pages k'' = 0"
proof -
  obtain p where k': "k' = k\<lparr>k_vm := (k_vm k)\<lparr>vm_pmm := p\<rparr>\<rparr>" and "pmm_rep cp D T B 1 p []"
    using assms(1) by (auto simp: pool_only_def)
  then have W: "pmm_env cp D T B (pmm_mem p)" "unat (pmm_pfree p) = 1" by (auto simp: pmm_rep_def)
  then have f: "pmm_pfree p = 1" by (simp add: word_unat_eq_iff)
  show ?thesis
  proof (cases "unat (pmm_pidx p) mod 1024 = 1023")
    case True
    then show ?thesis
      using f rd_slot [OF W(1), of 1023] pt_map_env(1) [OF W(1), of "pmem (pmm_mem p) B 1023"] old_window [OF W(1)] assms(2)
      by (simp add: k' km_alloc_def pmm_alloc_ppage_def and_1023 left_over_def Let_def km_free_pages_def pmm_free_pages_def)
  next
    case False
    then show ?thesis using f rd_slot [OF W(1), of "pmm_pidx p"] assms(2)
      by (simp add: k' km_alloc_def pmm_alloc_ppage_def and_1023 left_over_def Let_def km_free_pages_def pmm_free_pages_def)
  qed
qed

text \<open>
  C17: the page tests of \<open>kmain\<close> on a pool of at least two pages that counts one page too
  many, as \<open>pmm_init\<close> leaves it when neither the page directory nor the window's page table
  is listed: the first loop, however often it runs, takes one page for
  good and leaves the others as they were. The second, run as often as \<open>kmain\<close> runs it, once
  for each page counted, first takes every page that is left without reporting one, and then
  the word left over in the last window, which it reports exactly when it is not a multiple of
  1024. Until then no part of the kernel's state but the pool has changed.
\<close>

theorem kmain_page_tests:
  assumes "pmm_rep cp D T B 1 (vm_pmm (k_vm k)) (x # y # xs)" "vm_cp (k_vm k) = cp"
  shows "\<exists>t k1 k2 k3. km_churn e n k = Inr (t, k1) \<and> pool_only cp D T B 1 (y # xs) k k1 \<and>
    km_free_pages k1 = km_free_pages k - 1 \<and>
    km_drain e (km_free_pages k1 - 1) k1 = Inr k2 \<and> pool_only cp D T B 1 [] k k2 \<and>
    km_alloc k2 = Inr (left_over B k2, k3) \<and> km_free_pages k3 = 0 \<and>
    km_drain e (km_free_pages k1) k1 = (if left_over B k2 AND 1023 = 0 then Inr k3 else
      km_print e (e_errorstr e) (km_hex (left_over B k2) (e_errorstr e + 22) k3))"
proof -
  have k: "pool_only cp D T B 1 (x # y # xs) k k" by (rule pool_only_refl [OF assms(1)])
  obtain k0 where k0: "km_alloc k = Inr (x, k0)" "pool_only cp D T B 1 (y # xs) k k0"
    using pool_only_alloc [OF k assms(2)] by blast
  have x: "pool_page D T B x" by (rule pool_only_page [OF k]) simp
  have y: "pool_page D T B y" by (rule pool_only_page [OF k]) simp
  have "\<exists>w. forR (\<lambda>i. km_churn_step e) [0..<unat n] (x, k0) = Inr w \<and> pool_page D T B (fst w) \<and> pool_only cp D T B 1 (y # xs) k (snd w)"
  proof (rule forR_upt_total [where I = "\<lambda>i w. pool_page D T B (fst w) \<and> pool_only cp D T B 1 (y # xs) k (snd w)"])
    fix w :: "u32 \<times> kernel" assume "pool_page D T B (fst w) \<and> pool_only cp D T B 1 (y # xs) k (snd w)"
    then show "\<exists>w'. km_churn_step e w = Inr w' \<and> pool_page D T B (fst w') \<and> pool_only cp D T B 1 (y # xs) k (snd w')"
      using churn_step_ok [of D T B "fst w" cp 1 y xs k "snd w" e] assms(2) y by auto
  qed (use x k0(2) in simp_all)
  then obtain t k1 where k1: "km_churn e n k = Inr (t, k1)" "pool_only cp D T B 1 (y # xs) k k1"
    using k0(1) by (auto simp: km_churn_def)
  have f: "unat (km_free_pages k) = Suc (Suc (length xs)) + 1" "unat (km_free_pages k1) = Suc (length xs) + 1"
    using pool_only_free_pages [OF k] pool_only_free_pages [OF k1(2)] by simp_all
  then have "unat (km_free_pages k - 1) = unat (km_free_pages k1)" by (subst unat_minus_one) auto
  then have d: "km_free_pages k1 = km_free_pages k - 1" by (simp add: word_unat_eq_iff)
  let ?n = "length (y # xs)" and ?b = "\<lambda>i k. bindR (km_alloc k) (\<lambda>(temp_page, k). km_check e temp_page k)"
  have "km_free_pages k1 \<noteq> 0" using f(2) by auto
  then have len: "unat (km_free_pages k1) = Suc ?n" "unat (km_free_pages k1 - 1) = ?n" using f(2) by (simp_all add: unat_minus_one)
  have "\<exists>k2. forR (\<lambda>i k. bindR (km_alloc k) (\<lambda>(temp_page, k). km_check e temp_page k)) [0..<length (y # xs)] k1 = Inr k2 \<and>
      pool_only cp D T B 1 (drop (length (y # xs)) (y # xs)) k k2"
  proof (rule forR_upt_total [where I = "\<lambda>i. pool_only cp D T B 1 (drop i (y # xs)) k"])
    fix i k' assume i: "i < length (y # xs)" and k': "pool_only cp D T B 1 (drop i (y # xs)) k k'"
    have c: "drop i (y # xs) = (y # xs) ! i # drop (Suc i) (y # xs)" using i by (simp only: Cons_nth_drop_Suc)
    obtain k'' where "km_alloc k' = Inr ((y # xs) ! i, k'')" "pool_only cp D T B 1 (drop (Suc i) (y # xs)) k k''"
      using pool_only_alloc [OF k' [unfolded c] assms(2)] by blast
    moreover have "pool_page D T B ((y # xs) ! i)" using pool_only_page [OF k1(2)] i by (metis nth_mem)
    ultimately show "\<exists>k''. bindR (km_alloc k') (\<lambda>(temp_page, k). km_check e temp_page k) = Inr k'' \<and>
        pool_only cp D T B 1 (drop (Suc i) (y # xs)) k k''"
      by (simp add: km_check_page)
  qed (use k1(2) in simp_all)
  then obtain k2 where k2: "forR ?b [0..<?n] k1 = Inr k2" "pool_only cp D T B 1 [] k k2" by auto
  obtain k3 where k3: "km_alloc k2 = Inr (left_over B k2, k3)" "km_free_pages k3 = 0"
    using km_alloc_left_over [OF k2(2) assms(2)] by blast
  have "km_drain e (km_free_pages k1 - 1) k1 = Inr k2" unfolding km_drain_def len using k2(1) .
  moreover have "forR ?b [0..<Suc ?n] k1 = bindR (forR ?b [0..<?n] k1) (forR ?b [?n])"
    by (simp only: upt_Suc_append [OF le0] forR_append)
  then have "km_drain e (km_free_pages k1) k1 = km_check e (left_over B k2) k3"
    unfolding km_drain_def len using k2(1) k3(1) by (cases "km_check e (left_over B k2) k3") simp_all
  moreover have "km_check e (left_over B k2) k3 = (if left_over B k2 AND 1023 = 0 then Inr k3 else
      km_print e (e_errorstr e) (km_hex (left_over B k2) (e_errorstr e + 22) k3))" by (simp add: km_check_def)
  ultimately have "km_drain e (km_free_pages k1 - 1) k1 = Inr k2" "km_drain e (km_free_pages k1) k1 =
      (if left_over B k2 AND 1023 = 0 then Inr k3 else
        km_print e (e_errorstr e) (km_hex (left_over B k2) (e_errorstr e + 22) k3))" by (simp_all only:)
  then show ?thesis using k1 d k2(2) k3 by blast
qed

section \<open>The processor's features\<close>

text \<open>The line printed for a feature: its name, of four characters, and a line break.\<close>

definition feature_line :: "nat \<Rightarrow> u8 list" where
  "feature_line i = take 4 (drop (4 * i) (bytes_of cpuid_flags)) @ [13, 10]"

definition feature_ok :: "setting \<Rightarrow> u8 list \<Rightarrow> nat \<Rightarrow> kernel \<Rightarrow> bool" where
  "feature_ok e printed n k \<longleftrightarrow> ser_inv (k_serial k) \<and> ser_port (k_serial k) = 0x3F8 \<and>
     unat (hdr_head (ser_hdr (k_serial k))) \<le> n \<and>
     k_bytes k (e_cpuidftr e + 4) = 13 \<and> k_bytes k (e_cpuidftr e + 5) = 10 \<and>
     sent_to 0x3F8 (k_io k) @ ser_queue (k_serial k) = printed"

lemma cpuid_flags_length: "length (bytes_of cpuid_flags) = 128"
  by (simp add: cpuid_flags_def bytes_of_def)

lemma feature_text:
  fixes m :: bytes and p :: u32
  assumes "i < 32" "m (p + 4) = 13" "m (p + 5) = 10"
  defines "m' \<equiv> fold (\<lambda>j m. m(p + of_nat j := take 4 (drop (4 * i) (bytes_of cpuid_flags)) ! j)) [0..<4] m"
  shows "map (\<lambda>j. m' (p + of_nat j)) [0..<6] = feature_line i" "m' (p + 4) = 13" "m' (p + 5) = 10"
proof -
  have l: "length (take 4 (drop (4 * i) (bytes_of cpuid_flags))) = 4" using assms(1) cpuid_flags_length by simp
  have "\<exists>a b c d. xs = [a, b, c, d]" if "length xs = 4" for xs :: "u8 list"
    using that by (auto simp: length_Suc_conv numeral_eq_Suc)
  then obtain a b c d where q: "take 4 (drop (4 * i) (bytes_of cpuid_flags)) = [a, b, c, d]" using l by blast
  have m': "m' = m(p := a, p + 1 := b, p + 2 := c, p + 3 := d)" unfolding m'_def q by (simp add: upt_rec)
  show "m' (p + 4) = 13" "m' (p + 5) = 10" unfolding m' using assms(2,3) by simp_all
  show "map (\<lambda>j. m' (p + of_nat j)) [0..<6] = feature_line i" unfolding m' feature_line_def q using assms(2,3) by (simp add: upt_rec)
qed

lemma km_feature_ok:
  assumes "feature_ok e printed h k" "i < 32" "\<And>j. 1 \<le> e_irqs e j" "h + 6 < 32768"
  shows "\<exists>k'. km_feature e cpu_id i k = Inr k' \<and>
    feature_ok e (printed @ (if bit cpu_id i then feature_line i else [])) (h + 6) k'"
proof (cases "bit cpu_id i")
  case False
  then have "cpu_id AND push_bit i 1 = 0" using bit_iff_and_push_bit_not_eq_0 [of cpu_id i] by blast
  then show ?thesis using assms(1) False by (simp add: km_feature_def feature_ok_def)
next
  case True
  then have b: "cpu_id AND push_bit i 1 \<noteq> 0" using bit_iff_and_push_bit_not_eq_0 [of cpu_id i] by blast
  let ?bs = "take 4 (drop (4 * i) (bytes_of cpuid_flags))"
  let ?m = "fold (\<lambda>j m. m(e_cpuidftr e + of_nat j := ?bs ! j)) [0..<4] (k_bytes k)"
  note K = assms(1) [unfolded feature_ok_def]
  note T = feature_text [OF assms(2), of "k_bytes k" "e_cpuidftr e"]
  obtain s1 io1 where s1: "com1_isrs (e_irqs e (k_prints k)) (k_serial k) = Inr (s1, io1)" "ser_inv s1" "ser_port s1 = 0x3F8"
    "hdr_head (ser_hdr s1) = hdr_head (ser_hdr (k_serial k))"
    "sent_to 0x3F8 io1 = take (16 * e_irqs e (k_prints k)) (ser_queue (k_serial k))"
    "ser_queue s1 = drop (16 * e_irqs e (k_prints k)) (ser_queue (k_serial k))"
    using com1_isrs_ok [of "k_serial k" "e_irqs e (k_prints k)"] K by auto
  have "length (ser_queue (k_serial k)) \<le> 63" using K ser_invD(3) by blast
  then have q: "length (ser_queue s1) + length (feature_line i) < 64"
    using s1(6) assms(3) [of "k_prints k"] assms(2) cpuid_flags_length by (simp add: feature_line_def)
  have l: "length (feature_line i) = 6" using assms(2) cpuid_flags_length by (simp add: feature_line_def)
  then have "feature_line i \<noteq> []" "unat (hdr_head (ser_hdr s1)) + length (feature_line i) < 32768"
    using K s1(4) assms(4) by auto
  from ser_kprint_ok [OF s1(2) this(1) q this(2)] l s1(3,4)
  obtain s2 io2 where s2: "ser_kprint s1 (feature_line i) 6 = Inr (s2, io2)" "ser_inv s2" "ser_port s2 = 0x3F8"
    "unat (hdr_head (ser_hdr s2)) = unat (hdr_head (ser_hdr (k_serial k))) + 6"
    "sent_to 0x3F8 io2 @ ser_queue s2 = ser_queue s1 @ feature_line i" by auto
  let ?k = "k\<lparr>k_bytes := ?m, k_serial := s2, k_io := k_io k @ io1 @ io2, k_prints := k_prints k + 1\<rparr>"
  have "cpuid_str i = Inr (drop (4 * i) cpuid_flags)" using assms(2) cpuid_flags_length by (simp add: cpuid_str_def bytes_of_def)
  moreover have "sliceR (bytes_of (drop (4 * i) cpuid_flags)) 0 4 = Inr ?bs"
    using assms(2) cpuid_flags_length by (simp add: sliceR_def bytes_of_def drop_map)
  moreover have "map (\<lambda>j. ?m (e_cpuidftr e + of_nat j)) [0..<6] = feature_line i" using T(1) K by simp
  ultimately have "km_feature e cpu_id i k = Inr ?k"
    using b s1(1) s2(1) by (simp add: km_feature_def km_printn_def)
  moreover have "sent_to 0x3F8 io1 @ ser_queue s1 = ser_queue (k_serial k)" using s1(5,6) by simp
  then have "sent_to 0x3F8 (k_io k @ io1 @ io2) @ ser_queue s2 = printed @ feature_line i"
    using s2(5) K unfolding sent_to_simps by (metis append_assoc)
  ultimately show ?thesis using s2 K T(2,3) True by (auto simp: feature_ok_def)
qed

text \<open>
  C30: \<open>kmain\<close> prints one line for each feature bit that CPUID reports, in the order of the
  bits: the name that the table of names has for the bit, and a line break, nothing lost, as
  long as a transmitter interrupt is taken before each line and the ring's write counter
  starts below 32000.
\<close>

theorem kmain_feature_list:
  assumes "ser_inv (k_serial k)" "ser_port (k_serial k) = 0x3F8" "unat (hdr_head (ser_hdr (k_serial k))) < 32000"
    and "k_bytes k (e_cpuidftr e + 4) = 13" "k_bytes k (e_cpuidftr e + 5) = 10" "\<And>j. 1 \<le> e_irqs e j"
  shows "\<exists>k'. km_features e k = Inr k' \<and> ser_inv (k_serial k') \<and>
    sent_to 0x3F8 (k_io k') @ ser_queue (k_serial k') =
      sent_to 0x3F8 (k_io k) @ ser_queue (k_serial k) @ concat (map feature_line (filter (bit (k_cpuid k)) [0..<32]))"
proof -
  let ?p = "sent_to 0x3F8 (k_io k) @ ser_queue (k_serial k)" and ?c = "k_cpuid k"
  let ?I = "\<lambda>i. feature_ok e (?p @ concat (map feature_line (filter (bit ?c) [0..<i]))) (32000 + 6 * i)"
  have "?I 0 k" using assms(1-5) by (simp add: feature_ok_def)
  then have "\<exists>k'. forR (km_feature e ?c) [0..<32] k = Inr k' \<and> ?I 32 k'"
  proof (rule forR_upt_total)
    fix i k' assume i: "i < 32" "?I i k'"
    obtain k'' where "km_feature e ?c i k' = Inr k''" "feature_ok e ((?p @ concat (map feature_line (filter (bit ?c) [0..<i]))) @
        (if bit ?c i then feature_line i else [])) (32000 + 6 * i + 6) k''"
      using km_feature_ok [OF i(2,1) assms(6), of ?c] i(1) by auto
    then show "\<exists>k''. km_feature e ?c i k' = Inr k'' \<and> ?I (Suc i) k''" by (cases "bit ?c i") (auto simp: algebra_simps)
  qed simp
  moreover have "cpuid_value CPUID_FPU = 0" by (simp add: cpuid_value_def cpuid_enum_def)
  ultimately show ?thesis by (auto simp: km_features_def cpuid_def feature_ok_def)
qed

section \<open>Examples\<close>

definition example_kernel :: kernel where
  "example_kernel = \<lparr>k_tables = example_tables, k_vm = example_vmem, k_serial = ser_example, k_mtrrs = example_mtrrs,
     k_cpuid = 0x10, k_eflags = 2, k_bytes = (\<lambda>_. 0)(4 := 13, 5 := 10), k_vaddrs = [], k_io = [], k_prints = 0\<rparr>"

definition example_setting :: setting where
  "example_setting = \<lparr>e_gdt = 0, e_tss = 0, e_idt = 0, e_stub = (\<lambda>_. 0), e_com1 = 0, e_irq7 = 0, e_irq15 = 0,
     e_cpuid = 0x10, e_rdmsr = (\<lambda>_. 0), e_echo = 0xAE, e_irqs = (\<lambda>_. 2), e_sErr = 0, e_header = 0, e_str = 34,
     e_freestr = 0, e_errorstr = 0, e_cpuidstr = 0, e_cpuidftr = 0, e_sig = 0\<rparr>"

theorem kmain_feature_list_witness:
  "\<exists>k'. km_features example_setting example_kernel = Inr k' \<and>
    sent_to 0x3F8 (k_io k') @ ser_queue (k_serial k') = bytes_of ''TSC '' @ [13, 10]"
proof -
  have "filter (bit (0x10 :: u32)) [0..<32] = [4]" by (simp add: upt_rec)
  moreover have "feature_line 4 = bytes_of ''TSC '' @ [13, 10]" by (simp add: feature_line_def cpuid_flags_def bytes_of_def)
  moreover have "ser_port ser_example = 0x3F8" "unat (hdr_head (ser_hdr ser_example)) < 32000"
    by (simp_all add: ser_example_value hdr_head_def)
  ultimately show ?thesis using kmain_feature_list [of example_kernel example_setting] ser_example_inv
    by (auto simp: example_kernel_def example_setting_def)
qed

theorem kmain_page_tests_witness:
  "\<exists>k t k1 k2 k3. km_churn example_setting 4 k = Inr (t, k1) \<and> km_free_pages k1 = 3 \<and>
    km_drain example_setting 2 k1 = Inr k2 \<and> km_alloc k2 = Inr (left_over 3 k2, k3) \<and> km_free_pages k3 = 0"
proof -
  obtain s0 where s0: "pmm_rep 0xC0005000 1 2 3 1 s0 [0x100000, 0x101000, 0x102000]" using example_rep by blast
  let ?k = "example_kernel\<lparr>k_vm := example_vmem\<lparr>vm_pmm := s0\<rparr>\<rparr>"
  have k: "pmm_rep 0xC0005000 1 2 3 1 (vm_pmm (k_vm ?k)) [0x100000, 0x101000, 0x102000]" "vm_cp (k_vm ?k) = 0xC0005000"
    using s0 by (simp_all add: example_vmem_def)
  have "unat (km_free_pages ?k) = 4"
    using pool_only_free_pages [OF pool_only_refl [OF k(1)]] by simp
  then have f: "km_free_pages ?k = 4" by (simp add: word_unat_eq_iff)
  from kmain_page_tests [OF k, of example_setting 4] obtain t k1 k2 k3 where
    "km_churn example_setting 4 ?k = Inr (t, k1)" "km_free_pages k1 = 4 - 1" "km_drain example_setting (km_free_pages k1 - 1) k1 = Inr k2"
    "km_alloc k2 = Inr (left_over 3 k2, k3)" "km_free_pages k3 = 0"
    unfolding f by (elim exE conjE)
  then show ?thesis by (intro exI [of _ ?k] exI [of _ t] exI [of _ k1] exI [of _ k2] exI [of _ k3]) simp
qed

lemma clear_at: "clear m screen a = (if unat (a - screen) < 4000 then 0 else m a)"
proof -
  have "fold (\<lambda>i m. m(screen + of_nat i := 0)) [0..<n] m a = (if unat (a - screen) < n then 0 else m a)" if "n \<le> 4000" for n
    using that
  proof (induction n)
    case (Suc n)
    have "unat (of_nat n :: u32) = n" using Suc.prems by (intro unat_of_nat32) simp
    then have "(a = screen + of_nat n) = (unat (a - screen) = n)"
      by (metis add_diff_cancel_left' diff_add_cancel add.commute word_unat_eq_iff)
    then show ?case using Suc by (auto simp: less_Suc_eq)
  qed simp
  then show ?thesis by (simp add: clear_def)
qed

lemma example_memory_cleared:
  "string_at (clear example_memory 0xB8000) 0 33" "line_buffer (clear example_memory 0xB8000) 34"
proof -
  have c: "clear example_memory 0xB8000 (of_nat j) = example_memory (of_nat j)" if "j < 65" for j
  proof -
    have "unat (of_nat j - 0xB8000 :: u32) = j + 4294967296 - 0xB8000"
      using that by (simp add: unat_sub_if' unat_of_nat32 del: unsigned_of_nat)
    then show ?thesis by (simp add: clear_at)
  qed
  have z: "example_memory 33 = 0" "\<And>j. j < 33 \<Longrightarrow> example_memory (of_nat j) \<noteq> 0"
    using example_report(1) by (simp_all add: string_at_def)
  show "string_at (clear example_memory 0xB8000) 0 33"
    using z c [of 33] by (simp add: string_at_def c)
  have o: "34 + of_nat j = (of_nat (34 + j) :: u32)" for j by simp
  show "line_buffer (clear example_memory 0xB8000) 34"
  proof -
    have "clear example_memory 0xB8000 (34 + of_nat j) = example_memory (34 + of_nat j)" if "j < 31" for j
      unfolding o using that by (intro c) simp
    from this [of 30] this show ?thesis using example_report(2) by (simp add: line_buffer_def)
  qed
qed

theorem kmain_boots_witness:
  "\<exists>k1 k2 io. km_setup example_setting example_regions 2 (example_kernel\<lparr>k_bytes := example_memory\<rparr>) = Inr k1 \<and>
    km_report example_setting example_regions 2 k1 = Inr k2 \<and> k_io k2 = k_io k1 @ io \<and>
    length (sent_to 0x3F8 io @ ser_queue (k_serial k2)) = 93"
proof -
  let ?k = "example_kernel\<lparr>k_bytes := example_memory\<rparr>"
  have r: "length example_regions = 2" "\<And>i. i < 2 \<Longrightarrow> unat (sm32_type (example_regions ! i)) < 10"
    by (auto simp: example_regions_def dest: less_2_cases)
  have b: "boot_state 0xC0005000 1 2 3 example_regions 2 ?k"
    using example_env example_setup example_fill r(1)
    by (simp add: boot_state_def example_kernel_def example_vmem_def example_mtrrs_def example_tables_length ser_example_value)
  have e: "k_bytes ?k = example_memory" "e_header example_setting = 0" "e_str example_setting = 34" "e_echo example_setting = 0xAE"
    "unat (ucast (e_rdmsr example_setting MTRRCAP AND 0xFFFFFFFF) AND (0xFF :: u32)) \<le> 8" "\<And>i. 2 \<le> e_irqs example_setting i"
    by (simp_all add: example_setting_def)
  obtain k1 k2 io where k: "km_setup example_setting example_regions 2 ?k = Inr k1" "km_report example_setting example_regions 2 k1 = Inr k2"
    "k_io k2 = k_io k1 @ io" "sent_to 0x3F8 io @ ser_queue (k_serial k2) =
      map (\<lambda>j. clear example_memory 0xB8000 (0 + of_nat j)) [0..<33] @ concat (map line_text (take 2 example_regions))"
    using kmain_boots [where e = example_setting and h = 33, OF b e(5,4), unfolded e(1-3), OF example_memory_cleared(1) _ _ example_memory_cleared(2) e(6) r(2)] by auto
  moreover have "length (concat (map line_text (take 2 example_regions))) = 60"
    by (simp add: example_regions_def line_text_def)
  then have "length (sent_to 0x3F8 io @ ser_queue (k_serial k2)) = 93" unfolding k(4) by simp
  ultimately show ?thesis by blast
qed

end
