(* ===== verification/Boot_Kernel.thy ===== *)
theory Boot_Kernel
  imports Boot_Main Kernel
begin

text \<open>
  The two stages together: what stage 2 hands over is what stage 3 relies on. The memory map
  given to \<open>kmain\<close> has lost the pages stage 2 took, so the kernel's page pool has none of
  the pages of the kernel's image, its stack and its page tables; \<open>kmain\<close> gets through its set-up on
  it and prints the map, although the page directory's own page may be among those listed.
\<close>

section \<open>The memory map handed over\<close>

lemma region_page_bounds:
  assumes "x \<in> set (region_pages e)" "unat (sm32_base e) + unat (sm32_length e) < 4294967296"
  shows "unat (sm32_base e) \<le> unat x" "unat x < unat (sm32_base e) + unat (sm32_length e)" "unat x mod 4096 = unat (sm32_base e) mod 4096"
proof -
  obtain k where k: "x = sm32_base e + of_nat k * 4096" "k < (unat (sm32_length e) + 4095) div 4096"
    using assms(1) by (auto simp: region_pages_def)
  have "Suc k * 4096 \<le> (unat (sm32_length e) + 4095) div 4096 * 4096" using k(2) by (intro mult_le_mono1) simp
  also have "\<dots> \<le> unat (sm32_length e) + 4095" by simp
  finally have lt: "k * 4096 < unat (sm32_length e)" by simp
  have "(of_nat k * 4096 :: u32) = of_nat (k * 4096)" by simp
  moreover have "unat (of_nat (k * 4096) :: u32) = k * 4096" using lt assms(2) by (intro unat_of_nat32) linarith
  ultimately have u: "unat x = unat (sm32_base e) + k * 4096"
    unfolding k(1) using lt assms(2) by (simp only:) (subst unat_add_nowrap, simp_all)
  show "unat (sm32_base e) \<le> unat x" "unat x < unat (sm32_base e) + unat (sm32_length e)" "unat x mod 4096 = unat (sm32_base e) mod 4096"
    using u lt by simp_all
qed

lemma region_pages_sorted:
  assumes "unat (sm32_base e) + unat (sm32_length e) < 4294967296"
  shows "sorted_wrt (\<lambda>x y. unat x < unat y) (region_pages e)"
proof -
  let ?n = "(unat (sm32_length e) + 4095) div 4096" and ?p = "\<lambda>k. sm32_base e + of_nat k * 4096 :: u32"
  have u: "unat (?p k) = unat (sm32_base e) + k * 4096" if "k < ?n" for k
  proof -
    have "Suc k * 4096 \<le> ?n * 4096" using that by (intro mult_le_mono1) simp
    also have "\<dots> \<le> unat (sm32_length e) + 4095" by simp
    finally have lt: "unat (sm32_base e) + k * 4096 < 4294967296" using assms by simp
    have "?p k = of_nat (unat (sm32_base e) + k * 4096)" by simp
    then show ?thesis using lt by (simp only: unat_of_nat32)
  qed
  have "sorted_wrt (\<lambda>i j. unat (?p i) < unat (?p j)) [0..<?n]"
    by (rule sorted_wrt_mono_rel [OF _ sorted_wrt_upt]) (use u in auto)
  then show ?thesis by (simp add: region_pages_def sorted_wrt_map)
qed

text \<open>The regions of a map in the order of their addresses, apart from each other.\<close>

definition apart :: "SMAP32 list \<Rightarrow> bool" where
  "apart us \<longleftrightarrow> disjoint_regions us \<and> (\<forall>e\<in>set us. unat (sm32_base e) + unat (sm32_length e) < 4294967296)"

lemma apart_Cons:
  "apart (e # us) \<longleftrightarrow> unat (sm32_base e) + unat (sm32_length e) < 4294967296 \<and>
     (\<forall>u\<in>set us. unat (sm32_base e) + unat (sm32_length e) \<le> unat (sm32_base u)) \<and> apart us"
  by (auto simp: apart_def disjoint_regions_def)

lemma disjoint_filter: "disjoint_regions xs \<Longrightarrow> disjoint_regions (filter P xs)"
  unfolding disjoint_regions_def by (rule sorted_wrt_filter)

lemma disjoint_before_last:
  assumes "disjoint_regions us" "e \<in> set (butlast us)"
  shows "unat (sm32_base e) + unat (sm32_length e) \<le> unat (sm32_base (last us))"
proof -
  have "us \<noteq> []" using assms(2) by auto
  then have "us = butlast us @ [last us]" by simp
  then have "disjoint_regions (butlast us @ [last us])" using assms(1) by simp
  then show ?thesis using assms(2) by (simp add: disjoint_regions_def sorted_wrt_append)
qed

text \<open>The map at the end of stage 2: the last usable region is cut at the lowest page taken.\<close>

lemma handed_map:
  assumes "take k (rg_map rg) = us @ rest" "rest \<noteq> []" "\<not> usable (hd rest)" "unat (rg_index rg) + 1 = length us"
    "boot_ready rg s" "\<forall>e\<in>set us. usable e"
  obtains l where "take k (bp_e820 s) = butlast us @ (last us)\<lparr>sm32_length := l\<rparr> # rest"
    "takeWhile (\<lambda>e. sm32_type e = 1) (take k (bp_e820 s)) = butlast us @ [(last us)\<lparr>sm32_length := l\<rparr>]"
    "unat (sm32_base (last us)) + unat l \<le> unat (bp_addr s)" "unat l \<le> unat (sm32_length (last us))"
proof -
  let ?j = "unat (rg_index rg)"
  have ne: "us \<noteq> []" using assms(4) by auto
  have lk: "?j < k" using arg_cong [OF assms(1), of length] assms(4) by (simp add: min_def split: if_splits)
  have "rg_map rg ! ?j = (us @ rest) ! ?j" using assms(1) lk by (metis nth_take)
  also have "\<dots> = last us"
  proof -
    have "?j < length us" "?j = length us - 1" using assms(4) by linarith+
    then show ?thesis using ne by (simp add: nth_append last_conv_nth)
  qed
  finally have e: "rg_entry rg = last us" .
  obtain l where l: "bp_e820 s = (rg_map rg)[?j := (last us)\<lparr>sm32_length := l\<rparr>]"
    "unat (sm32_base (last us)) + unat l \<le> unat (bp_addr s)"
    "unat l = unat (sm32_length (last us)) - (unat (region_top (last us)) - unat (bp_addr s))"
    using assms(5) unfolding boot_ready_def map_shrunk_def e by auto
  have j: "?j = length (butlast us)" using assms(4) by simp
  have u: "us @ rest = butlast us @ last us # rest" using ne by simp
  have "take k (bp_e820 s) = (us @ rest)[?j := (last us)\<lparr>sm32_length := l\<rparr>]"
    unfolding l(1) by (simp add: take_update_swap assms(1))
  also have "\<dots> = butlast us @ (last us)\<lparr>sm32_length := l\<rparr> # rest" unfolding u j by (rule list_update_length)
  finally have t: "take k (bp_e820 s) = butlast us @ (last us)\<lparr>sm32_length := l\<rparr> # rest" .
  have u: "\<forall>e\<in>set (butlast us @ [last us]). sm32_type e = 1" using assms(6) ne by (simp add: usable_def)
  have tw: "takeWhile (\<lambda>e. sm32_type e = 1) (take k (bp_e820 s)) = butlast us @ [(last us)\<lparr>sm32_length := l\<rparr>]"
    unfolding t using u assms(2,3) by (cases rest) (simp_all add: takeWhile_append2 usable_def)
  have "unat l \<le> unat (sm32_length (last us))" using l(3) by simp
  then show thesis by (rule that [OF t tw l(2)])
qed

lemma handed_apart:
  assumes "disjoint_regions us" "us \<noteq> []" "unat (sm32_base (last us)) + unat l \<le> unat (a :: u32)"
  shows "apart (butlast us @ [(last us)\<lparr>sm32_length := l\<rparr>])"
    "\<forall>e\<in>set (butlast us @ [(last us)\<lparr>sm32_length := l\<rparr>]). unat (sm32_base e) + unat (sm32_length e) \<le> unat a"
proof -
  have "us = butlast us @ [last us]" using assms(2) by simp
  then have "disjoint_regions (butlast us @ [last us])" using assms(1) by simp
  then have d: "disjoint_regions (butlast us @ [(last us)\<lparr>sm32_length := l\<rparr>])"
    by (simp add: disjoint_regions_def sorted_wrt_append)
  have "unat (sm32_base (last us)) \<le> unat a" using assms(3) by simp
  then show b: "\<forall>e\<in>set (butlast us @ [(last us)\<lparr>sm32_length := l\<rparr>]). unat (sm32_base e) + unat (sm32_length e) \<le> unat a"
    using disjoint_before_last [OF assms(1)] assms(3) by fastforce
  have "unat a < 4294967296" using unsigned_less [of a, where ?'a = nat] by simp
  then show "apart (butlast us @ [(last us)\<lparr>sm32_length := l\<rparr>])" using d b unfolding apart_def by fastforce
qed

lemma frame_addr_unat: "unat (frame_addr f) = unat f * 4096"
  by (rule unat_frame_addr)

lemma taken_not_listed:
  assumes "usable_pages t = concat (map region_pages us)" "apart us"
    and "\<forall>e\<in>set us. unat (sm32_base e) + unat (sm32_length e) \<le> unat (bp_addr s)" "taken rg s g"
  shows "frame_addr g \<notin> set (usable_pages t)"
proof
  assume "frame_addr g \<in> set (usable_pages t)"
  then obtain e where e: "e \<in> set us" "frame_addr g \<in> set (region_pages e)" unfolding assms(1) by auto
  then have "unat (sm32_base e) + unat (sm32_length e) < 4294967296" using assms(2) by (simp add: apart_def)
  from region_page_bounds(2) [OF e(2) this] show False
    using assms(3) e(1) assms(4) by (auto simp: taken_def frame_addr_unat)
qed

text \<open>The regions \<open>us\<close> that the kernel finds usable are those of the firmware's map, one of them cut.\<close>

lemma bmain_hands_over:
  assumes map: "data = concat (map entry_words es)" "length es = unat n" "memory_ok es lo (image_pages F + 1)"
    and pdir: "pdir = frame_addr f" "unat f < 1024"
    and disk: "dx \<noteq> 0xFFFF" "kernel_disk disk dx fs bs chain e cl F"
    and bufs: "length sp = 12" "length hdrs = 124" "bufp \<noteq> 0" "unat bufp + 124 < 4294967296"
    and entry: "e_entry (elf_head F) \<noteq> 0"
    and space: "\<forall>w\<in>image_space F. 0x400000 \<le> unat w \<and> \<not> same_page (NEW_STACK - 0x1000) w"
    and cover: "\<forall>k<unat (ld_dword (seg_head F) 20). ld_dword (seg_head F) 8 + of_nat k \<in> image_space F"
  obtains rg s us rest where
    "bmain disk pdir sp dir fs bufp hdrs m data n dx = Inr (e_entry (elf_head F), NEW_STACK, bp_e820 s, of_nat (length (packed es)), bp_mem s)"
    "boot_ready rg s" "rg_dir rg = f" "own_pages (bp_mem s) (image_space F \<union> {w. same_page (NEW_STACK - 0x1000) w})"
    "take (length (packed es)) (bp_e820 s) = us @ rest" "length (packed es) \<le> length (bp_e820 s)"
    "usable_pages (take (length (packed es)) (bp_e820 s)) = concat (map region_pages us)" "apart us"
    "\<forall>e\<in>set us. unat (sm32_base e) + unat (sm32_length e) \<le> unat (bp_addr s)"
    "\<forall>e\<in>set (us @ rest). unat (sm32_type e) \<in> {1..5}" "\<forall>e\<in>set rest. \<not> usable e"
    "\<forall>e\<in>set us. \<exists>e0\<in>set (filter usable (packed es)). sm32_base e = sm32_base e0 \<and> sm32_length e \<le> sm32_length e0"
proof -
  let ?us = "filter usable (packed es)" and ?k = "length (packed es)"
  obtain rg s rest where b: "take ?k (rg_map rg) = ?us @ rest" "rest \<noteq> []" "set rest \<subseteq> {e \<in> set (packed es). \<not> usable e}" "?k \<le> length (rg_map rg)"
    "?us @ rest = sort_key (\<lambda>e. unat (sm32_type e)) (packed es)" "rg_entry rg = last ?us"
    "unat (region_top (rg_entry rg)) \<le> unat (bp_addr s) + (image_pages F + 1) * 8192"
    "unat (rg_index rg) + 1 = length ?us" "boot_ready rg s" "rg_dir rg = f"
    "bmain disk pdir sp dir fs bufp hdrs m data n dx = Inr (e_entry (elf_head F), NEW_STACK, bp_e820 s, of_nat ?k, bp_mem s)"
    "own_pages (bp_mem s) (image_space F \<union> {w. same_page (NEW_STACK - 0x1000) w})"
    by (rule bmain_state [OF assms, of dir m])
  have all: "\<forall>e\<in>set ?us. usable e" by simp
  have h: "\<not> usable (hd rest)" using b(2,3) hd_in_set [of rest] by blast
  obtain l where l: "take ?k (bp_e820 s) = butlast ?us @ (last ?us)\<lparr>sm32_length := l\<rparr> # rest"
    "takeWhile (\<lambda>e. sm32_type e = 1) (take ?k (bp_e820 s)) = butlast ?us @ [(last ?us)\<lparr>sm32_length := l\<rparr>]"
    "unat (sm32_base (last ?us)) + unat l \<le> unat (bp_addr s)" "unat l \<le> unat (sm32_length (last ?us))"
    by (rule handed_map [OF b(1,2) h b(8,9) all])
  define us where "us = butlast ?us @ [(last ?us)\<lparr>sm32_length := l\<rparr>]"
  have m: "disjoint_regions (packed es)" "\<forall>e\<in>set (packed es). unat (sm32_type e) \<in> {1..5}"
    using map(3) by (simp_all add: memory_ok_def Let_def list_all_iff)
  have ne: "?us \<noteq> []" using b(8) by auto
  note top = last_in_set [OF ne]
  note a = handed_apart [OF disjoint_filter [OF m(1)] ne l(3), folded us_def]
  have t: "take ?k (bp_e820 s) = us @ rest" unfolding l(1) us_def by simp
  have n: "?k \<le> length (bp_e820 s)" using b(4,9) by (auto simp: boot_ready_def map_shrunk_def)
  have p: "usable_pages (take ?k (bp_e820 s)) = concat (map region_pages us)" unfolding usable_pages_def l(2) us_def ..
  have sub: "\<forall>e\<in>set us. \<exists>e0\<in>set ?us. sm32_base e = sm32_base e0 \<and> sm32_type e = sm32_type e0 \<and> sm32_length e \<le> sm32_length e0"
    using top l(4) unfolding us_def by (auto dest!: in_set_butlastD simp: word_le_nat_alt)
  then have ty: "unat (sm32_type e) \<in> {1..5}" if "e \<in> set (us @ rest)" for e
    using that m(2) b(3) by fastforce
  have no: "\<forall>e\<in>set rest. \<not> usable e" using b(3) by blast
  show thesis by (rule that [OF b(11,9,10,12) t n p a]) (use sub ty no in blast)+
qed

lemma kernel_page_tables:
  assumes "kernel_disk disk dx fs bs chain e cl F" "\<forall>w\<in>image_space F. 0x400000 \<le> unat w \<and> \<not> same_page (NEW_STACK - 0x1000) w"
    and "w \<in> image_space F \<union> {w. same_page (NEW_STACK - 0x1000) w}"
  shows "pdi_of w \<noteq> 0 \<and> pdi_of w \<noteq> 1023"
proof (cases "w \<in> image_space F")
  case True
  have "image_ok F (unat (ld_dword e 28))" using assms(1) unfolding kernel_disk_def by blast
  then show ?thesis using image_okD(3) [OF _ True] assms(2) True by (auto simp: word_unat_eq_iff unat_pdi)
next
  case False
  then have "pdi_of w = pdi_of (NEW_STACK - 0x1000)" using assms(3) by (simp add: same_page_def)
  then show ?thesis by (simp add: NEW_STACK_def pdi_of_def)
qed

text \<open>
  C3: the memory map stage 2 hands to the kernel is cut exactly below the pages it took: the
  frames of the kernel's image and of its stack, and every page table in use, lie outside the
  pages that the kernel's allocator makes out of the map.
\<close>

theorem handed_over_pages:
  assumes map: "data = concat (map entry_words es)" "length es = unat n" "memory_ok es lo (image_pages F + 1)"
    and pdir: "pdir = frame_addr f" "unat f < 1024"
    and disk: "dx \<noteq> 0xFFFF" "kernel_disk disk dx fs bs chain e cl F"
    and bufs: "length sp = 12" "length hdrs = 124" "bufp \<noteq> 0" "unat bufp + 124 < 4294967296"
    and entry: "e_entry (elf_head F) \<noteq> 0"
    and space: "\<forall>w\<in>image_space F. 0x400000 \<le> unat w \<and> \<not> same_page (NEW_STACK - 0x1000) w"
    and cover: "\<forall>k<unat (ld_dword (seg_head F) 20). ld_dword (seg_head F) 8 + of_nat k \<in> image_space F"
  shows "\<exists>e820 m'. bmain disk pdir sp dir fs bufp hdrs m data n dx =
      Inr (e_entry (elf_head F), NEW_STACK, e820, of_nat (length (packed es)), m') \<and>
    (\<forall>w\<in>image_space F \<union> {w. same_page (NEW_STACK - 0x1000) w}. \<exists>g. translate m' w = Some (g, woff_of w) \<and>
      frame_addr g \<notin> set (usable_pages (take (length (packed es)) e820))) \<and>
    (\<forall>q. q \<noteq> 1023 \<longrightarrow> present (pmem m' (cr3 m') q) \<longrightarrow> \<not> big_page (pmem m' (cr3 m') q) \<longrightarrow>
      frame_addr (frame_of (pmem m' (cr3 m') q)) \<notin> set (usable_pages (take (length (packed es)) e820)))"
proof -
  let ?A = "image_space F \<union> {w. same_page (NEW_STACK - 0x1000) w}" and ?k = "length (packed es)"
  obtain rg s us rest where b: "bmain disk pdir sp dir fs bufp hdrs m data n dx = Inr (e_entry (elf_head F), NEW_STACK, bp_e820 s, of_nat ?k, bp_mem s)"
    "boot_ready rg s" "own_pages (bp_mem s) ?A" "usable_pages (take ?k (bp_e820 s)) = concat (map region_pages us)" "apart us"
    "\<forall>e\<in>set us. unat (sm32_base e) + unat (sm32_length e) \<le> unat (bp_addr s)"
    by (rule bmain_hands_over [OF assms, of dir m])
  have u: "uses_taken rg s (bp_mem s)" using b(2) by (simp add: boot_ready_def)
  have out: "frame_addr g \<notin> set (usable_pages (take ?k (bp_e820 s)))" if "taken rg s g" for g
    by (rule taken_not_listed [OF b(4-6) that])
  have "\<exists>g. translate (bp_mem s) w = Some (g, woff_of w) \<and> frame_addr g \<notin> set (usable_pages (take ?k (bp_e820 s)))" if w: "w \<in> ?A" for w
  proof -
    obtain g where g: "translate (bp_mem s) w = Some (g, woff_of w)"
      using bspec [OF conjunct1 [OF b(3) [unfolded own_pages_def]] w] by (elim exE conjE)
    have "pdi_of w \<noteq> 0 \<and> pdi_of w \<noteq> 1023" by (rule kernel_page_tables [OF disk(2) space w])
    then have "taken rg s g" using u g unfolding uses_taken_def by blast
    then show ?thesis using g out by blast
  qed
  then show ?thesis using b(1) u out unfolding uses_taken_def by blast
qed


theorem handed_over_pages_witness:
  "\<exists>e820 m'. bmain boot_disk 0x3000 (replicate 12 0) [] (pff_fs example_pff) 0x7000 (replicate 124 0) example_machine
      (concat (map entry_words example_map)) 4 0x80 = Inr (0xFF000000, NEW_STACK, e820, 3, m') \<and>
    (\<exists>g. translate m' 0xFF000000 = Some (g, 0) \<and> frame_addr g \<notin> set (usable_pages (take 3 e820)))"
proof -
  note h = handed_over_pages [OF refl boot_setting(1,2,3,4,5,6) _ _ _ _ boot_setting(7-9), of "replicate 12 0" "replicate 124 0" "0x7000" "[]" example_machine]
  have "0xFF000000 \<in> image_space boot_image" "woff_of 0xFF000000 = 0"
    by (simp_all add: boot_image_pages page_range_def woff_of_def)
  moreover from h obtain e820 m' where "bmain boot_disk 0x3000 (replicate 12 0) [] (pff_fs example_pff) 0x7000 (replicate 124 0) example_machine
      (concat (map entry_words example_map)) 4 0x80 = Inr (0xFF000000, NEW_STACK, e820, 3, m')"
    "\<And>w. w \<in> image_space boot_image \<Longrightarrow> \<exists>g. translate m' w = Some (g, woff_of w) \<and> frame_addr g \<notin> set (usable_pages (take 3 e820))"
    unfolding boot_image_fields boot_setting(10) by (auto split del: if_split)
  ultimately show ?thesis by (metis (no_types))
qed

section \<open>The kernel started\<close>

text \<open>A page of the kernel's image is reached through a table of its own.\<close>

lemma own_page_env:
  assumes "boot_ready rg s" "own_pages (bp_mem s) A" "cp \<in> A" "pdi_of cp \<noteq> 0 \<and> pdi_of cp \<noteq> 1023" "unat cp mod 4096 = 0"
  obtains T W where "pmm_env cp (rg_dir rg) T W (bp_mem s)" "taken rg s T" "taken rg s W" "W \<notin> {rg_dir rg, T}"
proof -
  let ?m = "bp_mem s"
  have r: "wf_tables ?m" "uses_taken rg s ?m" using assms(1) by (simp_all add: boot_ready_def)
  obtain W where W: "translate ?m cp = Some (W, woff_of cp)" "unused_frame ?m W"
    using bspec [OF conjunct1 [OF assms(2) [unfolded own_pages_def]] assms(3)] by (elim exE conjE)
  have nb: "\<not> big_page (pmem ?m (cr3 ?m) (pdi_of cp))" and D: "cr3 ?m = rg_dir rg" using r(2) assms(4) by (auto simp: uses_taken_def)
  have p: "present (pmem ?m (cr3 ?m) (pdi_of cp))" "present (pte_of ?m cp)" "frame_of (pte_of ?m cp) = W"
    using W(1) nb by (auto simp: translate_def Let_def pte_of_def table_of_def split: if_splits)
  have "pmm_env cp (rg_dir rg) (table_of ?m cp) W ?m"
    using r(1) D nb p assms(4,5) by (simp add: pmm_env_def has_table_def)
  moreover have "taken rg s (table_of ?m cp)" "taken rg s W"
    using r(2) nb p(1) W(1) assms(4) unfolding uses_taken_def table_of_def by blast+
  moreover have "W \<notin> {rg_dir rg, table_of ?m cp}" using W(2) D p(1) nb by (auto simp: unused_frame_def table_of_def)
  ultimately show thesis by (rule that)
qed

lemma aligned_pages:
  assumes "unat (sm32_base e) mod 4096 = 0" "x \<in> set (region_pages e)" "unat (sm32_base e) + unat (sm32_length e) < 4294967296"
  shows "frame_addr (frame_of x) = x"
proof -
  have "unat x mod 4096 = 0" using region_page_bounds(3) [OF assms(2,3)] assms(1) by simp
  then show ?thesis unfolding word_unat_eq_iff unat_frame_addr unat_frame_of by (metis add.right_neutral div_mult_mod_eq)
qed

lemma strict_sorted_distinct: "sorted_wrt (\<lambda>x y. unat x < unat y) xs \<Longrightarrow> distinct xs"
  by (induction xs) auto

text \<open>
  The pages made out of regions in order are in order; an aligned page is not listed before
  the pages below it could have been, so the page of a frame below 1023 never becomes a window.
\<close>

lemma apart_sorted:
  assumes "apart us"
  shows "sorted_wrt (\<lambda>x y. unat x < unat y) (concat (map region_pages us))"
  using assms
proof (induction us)
  case (Cons e us)
  have e: "unat (sm32_base e) + unat (sm32_length e) < 4294967296" "apart us"
    "\<And>u. u \<in> set us \<Longrightarrow> unat (sm32_base e) + unat (sm32_length e) \<le> unat (sm32_base u)"
    using Cons.prems by (simp_all add: apart_Cons)
  have "unat x < unat y" if x: "x \<in> set (region_pages e)" and y: "y \<in> set (concat (map region_pages us))" for x y
  proof -
    obtain u where u: "u \<in> set us" "y \<in> set (region_pages u)" using y by auto
    then have "unat (sm32_base u) \<le> unat y" using e(2) region_page_bounds(1) [OF u(2)] by (simp add: apart_def)
    then show ?thesis using region_page_bounds(2) [OF x e(1)] e(3) [OF u(1)] by simp
  qed
  moreover have "sorted_wrt (\<lambda>x y. unat x < unat y) (region_pages e)" by (rule region_pages_sorted [OF e(1)])
  ultimately show ?case using Cons.IH [OF e(2)] by (simp add: sorted_wrt_append)
qed simp

lemma sorted_index_le:
  fixes ns :: "nat list"
  assumes "sorted_wrt (<) ns" "i < length ns"
  shows "i \<le> ns ! i"
  using assms(2)
proof (induction i)
  case (Suc i)
  then have "ns ! i < ns ! Suc i" using sorted_wrt_nth_less [OF assms(1), of i "Suc i"] by simp
  then show ?case using Suc by simp
qed simp

lemma listed_index:
  assumes "apart us" "a = concat (map region_pages us)" "\<forall>x\<in>set a. frame_addr (frame_of x) = x" "i < length a"
  shows "i \<le> unat (frame_of (a ! i))"
proof -
  have "sorted_wrt (\<lambda>x y. unat (frame_of x) < unat (frame_of y)) a"
  proof (rule sorted_wrt_mono_rel [OF _ apart_sorted [OF assms(1), folded assms(2)]])
    fix x y assume xy: "x \<in> set a" "y \<in> set a" "unat x < unat y"
    then have "unat (frame_addr (frame_of x)) < unat (frame_addr (frame_of y))" using assms(3) by simp
    then show "unat (frame_of x) < unat (frame_of y)" by (simp add: unat_frame_addr)
  qed
  then have "sorted_wrt (<) (map (\<lambda>x. unat (frame_of x)) a)" by (simp add: sorted_wrt_map)
  from sorted_index_le [OF this, of i] show ?thesis using assms(4) by simp
qed

lemma handed_boot_state:
  assumes s: "boot_ready rg s" "own_pages (bp_mem s) A"
    and es: "take n (bp_e820 s) = us @ rest" "n \<le> length (bp_e820 s)" "n \<le> 65535" "apart us" "\<forall>e\<in>set rest. \<not> usable e"
    and ps: "usable_pages (take n (bp_e820 s)) = concat (map region_pages us)"
      "\<forall>e\<in>set us. unat (sm32_base e) + unat (sm32_length e) \<le> unat (bp_addr s)"
    and al: "\<forall>e\<in>set us. unat (sm32_base e) mod 4096 = 0" and D: "unat (rg_dir rg) < 1023"
    and cp: "vm_cp (k_vm k) \<in> A" "pdi_of (vm_cp (k_vm k)) \<noteq> 0 \<and> pdi_of (vm_cp (k_vm k)) \<noteq> 1023" "unat (vm_cp (k_vm k)) mod 4096 = 0"
    and m: "pmm_mem (vm_pmm (k_vm k)) = bp_mem s"
    and k: "length (idt (k_tables k)) = 256" "length (fix_mtrrs (k_mtrrs k)) = 88" "length (var_mtrrs (k_mtrrs k)) = 8" "length (ser_buffer (k_serial k)) = 64"
  obtains T W where "boot_state (vm_cp (k_vm k)) (rg_dir rg) T W (bp_e820 s) n k"
proof -
  obtain T W where E: "pmm_env (vm_cp (k_vm k)) (rg_dir rg) T W (bp_mem s)" "taken rg s T" "taken rg s W" "W \<notin> {rg_dir rg, T}"
    by (rule own_page_env [OF s cp])
  have top: "unat (sm32_base e) + unat (sm32_length e) < 4294967296" if "e \<in> set us" for e
    using es(4) that by (simp add: apart_def)
  have "unat (bp_addr s) mod 4096 = 0" using s(1) by (simp add: boot_ready_def)
  then obtain q where q: "unat (bp_addr s) = 4096 * q" by (auto elim: dvdE simp flip: dvd_eq_mod_eq_0)
  have "unat (bp_addr s) < 4294967296" using unsigned_less [of "bp_addr s", where ?'a = nat] by simp
  then have "unat (bp_addr s) \<le> 4294963200" unfolding q by simp
  then have ok: "\<forall>e\<in>set (take n (bp_e820 s)). sm32_type e = 1 \<longrightarrow> region_ok e"
    using ps(2) es(5) unfolding es(1) usable_def region_ok_def by fastforce
  define a where "a = concat (map region_pages us)"
  have out: "frame_addr T \<notin> set a" "frame_addr W \<notin> set a"
    using taken_not_listed [OF ps(1) es(4) ps(2)] E(2,3) unfolding ps(1) a_def by blast+
  have aligned: "\<forall>x\<in>set a. frame_addr (frame_of x) = x" using al top by (auto simp: a_def intro: aligned_pages)
  have win: "frame_of (a ! i) \<notin> {W, rg_dir rg, T}" if "1023 \<le> i" "i < length a" for i
  proof -
    have "frame_addr (frame_of (a ! i)) \<in> set a" using aligned that(2) by simp
    moreover have "frame_of (a ! i) \<noteq> rg_dir rg"
      using listed_index [OF es(4) a_def aligned that(2)] that(1) D by auto
    ultimately show ?thesis using out by auto
  qed
  have "window_frame a W q \<notin> {W, rg_dir rg, T}" if "0 < q" "1024 * q \<le> length a" for q
    using win [of "1024 * q - 1"] that by (simp add: window_frame_def)
  then have "fill_ok a W (rg_dir rg) T"
    using strict_sorted_distinct [OF apart_sorted [OF es(4), folded a_def]] aligned E(4) unfolding fill_ok_def by blast
  then have "boot_state (vm_cp (k_vm k)) (rg_dir rg) T W (bp_e820 s) n k"
    unfolding boot_state_def ps(1) m a_def using E(1) es(2,3) ok k by blast
  then show thesis by (rule that)
qed

text \<open>
  C1: the system boots: stage 2 enters the kernel, and \<open>kmain\<close>, started on the memory, the map
  and the size handed over, gets through its set-up and prints the map on the serial port; its
  page allocator then lists the pages of the map handed over, the page directory's own among
  them where the firmware calls it usable (and the window's first page in exchange for its
  last). The usable regions start at page boundaries, the directory is in one of the first
  1023 frames, the window's array is in the kernel's image, and at least two transmitter
  interrupts are taken before each print; the processor announces at most 8 variable memory
  type ranges, the serial chip echoes its test byte, and the map has at most 1000 entries.
\<close>

theorem system_boots:
  assumes map: "data = concat (map entry_words es)" "length es = unat n" "memory_ok es lo (image_pages F + 1)"
    and pdir: "pdir = frame_addr f" "unat f < 1023"
    and disk: "dx \<noteq> 0xFFFF" "kernel_disk disk dx fs bs chain e cl F"
    and bufs: "length sp = 12" "length hdrs = 124" "bufp \<noteq> 0" "unat bufp + 124 < 4294967296"
    and entry: "e_entry (elf_head F) \<noteq> 0"
    and space: "\<forall>w\<in>image_space F. 0x400000 \<le> unat w \<and> \<not> same_page (NEW_STACK - 0x1000) w"
    and cover: "\<forall>k<unat (ld_dword (seg_head F) 20). ld_dword (seg_head F) 8 + of_nat k \<in> image_space F"
    and regions: "\<forall>e\<in>set (filter usable (packed es)). unat (sm32_base e) mod 4096 = 0"
    and page: "vm_cp (k_vm k) \<in> image_space F" "unat (vm_cp (k_vm k)) mod 4096 = 0"
    and tables: "length (idt (k_tables k)) = 256" "length (fix_mtrrs (k_mtrrs k)) = 88" "length (var_mtrrs (k_mtrrs k)) = 8" "length (ser_buffer (k_serial k)) = 64"
    and cpu: "unat (ucast (e_rdmsr st MTRRCAP AND 0xFFFFFFFF) AND (0xFF :: u32)) \<le> 8" "e_echo st = 0xAE" "\<And>i. 2 \<le> e_irqs st i"
    and str: "string_at (clear (k_bytes k) 0xB8000) (e_header st) h" "0 < h" "h < 64" "line_buffer (clear (k_bytes k) 0xB8000) (e_str st)"
    and size: "length (packed es) \<le> 1000"
  shows "\<exists>e820 sz m' T W k1 k2 io. bmain disk pdir sp dir fs bufp hdrs m data n dx = Inr (e_entry (elf_head F), NEW_STACK, e820, sz, m') \<and>
    km_setup st e820 (unat sz) (k\<lparr>k_vm := (k_vm k)\<lparr>vm_pmm := (vm_pmm (k_vm k))\<lparr>pmm_mem := m'\<rparr>\<rparr>\<rparr>) = Inr k1 \<and>
    km_report st e820 (unat sz) k1 = Inr k2 \<and>
    pmm_listed (vm_cp (k_vm k)) f T W (usable_pages (take (unat sz) e820)) (vm_pmm (k_vm k2)) \<and>
    k_eflags k2 AND EFLAGS_IF \<noteq> 0 \<and> k_io k2 = k_io k1 @ io \<and>
    sent_to 0x3F8 io @ ser_queue (k_serial k2) =
      map (\<lambda>j. clear (k_bytes k) 0xB8000 (e_header st + of_nat j)) [0..<h] @ concat (map line_text (take (unat sz) e820))"
proof -
  have f: "unat f < 1024" using pdir(2) by simp
  let ?n = "length (packed es)"
  obtain rg s us rest where b: "bmain disk pdir sp dir fs bufp hdrs m data n dx = Inr (e_entry (elf_head F), NEW_STACK, bp_e820 s, of_nat ?n, bp_mem s)"
    "boot_ready rg s" "rg_dir rg = f" "own_pages (bp_mem s) (image_space F \<union> {w. same_page (NEW_STACK - 0x1000) w})"
    "take ?n (bp_e820 s) = us @ rest" "?n \<le> length (bp_e820 s)"
    "usable_pages (take ?n (bp_e820 s)) = concat (map region_pages us)" "apart us"
    "\<forall>e\<in>set us. unat (sm32_base e) + unat (sm32_length e) \<le> unat (bp_addr s)"
    "\<forall>e\<in>set (us @ rest). unat (sm32_type e) \<in> {1..5}" "\<forall>e\<in>set rest. \<not> usable e"
    "\<forall>e\<in>set us. \<exists>e0\<in>set (filter usable (packed es)). sm32_base e = sm32_base e0 \<and> sm32_length e \<le> sm32_length e0"
    by (rule bmain_hands_over [OF map pdir(1) f disk bufs entry space cover, of dir m])
  let ?k = "k\<lparr>k_vm := (k_vm k)\<lparr>vm_pmm := (vm_pmm (k_vm k))\<lparr>pmm_mem := bp_mem s\<rparr>\<rparr>\<rparr>"
  have sz: "unat (of_nat ?n :: u16) = ?n" using size by (simp add: unat_of_nat)
  have al: "\<forall>e\<in>set us. unat (sm32_base e) mod 4096 = 0" using b(12) regions by fastforce
  have D: "unat (rg_dir rg) < 1023" using pdir(2) b(3) by simp
  have sel: "vm_cp (k_vm ?k) = vm_cp (k_vm k)" "k_bytes ?k = k_bytes k" by simp_all
  have cp: "vm_cp (k_vm ?k) \<in> image_space F \<union> {w. same_page (NEW_STACK - 0x1000) w}" "unat (vm_cp (k_vm ?k)) mod 4096 = 0"
    using page by simp_all
  have n: "?n \<le> 65535" using size by simp
  have tb: "length (idt (k_tables ?k)) = 256" "length (fix_mtrrs (k_mtrrs ?k)) = 88" "length (var_mtrrs (k_mtrrs ?k)) = 8" "length (ser_buffer (k_serial ?k)) = 64"
    using tables by simp_all
  have mm: "pmm_mem (vm_pmm (k_vm ?k)) = bp_mem s" by simp
  obtain T W where bs: "boot_state (vm_cp (k_vm ?k)) (rg_dir rg) T W (bp_e820 s) ?n ?k"
    by (rule handed_boot_state [OF b(2,4-6) n b(8,11,7,9) al D cp(1) kernel_page_tables [OF disk(2) space cp(1)] cp(2) mm tb])
  have ty: "unat (sm32_type (bp_e820 s ! i)) < 10" if "i < ?n" for i
  proof -
    have "bp_e820 s ! i \<in> set (take ?n (bp_e820 s))" using that b(6) by (auto simp: in_set_conv_nth)
    then show ?thesis using b(10) unfolding b(5) by fastforce
  qed
  from kmain_reports [OF bs cpu(1,2), unfolded sel, OF str cpu(3) ty size]
  show ?thesis using b(1) unfolding b(3) by (intro exI [of _ "bp_e820 s"] exI [of _ "of_nat ?n"]) (simp only: sz, blast)
qed

text \<open>In the witness's memory map, as on a PC, the page directory's page is usable.\<close>

lemma example_map_regions:
  "\<forall>e\<in>set (filter usable (packed example_map)). unat (sm32_base e) mod 4096 = 0" "length (packed example_map) \<le> 1000"
  "unat (3 :: frame) < 1023"
  by (simp_all add: example_sorted) (simp add: packed_example)

theorem system_boots_witness:
  "\<exists>e820 sz m' k1 k2 io. bmain boot_disk 0x3000 (replicate 12 0) [] (pff_fs example_pff) 0x7000 (replicate 124 0) example_machine
      (concat (map entry_words example_map)) 4 0x80 = Inr (0xFF000000, NEW_STACK, e820, sz, m') \<and>
    km_setup example_setting e820 (unat sz) (example_kernel\<lparr>k_bytes := example_memory,
      k_vm := example_vmem\<lparr>vm_cp := 0xFF001000, vm_pmm := (vm_pmm example_vmem)\<lparr>pmm_mem := m'\<rparr>\<rparr>\<rparr>) = Inr k1 \<and>
    km_report example_setting e820 (unat sz) k1 = Inr k2 \<and> k_eflags k2 AND EFLAGS_IF \<noteq> 0"
proof -
  let ?k = "example_kernel\<lparr>k_bytes := example_memory, k_vm := example_vmem\<lparr>vm_cp := 0xFF001000\<rparr>\<rparr>"
  have page: "vm_cp (k_vm ?k) \<in> image_space boot_image" "unat (vm_cp (k_vm ?k)) mod 4096 = 0"
    by (simp_all add: boot_image_pages page_range_def)
  have tables: "length (idt (k_tables ?k)) = 256" "length (fix_mtrrs (k_mtrrs ?k)) = 88" "length (var_mtrrs (k_mtrrs ?k)) = 8"
    "length (ser_buffer (k_serial ?k)) = 64"
    by (simp_all add: example_kernel_def example_mtrrs_def example_tables_length ser_example_value)
  have e: "e_header example_setting = 0" "e_str example_setting = 34" "e_echo example_setting = 0xAE"
    "unat (ucast (e_rdmsr example_setting MTRRCAP AND 0xFFFFFFFF) AND (0xFF :: u32)) \<le> 8" "\<And>i. 2 \<le> e_irqs example_setting i"
    "k_bytes ?k = example_memory"
    by (simp_all add: example_setting_def)
  note h = system_boots [where h = 33 and sp = "replicate 12 0" and hdrs = "replicate 124 0" and bufp = "0x7000" and dir = "[]" and m = example_machine
    and k = ?k and st = example_setting,
    OF refl boot_setting(1-3) example_map_regions(3) boot_setting(5,6) _ _ _ _ boot_setting(7-9) example_map_regions(1) page tables e(4,3,5), unfolded e(1,2,6),
    OF _ _ _ _ example_memory_cleared(1) _ _ example_memory_cleared(2) example_map_regions(2)]
  then show ?thesis unfolding boot_image_fields by (auto simp: example_kernel_def split del: if_split)
qed

end
