(* ===== verification/Vfree.thy ===== *)
theory Vfree
  imports Vmalloc
begin

text \<open>
  What \<open>vfree\<close> (\<open>stage3/mem/kmalloc.cpp\<close>) does to the page allocator's stack, and what it does
  when a client frees an address twice.
\<close>

lemma index_pred_down: "unat p mod 1024 \<noteq> 0 \<Longrightarrow> unat (p - 1 :: u32) mod 1024 = unat p mod 1024 - 1"
  using index_pred [of p] by simp

text \<open>A call that leaves the table in use hands the page to the page allocator.\<close>

lemma vfree_pages:
  assumes "vfree s v = Inr s1" "\<forall>p\<in>set (vm_meta s). unat (pi_free p) < c" "c \<le> 1023"
  shows "\<exists>page m. pt_unmap (pmm_mem (vm_pmm s)) v = Inr (page, m) \<and>
    pmm_free_ppage (vm_cp s) ((vm_pmm s)\<lparr>pmm_mem := m\<rparr>) page = Inr (vm_pmm s1) \<and> vm_cp s1 = vm_cp s \<and>
    (\<forall>p\<in>set (vm_meta s1). unat (pi_free p) < Suc c)"
proof -
  let ?pdi = "drop_bit 22 v - 768" and ?pti = "drop_bit 12 v AND 0x3FF"
  obtain i where i: "get_idx (vm_meta s) ?pdi = Inr i" "getR (vm_meta s) (unat i) = Inr (vm_meta s ! unat i)"
    "unat i < length (vm_meta s)"
    using assms(1) by (auto simp: vfree_def Let_def getR_eq_Inr elim!: bindR_InrE)
  obtain first pin where h: "vfree_hint i ?pdi ?pti (vm_first s) (vm_meta s ! unat i) = (first, pin)" by fastforce
  then have pf: "pi_free pin = pi_free (vm_meta s ! unat i)" by (auto simp: vfree_hint_def split: if_splits)
  have small: "unat (pi_free pin) < c" using assms(2) i(3) pf by simp
  then have up: "unat (pi_free pin + 1) = unat (pi_free pin) + 1" using assms(3) by (simp add: unat_word_ariths)
  have "unat (1024 :: u16) = 1024" by simp
  then have no: "pi_free pin + 1 \<noteq> 1024" "\<not> pi_free pin + 1 > 1024"
    using small up assms(3) by (auto simp: word_less_nat_alt)
  obtain t where t: "free_mapped (s\<lparr>vm_first := first\<rparr>) v = Inr t"
    and r: "bindR (setR (vm_meta t) (unat i) (pin\<lparr>pi_free := pi_free pin + 1\<rparr>)) (\<lambda>meta.
      bindR (whileR 257 bubble_guard bubble_body (unat i, meta)) (\<lambda>(i, meta). Inr (t\<lparr>vm_meta := meta\<rparr>))) = Inr s1"
    using assms(1) i no unfolding vfree_def Let_def by (auto simp: h elim!: bindR_InrE)
  obtain page m p where p: "pt_unmap (pmm_mem (vm_pmm s)) v = Inr (page, m)"
    "pmm_free_ppage (vm_cp s) ((vm_pmm s)\<lparr>pmm_mem := m\<rparr>) page = Inr p" "t = s\<lparr>vm_first := first, vm_pmm := p\<rparr>"
    using t by (auto simp: free_mapped_def elim!: bindR_InrE)
  let ?ms = "(vm_meta s)[unat i := pin\<lparr>pi_free := pi_free pin + 1\<rparr>]"
  obtain j ms where w: "whileR 257 bubble_guard bubble_body (unat i, ?ms) = Inr (j, ms)" "s1 = t\<lparr>vm_meta := ms\<rparr>"
    using r i(3) p(3) by (auto elim!: bindR_InrE)
  have "(\<lambda>(i, ms). \<forall>p\<in>set ms. unat (pi_free p) < Suc c) (j, ms)"
  proof (rule whileR_keeps [OF w(1)])
    have "set ?ms \<subseteq> insert (pin\<lparr>pi_free := pi_free pin + 1\<rparr>) (set (vm_meta s))" by (rule set_update_subset_insert)
    then show "(\<lambda>(i, ms). \<forall>p\<in>set ms. unat (pi_free p) < Suc c) (unat i, ?ms)"
      using assms(2) small up by (auto dest!: subsetD)
    show "(\<lambda>(i, ms). \<forall>p\<in>set ms. unat (pi_free p) < Suc c) x'"
      if "(\<lambda>(i, ms). \<forall>p\<in>set ms. unat (pi_free p) < Suc c) x" "bubble_body x = Inr x'" for x x'
    proof -
      obtain k ms where x: "x = (k, ms)" by (cases x)
      then have b: "Suc k < length ms" "x' = (k + 1, ms[Suc k := ms ! k, k := ms ! Suc k])"
        using that(2) by (auto simp: bubble_body_def getR_eq_Inr setR_eq_Inr elim!: bindR_InrE)
      then have "set (ms[Suc k := ms ! k, k := ms ! Suc k]) \<subseteq> set ms"
        using set_update_subsetI [of ms "set ms" "ms ! k" "Suc k"] by (intro set_update_subsetI) auto
      then show ?thesis using that(1) x b(2) by auto
    qed
  qed
  then show ?thesis using p w(2) by auto
qed

text \<open>The stack of free pages, when the slot below its top is in the same window.\<close>

lemma free_unmapped:
  assumes env: "pmm_env cp D T W (pmm_mem p)" and v: "has_table (pmm_mem p) v" "\<not> same_page v cp"
    and W: "W \<notin> {D, T, table_of (pmm_mem p) v}" and r: "unat (pmm_pidx p) mod 1024 \<noteq> 0"
    and u: "pt_unmap (pmm_mem p) v = Inr (page, m)" "pmm_free_ppage cp (p\<lparr>pmm_mem := m\<rparr>) page = Inr p'"
  shows "page = frame_addr (frame_of (pte_of (pmm_mem p) v))" "pmm_env cp D T W (pmm_mem p')" "has_table (pmm_mem p') v"
    "table_of (pmm_mem p') v = table_of (pmm_mem p) v" "pte_of (pmm_mem p') v = pte_of (pmm_mem p) v AND NOT PRESENT"
    "pmm_pidx p' = pmm_pidx p - 1" "pmm_pfree p' = pmm_pfree p + 1"
    "pmem (pmm_mem p') W = (pmem (pmm_mem p) W)(of_nat (unat (pmm_pidx p) mod 1024 - 1) := page)"
proof -
  let ?m = "pmm_mem p" and ?e = "pte_of (pmm_mem p) v AND NOT PRESENT"
  note E = pmm_envD [OF env]
  have um: "page = pte_of ?m v AND PT_PAGE_MASK" "m = set_pte ?m v ?e"
    using u(1) pt_unmap_eq [OF E(2), of v] v(1) by (auto simp: has_table_def)
  then show page: "page = frame_addr (frame_of (pte_of ?m v))" by (simp add: page_mask_frame)
  have env1: "pmm_env cp D T W m" unfolding um(2) by (rule pmm_env_set_pte [OF env v])
  have s: "unat (pmm_pidx p - 1) mod 1024 = unat (pmm_pidx p) mod 1024 - 1" "unat (pmm_pidx p) mod 1024 - 1 \<noteq> 1023"
    using index_pred_down [OF r] by simp_all
  have p': "p' = p\<lparr>pmm_pidx := pmm_pidx p - 1, pmm_mem := put_word m W (of_nat (unat (pmm_pidx p) mod 1024 - 1)) page,
      pmm_pfree := pmm_pfree p + 1\<rparr>"
    using u(2) s wr_slot [OF env1, of "pmm_pidx p - 1" page] by (auto simp: pmm_free_ppage_def Let_def and_1023)
  show "pmm_env cp D T W (pmm_mem p')" using put_word_env [OF env1] W by (simp add: p')
  have Wd: "W \<noteq> D" "D \<noteq> W" "W \<noteq> table_of ?m v" "table_of ?m v \<noteq> W" using W by auto
  have d: "pmem (set_pte ?m v ?e) D = pmem ?m D" "cr3 (set_pte ?m v ?e) = D"
    using set_pte_directory [OF E(1) v(1), of ?e] E(3) by simp_all
  have tb: "table_of (pmm_mem p') v = table_of ?m v" using Wd d E(3) by (simp add: p' um(2) put_word_def table_of_def)
  then show "table_of (pmm_mem p') v = table_of ?m v" .
  show "has_table (pmm_mem p') v" using v(1) Wd d E(3) by (simp add: p' um(2) put_word_def has_table_def)
  show "pte_of (pmm_mem p') v = ?e"
    unfolding pte_of_def [of "pmm_mem p'"] tb using Wd by (simp add: p' um(2) put_word_def set_pte_def)
  show "pmm_pidx p' = pmm_pidx p - 1" "pmm_pfree p' = pmm_pfree p + 1" by (simp_all add: p')
  show "pmem (pmm_mem p') W = (pmem ?m W)(of_nat (unat (pmm_pidx p) mod 1024 - 1) := page)"
    using Wd by (simp add: p' um(2) put_word_def set_pte_def)
qed

text \<open>
  C25: \<open>vfree\<close> does not look whether the address is still mapped. When a client frees an
  address twice (as the kernel's own test does whenever \<open>valloc\<close> has returned the same address
  twice), the page is on the stack of free pages twice, and the next two allocations hand the
  same page to two clients.
\<close>

theorem vfree_twice_shares_page:
  assumes "vfree s v = Inr s1" "vfree s1 v = Inr s2" "\<forall>p\<in>set (vm_meta s). unat (pi_free p) < 1022"
    and "pmm_env (vm_cp s) D T W (pmm_mem (vm_pmm s))" "has_table (pmm_mem (vm_pmm s)) v" "\<not> same_page v (vm_cp s)"
    and "W \<notin> {D, T, table_of (pmm_mem (vm_pmm s)) v}" "2 \<le> unat (pmm_pidx (vm_pmm s)) mod 1024"
    and "unat (pmm_pfree (vm_pmm s)) < 4294967294"
  shows "\<exists>p3 p4. pmm_alloc_ppage (vm_cp s) (vm_pmm s2) = Inr (frame_addr (frame_of (pte_of (pmm_mem (vm_pmm s)) v)), p3) \<and>
    pmm_alloc_ppage (vm_cp s) p3 = Inr (frame_addr (frame_of (pte_of (pmm_mem (vm_pmm s)) v)), p4)"
proof -
  let ?p = "vm_pmm s" and ?x = "frame_addr (frame_of (pte_of (pmm_mem (vm_pmm s)) v))"
  let ?r = "unat (pmm_pidx ?p) mod 1024"
  obtain pg1 m1 where f1: "pt_unmap (pmm_mem ?p) v = Inr (pg1, m1)" "pmm_free_ppage (vm_cp s) (?p\<lparr>pmm_mem := m1\<rparr>) pg1 = Inr (vm_pmm s1)"
    "vm_cp s1 = vm_cp s" "\<forall>p\<in>set (vm_meta s1). unat (pi_free p) < 1023"
    using vfree_pages [OF assms(1,3)] by auto
  obtain pg2 m2 where f2: "pt_unmap (pmm_mem (vm_pmm s1)) v = Inr (pg2, m2)"
    "pmm_free_ppage (vm_cp s) ((vm_pmm s1)\<lparr>pmm_mem := m2\<rparr>) pg2 = Inr (vm_pmm s2)"
    using vfree_pages [OF assms(2) f1(4)] f1(3) by auto
  have r0: "?r \<noteq> 0" using assms(8) by simp
  note A = free_unmapped [OF assms(4,5,6,7) r0 f1(1,2)]
  have r1: "unat (pmm_pidx (vm_pmm s1)) mod 1024 = ?r - 1" using A(6) index_pred_down [OF r0] by simp
  then have r1': "unat (pmm_pidx (vm_pmm s1)) mod 1024 \<noteq> 0" using assms(8) by simp
  have W1: "W \<notin> {D, T, table_of (pmm_mem (vm_pmm s1)) v}" using assms(7) A(4) by simp
  note B = free_unmapped [OF A(2,3) assms(6) W1 r1' f2]
  have "frame_addr (frame_of (e AND NOT PRESENT)) = frame_addr (frame_of e)" for e
  proof -
    have "PRESENT OR mask 12 = mask 12" by (simp add: PRESENT_def mask_eq_exp_minus_1)
    then have "NOT PRESENT AND NOT (mask 12) = NOT (mask 12 :: u32)" by (simp only: bit.de_Morgan_disj [symmetric])
    then show ?thesis unfolding frame_addr_mask by (simp only: and.assoc)
  qed
  then have x: "pg1 = ?x" "pg2 = ?x" using A(1) B(1) A(5) by simp_all
  have r2: "unat (pmm_pidx (vm_pmm s2)) mod 1024 = ?r - 2" using B(6) index_pred_down [OF r1'] r1 by (simp add: numeral_2_eq_2)
  have lt: "?r < 1024" by simp
  have mem: "pmem (pmm_mem (vm_pmm s2)) W (of_nat (?r - 2)) = ?x" "pmem (pmm_mem (vm_pmm s2)) W (of_nat (?r - 1)) = ?x"
    using B(8) A(8) x r1 of_nat_idx_eq [of "?r - 1" "?r - 2"] lt by (auto simp: numeral_2_eq_2)
  have pf: "unat (pmm_pfree (vm_pmm s2)) = unat (pmm_pfree ?p) + 2"
    using A(7) B(7) assms(9) by (simp add: unat_word_ariths)
  then have pf0: "pmm_pfree (vm_pmm s2) \<noteq> 0" "pmm_pfree (vm_pmm s2) - 1 \<noteq> 0"
    by (auto simp: word_unat_eq_iff unat_minus_one)
  let ?p3 = "(vm_pmm s2)\<lparr>pmm_pidx := pmm_pidx (vm_pmm s2) + 1, pmm_pfree := pmm_pfree (vm_pmm s2) - 1\<rparr>"
  have ne: "?r - 2 \<noteq> 1023" "?r - 1 \<noteq> 1023" using lt assms(8) by linarith+
  have a1: "pmm_alloc_ppage (vm_cp s) (vm_pmm s2) = Inr (?x, ?p3)"
    using rd_slot [OF B(2), of "pmm_pidx (vm_pmm s2)"] pf0 r2 ne mem(1) by (simp add: pmm_alloc_ppage_def and_1023)
  have "Suc (?r - 2) = ?r - 1" using assms(8) by linarith
  then have "unat (pmm_pidx ?p3) mod 1024 = ?r - 1" using index_Suc [of "pmm_pidx (vm_pmm s2)"] r2 lt assms(8) by auto
  then have "\<exists>p4. pmm_alloc_ppage (vm_cp s) ?p3 = Inr (?x, p4)"
    using rd_slot [OF B(2), of "pmm_pidx ?p3"] pf0 ne mem(2) by (simp add: pmm_alloc_ppage_def and_1023)
  then show ?thesis using a1 by blast
qed

section \<open>An example\<close>

lemma free_mapped_ok:
  assumes "pmm_env (vm_cp s) D T W (pmm_mem (vm_pmm s))" "has_table (pmm_mem (vm_pmm s)) v" "\<not> same_page v (vm_cp s)"
    and "W \<notin> {D, T, table_of (pmm_mem (vm_pmm s)) v}" "unat (pmm_pidx (vm_pmm s)) mod 1024 \<noteq> 0"
  shows "\<exists>p. free_mapped s v = Inr (s\<lparr>vm_pmm := p\<rparr>) \<and> pmm_env (vm_cp s) D T W (pmm_mem p) \<and> has_table (pmm_mem p) v \<and>
    table_of (pmm_mem p) v = table_of (pmm_mem (vm_pmm s)) v \<and> pmm_pidx p = pmm_pidx (vm_pmm s) - 1"
proof -
  let ?m = "pmm_mem (vm_pmm s)"
  define page m where "page = pte_of ?m v AND PT_PAGE_MASK" and m: "m = set_pte ?m v (pte_of ?m v AND NOT PRESENT)"
  then have u: "pt_unmap ?m v = Inr (page, m)"
    using pt_unmap_eq [OF pmm_envD(2) [OF assms(1)], of v] assms(2) by (simp add: has_table_def)
  have "pmm_env (vm_cp s) D T W m" unfolding m by (rule pmm_env_set_pte [OF assms(1-3)])
  moreover have "unat (pmm_pidx (vm_pmm s) - 1) mod 1024 \<noteq> 1023"
  proof -
    have "unat (pmm_pidx (vm_pmm s)) mod 1024 < 1024" by simp
    then show ?thesis using index_pred_down [OF assms(5)] by linarith
  qed
  ultimately obtain p where p: "pmm_free_ppage (vm_cp s) ((vm_pmm s)\<lparr>pmm_mem := m\<rparr>) page = Inr p"
    using wr_slot by (fastforce simp: pmm_free_ppage_def Let_def and_1023)
  show ?thesis using free_unmapped [OF assms u p] u p by (auto simp: free_mapped_def)
qed

text \<open>The first record has fewer free entries than the second and stays in front.\<close>

lemma vfree_in_front:
  assumes "vm_meta s = \<lparr>pi_free = a, pi_pdi = 0, pi_first_free = 1\<rparr> # \<lparr>pi_free = 7, pi_pdi = 1, pi_first_free = 1\<rparr> # rest"
    and "a = 5 \<or> a = 6" "vm_first s = 0" "free_mapped s 0xC0006000 = Inr (s\<lparr>vm_pmm := p\<rparr>)"
  shows "vfree s 0xC0006000 = Inr (s\<lparr>vm_pmm := p,
    vm_meta := \<lparr>pi_free = a + 1, pi_pdi = 0, pi_first_free = 1\<rparr> # \<lparr>pi_free = 7, pi_pdi = 1, pi_first_free = 1\<rparr> # rest\<rparr>)"
proof -
  let ?ms = "\<lparr>pi_free = a + 1, pi_pdi = 0, pi_first_free = 1\<rparr> # \<lparr>pi_free = 7, pi_pdi = 1, pi_first_free = 1\<rparr> # rest"
  have idx: "get_idx (vm_meta s) 0 = Inr 0" by (simp add: assms(1) get_idx_def upt_conv_Cons [of 0])
  have "bubble_guard (0, ?ms) = Inr False" using assms(2) by (auto simp: bubble_guard_def ptinfo_less_def)
  then have "whileR (Suc 256) bubble_guard bubble_body (0, ?ms) = Inr (0, ?ms)"
    by (simp only: whileR.simps bindR_Inr if_False)
  then have bub: "whileR 257 bubble_guard bubble_body (0, ?ms) = Inr (0, ?ms)" by simp
  have hint: "vfree_hint 0 0 6 0 \<lparr>pi_free = a, pi_pdi = 0, pi_first_free = 1\<rparr> = (0, \<lparr>pi_free = a, pi_pdi = 0, pi_first_free = 1\<rparr>)"
    using assms(2) by (auto simp: vfree_hint_def)
  have same: "s\<lparr>vm_first := 0\<rparr> = s" using assms(3) by (cases s) simp
  show ?thesis unfolding vfree_def Let_def using assms idx bub hint by (auto simp: same)
qed

theorem vfree_twice_shares_page_witness:
  "\<exists>s1 s2 p3 p4. vfree example_vmem2 0xC0006000 = Inr s1 \<and> vfree s1 0xC0006000 = Inr s2 \<and>
    pmm_alloc_ppage 0xC0005000 (vm_pmm s2) = Inr (0x9000, p3) \<and> pmm_alloc_ppage 0xC0005000 p3 = Inr (0x9000, p4)"
proof -
  let ?v = "0xC0006000 :: u32" and ?s = example_vmem2 and ?m = "set_pte example_machine 0xC0006000 0x9003"
  have ht: "has_table example_machine ?v"
    by (simp add: has_table_def example_machine_def present_def big_page_def pdi_of_def)
  have env: "pmm_env 0xC0005000 1 2 3 example_machine" using example_env by (simp add: example_pmm_def)
  have apart: "\<not> same_page ?v 0xC0005000" by (simp add: same_page_def pti_of_def)
  note W = set_pte_wf [OF example_wf ht, of "0x9003"]
  have tb: "table_of example_machine ?v = 2" by (simp add: table_of_def example_machine_def pdi_of_def frame_of_def)
  have sel: "vm_cp ?s = 0xC0005000" "pmm_mem (vm_pmm ?s) = ?m" "pmm_pidx (vm_pmm ?s) = 7" "pmm_pfree (vm_pmm ?s) = 7"
    "vm_first ?s = 0" "vm_meta ?s = example_records"
    by (simp_all add: example_vmem2_def example_pmm_def)
  have env1: "pmm_env (vm_cp ?s) 1 2 3 (pmm_mem (vm_pmm ?s))" unfolding sel by (rule pmm_env_set_pte [OF env ht apart])
  have v1: "has_table (pmm_mem (vm_pmm ?s)) ?v" "\<not> same_page ?v (vm_cp ?s)"
    "3 \<notin> {1, 2, table_of (pmm_mem (vm_pmm ?s)) ?v}" "unat (pmm_pidx (vm_pmm ?s)) mod 1024 \<noteq> 0"
    using ht apart W tb by (simp_all add: sel)
  obtain p where p: "free_mapped ?s ?v = Inr (?s\<lparr>vm_pmm := p\<rparr>)" "pmm_env (vm_cp ?s) 1 2 3 (pmm_mem p)" "has_table (pmm_mem p) ?v"
    "table_of (pmm_mem p) ?v = table_of (pmm_mem (vm_pmm ?s)) ?v" "pmm_pidx p = 6"
    using free_mapped_ok [OF env1 v1] by (auto simp: sel)
  obtain rest where rest: "example_records = \<lparr>pi_free = 5, pi_pdi = 0, pi_first_free = 1\<rparr> # \<lparr>pi_free = 7, pi_pdi = 1, pi_first_free = 1\<rparr> # rest"
    by (simp add: example_records_def upt_conv_Cons [of 0] upt_conv_Cons [of "Suc 0"])
  let ?s1 = "?s\<lparr>vm_pmm := p, vm_meta := \<lparr>pi_free = 6, pi_pdi = 0, pi_first_free = 1\<rparr> # \<lparr>pi_free = 7, pi_pdi = 1, pi_first_free = 1\<rparr> # rest\<rparr>"
  have s1: "vfree ?s ?v = Inr ?s1" using vfree_in_front [of ?s 5 rest p] p(1) rest by (simp add: sel)
  obtain p' where p': "free_mapped ?s1 ?v = Inr (?s1\<lparr>vm_pmm := p'\<rparr>)"
    using free_mapped_ok [of ?s1 1 2 3 ?v] p v1 by auto
  obtain s2 where s2: "vfree ?s1 ?v = Inr s2" using vfree_in_front [of ?s1 6 rest p'] p' by (simp add: sel)
  have small: "\<forall>p\<in>set (vm_meta ?s). unat (pi_free p) < 1022" by (auto simp: sel example_records_def)
  have pg: "pte_of (pmm_mem (vm_pmm ?s)) ?v = 0x9003"
    unfolding sel pte_of_def W(3) by (simp add: set_pte_def)
  have "frame_addr (frame_of 0x9003) = 0x9000" by (simp add: frame_addr_def frame_of_def)
  moreover have "2 \<le> unat (pmm_pidx (vm_pmm ?s)) mod 1024" "unat (pmm_pfree (vm_pmm ?s)) < 4294967294" by (simp_all add: sel)
  ultimately show ?thesis
    using vfree_twice_shares_page [OF s1 s2 small env1 v1(1-3)] s1 s2 unfolding pg sel(1) by auto
qed

end
