(* ===== verification/Spec2Isabelle.thy ===== *)
theory Spec2Isabelle
  imports Slab Fat_List Portable_Bits Cpu Translation_Cache Boot_Kernel Vfree
begin

text \<open>
  Boot32: a verification library for a 32-bit x86 boot loader and its test kernel.

  The program. The boot sector (\<open>boot.asm\<close>, 16-bit assembly) leaves the BIOS
  memory map in memory and starts stage 2. Stage 2 (\<open>stage2/\<close>) tidies the memory map,
  mounts a FAT volume through the BIOS, turns on paging, loads \<open>KERNEL.ELF\<close> into freshly
  mapped pages and enters it. The kernel, stage 3 (\<open>stage3/\<close>), lists the usable memory
  in a physical page allocator, allocates virtual pages on top of it, and reports over an
  interrupt-driven serial port. Every C and C++ module of both stages with a body, \<open>kmain\<close>
  included, is translated from its source; the layout of the data is kept (words at their width, arrays
  with checked accesses, page tables as words in frames).

  Conventions (theory \<open>Boot_Prelude\<close>). A C function is a HOL function that returns the
  new state, or a fault: a failed assertion, an access out of bounds, a page fault, a
  division by zero, a NULL dereference. \<open>while\<close> loops carry fuel (\<open>whileR\<close>); running
  out of it is a fault of its own, so that a theorem that a function returns also says
  that its loops end. \<open>whileR_total\<close> is the rule used for all of them.

  Theories, the source they model, and what their lemmas show.

  Shared: \<open>Boot_Prelude\<close> (types, faults, arrays, loops), \<open>Machine\<close> (frames of words, the
  page walk of the processor, loads and stores at virtual addresses, the recursive mapping),
  \<open>Port_IO\<close> (\<open>stage3/include/x86/intrinsics.h\<close>, \<open>stage3/x86/pic.c\<close>, the spurious handlers of
  \<open>isrs.cc\<close>: port accesses as traces).

  Interfaces: \<open>Pool_Spec\<close> (locale \<open>lifo_pool\<close>: a stack of blocks kept in the free blocks;
  for any sequence of client steps no block is shared or lost), interpreted by \<open>Slab\<close> and
  \<open>Pmm\<close>; \<open>Ring_Spec\<close> (locale \<open>ring_index\<close>: slots from two running counters), interpreted by
  \<open>Ring_Buffer\<close>; locale \<open>sector_reader\<close> of \<open>Disk_Io\<close>, interpreted by its cached reader and
  used by \<open>Fat_Read\<close>; locales \<open>compare\<close> and \<open>weak_order\<close> of \<open>Shell_Sort\<close>, interpreted by
  \<open>Vmalloc\<close> on \<open>ptinfo::operator<\<close>.

  Stage 2. \<open>E820\<close> (\<open>e820.c\<close>, \<open>e820.h\<close>): packing the map in place is packing into a fresh
  array; sorting and merging; where the unsigned loop index and the merge go wrong.
  \<open>C_Util\<close> (\<open>util.c\<close> of both stages): \<open>strlen\<close> with its word-at-a-time test, comparison,
  hexadecimal output, screen output. \<open>Disk_Io\<close> (\<open>diskio.c\<close> and \<open>readSector\<close> of \<open>crt0.S\<close>),
  \<open>Fat\<close> (\<open>pff.c\<close>: the state, every function compiled), \<open>Fat_Read\<close> (seek and read deliver
  the bytes of the file on a well-formed volume), \<open>Fat_Total\<close> (all operations return on
  every disk), \<open>Fat_Dir\<close> (a directory as a list of entries; the search is a lookup in it),
  \<open>Fat_Path\<close> (a path as a descent through directories: \<open>pf_open\<close>, seek and read together
  deliver the bytes of the file the path names), \<open>Fat_Mount\<close> (the boot sector: mounting
  finds the volume and sets the fields the other theories rely on), \<open>Fat_List\<close> (listing a
  directory, which \<open>pffconf.h\<close> switches off: the items are those of the directory, in order,
  unless it is full). \<open>Boot_Paging\<close> (\<open>pt.c\<close>), \<open>Virt_Bytes\<close> and \<open>Boot_Alloc\<close> (byte stores in owned
  pages; mapping page after page keeps ownership), \<open>Elf\<close> (\<open>elf.c\<close>, \<open>stage2.c\<close>), \<open>Elf_Load\<close>
  (a segment loaded is the segment of the file; the overlapping header fields), \<open>Elf_Boot\<close>
  (\<open>elf_load_file\<close> on a kernel image: both header loops, the pages taken, the contents) and
  \<open>Boot_Main\<close>, where \<open>bmain\<close> is followed from the memory map and the disk to the jump to
  the kernel: what the theories above show is used once more for each of its steps. The
  record \<open>pool_region\<close> of \<open>Boot_Alloc\<close> describes the region the pages come from; its
  invariant \<open>boot_ready\<close> also says what the memory map has lost and that whatever is mapped
  or used as a page table is among the pages taken.

  Stage 3. \<open>Slab\<close> (\<open>mem/slab.cpp\<close>), \<open>Ring_Buffer\<close> (\<open>mem/ringbuf.cpp\<close>, \<open>crt/atomic.h\<close>),
  \<open>Serial\<close> (\<open>x86/serial.c\<close>, \<open>isrs.cc\<close>: the byte stream under any interleaving of writers
  and interrupts), \<open>Shell_Sort\<close> (\<open>crt/sort.h\<close>), \<open>Vaddr\<close> (\<open>mem/vaddr.cpp\<close>,
  \<open>mem/pagetable.cpp\<close>), \<open>Pmm\<close> (\<open>mem/pmm.cpp\<close>), \<open>Vmalloc\<close> and \<open>Vfree\<close> (\<open>mem/kmalloc.cpp\<close>;
  what an address freed twice does), \<open>Panic_Print\<close> (\<open>crt/print.c\<close>, \<open>crt/assert.c\<close>),
  \<open>Gdt\<close> (\<open>x86/gdt.cc\<close>: the descriptor tables as what the processor reads from them, the
  exception handlers), \<open>Mtrr\<close> (\<open>x86/cpuid.c\<close>, \<open>x86/mtrr.c\<close>),
  \<open>Devices\<close> (\<open>x86/pit.c\<close>, \<open>x86/ata.c\<close>, the bit operations of \<open>intrinsics.h\<close>),
  \<open>Portable_Bits\<close> (the branches of \<open>parity\<close> and \<open>ctz\<close> for other compilers), \<open>Cpu\<close> (the
  intrinsics that halt the processor or read its registers), \<open>Translation_Cache\<close> (the
  primitives of \<open>vaddr.cpp\<close> on a processor that keeps translations: a relation of steps and
  its invariant, that nothing kept is stale), \<open>Acpi\<close>
  (\<open>x86/acpi.c\<close>: the search equals the first place with the signature), \<open>Kernel_Main\<close>
  (\<open>kmain.cpp\<close>: \<open>kprint\<close>, the report of the memory map, the interrupts) and \<open>Kernel\<close>, which
  puts the states of all components into one and runs \<open>kmain\<close> on it: the set-up establishes
  what the page pool and the serial driver rely on, and the report, the page tests and the
  list of features do what they are for. The interrupts taken between two prints are a
  parameter: how many the driver needs is a hypothesis of the theorems on its output.

  Both stages. \<open>Boot_Kernel\<close> follows the memory map and the page tables from \<open>bmain\<close> into
  \<open>kmain\<close>: the map handed over has lost exactly the pages taken (\<open>handed_over_pages\<close>), which
  gives what the kernel's set-up relies on (\<open>boot_state\<close>), so that the system boots
  (\<open>system_boots\<close>). The page directory's own page, a static array of stage 2 in low memory,
  is not cut off: where the firmware calls it usable it is among the pages listed, which does
  not disturb the set-up, as the page of a frame below 1023 never becomes a window, but lets
  clients get it (\<open>pmm_hands_out_directory\<close>). The theorems on the pool under any sequence of
  allocations assume that it is not listed.

  Fuel and bounds. Loops over a counter of \<open>w\<close> bits have fuel \<open>2^w + 1\<close> (65537 for the
  16-bit indices of \<open>e820.c\<close>, \<open>pt.c\<close> and the header counts of \<open>elf.c\<close>, 65538 for the
  directory index of \<open>pff.c\<close>, 65537 also for the 16-bit
  length in \<open>kprint\<close>, 1048577 for the pages of an address space, 1073741826 for the
  words of one). Loops over data have fuel one more than its size: the path and the byte
  counts of \<open>pff.c\<close>, the 1022 words of a slab, the 1024 entries of a table, 258 records of
  \<open>kmalloc.cpp\<close>, 8194 places for a table of the firmware, the digits of a number, the 16
  bytes to an aligned address and the 4 of a word in \<open>strlen\<close>. \<open>fat_operations_return\<close>, \<open>strlen_counts\<close>, \<open>vinit_sorts\<close>,
  \<open>validate_sorts_by_type\<close> and the other theorems that a function equals \<open>Inr\<close> of a result
  show that these are enough.

  Parameters. What the BIOS delivers for a sector (\<open>disk\<close>), what a port or a model-specific
  register answers, the contents of uninitialised locals, and the addresses the linker
  gives to static objects are arguments. The \<open>memcpy\<close>, \<open>memmove\<close> and \<open>memset\<close> that stage 3
  takes from a submodule are modelled as the byte copies the C standard describes.

  In \<open>Kernel\<close> the bytes of strings, screen and firmware tables are kept apart from the frames
  that the page tables and the allocators work on.

  Not modelled: assembly (\<open>boot.asm\<close>, both \<open>crt0.S\<close> except \<open>loadGDT\<close> and what the C code
  receives from it), memory orders (each ring operation is one step), what a translation
  cache keeps in the middle of a primitive (it changes between the steps of
  \<open>Translation_Cache\<close>), FAT12 and writing in \<open>pff.c\<close>, which \<open>pffconf.h\<close> switches off,
  the branch of \<open>clz\<close> for other compilers, which does not compile, declarations without a
  body.
\<close>

end
